(* ===== verification/Prelude.thy ===== *)
theory Prelude
  imports Main "HOL-Library.Word"
begin

text \<open>
  Shared vocabulary of the development: the machine integer types of the C++ sources,
  addresses and nullable pointers, the collections of rewrite rules the component theories
  fill, and the generic facts on lists, options and words that more than one component uses.
\<close>

unbundle bit_operations_syntax

section \<open>Types\<close>

type_synonym u8 = "8 word"
type_synonym u32 = "32 word"
type_synonym u64 = "64 word"

text \<open>Objects live at addresses; a \<^verbatim>\<open>T*\<close> is an address or \<^verbatim>\<open>nullptr\<close> (\<^const>\<open>None\<close>).\<close>

type_synonym addr = nat
type_synonym ptr = "addr option"

named_theorems ref_bits
  \<open>what each access to a reference count does to its single bits and to its count\<close>
named_theorems hook_simps
  \<open>reading a field of an intrusive hook after writing one\<close>

section \<open>Words\<close>

lemma bit_mask_test: "w AND 2 ^ n \<noteq> 0 \<longleftrightarrow> bit w n"
  using bit_iff_and_push_bit_not_eq_0 [of w n] by simp

lemma and_mask_zero_iff: "w AND mask n = 0 \<longleftrightarrow> (\<forall>b < n. \<not> bit w b)" for w :: "'a::len word"
proof -
  have "w AND mask n = 0 \<longleftrightarrow> (\<forall>b. \<not> bit (w AND mask n) b)"
    by (metis bit_0_eq bit_eqI bot_apply bot_bool_def)
  also have "\<dots> \<longleftrightarrow> (\<forall>b < n. \<not> bit w b)"
    using bit_imp_le_length [of w] by (auto simp: bit_and_iff bit_mask_iff)
  finally show ?thesis .
qed

lemma word_ge_1_iff: "1 \<le> w \<longleftrightarrow> w \<noteq> 0" for w :: "'a::len word"
  by (simp add: word_le_nat_alt Suc_le_eq unat_gt_0)

lemma unat_take_bit: "unat (take_bit n w) = unat w mod 2 ^ n"
  unfolding unsigned_take_bit_eq by (rule take_bit_eq_mod)

text \<open>Adding one below the carry leaves every higher bit alone.\<close>

lemma div_Suc_no_carry:
  fixes x m :: nat
  assumes "x mod m \<noteq> m - 1" and "0 < m"
  shows "Suc x div m = x div m" and "Suc x mod m = Suc (x mod m)"
proof -
  have "x mod m < m" using assms(2) by simp
  with assms(1) have "Suc (x mod m) \<noteq> m" by arith
  then show "Suc x div m = x div m" "Suc x mod m = Suc (x mod m)"
    by (simp_all add: div_Suc mod_Suc)
qed

section \<open>Lists\<close>

lemma set_butlast_distinct: "distinct xs \<Longrightarrow> xs \<noteq> [] \<Longrightarrow> set (butlast xs) = set xs - {last xs}"
  by (cases xs rule: rev_cases) auto

section \<open>Refinement of one state machine by another\<close>

text \<open>
  A component offers operations \<open>'op\<close> on states; each returns an output and the next state. \<open>run\<close>
  performs a sequence of them and collects the outputs. \<open>admissible\<close> says that every call of the
  sequence meets the caller's obligation \<open>pre\<close> in the abstract state it happens in.
\<close>

primrec run :: "('op \<Rightarrow> 's \<Rightarrow> 'out \<times> 's) \<Rightarrow> 'op list \<Rightarrow> 's \<Rightarrow> 'out list \<times> 's" where
  "run step [] s = ([], s)"
| "run step (x # xs) s =
     (let (out, s') = step x s; (outs, s'') = run step xs s' in (out # outs, s''))"

lemma run_Cons_split:
  "fst (run step (x # xs) s) = fst (step x s) # fst (run step xs (snd (step x s)))"
  "snd (run step (x # xs) s) = snd (run step xs (snd (step x s)))"
  by (simp_all add: Let_def split: prod.splits)

primrec admissible ::
  "('op \<Rightarrow> 'a \<Rightarrow> 'out \<times> 'a) \<Rightarrow> ('op \<Rightarrow> 'a \<Rightarrow> bool) \<Rightarrow> 'op list \<Rightarrow> 'a \<Rightarrow> bool" where
  "admissible astep pre [] a = True"
| "admissible astep pre (x # xs) a =
     (pre x a \<and> admissible astep pre xs (snd (astep x a)))"

text \<open>What every step keeps, every admissible sequence keeps.\<close>

lemma run_invariant:
  assumes "I s" and "admissible step pre ops s" and "\<And>x s. I s \<Longrightarrow> pre x s \<Longrightarrow> I (snd (step x s))"
  shows "I (snd (run step ops s))"
  using assms(1,2) by (induction ops arbitrary: s) (simp, simp add: run_Cons_split assms(3) del: run.simps)

locale simulation =
  fixes rep :: "'s \<Rightarrow> 'a \<Rightarrow> bool"
    and step :: "'op \<Rightarrow> 's \<Rightarrow> 'out \<times> 's"
    and astep :: "'op \<Rightarrow> 'a \<Rightarrow> 'out \<times> 'a"
    and pre :: "'op \<Rightarrow> 'a \<Rightarrow> bool"
  assumes step_rep: "rep s a \<Longrightarrow> pre x a \<Longrightarrow> rep (snd (step x s)) (snd (astep x a))"
    and step_out: "rep s a \<Longrightarrow> pre x a \<Longrightarrow> fst (step x s) = fst (astep x a)"
begin

lemma run_simulates:
  assumes "rep s a" and "admissible astep pre ops a"
  shows "fst (run step ops s) = fst (run astep ops a) \<and> rep (snd (run step ops s)) (snd (run astep ops a))"
  using assms
proof (induction ops arbitrary: s a)
  case Nil
  then show ?case by simp
next
  case (Cons x ops)
  then have "rep (snd (step x s)) (snd (astep x a))" "fst (step x s) = fst (astep x a)"
    by (auto intro: step_rep step_out)
  moreover from Cons.prems have "admissible astep pre ops (snd (astep x a))" by simp
  ultimately show ?case
    using Cons.IH by (fastforce simp: Let_def split: prod.splits)
qed

end

end
