(* ===== verification/Refcount.thy ===== *)
theory Refcount
  imports Prelude
begin

text \<open>
  The reference count of a cache item, \<^verbatim>\<open>cachelib/allocator/Refcount.h\<close>. One 32 bit word packs
  11 flags, 3 administrative bits (linked in the MM container, accessible in the hash table,
  exclusively owned by an eviction or a move) and an 18 bit access count. The operations are
  translated as functions on that word; the compare-and-swap loop they share is translated with
  the sequence of values other threads leave in memory, and shown to act as one atomic update.
  On top of it, a transition system of threads that take and drop handles, evict and move.
\<close>

section \<open>Layout\<close>

definition kNumAccessRefBits :: nat where "kNumAccessRefBits = 18"
definition kNumAdminRefBits :: nat where "kNumAdminRefBits = 3"
definition kNumFlags :: nat where "kNumFlags = 11"

definition kAccessRefMask :: u32 where
  "kAccessRefMask = drop_bit (32 - kNumAccessRefBits) (- 1)"

definition kRefMask :: u32 where
  "kRefMask = drop_bit (32 - kNumAdminRefBits - kNumAccessRefBits) (- 1)"

datatype AdminRef = kLinked | kAccessible | kExclusive

fun admin_bit :: "AdminRef \<Rightarrow> nat" where
  "admin_bit kLinked = kNumAccessRefBits"
| "admin_bit kAccessible = kNumAccessRefBits + 1"
| "admin_bit kExclusive = kNumAccessRefBits + 2"

datatype Flags = kMMFlag0 | kMMFlag1 | kMMFlag2 | kIsChainedItem | kHasChainedItem
  | kNvmClean | kNvmEvicted | kUnevictable_NOOP

fun flag_bit :: "Flags \<Rightarrow> nat" where
  "flag_bit kMMFlag0 = kNumAccessRefBits + kNumAdminRefBits"
| "flag_bit kMMFlag1 = kNumAccessRefBits + kNumAdminRefBits + 1"
| "flag_bit kMMFlag2 = kNumAccessRefBits + kNumAdminRefBits + 2"
| "flag_bit kIsChainedItem = kNumAccessRefBits + kNumAdminRefBits + 3"
| "flag_bit kHasChainedItem = kNumAccessRefBits + kNumAdminRefBits + 4"
| "flag_bit kNvmClean = kNumAccessRefBits + kNumAdminRefBits + 5"
| "flag_bit kNvmEvicted = kNumAccessRefBits + kNumAdminRefBits + 6"
| "flag_bit kUnevictable_NOOP = kNumAccessRefBits + kNumAdminRefBits + 7"

definition getAdminRef :: "AdminRef \<Rightarrow> u32" where
  "getAdminRef a = push_bit (admin_bit a) 1"

definition getFlag :: "Flags \<Rightarrow> u32" where
  "getFlag f = push_bit (flag_bit f) 1"

section \<open>The compare-and-swap loop\<close>

datatype ref_error = RefcountOverflow | RefcountUnderflow

text \<open>
  A predicate looks at the current value and either throws, or decides whether to update and
  leaves a result behind (the variable the C++ lambda captures by reference).
\<close>

type_synonym 'r ref_pred = "u32 \<Rightarrow> ref_error + bool \<times> 'r"

text \<open>
  \<open>atomicUpdateValue p f cur mems\<close>: \<open>cur\<close> is the value last loaded, \<open>mems\<close> the values the
  successive compare-and-swap instructions find in \<^verbatim>\<open>refCount_\<close>. A failed exchange stores what it
  found into \<^verbatim>\<open>curValue\<close>. The result holds whether the update happened, what the predicate left,
  and the value exchanged in, if any; \<^const>\<open>None\<close> means the loop is still running when the
  sequence ends.
\<close>

fun atomicUpdateValue ::
  "'r ref_pred \<Rightarrow> (u32 \<Rightarrow> u32) \<Rightarrow> u32 \<Rightarrow> u32 list \<Rightarrow> (ref_error + bool \<times> 'r \<times> u32 option) option"
where
  "atomicUpdateValue p f cur mems =
     (case p cur of
        Inl e \<Rightarrow> Some (Inl e)
      | Inr (False, r) \<Rightarrow> Some (Inr (False, r, None))
      | Inr (True, r) \<Rightarrow>
          (case mems of
             [] \<Rightarrow> None
           | m # ms \<Rightarrow>
               if m = cur then Some (Inr (True, r, Some (f cur)))
               else atomicUpdateValue p f m ms))"

declare atomicUpdateValue.simps [simp del]

text \<open>The same update performed in one indivisible step on the value \<open>v\<close>.\<close>

definition atomic_update ::
  "'r ref_pred \<Rightarrow> (u32 \<Rightarrow> u32) \<Rightarrow> u32 \<Rightarrow> ref_error + bool \<times> 'r \<times> u32" where
  "atomic_update p f v =
     (case p v of
        Inl e \<Rightarrow> Inl e
      | Inr (False, r) \<Rightarrow> Inr (False, r, v)
      | Inr (True, r) \<Rightarrow> Inr (True, r, f v))"

section \<open>Operations\<close>

definition getRaw :: "u32 \<Rightarrow> u32" where "getRaw v = v"

definition getAccessRef :: "u32 \<Rightarrow> u32" where
  "getAccessRef v =
     (let raw = getRaw v; accessRef = raw AND kAccessRefMask
      in if raw AND getAdminRef kExclusive \<noteq> 0 \<and> accessRef \<ge> 1 then accessRef - 1
         else accessRef)"

definition getRefWithAccessAndAdmin :: "u32 \<Rightarrow> u32" where
  "getRefWithAccessAndAdmin v = getRaw v AND kRefMask"

datatype IncResult = kIncOk | kIncFailedMoving | kIncFailedEviction

definition incRef_pred :: "IncResult ref_pred" where
  "incRef_pred curValue =
     (let bitMask = getAdminRef kExclusive;
          exclusiveBitIsSet = (curValue AND bitMask \<noteq> 0)
      in if curValue AND kAccessRefMask = kAccessRefMask then Inl RefcountOverflow
         else if exclusiveBitIsSet then
           Inr (False, if curValue AND kAccessRefMask = 0 then kIncFailedEviction
                       else kIncFailedMoving)
         else Inr (True, kIncOk))"

definition incRef :: "u32 \<Rightarrow> ref_error + IncResult \<times> u32" where
  "incRef v =
     (case atomic_update incRef_pred (\<lambda>curValue. curValue + 1) v of
        Inl e \<Rightarrow> Inl e | Inr (_, res, v') \<Rightarrow> Inr (res, v'))"

definition decRef_pred :: "unit ref_pred" where
  "decRef_pred curValue =
     (if curValue AND kAccessRefMask = 0 then Inl RefcountUnderflow else Inr (True, ()))"

definition decRef :: "u32 \<Rightarrow> ref_error + u32 \<times> u32" where
  "decRef v =
     (case atomic_update decRef_pred (\<lambda>curValue. curValue - 1) v of
        Inl e \<Rightarrow> Inl e | Inr (_, _, v') \<Rightarrow> Inr (v' AND kRefMask, v'))"

definition markInMMContainer :: "u32 \<Rightarrow> u32" where
  "markInMMContainer v = v OR getAdminRef kLinked"
definition unmarkInMMContainer :: "u32 \<Rightarrow> u32" where
  "unmarkInMMContainer v = v AND NOT (getAdminRef kLinked)"
definition isInMMContainer :: "u32 \<Rightarrow> bool" where
  "isInMMContainer v \<longleftrightarrow> getRaw v AND getAdminRef kLinked \<noteq> 0"

definition markAccessible :: "u32 \<Rightarrow> u32" where
  "markAccessible v = v OR getAdminRef kAccessible"
definition unmarkAccessible :: "u32 \<Rightarrow> u32" where
  "unmarkAccessible v = v AND NOT (getAdminRef kAccessible)"
definition isAccessible :: "u32 \<Rightarrow> bool" where
  "isAccessible v \<longleftrightarrow> getRaw v AND getAdminRef kAccessible \<noteq> 0"

definition markForEviction_pred :: "unit ref_pred" where
  "markForEviction_pred curValue =
     (let unlinked = (curValue AND getAdminRef kLinked = 0);
          alreadyExclusive = (curValue AND getAdminRef kExclusive \<noteq> 0)
      in if unlinked \<or> alreadyExclusive then Inr (False, ())
         else if curValue AND kAccessRefMask \<noteq> 0 then Inr (False, ())
         else Inr (True, ()))"

definition markForEviction :: "u32 \<Rightarrow> bool \<times> u32" where
  "markForEviction v =
     (case atomic_update markForEviction_pred (\<lambda>curValue. curValue OR getAdminRef kExclusive) v of
        Inl _ \<Rightarrow> (False, v) | Inr (b, _, v') \<Rightarrow> (b, v'))"

definition unmarkForEviction :: "u32 \<Rightarrow> u32 \<times> u32" where
  "unmarkForEviction v =
     (let v' = v AND NOT (getAdminRef kExclusive) in (v' AND kRefMask, v'))"

definition isMarkedForEviction :: "u32 \<Rightarrow> bool" where
  "isMarkedForEviction v \<longleftrightarrow>
     getRaw v AND getAdminRef kExclusive \<noteq> 0 \<and> getRaw v AND kAccessRefMask = 0"

definition markMoving_pred :: "unit ref_pred" where
  "markMoving_pred curValue =
     (let unlinked = (curValue AND getAdminRef kLinked = 0);
          alreadyExclusive = (curValue AND getAdminRef kExclusive \<noteq> 0)
      in if curValue AND kAccessRefMask > 0 \<or> unlinked \<or> alreadyExclusive then Inr (False, ())
         else Inr (True, ()))"

definition markMoving :: "u32 \<Rightarrow> bool \<times> u32" where
  "markMoving v =
     (case atomic_update markMoving_pred
             (\<lambda>curValue. (curValue + 1) OR getAdminRef kExclusive) v of
        Inl _ \<Rightarrow> (False, v) | Inr (b, _, v') \<Rightarrow> (b, v'))"

definition unmarkMoving :: "u32 \<Rightarrow> u32 \<times> u32" where
  "unmarkMoving v =
     (let v' = (v - 1) AND NOT (getAdminRef kExclusive) in (v' AND kRefMask, v'))"

definition isMoving :: "u32 \<Rightarrow> bool" where
  "isMoving v \<longleftrightarrow>
     getRaw v AND getAdminRef kExclusive \<noteq> 0 \<and> getRaw v AND kAccessRefMask \<noteq> 0"

definition markForEvictionWhenMoving :: "u32 \<Rightarrow> bool \<times> u32" where
  "markForEvictionWhenMoving v = (True, v - 1)"

definition setFlag :: "Flags \<Rightarrow> u32 \<Rightarrow> u32" where
  "setFlag f v = v OR push_bit (flag_bit f) 1"
definition unSetFlag :: "Flags \<Rightarrow> u32 \<Rightarrow> u32" where
  "unSetFlag f v = v AND (- 1 - push_bit (flag_bit f) 1)"
definition isFlagSet :: "Flags \<Rightarrow> u32 \<Rightarrow> bool" where
  "isFlagSet f v \<longleftrightarrow> getRaw v AND getFlag f \<noteq> 0"

definition markIsChainedItem :: "u32 \<Rightarrow> u32" where
  "markIsChainedItem = setFlag kIsChainedItem"
definition unmarkIsChainedItem :: "u32 \<Rightarrow> u32" where
  "unmarkIsChainedItem = unSetFlag kIsChainedItem"
definition isChainedItem :: "u32 \<Rightarrow> bool" where
  "isChainedItem = isFlagSet kIsChainedItem"
definition markHasChainedItem :: "u32 \<Rightarrow> u32" where
  "markHasChainedItem = setFlag kHasChainedItem"
definition unmarkHasChainedItem :: "u32 \<Rightarrow> u32" where
  "unmarkHasChainedItem = unSetFlag kHasChainedItem"
definition hasChainedItem :: "u32 \<Rightarrow> bool" where
  "hasChainedItem = isFlagSet kHasChainedItem"
definition markNvmClean :: "u32 \<Rightarrow> u32" where "markNvmClean = setFlag kNvmClean"
definition unmarkNvmClean :: "u32 \<Rightarrow> u32" where "unmarkNvmClean = unSetFlag kNvmClean"
definition isNvmClean :: "u32 \<Rightarrow> bool" where "isNvmClean = isFlagSet kNvmClean"
definition markNvmEvicted :: "u32 \<Rightarrow> u32" where "markNvmEvicted = setFlag kNvmEvicted"
definition unmarkNvmEvicted :: "u32 \<Rightarrow> u32" where "unmarkNvmEvicted = unSetFlag kNvmEvicted"
definition isNvmEvicted :: "u32 \<Rightarrow> bool" where "isNvmEvicted = isFlagSet kNvmEvicted"

definition isDrained :: "u32 \<Rightarrow> bool" where
  "isDrained v \<longleftrightarrow> getRefWithAccessAndAdmin v = 0"

section \<open>Counts and bits\<close>

text \<open>The access count as a number, and the bits above it.\<close>

definition access_count :: "u32 \<Rightarrow> nat" where
  "access_count v = unat (take_bit 18 v)"

definition access_max :: nat where "access_max = 2 ^ 18 - 1"

lemma access_count_le: "access_count v \<le> access_max"
proof -
  have "access_count v < 2 ^ 18" unfolding access_count_def unat_take_bit by simp
  then show ?thesis by (simp add: access_max_def)
qed

lemma admin_bit_ge: "18 \<le> admin_bit a" "admin_bit a < 21"
  by (cases a; simp add: kNumAccessRefBits_def)+

lemma flag_bit_ge: "21 \<le> flag_bit f" "flag_bit f < 32"
  by (cases f; simp add: kNumAccessRefBits_def kNumAdminRefBits_def)+

lemma admin_bit_neq_flag_bit: "admin_bit a \<noteq> flag_bit f" "flag_bit f \<noteq> admin_bit a"
  using admin_bit_ge(2) [of a] flag_bit_ge(1) [of f] by auto

lemma admin_bit_inj [simp]: "admin_bit a = admin_bit b \<longleftrightarrow> a = b"
  by (cases a; cases b; simp)

lemma flag_bit_inj [simp]: "flag_bit f = flag_bit g \<longleftrightarrow> f = g"
  by (cases f; cases g; simp)

lemma kAccessRefMask_mask: "kAccessRefMask = mask 18"
  by (simp add: kAccessRefMask_def kNumAccessRefBits_def mask_eq_exp_minus_1)

lemma kRefMask_mask: "kRefMask = mask 21"
  by (simp add: kRefMask_def kNumAccessRefBits_def kNumAdminRefBits_def mask_eq_exp_minus_1)

lemma unat_access: "unat (v AND kAccessRefMask) = access_count v"
  by (simp add: kAccessRefMask_mask access_count_def flip: take_bit_eq_mask)

lemma access_zero: "v AND kAccessRefMask = 0 \<longleftrightarrow> access_count v = 0"
  by (metis unat_access unat_0 unat_eq_zero)

lemma access_pos: "0 < v AND kAccessRefMask \<longleftrightarrow> access_count v \<noteq> 0"
  by (metis access_zero word_gt_0)

lemma access_full: "v AND kAccessRefMask = kAccessRefMask \<longleftrightarrow> access_count v = access_max"
proof -
  have "unat kAccessRefMask = access_max"
    by (simp add: kAccessRefMask_mask access_max_def mask_eq_exp_minus_1)
  then show ?thesis by (metis unat_access unsigned_word_eqI)
qed

lemma admin_test: "v AND getAdminRef a \<noteq> 0 \<longleftrightarrow> bit v (admin_bit a)"
  by (simp add: getAdminRef_def bit_mask_test)

lemma flag_test: "v AND getFlag f \<noteq> 0 \<longleftrightarrow> bit v (flag_bit f)"
  by (simp add: getFlag_def bit_mask_test)

lemma bit_above: "18 \<le> b \<Longrightarrow> bit (v::u32) b \<longleftrightarrow> bit (unat v div 2 ^ 18) (b - 18)"
  unfolding drop_bit_eq_div [symmetric]
  by (simp add: bit_unsigned_iff bit_drop_bit_eq)

lemma inc_count:
  assumes "access_count v \<noteq> access_max"
  shows "access_count (v + 1) = Suc (access_count v)"
    and "18 \<le> b \<Longrightarrow> bit (v + 1) b = bit v b"
proof -
  have "v \<noteq> - 1"
  proof
    assume "v = - 1"
    then have "access_count v = access_max"
      by (simp add: access_count_def access_max_def mask_eq_exp_minus_1)
    with assms show False by contradiction
  qed
  then have s: "unat (v + 1) = Suc (unat v)"
    using unatSuc [of v] by (simp add: add.commute eq_neg_iff_add_eq_0)
  have c: "unat v mod 2 ^ 18 \<noteq> 2 ^ 18 - 1"
    using assms unfolding access_count_def access_max_def unat_take_bit .
  show "access_count (v + 1) = Suc (access_count v)"
    unfolding access_count_def unat_take_bit s by (rule div_Suc_no_carry(2) [OF c]) simp
  show "bit (v + 1) b = bit v b" if "18 \<le> b"
    using that div_Suc_no_carry(1) [OF c] by (simp add: bit_above s)
qed

lemma dec_count:
  assumes "access_count v \<noteq> 0"
  shows "access_count (v - 1) = access_count v - 1"
    and "18 \<le> b \<Longrightarrow> bit (v - 1) b = bit v b"
proof -
  have "access_count (v - 1) \<noteq> access_max"
  proof
    assume a: "access_count (v - 1) = access_max"
    have "access_count v = 0"
    proof (cases "v = 0")
      case False
      then have "unat v = Suc (unat (v - 1))" using unat_minus_one [of v] by (simp add: unat_gt_0)
      with a show ?thesis by (simp add: access_count_def unat_take_bit access_max_def mod_Suc)
    qed (simp add: access_count_def)
    with assms show False by contradiction
  qed
  from inc_count [OF this]
  show "access_count (v - 1) = access_count v - 1" "18 \<le> b \<Longrightarrow> bit (v - 1) b = bit v b"
    by (simp_all only: diff_add_cancel diff_Suc_1)
qed

lemma access_count_or: "18 \<le> b \<Longrightarrow> access_count (v OR push_bit b 1) = access_count v"
proof -
  assume "18 \<le> b"
  then have "take_bit 18 (v OR push_bit b 1) = take_bit 18 v"
    by (intro bit_eqI) (auto simp: bit_take_bit_iff bit_or_iff bit_exp_iff)
  then show ?thesis
    unfolding access_count_def by (rule arg_cong)
qed

lemma access_count_and_not: "18 \<le> b \<Longrightarrow> access_count (v AND NOT (push_bit b 1)) = access_count v"
proof -
  assume "18 \<le> b"
  then have "take_bit 18 (v AND NOT (push_bit b 1)) = take_bit 18 v"
    by (intro bit_eqI) (auto simp: bit_take_bit_iff bit_and_iff bit_not_iff bit_exp_iff)
  then show ?thesis
    unfolding access_count_def by (rule arg_cong)
qed

section \<open>What each operation does\<close>

lemma not_mask: "- 1 - push_bit n 1 = NOT (push_bit n (1 :: u32))"
  by (simp add: not_eq_complement)

lemma bit_set_mask: "bit (v OR push_bit n 1) b \<longleftrightarrow> bit (v::u32) b \<or> b = n \<and> n < 32"
  by (auto simp: bit_or_iff bit_exp_iff)

lemma bit_clear_mask: "bit (v AND NOT (push_bit n 1)) b \<longleftrightarrow> bit (v::u32) b \<and> b \<noteq> n"
  by (auto simp: bit_and_iff bit_not_iff bit_exp_iff dest: bit_imp_le_length)

lemmas mark_defs =
  markInMMContainer_def unmarkInMMContainer_def markAccessible_def unmarkAccessible_def
  setFlag_def unSetFlag_def not_mask getAdminRef_def

lemma access_count_marks [ref_bits]:
  "access_count (markInMMContainer v) = access_count v"
  "access_count (unmarkInMMContainer v) = access_count v"
  "access_count (markAccessible v) = access_count v"
  "access_count (unmarkAccessible v) = access_count v"
  "access_count (setFlag f v) = access_count v"
  "access_count (unSetFlag f v) = access_count v"
  using flag_bit_ge [of f] admin_bit_ge
  unfolding mark_defs by (simp_all only: access_count_or access_count_and_not order_trans [of 18 21])

lemma bit_marks [ref_bits]:
  "bit (markInMMContainer v) b \<longleftrightarrow> bit v b \<or> b = admin_bit kLinked"
  "bit (unmarkInMMContainer v) b \<longleftrightarrow> bit v b \<and> b \<noteq> admin_bit kLinked"
  "bit (markAccessible v) b \<longleftrightarrow> bit v b \<or> b = admin_bit kAccessible"
  "bit (unmarkAccessible v) b \<longleftrightarrow> bit v b \<and> b \<noteq> admin_bit kAccessible"
  "bit (setFlag f v) b \<longleftrightarrow> bit v b \<or> b = flag_bit f"
  "bit (unSetFlag f v) b \<longleftrightarrow> bit v b \<and> b \<noteq> flag_bit f"
  using flag_bit_ge [of f] admin_bit_ge [of kLinked] admin_bit_ge [of kAccessible]
  unfolding mark_defs by (auto simp only: bit_set_mask bit_clear_mask)

lemma tests_bit [ref_bits]:
  "isInMMContainer v \<longleftrightarrow> bit v (admin_bit kLinked)"
  "isAccessible v \<longleftrightarrow> bit v (admin_bit kAccessible)"
  "isFlagSet f v \<longleftrightarrow> bit v (flag_bit f)"
  "isMarkedForEviction v \<longleftrightarrow> bit v (admin_bit kExclusive) \<and> access_count v = 0"
  "isMoving v \<longleftrightarrow> bit v (admin_bit kExclusive) \<and> access_count v \<noteq> 0"
  by (simp_all add: isInMMContainer_def isAccessible_def isFlagSet_def isMarkedForEviction_def
      isMoving_def getRaw_def admin_test flag_test access_zero)

lemma incRef_cases:
  "incRef v =
     (if access_count v = access_max then Inl RefcountOverflow
      else if bit v (admin_bit kExclusive) then
        Inr (if access_count v = 0 then kIncFailedEviction else kIncFailedMoving, v)
      else Inr (kIncOk, v + 1))"
  by (simp add: incRef_def atomic_update_def incRef_pred_def Let_def access_full access_zero
      admin_test)

lemma decRef_cases:
  "decRef v = (if access_count v = 0 then Inl RefcountUnderflow
               else Inr ((v - 1) AND kRefMask, v - 1))"
  by (simp add: decRef_def atomic_update_def decRef_pred_def access_zero)

lemma markForEviction_cases:
  "markForEviction v =
     (if bit v (admin_bit kLinked) \<and> \<not> bit v (admin_bit kExclusive) \<and> access_count v = 0
      then (True, v OR getAdminRef kExclusive) else (False, v))"
  using admin_test [of v kLinked] admin_test [of v kExclusive] access_zero [of v]
  by (auto simp: markForEviction_def atomic_update_def markForEviction_pred_def Let_def)

lemma markMoving_cases:
  "markMoving v =
     (if bit v (admin_bit kLinked) \<and> \<not> bit v (admin_bit kExclusive) \<and> access_count v = 0
      then (True, (v + 1) OR getAdminRef kExclusive) else (False, v))"
  using admin_test [of v kLinked] admin_test [of v kExclusive] access_pos [of v]
  by (auto simp: markMoving_def atomic_update_def markMoving_pred_def Let_def)

lemma getAccessRef_count:
  "unat (getAccessRef v) =
     (if bit v (admin_bit kExclusive) \<and> access_count v \<noteq> 0 then access_count v - 1
      else access_count v)"
proof -
  have "unat ((v AND kAccessRefMask) - 1) = access_count v - 1" if "access_count v \<noteq> 0"
    using that unat_minus_one [of "v AND kAccessRefMask"] by (simp add: unat_access access_zero)
  moreover have "1 \<le> v AND kAccessRefMask \<longleftrightarrow> access_count v \<noteq> 0"
    by (simp add: word_ge_1_iff access_zero)
  ultimately show ?thesis
    by (auto simp: getAccessRef_def Let_def getRaw_def admin_test unat_access)
qed

lemma access_max_pos: "access_max \<noteq> 0"
  by (simp add: access_max_def)

lemma count_exclusive [ref_bits]:
  "access_count (v OR getAdminRef kExclusive) = access_count v"
  "access_count (v AND NOT (getAdminRef kExclusive)) = access_count v"
  "bit (v OR getAdminRef kExclusive) b \<longleftrightarrow> bit v b \<or> b = admin_bit kExclusive"
  "bit (v AND NOT (getAdminRef kExclusive)) b \<longleftrightarrow> bit v b \<and> b \<noteq> admin_bit kExclusive"
  using admin_bit_ge [of kExclusive]
  by (auto simp only: getAdminRef_def access_count_or access_count_and_not bit_set_mask
      bit_clear_mask)

lemma isDrained_iff:
  "isDrained v \<longleftrightarrow> access_count v = 0 \<and> (\<forall>a. \<not> bit v (admin_bit a))"
proof -
  have "isDrained v \<longleftrightarrow> (\<forall>b < 21. \<not> bit v b)"
    by (simp add: isDrained_def getRefWithAccessAndAdmin_def getRaw_def kRefMask_mask
        and_mask_zero_iff)
  moreover have "access_count v = 0 \<longleftrightarrow> (\<forall>b < 18. \<not> bit v b)"
    by (simp add: kAccessRefMask_mask and_mask_zero_iff flip: access_zero)
  moreover have "(\<forall>a. \<not> bit v (admin_bit a)) \<longleftrightarrow> \<not> bit v 18 \<and> \<not> bit v 19 \<and> \<not> bit v 20"
  proof -
    have "(\<forall>a. P (admin_bit a)) \<longleftrightarrow>
        P (admin_bit kLinked) \<and> P (admin_bit kAccessible) \<and> P (admin_bit kExclusive)" for P
      by (metis AdminRef.exhaust)
    then show ?thesis by (simp add: kNumAccessRefBits_def)
  qed
  moreover have "(\<forall>b < 21. \<not> bit v b) \<longleftrightarrow>
      (\<forall>b < 18. \<not> bit v b) \<and> \<not> bit v 18 \<and> \<not> bit v 19 \<and> \<not> bit v 20"
  proof -
    have "b < 21 \<longleftrightarrow> b < 18 \<or> b = 18 \<or> b = 19 \<or> b = (20::nat)" for b by arith
    then show ?thesis by auto
  qed
  ultimately show ?thesis by (simp only:)
qed

declare admin_bit.simps [simp del] flag_bit.simps [simp del]

section \<open>The loop is one atomic update\<close>

definition observed :: "ref_error + bool \<times> 'r \<times> u32 option \<Rightarrow> u32 \<Rightarrow> ref_error + bool \<times> 'r \<times> u32" where
  "observed r v =
     (case r of Inl e \<Rightarrow> Inl e
      | Inr (b, x, new) \<Rightarrow> Inr (b, x, case new of None \<Rightarrow> v | Some w \<Rightarrow> w))"

lemma atomicUpdateValue_observed:
  assumes "atomicUpdateValue p f cur mems = Some r"
  shows "\<exists>v \<in> set (cur # mems). observed r v = atomic_update p f v \<and>
           (\<forall>b x w. r = Inr (b, x, Some w) \<longrightarrow> v \<in> set mems)"
  using assms
proof (induction p f cur mems rule: atomicUpdateValue.induct)
  case (1 p f cur mems)
  show ?case
  proof (cases "p cur")
    case (Inl e)
    with "1.prems" show ?thesis
      by (auto simp: atomicUpdateValue.simps [of p f cur] observed_def atomic_update_def)
  next
    case (Inr br)
    obtain b x where br: "br = (b, x)" by fastforce
    show ?thesis
    proof (cases b)
      case False
      with "1.prems" Inr br show ?thesis
        by (auto simp: atomicUpdateValue.simps [of p f cur] observed_def atomic_update_def)
    next
      case True
      with "1.prems" Inr br obtain m ms where mems: "mems = m # ms"
        by (cases mems) (auto simp: atomicUpdateValue.simps [of p f cur])
      show ?thesis
      proof (cases "m = cur")
        case True
        with "1.prems" Inr br \<open>b\<close> mems show ?thesis
          by (auto simp: atomicUpdateValue.simps [of p f cur] observed_def atomic_update_def)
      next
        case False
        with "1.prems" Inr br \<open>b\<close> mems have "atomicUpdateValue p f m ms = Some r"
          by (simp add: atomicUpdateValue.simps [of p f cur])
        from "1.IH" [OF Inr _ _ mems False this] br \<open>b\<close> mems show ?thesis by auto
      qed
    qed
  qed
qed

text \<open>An exchange fails only when another thread has written since the last load.\<close>

lemma atomicUpdateValue_stops:
  assumes "Suc i < length (cur # mems)" and "(cur # mems) ! i = (cur # mems) ! Suc i"
  shows "atomicUpdateValue p f cur mems \<noteq> None"
  using assms
proof (induction i arbitrary: cur mems)
  case 0
  then show ?case
    by (cases mems) (auto simp: atomicUpdateValue.simps split: sum.splits prod.splits bool.splits)
next
  case (Suc i)
  then obtain m ms where mems: "mems = m # ms" by (cases mems) auto
  with Suc.prems have "atomicUpdateValue p f m ms \<noteq> None"
    by (intro Suc.IH) auto
  then show ?case
    by (auto simp: mems atomicUpdateValue.simps [of p f cur] split: sum.splits prod.splits bool.splits)
qed

section \<open>Threads sharing one item\<close>

text \<open>
  \<open>handles\<close> counts the handles the users hold; \<open>owner\<close> says which thread, if any, has marked the
  item for eviction or as moving. A rule is one atomic access to the word; only a holder of a
  handle releases one, only the owner unmarks.
\<close>

datatype owner = Free | Evicting | Moving

record item_state =
  word_of :: u32
  handles :: nat
  owner_of :: owner

definition item_init :: item_state where
  "item_init = \<lparr>word_of = 0, handles = 0, owner_of = Free\<rparr>"

inductive item_step :: "item_state \<Rightarrow> item_state \<Rightarrow> bool" where
  acquire: "incRef (word_of s) = Inr (kIncOk, v) \<Longrightarrow>
    item_step s (s\<lparr>word_of := v, handles := Suc (handles s)\<rparr>)"
| acquire_failed: "incRef (word_of s) = Inr (r, v) \<Longrightarrow> r \<noteq> kIncOk \<Longrightarrow>
    item_step s (s\<lparr>word_of := v\<rparr>)"
| release: "0 < handles s \<Longrightarrow> decRef (word_of s) = Inr (r, v) \<Longrightarrow>
    item_step s (s\<lparr>word_of := v, handles := handles s - 1\<rparr>)"
| evict: "markForEviction (word_of s) = (True, v) \<Longrightarrow>
    item_step s (s\<lparr>word_of := v, owner_of := Evicting\<rparr>)"
| evict_failed: "markForEviction (word_of s) = (False, v) \<Longrightarrow> item_step s (s\<lparr>word_of := v\<rparr>)"
| unevict: "owner_of s = Evicting \<Longrightarrow> unmarkForEviction (word_of s) = (r, v) \<Longrightarrow>
    item_step s (s\<lparr>word_of := v, owner_of := Free\<rparr>)"
| move: "markMoving (word_of s) = (True, v) \<Longrightarrow>
    item_step s (s\<lparr>word_of := v, owner_of := Moving\<rparr>)"
| move_failed: "markMoving (word_of s) = (False, v) \<Longrightarrow> item_step s (s\<lparr>word_of := v\<rparr>)"
| unmove: "owner_of s = Moving \<Longrightarrow> unmarkMoving (word_of s) = (r, v) \<Longrightarrow>
    item_step s (s\<lparr>word_of := v, owner_of := Free\<rparr>)"
| move_to_evict: "owner_of s = Moving \<Longrightarrow> markForEvictionWhenMoving (word_of s) = (b, v) \<Longrightarrow>
    item_step s (s\<lparr>word_of := v, owner_of := Evicting\<rparr>)"
| link: "item_step s (s\<lparr>word_of := markInMMContainer (word_of s)\<rparr>)"
| unlink: "item_step s (s\<lparr>word_of := unmarkInMMContainer (word_of s)\<rparr>)"
| publish: "item_step s (s\<lparr>word_of := markAccessible (word_of s)\<rparr>)"
| unpublish: "item_step s (s\<lparr>word_of := unmarkAccessible (word_of s)\<rparr>)"
| set_flag: "item_step s (s\<lparr>word_of := setFlag f (word_of s)\<rparr>)"
| unset_flag: "item_step s (s\<lparr>word_of := unSetFlag f (word_of s)\<rparr>)"

inductive item_reachable :: "item_state \<Rightarrow> bool" where
  start: "item_reachable item_init"
| step: "item_reachable s \<Longrightarrow> item_step s t \<Longrightarrow> item_reachable t"

text \<open>
  The word agrees with the threads: the count is the number of handles plus the extra reference a
  move holds, the exclusive bit says there is an owner, and an owner excludes handles.
\<close>

definition item_inv :: "item_state \<Rightarrow> bool" where
  "item_inv s \<longleftrightarrow>
     access_count (word_of s) = handles s + (if owner_of s = Moving then 1 else 0) \<and>
     (bit (word_of s) (admin_bit kExclusive) \<longleftrightarrow> owner_of s \<noteq> Free) \<and>
     (owner_of s \<noteq> Free \<longrightarrow> handles s = 0)"

lemma item_inv_init: "item_inv item_init"
  by (simp add: item_inv_def item_init_def access_count_def)

lemma admin_bit_18 [simp]: "18 \<le> admin_bit a"
  by (rule admin_bit_ge)

lemma item_step_inv: "item_step s t \<Longrightarrow> item_inv s \<Longrightarrow> item_inv t"
proof (induction rule: item_step.induct)
  case (acquire s v)
  then show ?case by (auto simp: incRef_cases item_inv_def inc_count split: if_splits)
next
  case (release s r v)
  then show ?case by (auto simp: decRef_cases item_inv_def dec_count split: if_splits)
next
  case (move s v)
  then show ?case
    by (auto simp: markMoving_cases item_inv_def inc_count access_max_pos [symmetric] ref_bits
        split: if_splits)
next
  case (unmove s r v)
  then show ?case by (auto simp: unmarkMoving_def Let_def item_inv_def dec_count ref_bits)
next
  case (move_to_evict s b v)
  then show ?case by (auto simp: markForEvictionWhenMoving_def item_inv_def dec_count)
qed (auto simp: incRef_cases markForEviction_cases unmarkForEviction_def markMoving_cases Let_def
      item_inv_def ref_bits admin_bit_neq_flag_bit split: if_splits)

lemma item_reachable_inv: "item_reachable s \<Longrightarrow> item_inv s"
  by (induction rule: item_reachable.induct) (auto intro: item_inv_init item_step_inv)

section \<open>Properties\<close>

text \<open>C3. Linearizability of the compare-and-swap loop: whatever values other threads leave in memory,
  a loop that finishes has the outcome of one indivisible update at a value it found there, and a
  value it wrote replaced one that a compare-and-swap saw in memory. Whenever no other thread
  writes between two of its reads, the loop does finish.\<close>

theorem atomicUpdateValue_linearizable:
  "(atomicUpdateValue p f cur mems = Some r \<longrightarrow>
      (\<exists>v \<in> set (cur # mems). observed r v = atomic_update p f v \<and>
         (\<forall>b x w. r = Inr (b, x, Some w) \<longrightarrow> v \<in> set mems))) \<and>
   (Suc i < length (cur # mems) \<and> (cur # mems) ! i = (cur # mems) ! Suc i \<longrightarrow>
      atomicUpdateValue p f cur mems \<noteq> None)"
  using atomicUpdateValue_observed [of p f cur mems r] atomicUpdateValue_stops [of i cur mems p f]
  by blast

theorem atomicUpdateValue_linearizable_witness:
  "atomicUpdateValue incRef_pred (\<lambda>v. v + 1) 0 [5, 7, 7] = Some (Inr (True, kIncOk, Some 8)) \<and>
   (\<exists>v \<in> set (0 # [5, 7, 7]). observed (Inr (True, kIncOk, Some 8)) v =
      atomic_update incRef_pred (\<lambda>v. v + 1) v \<and> v \<in> set [5, 7, 7]) \<and>
   atomicUpdateValue incRef_pred (\<lambda>v. v + 1) 0 [5, 7, 7] \<noteq> None"
proof -
  have e: "atomicUpdateValue incRef_pred (\<lambda>v. v + 1) 0 [5, 7, 7] = Some (Inr (True, kIncOk, Some 8))"
    by code_simp
  show ?thesis
    using e atomicUpdateValue_linearizable
      [of incRef_pred "\<lambda>v. v + 1" 0 "[5, 7, 7]" "Inr (True, kIncOk, Some 8)" 2]
    by (auto simp: numeral_2_eq_2)
qed

text \<open>C2. The reported access count is exact: in every interleaving of handle acquisitions and
  releases, evictions, moves and flag updates on one item, \<^verbatim>\<open>getAccessRef\<close> is the number of
  handles held, the extra reference of a move excluded.\<close>

theorem getAccessRef_exact:
  assumes "item_reachable s"
  shows "unat (getAccessRef (word_of s)) = handles s"
  using item_reachable_inv [OF assms]
  by (auto simp: getAccessRef_count item_inv_def split: if_splits)

theorem getAccessRef_exact_witness:
  "unat (getAccessRef (word_of (item_init\<lparr>word_of := 1, handles := 1\<rparr>))) = 1"
proof -
  have "incRef (word_of item_init) = Inr (kIncOk, 1)"
    by (simp add: item_init_def) code_simp
  from item_step.acquire [OF this]
  have "item_reachable (item_init\<lparr>word_of := 1, handles := Suc (handles item_init)\<rparr>)"
    by (rule item_reachable.step [OF item_reachable.start])
  from getAccessRef_exact [OF this] show ?thesis by (simp add: item_init_def)
qed

text \<open>C1. Exclusive ownership: while a thread has the item marked for eviction or as moving, no
  handle exists, every attempt to take one fails with the code that names the reason, and no
  second thread can mark the item. A marked item can therefore always be evicted.\<close>

theorem exclusive_owner_excludes:
  assumes "item_reachable s" and "owner_of s \<noteq> Free"
  shows "handles s = 0 \<and>
    incRef (word_of s) =
      Inr (if owner_of s = Evicting then kIncFailedEviction else kIncFailedMoving, word_of s) \<and>
    markForEviction (word_of s) = (False, word_of s) \<and>
    markMoving (word_of s) = (False, word_of s) \<and>
    isMarkedForEviction (word_of s) = (owner_of s = Evicting) \<and>
    isMoving (word_of s) = (owner_of s = Moving)"
  using item_reachable_inv [OF assms(1)] assms(2)
  by (cases "owner_of s")
     (auto simp: item_inv_def incRef_cases markForEviction_cases markMoving_cases access_max_def
        ref_bits)

definition moving_example :: item_state where
  "moving_example = \<lparr>word_of = 1310721, handles = 0, owner_of = Moving\<rparr>"

lemma moving_example_reachable: "item_reachable moving_example"
proof -
  have "item_reachable (item_init\<lparr>word_of := markInMMContainer (word_of item_init)\<rparr>)"
    by (rule item_reachable.step [OF item_reachable.start item_step.link])
  moreover have "markInMMContainer (word_of item_init) = 262144"
    by (simp add: item_init_def) code_simp
  ultimately have l: "item_reachable (item_init\<lparr>word_of := 262144\<rparr>)" by simp
  have "markMoving (word_of (item_init\<lparr>word_of := 262144\<rparr>)) = (True, 1310721)"
    by simp code_simp
  from item_step.move [OF this] item_reachable.step [OF l]
  show ?thesis by (simp add: item_init_def moving_example_def)
qed

theorem exclusive_owner_excludes_witness:
  "incRef 1310721 = Inr (kIncFailedMoving, 1310721) \<and> markForEviction 1310721 = (False, 1310721)"
  using exclusive_owner_excludes [OF moving_example_reachable]
  by (simp add: moving_example_def)

text \<open>C4. The count neither underflows nor wraps: a thread that holds a handle can always release
  it, and taking a handle throws exactly when all $2^{18} - 1$ references are out.\<close>

theorem refcount_no_underflow:
  assumes "item_reachable s"
  shows "(0 < handles s \<longrightarrow> (\<exists>r v. decRef (word_of s) = Inr (r, v))) \<and>
    (incRef (word_of s) = Inl RefcountOverflow \<longleftrightarrow> handles s = 2 ^ 18 - 1)"
  using item_reachable_inv [OF assms]
  by (cases "owner_of s") (auto simp: item_inv_def decRef_cases incRef_cases access_max_def)

theorem refcount_no_underflow_witness:
  "incRef (word_of moving_example) \<noteq> Inl RefcountOverflow"
  using refcount_no_underflow [OF moving_example_reachable] by (simp add: moving_example_def)

lemma set_mask_plus: "\<not> bit v n \<Longrightarrow> v OR push_bit n 1 = v + push_bit n (1 :: u32)"
  using bit_mask_test [of v n] disjunctive_add_eq_or [of v "push_bit n 1"] by simp

lemma clear_set_mask: "\<not> bit v n \<Longrightarrow> (v OR push_bit n 1) AND NOT (push_bit n 1) = (v :: u32)"
  by (rule bit_eqI) (unfold bit_set_mask bit_clear_mask, blast)

lemma unmarkMoving_markMoving: "markMoving v = (True, v') \<Longrightarrow> snd (unmarkMoving v') = v"
proof -
  assume "markMoving v = (True, v')"
  then have e: "\<not> bit v (admin_bit kExclusive)" and c: "access_count v = 0"
    and v': "v' = (v + 1) OR push_bit (admin_bit kExclusive) 1"
    by (auto simp: markMoving_cases getAdminRef_def split: if_splits)
  have e1: "\<not> bit (v + 1) (admin_bit kExclusive)"
    using e c access_max_pos by (simp add: inc_count)
  have "v' - 1 = v OR push_bit (admin_bit kExclusive) 1"
    unfolding v' set_mask_plus [OF e] set_mask_plus [OF e1] by simp
  then show ?thesis
    using clear_set_mask [OF e] by (simp only: unmarkMoving_def Let_def snd_conv getAdminRef_def)
qed

text \<open>Round trips: dropping the handle just taken, unmarking an eviction and unmarking a move
  each restore the exact word, flags and administrative bits included.\<close>

lemma refcount_round_trip:
  "(incRef v = Inr (kIncOk, v') \<longrightarrow> decRef v' = Inr (v AND kRefMask, v)) \<and>
   (markForEviction v = (True, v') \<longrightarrow> snd (unmarkForEviction v') = v) \<and>
   (markMoving v = (True, v') \<longrightarrow> snd (unmarkMoving v') = v)"
proof (intro conjI impI)
  show "decRef v' = Inr (v AND kRefMask, v)" if "incRef v = Inr (kIncOk, v')"
    using that by (auto simp: incRef_cases decRef_cases inc_count split: if_splits)
  show "snd (unmarkForEviction v') = v" if "markForEviction v = (True, v')"
    using that clear_set_mask [of v]
    by (auto simp only: markForEviction_cases unmarkForEviction_def Let_def snd_conv getAdminRef_def
        split: if_splits)
qed (rule unmarkMoving_markMoving)

end
