(* ===== verification/DList.thy ===== *)
theory DList
  imports Prelude
begin

text \<open>
  The intrusive doubly linked list every eviction container is built on,
  \<^verbatim>\<open>cachelib/allocator/datastruct/DList.h\<close> and \<^verbatim>\<open>DList-inl.h\<close>. The hooks of all nodes form a heap
  from addresses to hooks; the list object holds the head, the tail and the size. Compressed
  pointers are represented by the pointer they decode to. Every operation is shown to implement
  the corresponding operation on a plain list of addresses.
\<close>

section \<open>Hooks\<close>

record DListHook =
  hk_next :: ptr
  hk_prev :: ptr
  hk_time :: u32

type_synonym hooks = "addr \<Rightarrow> DListHook"

definition getNext :: "hooks \<Rightarrow> addr \<Rightarrow> ptr" where
  "getNext h node = hk_next (h node)"
definition getPrev :: "hooks \<Rightarrow> addr \<Rightarrow> ptr" where
  "getPrev h node = hk_prev (h node)"
definition setNext :: "addr \<Rightarrow> ptr \<Rightarrow> hooks \<Rightarrow> hooks" where
  "setNext node n h = h(node := (h node)\<lparr>hk_next := n\<rparr>)"
definition setPrev :: "addr \<Rightarrow> ptr \<Rightarrow> hooks \<Rightarrow> hooks" where
  "setPrev node p h = h(node := (h node)\<lparr>hk_prev := p\<rparr>)"
definition setNextFrom :: "addr \<Rightarrow> addr \<Rightarrow> hooks \<Rightarrow> hooks" where
  "setNextFrom node other h = setNext node (hk_next (h other)) h"
definition setPrevFrom :: "addr \<Rightarrow> addr \<Rightarrow> hooks \<Rightarrow> hooks" where
  "setPrevFrom node other h = setPrev node (hk_prev (h other)) h"
definition getUpdateTime :: "hooks \<Rightarrow> addr \<Rightarrow> u32" where
  "getUpdateTime h node = hk_time (h node)"
definition setUpdateTime :: "addr \<Rightarrow> u32 \<Rightarrow> hooks \<Rightarrow> hooks" where
  "setUpdateTime node t h = h(node := (h node)\<lparr>hk_time := t\<rparr>)"

section \<open>The list object and its operations\<close>

record DList =
  dl_head :: ptr
  dl_tail :: ptr
  dl_size :: nat

definition DList_empty :: DList where
  "DList_empty = \<lparr>dl_head = None, dl_tail = None, dl_size = 0\<rparr>"

definition linkAtHead :: "addr \<Rightarrow> hooks \<times> DList \<Rightarrow> hooks \<times> DList" where
  "linkAtHead node = (\<lambda>(h, l).
     let h = setNext node (dl_head l) h;
         h = setPrev node None h;
         h = (case dl_head l of None \<Rightarrow> h | Some oldHead \<Rightarrow> setPrev oldHead (Some node) h);
         l = l\<lparr>dl_head := Some node\<rparr>;
         l = (if dl_tail l = None then l\<lparr>dl_tail := Some node\<rparr> else l)
     in (h, l\<lparr>dl_size := dl_size l + 1\<rparr>))"

definition linkAtTail :: "addr \<Rightarrow> hooks \<times> DList \<Rightarrow> hooks \<times> DList" where
  "linkAtTail node = (\<lambda>(h, l).
     let h = setNext node None h;
         h = setPrev node (dl_tail l) h;
         h = (case dl_tail l of None \<Rightarrow> h | Some oldTail \<Rightarrow> setNext oldTail (Some node) h);
         l = l\<lparr>dl_tail := Some node\<rparr>;
         l = (if dl_head l = None then l\<lparr>dl_head := Some node\<rparr> else l)
     in (h, l\<lparr>dl_size := dl_size l + 1\<rparr>))"

definition insertBefore :: "addr \<Rightarrow> addr \<Rightarrow> hooks \<times> DList \<Rightarrow> hooks \<times> DList" where
  "insertBefore nextNode node = (\<lambda>(h, l).
     let prev = getPrev h nextNode;
         h = setPrev node prev h;
         (h, l) = (case prev of
                     Some p \<Rightarrow> (setNext p (Some node) h, l)
                   | None \<Rightarrow> (h, l\<lparr>dl_head := Some node\<rparr>));
         h = setPrev nextNode (Some node) h;
         h = setNext node (Some nextNode) h
     in (h, l\<lparr>dl_size := dl_size l + 1\<rparr>))"

definition unlink :: "addr \<Rightarrow> hooks \<times> DList \<Rightarrow> hooks \<times> DList" where
  "unlink node = (\<lambda>(h, l).
     let prev = getPrev h node;
         nxt = getNext h node;
         l = (if dl_head l = Some node then l\<lparr>dl_head := nxt\<rparr> else l);
         l = (if dl_tail l = Some node then l\<lparr>dl_tail := prev\<rparr> else l);
         h = (case prev of None \<Rightarrow> h | Some p \<Rightarrow> setNextFrom p node h);
         h = (case nxt of None \<Rightarrow> h | Some n \<Rightarrow> setPrevFrom n node h)
     in (h, l\<lparr>dl_size := dl_size l - 1\<rparr>))"

definition remove :: "addr \<Rightarrow> hooks \<times> DList \<Rightarrow> hooks \<times> DList" where
  "remove node s =
     (case unlink node s of (h, l) \<Rightarrow> (setPrev node None (setNext node None h), l))"

definition replace :: "addr \<Rightarrow> addr \<Rightarrow> hooks \<times> DList \<Rightarrow> hooks \<times> DList" where
  "replace oldNode newNode = (\<lambda>(h, l).
     let l = (if dl_head l = Some oldNode then l\<lparr>dl_head := Some newNode\<rparr> else l);
         l = (if dl_tail l = Some oldNode then l\<lparr>dl_tail := Some newNode\<rparr> else l);
         prev = getPrev h oldNode;
         nxt = getNext h oldNode;
         h = (case prev of None \<Rightarrow> h | Some p \<Rightarrow> setNext p (Some newNode) h);
         h = (case nxt of None \<Rightarrow> h | Some n \<Rightarrow> setPrev n (Some newNode) h);
         h = setNext newNode nxt (setPrev newNode prev h);
         h = setNext oldNode None (setPrev oldNode None h)
     in (h, l))"

definition moveToHead :: "addr \<Rightarrow> hooks \<times> DList \<Rightarrow> hooks \<times> DList" where
  "moveToHead node s =
     (if dl_head (snd s) = Some node then s else linkAtHead node (unlink node s))"

section \<open>Iterators\<close>

datatype Direction = FROM_HEAD | FROM_TAIL

record DListIterator =
  it_curr :: ptr
  it_dir :: Direction

definition goForward :: "hooks \<Rightarrow> addr \<Rightarrow> DListIterator \<Rightarrow> DListIterator" where
  "goForward h c it = it\<lparr>it_curr := if it_dir it = FROM_TAIL then getPrev h c else getNext h c\<rparr>"
definition goBackward :: "hooks \<Rightarrow> addr \<Rightarrow> DListIterator \<Rightarrow> DListIterator" where
  "goBackward h c it = it\<lparr>it_curr := if it_dir it = FROM_TAIL then getNext h c else getPrev h c\<rparr>"

definition iter_inc :: "hooks \<Rightarrow> DListIterator \<Rightarrow> DListIterator" where
  "iter_inc h it = (case it_curr it of None \<Rightarrow> it | Some c \<Rightarrow> goForward h c it)"
definition iter_dec :: "hooks \<Rightarrow> DListIterator \<Rightarrow> DListIterator" where
  "iter_dec h it = (case it_curr it of None \<Rightarrow> it | Some c \<Rightarrow> goBackward h c it)"

definition dl_begin :: "DList \<Rightarrow> DListIterator" where
  "dl_begin l = \<lparr>it_curr = dl_head l, it_dir = FROM_HEAD\<rparr>"
definition dl_rbegin :: "DList \<Rightarrow> DListIterator" where
  "dl_rbegin l = \<lparr>it_curr = dl_tail l, it_dir = FROM_TAIL\<rparr>"
definition dl_end :: DListIterator where
  "dl_end = \<lparr>it_curr = None, it_dir = FROM_HEAD\<rparr>"
definition dl_rend :: DListIterator where
  "dl_rend = \<lparr>it_curr = None, it_dir = FROM_TAIL\<rparr>"

definition iter_reset :: "DListIterator \<Rightarrow> DListIterator" where
  "iter_reset it = it\<lparr>it_curr := None\<rparr>"
definition resetToBegin :: "DList \<Rightarrow> DListIterator \<Rightarrow> DListIterator" where
  "resetToBegin l it = it\<lparr>it_curr := if it_dir it = FROM_HEAD then dl_head l else dl_tail l\<rparr>"

section \<open>Field accesses\<close>

lemma hook_fields [hook_simps]:
  "hk_next (setNext a n h x) = (if x = a then n else hk_next (h x))"
  "hk_prev (setNext a n h x) = hk_prev (h x)"
  "hk_time (setNext a n h x) = hk_time (h x)"
  "hk_prev (setPrev a p h x) = (if x = a then p else hk_prev (h x))"
  "hk_next (setPrev a p h x) = hk_next (h x)"
  "hk_time (setPrev a p h x) = hk_time (h x)"
  "hk_next (setUpdateTime a t h x) = hk_next (h x)"
  "hk_prev (setUpdateTime a t h x) = hk_prev (h x)"
  "hk_time (setUpdateTime a t h x) = (if x = a then t else hk_time (h x))"
  by (auto simp: setNext_def setPrev_def setUpdateTime_def)

lemmas hook_ops = getNext_def getPrev_def getUpdateTime_def setNextFrom_def setPrevFrom_def

section \<open>Linked segments\<close>

text \<open>The node a segment starts or ends with, or the given pointer when it is empty.\<close>

definition first_of :: "addr list \<Rightarrow> ptr \<Rightarrow> ptr" where
  "first_of xs n = (case xs of [] \<Rightarrow> n | x # _ \<Rightarrow> Some x)"
definition last_of :: "ptr \<Rightarrow> addr list \<Rightarrow> ptr" where
  "last_of p xs = (if xs = [] then p else Some (last xs))"

lemma first_of_simps [simp]:
  "first_of [] n = n" "first_of (x # xs) n = Some x"
  "first_of (xs @ ys) n = first_of xs (first_of ys n)"
  by (auto simp: first_of_def split: list.splits)

lemma last_of_simps [simp]:
  "last_of p [] = p" "last_of p (x # xs) = last_of (Some x) xs"
  "last_of p (xs @ ys) = last_of (last_of p xs) ys"
  by (auto simp: last_of_def)

text \<open>
  \<open>linked h p xs n\<close>: the nodes \<open>xs\<close> are chained both ways, the first one back to \<open>p\<close>, the last
  one forward to \<open>n\<close>.
\<close>

primrec linked :: "hooks \<Rightarrow> ptr \<Rightarrow> addr list \<Rightarrow> ptr \<Rightarrow> bool" where
  "linked h p [] n = True"
| "linked h p (x # xs) n =
     (hk_prev (h x) = p \<and> hk_next (h x) = first_of xs n \<and> linked h (Some x) xs n)"

lemma linked_append:
  "linked h p (xs @ ys) n \<longleftrightarrow>
     linked h p xs (first_of ys n) \<and> linked h (last_of p xs) ys n"
  by (induction xs arbitrary: p) auto

text \<open>A segment only depends on the links of its own nodes.\<close>

lemma linked_cong:
  assumes "\<And>x. x \<in> set xs \<Longrightarrow> hk_next (h x) = hk_next (g x) \<and> hk_prev (h x) = hk_prev (g x)"
  shows "linked h p xs n = linked g p xs n"
  using assms by (induction xs arbitrary: p) auto

lemma linked_frame [simp]:
  "a \<notin> set xs \<Longrightarrow> linked (setNext a v h) p xs n = linked h p xs n"
  "a \<notin> set xs \<Longrightarrow> linked (setPrev a v h) p xs n = linked h p xs n"
  "linked (setUpdateTime a t h) p xs n = linked h p xs n"
  by (rule linked_cong; auto simp: hook_simps)+

text \<open>Redirecting the last node forward, or the first node back.\<close>

lemma linked_setNext_last:
  assumes "linked h p (xs @ [a]) n" and "a \<notin> set xs"
  shows "linked (setNext a m h) p (xs @ [a]) m"
  using assms by (auto simp: linked_append hook_simps)

lemma linked_setPrev_first:
  assumes "linked h p (a # xs) n" and "a \<notin> set xs"
  shows "linked (setPrev a q h) q (a # xs) n"
  using assms by (auto simp: hook_simps)

section \<open>Representation\<close>

definition dlist_rep :: "hooks \<times> DList \<Rightarrow> addr list \<Rightarrow> bool" where
  "dlist_rep s xs \<longleftrightarrow>
     linked (fst s) None xs None \<and> distinct xs \<and>
     dl_head (snd s) = first_of xs None \<and> dl_tail (snd s) = last_of None xs \<and>
     dl_size (snd s) = length xs"

lemma dlist_repD:
  assumes "dlist_rep s xs"
  shows "distinct xs" "linked (fst s) None xs None" "dl_head (snd s) = first_of xs None"
    "dl_tail (snd s) = last_of None xs" "dl_size (snd s) = length xs"
  using assms by (auto simp: dlist_rep_def)

section \<open>Relinking\<close>

definition setNextIf :: "ptr \<Rightarrow> ptr \<Rightarrow> hooks \<Rightarrow> hooks" where
  "setNextIf p v h = (case p of None \<Rightarrow> h | Some a \<Rightarrow> setNext a v h)"
definition setPrevIf :: "ptr \<Rightarrow> ptr \<Rightarrow> hooks \<Rightarrow> hooks" where
  "setPrevIf p v h = (case p of None \<Rightarrow> h | Some a \<Rightarrow> setPrev a v h)"

lemma hook_fields_if [hook_simps]:
  "hk_next (setNextIf q n h x) = (if q = Some x then n else hk_next (h x))"
  "hk_prev (setNextIf q n h x) = hk_prev (h x)"
  "hk_prev (setPrevIf q p h x) = (if q = Some x then p else hk_prev (h x))"
  "hk_next (setPrevIf q p h x) = hk_next (h x)"
  by (auto simp: setNextIf_def setPrevIf_def hook_simps split: option.splits)

lemma last_of_in: "last_of None xs = Some a \<Longrightarrow> a \<in> set xs"
  by (auto simp: last_of_def split: if_splits)

lemma first_of_in: "first_of xs None = Some a \<Longrightarrow> a \<in> set xs"
  by (auto simp: first_of_def split: list.splits)

lemma linked_frame_if:
  "(\<And>a. q = Some a \<Longrightarrow> a \<notin> set xs) \<Longrightarrow> linked (setNextIf q v h) p xs n = linked h p xs n"
  "(\<And>a. q = Some a \<Longrightarrow> a \<notin> set xs) \<Longrightarrow> linked (setPrevIf q v h) p xs n = linked h p xs n"
  by (rule linked_cong; auto simp: hook_simps)+

lemma linked_frame_ends:
  "set xs \<inter> set ys = {} \<Longrightarrow> linked (setNextIf (last_of None xs) v h) p ys n = linked h p ys n"
  "set xs \<inter> set ys = {} \<Longrightarrow> linked (setPrevIf (first_of xs None) v h) p ys n = linked h p ys n"
  by (rule linked_frame_if; auto dest!: last_of_in first_of_in)+

lemma linked_setNextIf:
  assumes "linked h p xs n" and "distinct xs"
  shows "linked (setNextIf (last_of None xs) m h) p xs m"
proof (cases xs rule: rev_cases)
  case (snoc ys a)
  with assms show ?thesis by (auto simp: setNextIf_def intro: linked_setNext_last)
qed simp

lemma linked_setPrevIf:
  assumes "linked h p xs n" and "distinct xs"
  shows "linked (setPrevIf (first_of xs None) q h) q xs n"
proof (cases xs)
  case (Cons a ys)
  with assms show ?thesis using linked_setPrev_first [of h p a ys n q] by (simp add: setPrevIf_def)
qed simp

text \<open>Two segments joined by pointing the end of one and the start of the other at each other.\<close>

lemma linked_join:
  assumes "linked h None xs m" and "linked h q ys None" and "distinct (xs @ ys)"
  shows "linked (setPrevIf (first_of ys None) (last_of None xs)
           (setNextIf (last_of None xs) (first_of ys None) h)) None (xs @ ys) None"
proof -
  let ?g = "setNextIf (last_of None xs) (first_of ys None) h"
  have "linked ?g None xs (first_of ys None)" and "linked ?g q ys None"
    using assms by (auto intro: linked_setNextIf simp: linked_frame_ends)
  then show ?thesis
    using assms(3) linked_frame_ends(2) [of ys xs]
    by (auto simp: linked_append Int_commute intro!: linked_setPrevIf)
qed

section \<open>Each operation implements its list counterpart\<close>

lemma last_of_None_iff [simp]: "last_of None xs = None \<longleftrightarrow> xs = []"
  by (simp add: last_of_def)

lemma first_of_Some_neq_None [simp]: "first_of xs (Some y) \<noteq> None"
  by (cases xs) simp_all

lemma first_of_None_iff [simp]: "first_of xs None = None \<longleftrightarrow> xs = []"
  by (simp add: first_of_def split: list.splits)

lemma last_of_neq_Nil: "xs \<noteq> [] \<Longrightarrow> last_of p xs = last_of None xs"
  by (simp add: last_of_def)

lemma first_of_neq_Nil: "xs \<noteq> [] \<Longrightarrow> first_of xs n = first_of xs None"
  by (cases xs) simp_all

lemma dlist_rep_empty: "dlist_rep (h, DList_empty) []"
  by (simp add: dlist_rep_def DList_empty_def)

lemma linkAtHead_rep:
  assumes "dlist_rep s xs" and "node \<notin> set xs"
  shows "dlist_rep (linkAtHead node s) (node # xs)"
proof -
  obtain h l where s: "s = (h, l)" by fastforce
  from assms(1) [unfolded s] have r: "linked h None xs None" "distinct xs" "dl_head l = first_of xs None"
    "dl_tail l = last_of None xs" "dl_size l = length xs"
    by (auto simp: dlist_rep_def)
  then show ?thesis using assms(2)
    by (cases xs) (auto simp: s linkAtHead_def Let_def dlist_rep_def hook_simps last_of_def)
qed

lemma linkAtTail_rep:
  assumes "dlist_rep s xs" and "node \<notin> set xs"
  shows "dlist_rep (linkAtTail node s) (xs @ [node])"
proof -
  obtain h l where s: "s = (h, l)" by fastforce
  from assms(1) [unfolded s] have r: "linked h None xs None" "distinct xs" "dl_head l = first_of xs None"
    "dl_tail l = last_of None xs" "dl_size l = length xs"
    by (auto simp: dlist_rep_def)
  then show ?thesis using assms(2)
    by (cases xs rule: rev_cases)
       (auto simp: s linkAtTail_def Let_def dlist_rep_def hook_simps linked_append)
qed

lemma insertBefore_rep:
  assumes "dlist_rep s (as @ nextNode # bs)" and "node \<notin> set (as @ nextNode # bs)"
  shows "dlist_rep (insertBefore nextNode node s) (as @ node # nextNode # bs)"
proof -
  obtain h l where s: "s = (h, l)" by fastforce
  from assms(1) [unfolded s] have r: "linked h None as (Some nextNode)"
    "hk_prev (h nextNode) = last_of None as" "hk_next (h nextNode) = first_of bs None"
    "linked h (Some nextNode) bs None" "distinct (as @ nextNode # bs)"
    "dl_head l = first_of as (Some nextNode)" "dl_tail l = last_of (Some nextNode) bs"
    "dl_size l = Suc (length as + length bs)"
    by (auto simp: dlist_rep_def linked_append)
  show ?thesis
  proof (cases as rule: rev_cases)
    case Nil
    with r assms(2) show ?thesis
      by (auto simp: s insertBefore_def Let_def dlist_rep_def hook_simps hook_ops)
  next
    case (snoc as' p)
    with r assms(2) show ?thesis
      by (auto simp: s insertBefore_def Let_def dlist_rep_def hook_simps hook_ops linked_append)
  qed
qed

text \<open>\<open>unlink\<close> leaves the hook of the node itself as it was.\<close>

lemma unlink_rep:
  assumes "dlist_rep s (as @ node # bs)"
  shows "dlist_rep (unlink node s) (as @ bs)"
    and "hk_next (fst (unlink node s) node) = first_of bs None"
    and "hk_prev (fst (unlink node s) node) = last_of None as"
proof -
  obtain h l where s: "s = (h, l)" by fastforce
  from assms [unfolded s] have r: "linked h None as (Some node)"
    "hk_prev (h node) = last_of None as" "hk_next (h node) = first_of bs None"
    "linked h (Some node) bs None" "distinct (as @ node # bs)"
    "dl_head l = first_of as (Some node)" "dl_tail l = last_of (Some node) bs"
    "dl_size l = Suc (length as + length bs)"
    by (auto simp: dlist_rep_def linked_append)
  have h: "fst (unlink node s) =
      setPrevIf (first_of bs None) (last_of None as)
        (setNextIf (last_of None as) (first_of bs None) h)"
    using r(2,3,5) by (auto simp: s unlink_def Let_def hook_ops setNextIf_def setPrevIf_def
        hook_simps split: option.splits)
  have l: "snd (unlink node s) = \<lparr>dl_head = first_of (as @ bs) None,
      dl_tail = last_of None (as @ bs), dl_size = length (as @ bs)\<rparr>"
    using r by (cases as; cases bs rule: rev_cases)
      (auto simp: s unlink_def Let_def hook_ops last_of_def)
  show "dlist_rep (unlink node s) (as @ bs)"
    using linked_join [OF r(1) r(4)] r(5) by (simp add: dlist_rep_def h l)
  show "hk_next (fst (unlink node s) node) = first_of bs None"
    "hk_prev (fst (unlink node s) node) = last_of None as"
    using r(2,3,5) by (auto simp: h hook_simps dest!: first_of_in last_of_in)
qed

lemma remove_rep:
  assumes "dlist_rep s (as @ node # bs)"
  shows "dlist_rep (remove node s) (as @ bs)"
    and "hk_next (fst (remove node s) node) = None" and "hk_prev (fst (remove node s) node) = None"
proof -
  have "distinct (as @ node # bs)" using assms by (rule dlist_repD)
  then show "dlist_rep (remove node s) (as @ bs)"
    using unlink_rep(1) [OF assms] by (auto simp: remove_def dlist_rep_def split: prod.splits)
  show "hk_next (fst (remove node s) node) = None" "hk_prev (fst (remove node s) node) = None"
    by (auto simp: remove_def hook_simps split: prod.splits)
qed

lemma moveToHead_rep:
  assumes "dlist_rep s (as @ node # bs)"
  shows "dlist_rep (moveToHead node s) (node # as @ bs)"
proof (cases "as = []")
  case True
  with assms have "dl_head (snd s) = Some node" by (simp add: dlist_rep_def)
  with True assms show ?thesis by (simp add: moveToHead_def)
next
  case False
  have "distinct (as @ node # bs)" and "dl_head (snd s) = first_of as (Some node)"
    using dlist_repD [OF assms] by auto
  with False have "dl_head (snd s) \<noteq> Some node" by (cases as) auto
  moreover have "node \<notin> set (as @ bs)" using \<open>distinct (as @ node # bs)\<close> by auto
  ultimately show ?thesis
    using linkAtHead_rep [OF unlink_rep(1) [OF assms]] by (simp add: moveToHead_def)
qed

lemma replace_rep:
  assumes "dlist_rep s (as @ old # bs)" and "new \<notin> set (as @ old # bs)"
  shows "dlist_rep (replace old new s) (as @ new # bs)"
    and "hk_next (fst (replace old new s) old) = None" and "hk_prev (fst (replace old new s) old) = None"
proof -
  obtain h l where s: "s = (h, l)" by fastforce
  from assms(1) [unfolded s] have r: "linked h None as (Some old)"
    "hk_prev (h old) = last_of None as" "hk_next (h old) = first_of bs None"
    "linked h (Some old) bs None" "distinct (as @ old # bs)"
    "dl_head l = first_of as (Some old)" "dl_tail l = last_of (Some old) bs"
    "dl_size l = Suc (length as + length bs)"
    by (auto simp: dlist_rep_def linked_append)
  let ?h1 = "setPrevIf (first_of bs None) (Some new) (setNextIf (last_of None as) (Some new) h)"
  let ?h2 = "setNext new (first_of bs None) (setPrev new (last_of None as) ?h1)"
  have h: "fst (replace old new s) = setNext old None (setPrev old None ?h2)"
    using r(2,3) by (auto simp: s replace_def Let_def hook_ops setNextIf_def setPrevIf_def
        split: option.splits)
  have l: "snd (replace old new s) = \<lparr>dl_head = first_of (as @ new # bs) None,
      dl_tail = last_of None (as @ new # bs), dl_size = length (as @ new # bs)\<rparr>"
    using r assms(2) by (cases as; cases bs rule: rev_cases)
      (auto simp: s replace_def Let_def hook_ops last_of_def)
  have "linked ?h1 None as (Some new)" and "linked ?h1 (Some new) bs None"
    using r(1,4,5) linked_frame_ends(2) [of bs as] linked_frame_ends(1) [of as bs]
    by (auto simp: Int_commute intro!: linked_setNextIf linked_setPrevIf)
  with r(5) assms(2) show "dlist_rep (replace old new s) (as @ new # bs)"
    by (auto simp: dlist_rep_def h l linked_append hook_simps)
  show "hk_next (fst (replace old new s) old) = None" "hk_prev (fst (replace old new s) old) = None"
    by (auto simp: h hook_simps)
qed

text \<open>Update times belong to the container; no list operation touches them.\<close>

lemma hk_time_ops [simp]:
  "hk_time (fst (linkAtHead a s) x) = hk_time (fst s x)"
  "hk_time (fst (insertBefore n a s) x) = hk_time (fst s x)"
  "hk_time (fst (remove a s) x) = hk_time (fst s x)"
  "hk_time (fst (moveToHead a s) x) = hk_time (fst s x)"
  "hk_time (fst (replace a b s) x) = hk_time (fst s x)"
  by (cases s; auto simp: linkAtHead_def insertBefore_def remove_def unlink_def moveToHead_def
      replace_def Let_def hook_simps hook_ops split: option.splits prod.splits)+

lemma dlist_rep_setUpdateTime [simp]:
  "dlist_rep (setUpdateTime a t h, l) xs = dlist_rep (h, l) xs"
  by (simp add: dlist_rep_def)

lemma dlist_rep_unique: "dlist_rep s xs \<Longrightarrow> dlist_rep s ys \<Longrightarrow> xs = ys"
proof -
  have "linked h p xs None \<Longrightarrow> linked h p ys None \<Longrightarrow> first_of xs None = first_of ys None \<Longrightarrow> xs = ys"
    for h p
  proof (induction xs arbitrary: ys p)
    case Nil
    then show ?case using first_of_None_iff [of ys] by simp
  next
    case (Cons x xs)
    then show ?case by (cases ys) auto
  qed
  then show "dlist_rep s xs \<Longrightarrow> dlist_rep s ys \<Longrightarrow> xs = ys"
    by (metis dlist_repD(2,3))
qed

section \<open>Walking the list\<close>

lemma linked_nth:
  assumes "linked h p xs n" and "i < length xs"
  shows "hk_next (h (xs ! i)) = (if Suc i < length xs then Some (xs ! Suc i) else n)"
    and "hk_prev (h (xs ! i)) = (if i = 0 then p else Some (xs ! (i - 1)))"
  using assms
proof (induction xs arbitrary: p i)
  case (Cons x xs)
  { case 1 with Cons.IH(1) show ?case by (cases i; cases xs) auto }
  { case 2 with Cons.IH(2) show ?case by (cases i; cases xs) auto }
qed simp_all

lemma iter_inc_simps [simp]:
  "iter_inc h \<lparr>it_curr = Some c, it_dir = FROM_TAIL\<rparr> = \<lparr>it_curr = hk_prev (h c), it_dir = FROM_TAIL\<rparr>"
  "iter_inc h \<lparr>it_curr = Some c, it_dir = FROM_HEAD\<rparr> = \<lparr>it_curr = hk_next (h c), it_dir = FROM_HEAD\<rparr>"
  "iter_inc h \<lparr>it_curr = None, it_dir = d\<rparr> = \<lparr>it_curr = None, it_dir = d\<rparr>"
  by (simp_all add: iter_inc_def goForward_def hook_ops)

lemma iterate_from_tail:
  assumes "dlist_rep (h, l) xs" and "k \<le> length xs"
  shows "(iter_inc h ^^ k) (dl_rbegin l) =
    \<lparr>it_curr = (if k < length xs then Some (rev xs ! k) else None), it_dir = FROM_TAIL\<rparr>"
  using assms(2)
proof (induction k)
  case 0
  then show ?case using assms(1)
    by (auto simp: dl_rbegin_def dlist_rep_def last_of_def rev_nth last_conv_nth)
next
  case (Suc k)
  then have "(iter_inc h ^^ k) (dl_rbegin l) = \<lparr>it_curr = Some (rev xs ! k), it_dir = FROM_TAIL\<rparr>"
    by simp
  moreover have "hk_prev (h (xs ! (length xs - Suc k))) =
      (if Suc k < length xs then Some (rev xs ! Suc k) else None)"
    using Suc.prems linked_nth(2) [of h None xs None "length xs - Suc k"] assms(1)
    by (auto simp: dlist_rep_def rev_nth Suc_diff_Suc)
  ultimately show ?case
    using Suc.prems by (simp add: rev_nth)
qed

lemma iterate_from_head:
  assumes "dlist_rep (h, l) xs" and "k \<le> length xs"
  shows "(iter_inc h ^^ k) (dl_begin l) =
    \<lparr>it_curr = (if k < length xs then Some (xs ! k) else None), it_dir = FROM_HEAD\<rparr>"
  using assms(2)
proof (induction k)
  case 0
  then show ?case using assms(1) by (cases xs) (auto simp: dl_begin_def dlist_rep_def)
next
  case (Suc k)
  then have "(iter_inc h ^^ k) (dl_begin l) = \<lparr>it_curr = Some (xs ! k), it_dir = FROM_HEAD\<rparr>"
    by simp
  then show ?case
    using Suc.prems linked_nth(1) [of h None xs None k] assms(1)
    by (simp add: dlist_rep_def)
qed

section \<open>Refinement of a plain list\<close>

datatype dl_op = LinkAtHead addr | LinkAtTail addr | InsertBefore addr addr | Remove addr
  | Replace addr addr | MoveToHead addr | GetHead | GetTail

fun dl_step :: "dl_op \<Rightarrow> hooks \<times> DList \<Rightarrow> ptr \<times> hooks \<times> DList" where
  "dl_step (LinkAtHead a) s = (None, linkAtHead a s)"
| "dl_step (LinkAtTail a) s = (None, linkAtTail a s)"
| "dl_step (InsertBefore n a) s = (None, insertBefore n a s)"
| "dl_step (Remove a) s = (None, remove a s)"
| "dl_step (Replace a b) s = (None, replace a b s)"
| "dl_step (MoveToHead a) s = (None, moveToHead a s)"
| "dl_step GetHead s = (dl_head (snd s), s)"
| "dl_step GetTail s = (dl_tail (snd s), s)"

fun list_step :: "dl_op \<Rightarrow> addr list \<Rightarrow> ptr \<times> addr list" where
  "list_step (LinkAtHead a) xs = (None, a # xs)"
| "list_step (LinkAtTail a) xs = (None, xs @ [a])"
| "list_step (InsertBefore n a) xs =
     (None, takeWhile (\<lambda>x. x \<noteq> n) xs @ a # dropWhile (\<lambda>x. x \<noteq> n) xs)"
| "list_step (Remove a) xs = (None, remove1 a xs)"
| "list_step (Replace a b) xs = (None, map (\<lambda>x. if x = a then b else x) xs)"
| "list_step (MoveToHead a) xs = (None, a # remove1 a xs)"
| "list_step GetHead xs = (first_of xs None, xs)"
| "list_step GetTail xs = (last_of None xs, xs)"

text \<open>The caller's obligations, the debug checks of the source among them.\<close>

fun dl_pre :: "dl_op \<Rightarrow> addr list \<Rightarrow> bool" where
  "dl_pre (LinkAtHead a) xs = (a \<notin> set xs)"
| "dl_pre (LinkAtTail a) xs = (a \<notin> set xs)"
| "dl_pre (InsertBefore n a) xs = (n \<in> set xs \<and> a \<notin> set xs)"
| "dl_pre (Remove a) xs = (a \<in> set xs)"
| "dl_pre (Replace a b) xs = (a \<in> set xs \<and> b \<notin> set xs)"
| "dl_pre (MoveToHead a) xs = (a \<in> set xs)"
| "dl_pre GetHead xs = True"
| "dl_pre GetTail xs = True"

lemma split_at_first:
  assumes "a \<in> set xs"
  obtains as bs where "xs = as @ a # bs" "a \<notin> set as" "remove1 a xs = as @ bs"
    "takeWhile (\<lambda>x. x \<noteq> a) xs = as" "dropWhile (\<lambda>x. x \<noteq> a) xs = a # bs"
proof -
  from split_list_first [OF assms] obtain as bs where "xs = as @ a # bs" "a \<notin> set as" by blast
  moreover from this have "\<forall>x \<in> set as. x \<noteq> a" by auto
  ultimately show thesis
    by (intro that [of as bs]) (simp_all add: remove1_append takeWhile_append2 dropWhile_append2)
qed

lemma dl_step_rep:
  assumes "dlist_rep s xs" and "dl_pre x xs"
  shows "dlist_rep (snd (dl_step x s)) (snd (list_step x xs))"
proof (cases x)
  case (InsertBefore n a)
  with assms obtain as bs where "xs = as @ n # bs" "takeWhile (\<lambda>x. x \<noteq> n) xs = as"
    "dropWhile (\<lambda>x. x \<noteq> n) xs = n # bs"
    by (auto elim: split_at_first [of n])
  with InsertBefore assms show ?thesis by (auto intro: insertBefore_rep)
next
  case (Remove a)
  with assms obtain as bs where "xs = as @ a # bs" "remove1 a xs = as @ bs"
    by (auto elim: split_at_first [of a])
  with Remove assms show ?thesis by (auto intro: remove_rep)
next
  case (MoveToHead a)
  with assms obtain as bs where "xs = as @ a # bs" "remove1 a xs = as @ bs"
    by (auto elim: split_at_first [of a])
  with MoveToHead assms show ?thesis by (auto intro: moveToHead_rep)
next
  case (Replace a b)
  with assms obtain as bs where xs: "xs = as @ a # bs"
    by (auto elim: split_at_first [of a])
  with dlist_repD(1) [OF assms(1)]
  have "map (\<lambda>x. if x = a then b else x) xs = as @ b # bs" by (auto intro!: map_idI)
  with Replace assms xs show ?thesis by (auto intro: replace_rep)
qed (use assms in \<open>auto intro: linkAtHead_rep linkAtTail_rep\<close>)

interpretation dl: simulation dlist_rep dl_step list_step dl_pre
proof
  show "fst (dl_step x s) = fst (list_step x xs)" if "dlist_rep s xs" for s xs x
    using dlist_repD [OF that] by (cases x) auto
qed (rule dl_step_rep)

section \<open>Properties\<close>

text \<open>C5. The linked list implements a plain list: after any sequence of operations whose callers
  keep their obligations (linking only unlinked nodes, unlinking only linked ones), the pointer
  structure represents exactly the list the same operations build, and every read of its head or
  tail returned what that list holds.\<close>

theorem dlist_implements_list:
  assumes "dlist_rep s xs" and "admissible list_step dl_pre ops xs"
  shows "fst (run dl_step ops s) = fst (run list_step ops xs) \<and>
    dlist_rep (snd (run dl_step ops s)) (snd (run list_step ops xs))"
  using assms by (rule dl.run_simulates)

theorem dlist_implements_list_witness:
  "fst (run dl_step [LinkAtHead 1, LinkAtTail 2, InsertBefore 2 3, MoveToHead 3, Remove 2, GetTail]
        (\<lambda>_. \<lparr>hk_next = None, hk_prev = None, hk_time = 0\<rparr>, DList_empty)) =
     [None, None, None, None, None, Some 1] \<and>
   dlist_rep (snd (run dl_step
        [LinkAtHead 1, LinkAtTail 2, InsertBefore 2 3, MoveToHead 3, Remove 2, GetTail]
        (\<lambda>_. \<lparr>hk_next = None, hk_prev = None, hk_time = 0\<rparr>, DList_empty))) [3, 1]"
  using dlist_implements_list [OF dlist_rep_empty, of
      "[LinkAtHead 1, LinkAtTail 2, InsertBefore 2 3, MoveToHead 3, Remove 2, GetTail]"
      "\<lambda>_. \<lparr>hk_next = None, hk_prev = None, hk_time = 0\<rparr>"]
  by (simp add: last_of_def del: dl_step.simps)

text \<open>C6. Iteration: an iterator advanced from \<^verbatim>\<open>rbegin\<close> visits the nodes from the tail to the
  head, each once, and then equals \<^verbatim>\<open>rend\<close>; from \<^verbatim>\<open>begin\<close> it visits them from the head.\<close>

theorem iterators_visit_all:
  assumes "dlist_rep (h, l) xs"
  shows "map (\<lambda>k. it_curr ((iter_inc h ^^ k) (dl_rbegin l))) [0..<length xs] = map Some (rev xs) \<and>
    (iter_inc h ^^ length xs) (dl_rbegin l) = dl_rend \<and>
    map (\<lambda>k. it_curr ((iter_inc h ^^ k) (dl_begin l))) [0..<length xs] = map Some xs \<and>
    (iter_inc h ^^ length xs) (dl_begin l) = dl_end"
  using assms
  by (auto simp: iterate_from_tail iterate_from_head dl_rend_def dl_end_def intro!: nth_equalityI)

definition two_nodes :: "hooks \<times> DList" where
  "two_nodes = linkAtHead 7 (linkAtHead 5
     (\<lambda>_. \<lparr>hk_next = None, hk_prev = None, hk_time = 0\<rparr>, DList_empty))"

theorem iterators_visit_all_witness:
  "it_curr ((iter_inc (fst two_nodes) ^^ 1) (dl_rbegin (snd two_nodes))) = Some 7 \<and>
   (iter_inc (fst two_nodes) ^^ 2) (dl_rbegin (snd two_nodes)) = dl_rend"
proof -
  have "dlist_rep two_nodes [7, 5]"
    unfolding two_nodes_def by (intro linkAtHead_rep dlist_rep_empty) auto
  then have "dlist_rep (fst two_nodes, snd two_nodes) [7, 5]" by simp
  from iterators_visit_all [OF this] show ?thesis
    by (simp add: numeral_2_eq_2)
qed

end
