(* ===== verification/MMContainer.thy ===== *)
theory MMContainer
  imports Prelude "HOL-Library.Monad_Syntax"
begin

text \<open>
  What an eviction container promises to the allocator, whatever its policy: it holds a set of
  nodes; \<^verbatim>\<open>add\<close> and \<^verbatim>\<open>remove\<close> report whether they changed it, \<^verbatim>\<open>replace\<close> swaps an old node for a new
  one, and \<^verbatim>\<open>recordAccess\<close> never changes which nodes are held. No operation follows a null pointer
  (a result \<^const>\<open>None\<close>).
\<close>

datatype AccessMode = kRead | kWrite

datatype mm_op = MAdd u32 addr | MRemove addr | MReplace addr addr | MAccess u32 bool addr AccessMode

text \<open>The result of one call; the state is kept where the call would have crashed.\<close>

definition observe :: "'s \<Rightarrow> (bool \<times> 's) option \<Rightarrow> bool option \<times> 's" where
  "observe s res = (case res of None \<Rightarrow> (None, s) | Some (b, s') \<Rightarrow> (Some b, s'))"

lemma observe_Some [simp]: "observe s (Some (b, s')) = (Some b, s')"
  by (simp add: observe_def)

fun mm_step ::
  "(u32 \<Rightarrow> addr \<Rightarrow> 's \<Rightarrow> (bool \<times> 's) option) \<Rightarrow> (addr \<Rightarrow> 's \<Rightarrow> (bool \<times> 's) option) \<Rightarrow>
   (addr \<Rightarrow> addr \<Rightarrow> 's \<Rightarrow> (bool \<times> 's) option) \<Rightarrow>
   (u32 \<Rightarrow> bool \<Rightarrow> addr \<Rightarrow> AccessMode \<Rightarrow> 's \<Rightarrow> (bool \<times> 's) option) \<Rightarrow>
   mm_op \<Rightarrow> 's \<Rightarrow> bool option \<times> 's" where
  "mm_step ad rm rp ac (MAdd now n) s = observe s (ad now n s)"
| "mm_step ad rm rp ac (MRemove n) s = observe s (rm n s)"
| "mm_step ad rm rp ac (MReplace x y) s = observe s (rp x y s)"
| "mm_step ad rm rp ac (MAccess now lck n m) s =
     (let (b, s') = observe s (ac now lck n m s) in (map_option (\<lambda>_. True) b, s'))"

fun mm_spec :: "mm_op \<Rightarrow> addr set \<Rightarrow> bool option \<times> addr set" where
  "mm_spec (MAdd _ n) A = (Some (n \<notin> A), insert n A)"
| "mm_spec (MRemove n) A = (Some (n \<in> A), A - {n})"
| "mm_spec (MReplace x y) A =
     (Some (x \<in> A \<and> y \<notin> A), if x \<in> A \<and> y \<notin> A then insert y (A - {x}) else A)"
| "mm_spec (MAccess _ _ _ _) A = (Some True, A)"

lemma admissible_True [simp]: "admissible st (\<lambda>_ _. True) ops a"
  by (induction ops arbitrary: a) auto

lemma mm_spec_defined: "None \<notin> set (fst (run mm_spec ops A))"
proof (induction ops arbitrary: A)
  case (Cons x ops)
  have "fst (mm_spec x A) \<noteq> None" by (cases x) auto
  with Cons show ?case by (auto simp: run_Cons_split simp del: run.simps)
qed simp

locale mm_container =
  fixes holds :: "'s \<Rightarrow> addr set \<Rightarrow> bool"
    and add_op :: "u32 \<Rightarrow> addr \<Rightarrow> 's \<Rightarrow> (bool \<times> 's) option"
    and remove_op :: "addr \<Rightarrow> 's \<Rightarrow> (bool \<times> 's) option"
    and replace_op :: "addr \<Rightarrow> addr \<Rightarrow> 's \<Rightarrow> (bool \<times> 's) option"
    and access_op :: "u32 \<Rightarrow> bool \<Rightarrow> addr \<Rightarrow> AccessMode \<Rightarrow> 's \<Rightarrow> (bool \<times> 's) option"
  assumes add_law: "holds s A \<Longrightarrow> \<exists>s'. add_op now n s = Some (n \<notin> A, s') \<and> holds s' (insert n A)"
    and remove_law: "holds s A \<Longrightarrow> \<exists>s'. remove_op n s = Some (n \<in> A, s') \<and> holds s' (A - {n})"
    and replace_law: "holds s A \<Longrightarrow> \<exists>s'. replace_op x y s = Some (x \<in> A \<and> y \<notin> A, s') \<and>
      holds s' (if x \<in> A \<and> y \<notin> A then insert y (A - {x}) else A)"
    and access_law: "holds s A \<Longrightarrow> \<exists>b s'. access_op now lck n m s = Some (b, s') \<and> holds s' A"

sublocale mm_container \<subseteq> simulation holds "mm_step add_op remove_op replace_op access_op" mm_spec
  "\<lambda>_ _. True"
proof
  fix s A x
  assume h: "holds s A"
  let ?step = "mm_step add_op remove_op replace_op access_op"
  have "holds (snd (?step x s)) (snd (mm_spec x A)) \<and> fst (?step x s) = fst (mm_spec x A)"
  proof (cases x)
    case (MAdd now n)
    with add_law [OF h, of now n] show ?thesis by auto
  next
    case (MRemove n)
    with remove_law [OF h, of n] show ?thesis by auto
  next
    case (MReplace a b)
    obtain s' where "replace_op a b s = Some (a \<in> A \<and> b \<notin> A, s')"
      "holds s' (if a \<in> A \<and> b \<notin> A then insert b (A - {a}) else A)"
      using replace_law [OF h, of a b] by blast
    with MReplace show ?thesis by simp
  next
    case (MAccess now lck n m)
    with access_law [OF h, of now lck n m] show ?thesis by auto
  qed
  then show "holds (snd (?step x s)) (snd (mm_spec x A))" "fst (?step x s) = fst (mm_spec x A)"
    by blast+
qed

context mm_container
begin

lemma run_contents:
  assumes "holds s A"
  shows "fst (run (mm_step add_op remove_op replace_op access_op) ops s) = fst (run mm_spec ops A)"
    and "holds (snd (run (mm_step add_op remove_op replace_op access_op) ops s)) (snd (run mm_spec ops A))"
  using run_simulates [OF assms, of ops] by simp_all

lemma never_null:
  "holds s A \<Longrightarrow> None \<notin> set (fst (run (mm_step add_op remove_op replace_op access_op) ops s))"
  using run_contents(1) mm_spec_defined by simp

end

end
