(* ===== verification/MMLru.thy ===== *)
theory MMLru
  imports Refcount DList MMContainer
begin

text \<open>
  The LRU eviction container, \<^verbatim>\<open>cachelib/allocator/MMLru.h\<close> and \<^verbatim>\<open>MMLru-inl.h\<close>: one doubly linked
  list, an insertion point in its tail segment, and two flags of the reference count (tail,
  accessed). The container shares the heap of hooks and of reference counts with its items. A
  result \<^const>\<open>None\<close> of an operation stands for following a null pointer. The clock is an argument,
  as is whether a \<^verbatim>\<open>try_lock\<close> succeeds; what runs under the lock is one function.
\<close>

section \<open>Configuration and state\<close>

text \<open>
  \<open>scaledAge\<close> stands for the floating point product \<^verbatim>\<open>static_cast<uint32_t>(age * lruRefreshRatio)\<close>.
\<close>

record MMLru_Config =
  defaultLruRefreshTime :: u32
  cfgLruRefreshTime :: u32
  scaledAge :: "u32 \<Rightarrow> u32"
  updateOnWrite :: bool
  updateOnRead :: bool
  tryLockUpdate :: bool
  lruInsertionPointSpec :: nat
  mmReconfigureIntervalSecs :: u32

record MMLru =
  hooks :: hooks
  refs :: "addr \<Rightarrow> u32"
  lru :: DList
  insertionPoint :: ptr
  tailSize :: nat
  nextReconfigureTime :: u32
  lruRefreshTime :: u32
  config :: MMLru_Config

definition kLruRefreshTimeCap :: u32 where "kLruRefreshTimeCap = 900"

definition reconfigureAt :: "MMLru_Config \<Rightarrow> u32 \<Rightarrow> u32" where
  "reconfigureAt c now =
     (if mmReconfigureIntervalSecs c = 0 then - 1 else now + mmReconfigureIntervalSecs c)"

definition MMLru_init ::
  "MMLru_Config \<Rightarrow> u32 \<Rightarrow> hooks \<Rightarrow> (addr \<Rightarrow> u32) \<Rightarrow> MMLru" where
  "MMLru_init c now h r =
     \<lparr>hooks = h, refs = r, lru = DList_empty, insertionPoint = None, tailSize = 0,
      nextReconfigureTime = reconfigureAt c now, lruRefreshTime = cfgLruRefreshTime c, config = c\<rparr>"

section \<open>Flags of a node\<close>

abbreviation upd_ref :: "(u32 \<Rightarrow> u32) \<Rightarrow> addr \<Rightarrow> (addr \<Rightarrow> u32) \<Rightarrow> addr \<Rightarrow> u32" where
  "upd_ref f a r \<equiv> r(a := f (r a))"

definition markTail :: "addr \<Rightarrow> (addr \<Rightarrow> u32) \<Rightarrow> addr \<Rightarrow> u32" where
  "markTail a = upd_ref (setFlag kMMFlag0) a"
definition unmarkTail :: "addr \<Rightarrow> (addr \<Rightarrow> u32) \<Rightarrow> addr \<Rightarrow> u32" where
  "unmarkTail a = upd_ref (unSetFlag kMMFlag0) a"
definition isTail :: "(addr \<Rightarrow> u32) \<Rightarrow> addr \<Rightarrow> bool" where
  "isTail r a = isFlagSet kMMFlag0 (r a)"
definition markAccessed :: "addr \<Rightarrow> (addr \<Rightarrow> u32) \<Rightarrow> addr \<Rightarrow> u32" where
  "markAccessed a = upd_ref (setFlag kMMFlag1) a"
definition unmarkAccessed :: "addr \<Rightarrow> (addr \<Rightarrow> u32) \<Rightarrow> addr \<Rightarrow> u32" where
  "unmarkAccessed a = upd_ref (unSetFlag kMMFlag1) a"
definition isAccessed :: "(addr \<Rightarrow> u32) \<Rightarrow> addr \<Rightarrow> bool" where
  "isAccessed r a = isFlagSet kMMFlag1 (r a)"

abbreviation inMM :: "(addr \<Rightarrow> u32) \<Rightarrow> addr \<Rightarrow> bool" where
  "inMM r a \<equiv> isInMMContainer (r a)"

section \<open>The insertion point\<close>

text \<open>The two loops of \<^verbatim>\<open>updateLruInsertionPoint\<close>.\<close>

function growTail ::
  "nat \<Rightarrow> ptr \<Rightarrow> hooks \<Rightarrow> ptr \<Rightarrow> nat \<Rightarrow> (addr \<Rightarrow> u32) \<Rightarrow> (ptr \<times> nat \<times> (addr \<Rightarrow> u32)) option" where
  "growTail expectedSize head h cur ts r =
     (if ts < expectedSize \<and> cur \<noteq> head then
        do { c \<leftarrow> cur;
             p \<leftarrow> getPrev h c;
             growTail expectedSize head h (Some p) (ts + 1) (markTail p r) }
      else Some (cur, ts, r))"
  by pat_completeness auto
termination by (relation "measure (\<lambda>(e, _, _, _, ts, _). e - ts)") auto

function shrinkTail ::
  "nat \<Rightarrow> ptr \<Rightarrow> hooks \<Rightarrow> ptr \<Rightarrow> nat \<Rightarrow> (addr \<Rightarrow> u32) \<Rightarrow> (ptr \<times> nat \<times> (addr \<Rightarrow> u32)) option" where
  "shrinkTail expectedSize tail h cur ts r =
     (if ts > expectedSize \<and> cur \<noteq> tail then
        do { c \<leftarrow> cur;
             shrinkTail expectedSize tail h (getNext h c) (ts - 1) (unmarkTail c r) }
      else Some (cur, ts, r))"
  by pat_completeness auto
termination by (relation "measure (\<lambda>(_, _, _, _, ts, _). ts)") auto

declare growTail.simps [simp del] shrinkTail.simps [simp del]

definition updateLruInsertionPoint :: "MMLru \<Rightarrow> MMLru option" where
  "updateLruInsertionPoint c =
     (if lruInsertionPointSpec (config c) = 0 then Some c
      else
        let c = (if insertionPoint c = None then
                   case dl_tail (lru c) of
                     None \<Rightarrow> c\<lparr>insertionPoint := None, tailSize := 0\<rparr>
                   | Some t \<Rightarrow> c\<lparr>insertionPoint := Some t, tailSize := 0 + 1,
                                 refs := markTail t (refs c)\<rparr>
                 else c)
        in if dl_size (lru c) \<le> 1 then Some c
           else
             let expectedSize = dl_size (lru c) div 2 ^ lruInsertionPointSpec (config c)
             in do { (cur, ts, r) \<leftarrow> growTail expectedSize (dl_head (lru c)) (hooks c)
                       (insertionPoint c) (tailSize c) (refs c);
                     (cur, ts, r) \<leftarrow> shrinkTail expectedSize (dl_tail (lru c)) (hooks c) cur ts r;
                     Some (c\<lparr>insertionPoint := cur, tailSize := ts, refs := r\<rparr>) })"

definition ensureNotInsertionPoint :: "addr \<Rightarrow> MMLru \<Rightarrow> MMLru" where
  "ensureNotInsertionPoint node c =
     (if insertionPoint c = Some node then
        case getPrev (hooks c) node of
          None \<Rightarrow> c\<lparr>insertionPoint := None\<rparr>
        | Some p \<Rightarrow> c\<lparr>insertionPoint := Some p, tailSize := tailSize c + 1,
                       refs := markTail p (refs c)\<rparr>
      else c)"

section \<open>Operations\<close>

text \<open>The age projected once \<open>projectedLength\<close> items have left the tail: walk towards the head.\<close>

primrec walkPrev :: "nat \<Rightarrow> hooks \<Rightarrow> ptr \<Rightarrow> ptr" where
  "walkPrev 0 h node = node"
| "walkPrev (Suc n) h node =
     (case node of None \<Rightarrow> None | Some a \<Rightarrow> walkPrev n h (getPrev h a))"

text \<open>The oldest and the projected age of the warm queue; the other queues of the result are zero.\<close>

definition getEvictionAgeStatLocked :: "MMLru \<Rightarrow> u32 \<Rightarrow> nat \<Rightarrow> u32 \<times> u32" where
  "getEvictionAgeStatLocked c currTime projectedLength =
     (let oldestElementAge = (case dl_tail (lru c) of
                                None \<Rightarrow> 0 | Some t \<Rightarrow> currTime - getUpdateTime (hooks c) t)
      in (oldestElementAge,
          case walkPrev projectedLength (hooks c) (dl_tail (lru c)) of
            Some a \<Rightarrow> currTime - getUpdateTime (hooks c) a
          | None \<Rightarrow> oldestElementAge))"

definition reconfigureLocked :: "u32 \<Rightarrow> MMLru \<Rightarrow> MMLru" where
  "reconfigureLocked currTime c =
     (if currTime < nextReconfigureTime c then c
      else
        let c = c\<lparr>nextReconfigureTime := currTime + mmReconfigureIntervalSecs (config c)\<rparr>;
            oldest = fst (getEvictionAgeStatLocked c currTime 0)
        in c\<lparr>lruRefreshTime :=
               min (max (defaultLruRefreshTime (config c)) (scaledAge (config c) oldest))
                   kLruRefreshTimeCap\<rparr>)"

definition add :: "u32 \<Rightarrow> addr \<Rightarrow> MMLru \<Rightarrow> (bool \<times> MMLru) option" where
  "add currTime node c =
     (if inMM (refs c) node then Some (False, c)
      else
        let (h, l) = (case insertionPoint c of
                        None \<Rightarrow> linkAtHead node (hooks c, lru c)
                      | Some ip \<Rightarrow>
                          if lruInsertionPointSpec (config c) = 0
                          then linkAtHead node (hooks c, lru c)
                          else insertBefore ip node (hooks c, lru c));
            r = upd_ref markInMMContainer node (refs c);
            h = setUpdateTime node currTime h;
            r = unmarkAccessed node r
        in do { c \<leftarrow> updateLruInsertionPoint (c\<lparr>hooks := h, lru := l, refs := r\<rparr>);
                Some (True, c) })"

definition recordAccess_locked :: "u32 \<Rightarrow> addr \<Rightarrow> MMLru \<Rightarrow> MMLru option" where
  "recordAccess_locked cur node c =
     (let c = reconfigureLocked cur c;
          c = ensureNotInsertionPoint node c;
          c = (if inMM (refs c) node then
                 let (h, l) = moveToHead node (hooks c, lru c)
                 in c\<lparr>hooks := setUpdateTime node cur h, lru := l\<rparr>
               else c)
      in if isTail (refs c) node then
           updateLruInsertionPoint
             (c\<lparr>refs := unmarkTail node (refs c), tailSize := tailSize c - 1\<rparr>)
         else Some c)"

definition recordAccess ::
  "u32 \<Rightarrow> bool \<Rightarrow> addr \<Rightarrow> AccessMode \<Rightarrow> MMLru \<Rightarrow> (bool \<times> MMLru) option" where
  "recordAccess cur tryLockSucceeds node mode c =
     (if mode = kWrite \<and> \<not> updateOnWrite (config c) \<or> mode = kRead \<and> \<not> updateOnRead (config c)
      then Some (False, c)
      else if inMM (refs c) node \<and>
              (cur \<ge> getUpdateTime (hooks c) node + lruRefreshTime c \<or> \<not> isAccessed (refs c) node)
      then
        let c = (if \<not> isAccessed (refs c) node then c\<lparr>refs := markAccessed node (refs c)\<rparr> else c)
        in if tryLockUpdate (config c) \<and> \<not> tryLockSucceeds then Some (False, c)
           else do { c \<leftarrow> recordAccess_locked cur node c; Some (True, c) }
      else Some (False, c))"

definition removeLocked :: "addr \<Rightarrow> MMLru \<Rightarrow> MMLru option" where
  "removeLocked node c =
     (let c = ensureNotInsertionPoint node c;
          (h, l) = DList.remove node (hooks c, lru c);
          c = c\<lparr>hooks := h, lru := l, refs := unmarkAccessed node (refs c)\<rparr>;
          c = (if isTail (refs c) node
               then c\<lparr>refs := unmarkTail node (refs c), tailSize := tailSize c - 1\<rparr> else c);
          c = c\<lparr>refs := upd_ref unmarkInMMContainer node (refs c)\<rparr>
      in updateLruInsertionPoint c)"

definition remove :: "addr \<Rightarrow> MMLru \<Rightarrow> (bool \<times> MMLru) option" where
  "remove node c =
     (if \<not> inMM (refs c) node then Some (False, c)
      else do { c \<leftarrow> removeLocked node c; Some (True, c) })"

definition remove_iter :: "DListIterator \<Rightarrow> MMLru \<Rightarrow> (DListIterator \<times> MMLru) option" where
  "remove_iter it c =
     do { node \<leftarrow> it_curr it;
          c' \<leftarrow> removeLocked node c;
          Some (iter_inc (hooks c) it, c') }"

definition replace :: "addr \<Rightarrow> addr \<Rightarrow> MMLru \<Rightarrow> bool \<times> MMLru" where
  "replace oldNode newNode c =
     (if \<not> inMM (refs c) oldNode \<or> inMM (refs c) newNode then (False, c)
      else
        let updateTime = getUpdateTime (hooks c) oldNode;
            (h, l) = DList.replace oldNode newNode (hooks c, lru c);
            r = upd_ref unmarkInMMContainer oldNode (refs c);
            r = upd_ref markInMMContainer newNode r;
            h = setUpdateTime newNode updateTime h;
            r = (if isAccessed r oldNode then markAccessed newNode r else unmarkAccessed newNode r);
            r = (if isTail r oldNode then unmarkTail oldNode (markTail newNode r)
                 else unmarkTail newNode r);
            ip = (if insertionPoint c = Some oldNode then Some newNode else insertionPoint c)
        in (True, c\<lparr>hooks := h, lru := l, refs := r, insertionPoint := ip\<rparr>))"

definition getEvictionIterator :: "MMLru \<Rightarrow> DListIterator" where
  "getEvictionIterator c = dl_rbegin (lru c)"

text \<open>The loop of \<^verbatim>\<open>setConfig\<close> that clears the tail segment.\<close>

function clearTail :: "hooks \<Rightarrow> ptr \<Rightarrow> nat \<Rightarrow> (addr \<Rightarrow> u32) \<Rightarrow> (addr \<Rightarrow> u32) option" where
  "clearTail h cur ts r =
     (if ts \<noteq> 0 then do { c \<leftarrow> cur; clearTail h (getNext h c) (ts - 1) (unmarkTail c r) }
      else Some r)"
  by pat_completeness auto
termination by (relation "measure (\<lambda>(_, _, ts, _). ts)") auto

declare clearTail.simps [simp del]

definition setConfig :: "u32 \<Rightarrow> MMLru_Config \<Rightarrow> MMLru \<Rightarrow> MMLru option" where
  "setConfig now newConfig c =
     do { c \<leftarrow> (let c = c\<lparr>config := newConfig\<rparr>
               in if lruInsertionPointSpec newConfig = 0 \<and> insertionPoint c \<noteq> None
                  then do { r \<leftarrow> clearTail (hooks c) (insertionPoint c) (tailSize c) (refs c);
                            Some (c\<lparr>refs := r, tailSize := 0, insertionPoint := None\<rparr>) }
                  else Some c);
          Some (c\<lparr>lruRefreshTime := cfgLruRefreshTime newConfig,
                   nextReconfigureTime := reconfigureAt newConfig now\<rparr>) }"

definition getStats :: "MMLru \<Rightarrow> nat \<times> u32 \<times> u32" where
  "getStats c =
     (dl_size (lru c), case dl_tail (lru c) of None \<Rightarrow> 0 | Some t \<Rightarrow> getUpdateTime (hooks c) t,
      lruRefreshTime c)"

section \<open>Flags after an update\<close>

lemma flags_of_marks [simp]:
  "isFlagSet g (setFlag f v) \<longleftrightarrow> g = f \<or> isFlagSet g v"
  "isFlagSet g (unSetFlag f v) \<longleftrightarrow> g \<noteq> f \<and> isFlagSet g v"
  "isFlagSet g (markInMMContainer v) \<longleftrightarrow> isFlagSet g v"
  "isFlagSet g (unmarkInMMContainer v) \<longleftrightarrow> isFlagSet g v"
  "isInMMContainer (setFlag f v) \<longleftrightarrow> isInMMContainer v"
  "isInMMContainer (unSetFlag f v) \<longleftrightarrow> isInMMContainer v"
  "isInMMContainer (markInMMContainer v)"
  "\<not> isInMMContainer (unmarkInMMContainer v)"
  by (auto simp: ref_bits admin_bit_neq_flag_bit)

lemma tail_flags [simp]:
  "isTail (markTail a r) x \<longleftrightarrow> x = a \<or> isTail r x"
  "isTail (unmarkTail a r) x \<longleftrightarrow> x \<noteq> a \<and> isTail r x"
  "isTail (markAccessed a r) x = isTail r x"
  "isTail (unmarkAccessed a r) x = isTail r x"
  "isTail (upd_ref markInMMContainer a r) x = isTail r x"
  "isTail (upd_ref unmarkInMMContainer a r) x = isTail r x"
  by (auto simp: isTail_def markTail_def unmarkTail_def markAccessed_def unmarkAccessed_def)

lemma inMM_flags [simp]:
  "inMM (markTail a r) x = inMM r x"
  "inMM (unmarkTail a r) x = inMM r x"
  "inMM (markAccessed a r) x = inMM r x"
  "inMM (unmarkAccessed a r) x = inMM r x"
  by (auto simp: markTail_def unmarkTail_def markAccessed_def unmarkAccessed_def)

section \<open>Invariant\<close>

text \<open>
  The nodes of the list are exactly those flagged as linked; the last \<open>tailSize\<close> of them are exactly
  those flagged as tail, and the insertion point is the first of these.
\<close>

definition tail_segment :: "MMLru \<Rightarrow> addr list \<Rightarrow> addr list" where
  "tail_segment c xs = drop (length xs - tailSize c) xs"

definition lru_ok :: "MMLru \<Rightarrow> addr list \<Rightarrow> bool" where
  "lru_ok c xs \<longleftrightarrow>
     dlist_rep (hooks c, lru c) xs \<and>
     (\<forall>a. inMM (refs c) a \<longleftrightarrow> a \<in> set xs) \<and>
     tailSize c \<le> length xs \<and>
     (\<forall>a. isTail (refs c) a \<longleftrightarrow> a \<in> set (tail_segment c xs)) \<and>
     insertionPoint c = first_of (tail_segment c xs) None \<and>
     (lruInsertionPointSpec (config c) = 0 \<longrightarrow> tailSize c = 0)"

text \<open>The tail never takes more than half of a list of two or more nodes.\<close>

definition lru_inv :: "MMLru \<Rightarrow> addr list \<Rightarrow> bool" where
  "lru_inv c xs \<longleftrightarrow> lru_ok c xs \<and> tailSize c \<le> max 1 (length xs div 2)"

definition wanted_tail :: "nat \<Rightarrow> nat \<Rightarrow> nat" where
  "wanted_tail spec n = (if spec = 0 \<or> n = 0 then 0 else max 1 (n div 2 ^ spec))"

lemma growTail_correct:
  assumes "dlist_rep (h, l) xs" and "0 < ts" and "ts \<le> length xs"
    and "cur = Some (xs ! (length xs - ts))" and "e < length xs"
    and "\<And>a. isTail r a \<longleftrightarrow> a \<in> set (drop (length xs - ts) xs)"
  shows "\<exists>r'. growTail e (dl_head l) h cur ts r =
      Some (Some (xs ! (length xs - max ts e)), max ts e, r') \<and>
    (\<forall>a. isTail r' a \<longleftrightarrow> a \<in> set (drop (length xs - max ts e) xs)) \<and>
    (\<forall>a. inMM r' a = inMM r a)"
  using assms(2-4,6)
proof (induction "e - ts" arbitrary: ts cur r)
  case 0
  then show ?case by (subst growTail.simps) (auto simp: max_def)
next
  case (Suc k)
  let ?i = "length xs - ts"
  have lt: "ts < e" using Suc.hyps(2) by simp
  with assms(5) have i: "0 < ?i" "?i < length xs" using Suc.prems(1) by auto
  have "xs \<noteq> []" using i by auto
  then have hd: "dl_head l = Some (xs ! 0)"
    using assms(1) by (cases xs) (auto simp: dlist_rep_def)
  have "cur \<noteq> dl_head l"
    using i dlist_repD(1) [OF assms(1)] nth_eq_iff_index_eq [of xs ?i 0] \<open>xs \<noteq> []\<close>
    by (auto simp: hd Suc.prems(3))
  moreover have p: "getPrev h (xs ! ?i) = Some (xs ! (?i - 1))"
    using linked_nth(2) [of h None xs None ?i] assms(1) i by (simp add: dlist_rep_def getPrev_def)
  ultimately have step: "growTail e (dl_head l) h cur ts r =
      growTail e (dl_head l) h (Some (xs ! (length xs - (ts + 1)))) (ts + 1)
        (markTail (xs ! (length xs - (ts + 1))) r)"
    using lt by (subst growTail.simps) (simp add: Suc.prems(3))
  have d: "drop (length xs - (ts + 1)) xs = xs ! (length xs - (ts + 1)) # drop ?i xs"
    using i by (metis (no_types, lifting) Cons_nth_drop_Suc Suc_diff_Suc Suc_eq_plus1 diff_less
        lt less_imp_diff_less assms(5) zero_less_Suc order.strict_trans zero_less_diff)
  have "max (ts + 1) e = max ts e" using lt by simp
  then show ?case
    using Suc.hyps(1) [of "ts + 1" "Some (xs ! (length xs - (ts + 1)))"
        "markTail (xs ! (length xs - (ts + 1))) r"] Suc.hyps(2) Suc.prems(4) lt assms(5) d
    by (simp add: step)
qed

lemma shrinkTail_correct:
  assumes "dlist_rep (h, l) xs" and "0 < ts" and "ts \<le> length xs"
    and "cur = Some (xs ! (length xs - ts))"
    and "\<And>a. isTail r a \<longleftrightarrow> a \<in> set (drop (length xs - ts) xs)"
  shows "\<exists>r'. shrinkTail e (dl_tail l) h cur ts r =
      Some (Some (xs ! (length xs - min ts (max 1 e))), min ts (max 1 e), r') \<and>
    (\<forall>a. isTail r' a \<longleftrightarrow> a \<in> set (drop (length xs - min ts (max 1 e)) xs)) \<and>
    (\<forall>a. inMM r' a = inMM r a)"
  using assms(2-5)
proof (induction ts arbitrary: cur r)
  case 0
  then show ?case by simp
next
  case (Suc ts)
  let ?i = "length xs - Suc ts"
  have i: "?i < length xs" using Suc.prems by auto
  then have "xs \<noteq> []" by auto
  then have tl: "dl_tail l = Some (xs ! (length xs - 1))"
    using assms(1) by (auto simp: dlist_rep_def last_of_def last_conv_nth)
  have at: "cur = dl_tail l \<longleftrightarrow> ts = 0"
    using i dlist_repD(1) [OF assms(1)] nth_eq_iff_index_eq [of xs ?i "length xs - 1"] \<open>xs \<noteq> []\<close>
      Suc.prems(2)
    by (auto simp: tl Suc.prems(3))
  show ?case
  proof (cases "Suc ts > e \<and> ts \<noteq> 0")
    case False
    then have "min (Suc ts) (max 1 e) = Suc ts" by auto
    with False at Suc.prems show ?thesis by (subst shrinkTail.simps) auto
  next
    case True
    have n: "getNext h (xs ! ?i) = Some (xs ! (length xs - ts))"
      using linked_nth(1) [of h None xs None ?i] assms(1) i True Suc.prems(2)
      by (auto simp: dlist_rep_def getNext_def Suc_diff_Suc)
    have d: "drop ?i xs = xs ! ?i # drop (length xs - ts) xs"
      using i Suc.prems(2) by (metis Cons_nth_drop_Suc Suc_diff_Suc Suc_le_eq)
    have "distinct (drop ?i xs)" using dlist_repD(1) [OF assms(1)] by simp
    then have ni: "xs ! ?i \<notin> set (drop (length xs - ts) xs)" by (simp add: d)
    have "shrinkTail e (dl_tail l) h cur (Suc ts) r =
        shrinkTail e (dl_tail l) h (Some (xs ! (length xs - ts))) ts (unmarkTail (xs ! ?i) r)"
      using True at by (subst shrinkTail.simps) (simp add: Suc.prems(3) n)
    moreover have "min (Suc ts) (max 1 e) = min ts (max 1 e)" using True by auto
    ultimately show ?thesis
      using Suc.IH [of "Some (xs ! (length xs - ts))" "unmarkTail (xs ! ?i) r"] True Suc.prems(2,4) d ni
      by auto
  qed
qed

lemma div_pow_half: "0 < spec \<Longrightarrow> (n::nat) div 2 ^ spec \<le> n div 2"
proof -
  assume "0 < spec"
  then have "(2::nat) \<le> 2 ^ spec" using power_increasing [of 1 spec "2::nat"] by simp
  then show ?thesis by (simp add: div_le_mono2)
qed

lemma wanted_tail_half: "wanted_tail spec n \<le> max 1 (n div 2)"
  using div_pow_half [of spec n] by (auto simp: wanted_tail_def)

lemma tail_segment_simps [simp]:
  "tail_segment (c\<lparr>hooks := h\<rparr>) xs = tail_segment c xs"
  "tail_segment (c\<lparr>refs := r\<rparr>) xs = tail_segment c xs"
  "tail_segment (c\<lparr>lru := l\<rparr>) xs = tail_segment c xs"
  "tail_segment (c\<lparr>insertionPoint := p\<rparr>) xs = tail_segment c xs"
  by (simp_all add: tail_segment_def)

definition same_list :: "MMLru \<Rightarrow> MMLru \<Rightarrow> bool" where
  "same_list c c' \<longleftrightarrow> hooks c' = hooks c \<and> lru c' = lru c \<and> config c' = config c \<and>
     nextReconfigureTime c' = nextReconfigureTime c \<and> lruRefreshTime c' = lruRefreshTime c"

lemma updateLruInsertionPoint_set:
  assumes ok: "lru_ok c xs" and "lruInsertionPointSpec (config c) \<noteq> 0" and "0 < tailSize c"
  shows "\<exists>c'. updateLruInsertionPoint c = Some c' \<and> lru_ok c' xs \<and> same_list c c' \<and>
    tailSize c' = wanted_tail (lruInsertionPointSpec (config c)) (length xs)"
proof -
  let ?n = "length xs" and ?spec = "lruInsertionPointSpec (config c)"
  have ts: "tailSize c \<le> ?n" and rep: "dlist_rep (hooks c, lru c) xs"
    and tl: "\<And>a. isTail (refs c) a \<longleftrightarrow> a \<in> set (drop (?n - tailSize c) xs)"
    using ok by (auto simp: lru_ok_def tail_segment_def)
  have seg: "drop (?n - tailSize c) xs = xs ! (?n - tailSize c) # drop (Suc (?n - tailSize c)) xs"
    using ts assms(3) by (intro Cons_nth_drop_Suc [symmetric]) auto
  then have ip: "insertionPoint c = Some (xs ! (?n - tailSize c))"
    using ok by (simp add: lru_ok_def tail_segment_def)
  have sz: "dl_size (lru c) = ?n" using dlist_repD(5) [OF rep] by simp
  show ?thesis
  proof (cases "?n \<le> 1")
    case True
    with ts assms(3) have "?n = 1" "tailSize c = 1" by auto
    moreover have "(1::nat) div 2 ^ ?spec = 0" using div_pow_half [of ?spec 1] assms(2) by simp
    ultimately show ?thesis
      using assms ok ip sz
      by (auto simp: updateLruInsertionPoint_def Let_def same_list_def wanted_tail_def)
  next
    case False
    define e where "e = ?n div 2 ^ ?spec"
    have "e \<le> ?n div 2" unfolding e_def using assms(2) by (intro div_pow_half) simp
    with False have e: "e < ?n" by auto
    let ?m = "max (tailSize c) e" and ?w = "wanted_tail ?spec ?n"
    have m: "0 < ?m" "?m \<le> ?n" using assms(3) ts e by auto
    have w: "min ?m (max 1 e) = ?w"
      using assms(2,3) False by (auto simp: wanted_tail_def e_def)
    have w0: "0 < ?w" "?w \<le> ?n"
      using assms(2) False e by (auto simp: wanted_tail_def e_def)
    obtain r1 where g: "growTail e (dl_head (lru c)) (hooks c) (insertionPoint c) (tailSize c) (refs c) =
        Some (Some (xs ! (?n - ?m)), ?m, r1)"
      "\<And>a. isTail r1 a \<longleftrightarrow> a \<in> set (drop (?n - ?m) xs)" "\<And>a. inMM r1 a = inMM (refs c) a"
      using growTail_correct [OF rep assms(3) ts ip e tl] by blast
    obtain r2 where s: "shrinkTail e (dl_tail (lru c)) (hooks c) (Some (xs ! (?n - ?m))) ?m r1 =
        Some (Some (xs ! (?n - ?w)), ?w, r2)"
      "\<And>a. isTail r2 a \<longleftrightarrow> a \<in> set (drop (?n - ?w) xs)" "\<And>a. inMM r2 a = inMM r1 a"
      using shrinkTail_correct [OF rep m refl g(2), of e] unfolding w by blast
    have seg: "drop (?n - ?w) xs = xs ! (?n - ?w) # drop (Suc (?n - ?w)) xs"
      using w0 by (intro Cons_nth_drop_Suc [symmetric]) auto
    have "updateLruInsertionPoint c =
        Some (c\<lparr>insertionPoint := Some (xs ! (?n - ?w)), tailSize := ?w, refs := r2\<rparr>)"
      using assms(2) False ip g(1) s(1) sz
      by (simp add: updateLruInsertionPoint_def Let_def flip: e_def)
    then show ?thesis
      using ok w0 g(3) s(2,3) seg assms(2)
      by (auto simp: lru_ok_def same_list_def tail_segment_def)
  qed
qed

lemma updateLruInsertionPoint_ok:
  assumes ok: "lru_ok c xs"
  shows "\<exists>c'. updateLruInsertionPoint c = Some c' \<and> lru_inv c' xs \<and> same_list c c' \<and>
    tailSize c' = wanted_tail (lruInsertionPointSpec (config c)) (length xs)"
proof -
  let ?spec = "lruInsertionPointSpec (config c)"
  have *: "\<exists>c'. updateLruInsertionPoint c = Some c' \<and> lru_ok c' xs \<and> same_list c c' \<and>
    tailSize c' = wanted_tail ?spec (length xs)"
  proof (cases "?spec = 0 \<or> tailSize c \<noteq> 0")
    case True
    with ok show ?thesis
      using updateLruInsertionPoint_set [OF ok]
      by (auto simp: updateLruInsertionPoint_def lru_ok_def same_list_def wanted_tail_def)
  next
    case False
    then have spec: "?spec \<noteq> 0" and ip: "insertionPoint c = None"
      and nt: "\<And>a. \<not> isTail (refs c) a"
      using ok by (auto simp: lru_ok_def tail_segment_def)
    show ?thesis
    proof (cases xs rule: rev_cases)
      case Nil
      with ok False ip show ?thesis
        by (auto simp: updateLruInsertionPoint_def Let_def lru_ok_def dlist_rep_def
            same_list_def wanted_tail_def tail_segment_def)
    next
      case (snoc ys t)
      then have tl: "dl_tail (lru c) = Some t" using ok by (simp add: lru_ok_def dlist_rep_def)
      let ?c = "c\<lparr>insertionPoint := Some t, tailSize := 1, refs := markTail t (refs c)\<rparr>"
      have "updateLruInsertionPoint c = updateLruInsertionPoint ?c"
        using spec ip tl by (simp add: updateLruInsertionPoint_def Let_def)
      moreover have "lru_ok ?c xs"
        using ok snoc nt spec by (auto simp: lru_ok_def tail_segment_def)
      ultimately show ?thesis
        using updateLruInsertionPoint_set [of ?c xs] spec by (auto simp: same_list_def)
    qed
  qed
  then show ?thesis using wanted_tail_half [of ?spec "length xs"] by (auto simp: lru_inv_def)
qed

section \<open>Taking a node out of the tail segment\<close>

definition leave_tail :: "addr \<Rightarrow> MMLru \<Rightarrow> MMLru" where
  "leave_tail n c =
     (if isTail (refs c) n then c\<lparr>refs := unmarkTail n (refs c), tailSize := tailSize c - 1\<rparr> else c)"

lemma leave_tail_fields [simp]:
  "hooks (leave_tail n c) = hooks c" "lru (leave_tail n c) = lru c" "config (leave_tail n c) = config c"
  "insertionPoint (leave_tail n c) = insertionPoint c"
  "inMM (refs (leave_tail n c)) a = inMM (refs c) a"
  by (auto simp: leave_tail_def)

lemma ensureNotInsertionPoint_fields [simp]:
  "hooks (ensureNotInsertionPoint n c) = hooks c" "lru (ensureNotInsertionPoint n c) = lru c"
  "config (ensureNotInsertionPoint n c) = config c"
  "inMM (refs (ensureNotInsertionPoint n c)) a = inMM (refs c) a"
  by (auto simp: ensureNotInsertionPoint_def split: option.splits)

lemma drop_middle:
  "k \<le> length bs \<Longrightarrow> drop (length (as @ n # bs) - k) (as @ n # bs) = drop (length bs - k) bs"
  "length bs < k \<Longrightarrow> k \<le> length (as @ n # bs) \<Longrightarrow>
   drop (length (as @ n # bs) - k) (as @ n # bs) = drop (length as + 1 + length bs - k) as @ n # bs"
  by (auto simp: drop_Cons' Suc_diff_le)

lemma drop_without:
  "k \<le> length bs \<Longrightarrow> drop (length (as @ bs) - k) (as @ bs) = drop (length bs - k) bs"
  "length bs \<le> k \<Longrightarrow> k \<le> length (as @ bs) \<Longrightarrow>
   drop (length (as @ bs) - k) (as @ bs) = drop (length as + length bs - k) as @ bs"
  by auto

lemma leave_tail_correct:
  assumes inv: "lru_inv c (as @ n # bs)"
  defines "c2 \<equiv> leave_tail n (ensureNotInsertionPoint n c)"
  shows "tailSize c2 \<le> length (as @ bs) \<and>
    (\<forall>a. isTail (refs c2) a \<longleftrightarrow> a \<in> set (drop (length (as @ bs) - tailSize c2) (as @ bs))) \<and>
    insertionPoint c2 = first_of (drop (length (as @ bs) - tailSize c2) (as @ bs)) None \<and>
    (lruInsertionPointSpec (config c) = 0 \<longrightarrow> tailSize c2 = 0) \<and>
    (\<not> isTail (refs (ensureNotInsertionPoint n c)) n \<longrightarrow> c2 = c)"
proof -
  let ?k = "tailSize c" and ?xs = "as @ n # bs"
  have rep: "dlist_rep (hooks c, lru c) ?xs" using inv by (simp add: lru_inv_def lru_ok_def)
  then have d: "distinct ?xs" by (rule dlist_repD)
  have k: "?k \<le> length ?xs" "?k \<le> max 1 (length ?xs div 2)"
    and tl: "\<And>a. isTail (refs c) a \<longleftrightarrow> a \<in> set (drop (length ?xs - ?k) ?xs)"
    and ip: "insertionPoint c = first_of (drop (length ?xs - ?k) ?xs) None"
    and spec: "lruInsertionPointSpec (config c) = 0 \<longrightarrow> ?k = 0"
    using inv by (auto simp: lru_inv_def lru_ok_def tail_segment_def)
  have prev: "getPrev (hooks c) n = last_of None as"
    using rep by (simp add: dlist_rep_def linked_append getPrev_def)
  consider (out) "?k \<le> length bs" | (inner) "Suc (length bs) < ?k" | (point) "?k = Suc (length bs)"
    by linarith
  then show ?thesis
  proof cases
    case out
    note seg = drop_middle(1) [OF out, of as n] and seg' = drop_without(1) [OF out, of as]
    have "n \<notin> set bs" using d by auto
    then have "n \<notin> set (drop (length bs - ?k) bs)" by (meson in_set_dropD)
    then have "insertionPoint c \<noteq> Some n" and nt: "\<not> isTail (refs c) n"
      using ip tl first_of_in unfolding seg by auto
    then have "ensureNotInsertionPoint n c = c" by (simp add: ensureNotInsertionPoint_def)
    with nt have "c2 = c" by (simp add: c2_def leave_tail_def)
    with out tl ip spec show ?thesis unfolding seg seg' by auto
  next
    case inner
    let ?pre = "drop (length as + 1 + length bs - ?k) as"
    have seg: "drop (length ?xs - ?k) ?xs = ?pre @ n # bs"
      using inner k(1) by (intro drop_middle(2)) auto
    have pre: "?pre \<noteq> []" using inner k(1) by simp
    have "first_of ?pre (Some n) \<noteq> Some n"
      using pre d by (cases ?pre) (auto dest!: arg_cong [of _ _ set] dest: in_set_dropD)
    then have "ensureNotInsertionPoint n c = c" using ip unfolding seg
      by (simp add: ensureNotInsertionPoint_def)
    moreover have "isTail (refs c) n" using tl unfolding seg by simp
    ultimately have c2: "c2 = c\<lparr>refs := unmarkTail n (refs c), tailSize := ?k - 1\<rparr>"
      by (simp add: c2_def leave_tail_def)
    have seg': "drop (length (as @ bs) - (?k - 1)) (as @ bs) = ?pre @ bs"
      using inner k(1) by (subst drop_without(2)) auto
    have "n \<notin> set (?pre @ bs)" using d by (auto dest: in_set_dropD)
    then have t: "\<forall>a. isTail (refs c2) a \<longleftrightarrow> a \<in> set (?pre @ bs)"
      using tl unfolding c2 seg by auto
    have i: "insertionPoint c2 = first_of (?pre @ bs) None"
      using ip first_of_neq_Nil [OF pre, of "Some n"] first_of_neq_Nil [OF pre, of "first_of bs None"]
      unfolding c2 seg by simp
    have ts: "tailSize c2 = ?k - 1" unfolding c2 by simp
    show ?thesis
      unfolding ts seg' using t i spec k(1) \<open>isTail (refs c) n\<close> \<open>ensureNotInsertionPoint n c = c\<close>
      by (simp only:) simp
  next
    case point
    have seg: "drop (length ?xs - ?k) ?xs = n # bs"
      using point by (subst drop_middle(2)) auto
    have ipn: "insertionPoint c = Some n" using ip unfolding seg by simp
    show ?thesis
    proof (cases as rule: rev_cases)
      case Nil
      with k point have "bs = []" by (cases bs) auto
      with Nil point ipn tl prev spec seg show ?thesis
        by (auto simp: c2_def leave_tail_def ensureNotInsertionPoint_def)
    next
      case (snoc as' p)
      have e: "ensureNotInsertionPoint n c =
          c\<lparr>insertionPoint := Some p, tailSize := ?k + 1, refs := markTail p (refs c)\<rparr>"
        using ipn prev snoc by (simp add: ensureNotInsertionPoint_def)
      have tn: "isTail (refs (ensureNotInsertionPoint n c)) n" using tl unfolding e seg by simp
      then have c2: "c2 = c\<lparr>insertionPoint := Some p, tailSize := ?k,
          refs := unmarkTail n (markTail p (refs c))\<rparr>"
        unfolding c2_def leave_tail_def e by simp
      have seg': "drop (length (as @ bs) - ?k) (as @ bs) = p # bs"
        using point snoc by (subst drop_without(2)) auto
      have "n \<notin> set (p # bs)" using d snoc by auto
      then have t: "\<forall>a. isTail (refs c2) a \<longleftrightarrow> a \<in> set (p # bs)"
        using tl unfolding c2 seg by auto
      have ts: "tailSize c2 = ?k" and i: "insertionPoint c2 = Some p" unfolding c2 by simp_all
      show ?thesis
        unfolding ts seg' using t i spec point snoc tn by simp
    qed
  qed
qed

section \<open>Each operation keeps the invariant\<close>

lemma lru_inv_rep: "lru_inv c xs \<Longrightarrow> dlist_rep (hooks c, lru c) xs"
  by (simp add: lru_inv_def lru_ok_def)

lemma lru_inv_inMM: "lru_inv c xs \<Longrightarrow> inMM (refs c) a \<longleftrightarrow> a \<in> set xs"
  by (simp add: lru_inv_def lru_ok_def)

lemma lru_inv_distinct: "lru_inv c xs \<Longrightarrow> distinct xs"
  using lru_inv_rep dlist_repD(1) by blast

lemma removeLocked_ok:
  assumes inv: "lru_inv c (as @ n # bs)"
  shows "\<exists>c'. removeLocked n c = Some c' \<and> lru_inv c' (as @ bs) \<and> config c' = config c \<and>
    tailSize c' = wanted_tail (lruInsertionPointSpec (config c)) (length (as @ bs))"
proof -
  let ?c1 = "ensureNotInsertionPoint n c"
  define c2 where "c2 = leave_tail n ?c1"
  obtain h l where hl: "DList.remove n (hooks c, lru c) = (h, l)" by fastforce
  define c4 where "c4 = c2\<lparr>hooks := h, lru := l,
    refs := upd_ref unmarkInMMContainer n
      (if isTail (refs ?c1) n then unmarkTail n (unmarkAccessed n (refs ?c1))
       else unmarkAccessed n (refs ?c1))\<rparr>"
  have eq: "removeLocked n c = updateLruInsertionPoint c4"
    by (simp add: removeLocked_def Let_def hl c4_def c2_def leave_tail_def) (cases ?c1, simp)
  have nd: "n \<notin> set (as @ bs)" using lru_inv_distinct [OF inv] by auto
  have "dlist_rep (h, l) (as @ bs)" using remove_rep(1) [OF lru_inv_rep [OF inv]] by (simp add: hl)
  moreover have "inMM (refs c4) a \<longleftrightarrow> a \<in> set (as @ bs)" for a
    using lru_inv_inMM [OF inv, of a] nd by (auto simp: c4_def)
  moreover have "isTail (refs c4) a \<longleftrightarrow> isTail (refs c2) a" for a
    by (auto simp: c4_def c2_def leave_tail_def)
  ultimately have "lru_ok c4 (as @ bs)"
    using leave_tail_correct [OF inv] unfolding lru_ok_def tail_segment_def
    by (auto simp: c4_def simp flip: c2_def) (simp_all add: c2_def)
  from updateLruInsertionPoint_ok [OF this] show ?thesis
    unfolding eq by (auto simp: c4_def c2_def same_list_def)
qed

lemma recordAccess_locked_ok:
  assumes inv: "lru_inv c (as @ n # bs)"
  shows "\<exists>c'. recordAccess_locked now n c = Some c' \<and> lru_inv c' (n # as @ bs) \<and>
    config c' = config c \<and> getUpdateTime (hooks c') n = now"
proof -
  define c0 where "c0 = reconfigureLocked now c"
  have c0: "hooks c0 = hooks c" "lru c0 = lru c" "refs c0 = refs c" "config c0 = config c"
    "insertionPoint c0 = insertionPoint c" "tailSize c0 = tailSize c"
    by (simp_all add: c0_def reconfigureLocked_def Let_def)
  have inv0: "lru_inv c0 (as @ n # bs)"
    using inv by (simp add: lru_inv_def lru_ok_def tail_segment_def c0)
  let ?c1 = "ensureNotInsertionPoint n c0"
  define c2 where "c2 = leave_tail n ?c1"
  obtain h l where hl: "moveToHead n (hooks c, lru c) = (h, l)" by fastforce
  define c3 where "c3 = c2\<lparr>hooks := setUpdateTime n now h, lru := l\<rparr>"
  have mm: "inMM (refs c0) n" using lru_inv_inMM [OF inv0] by simp
  have eq: "recordAccess_locked now n c =
      (if isTail (refs ?c1) n then updateLruInsertionPoint c3 else Some c3)"
    using mm hl by (simp add: recordAccess_locked_def Let_def c3_def c2_def
        leave_tail_def c0 flip: c0_def) (cases ?c1, simp)
  have t: "getUpdateTime (hooks c3) n = now" by (simp add: c3_def getUpdateTime_def hook_simps)
  have rep: "dlist_rep (hooks c3, lru c3) (n # as @ bs)"
    using moveToHead_rep [OF lru_inv_rep [OF inv]] by (simp add: hl c3_def)
  have mm3: "inMM (refs c3) a \<longleftrightarrow> a \<in> set (n # as @ bs)" for a
    using lru_inv_inMM [OF inv0, of a] by (auto simp: c3_def c2_def)
  note lt = leave_tail_correct [OF inv0, folded c2_def]
  have seg: "tail_segment c3 (n # as @ bs) = drop (length (as @ bs) - tailSize c2) (as @ bs)"
    using lt by (simp add: tail_segment_def c3_def Suc_diff_le)
  have ok: "lru_ok c3 (n # as @ bs)"
    unfolding lru_ok_def seg using rep mm3 lt by (auto simp: c3_def) (simp_all add: c2_def)
  show ?thesis
  proof (cases "isTail (refs ?c1) n")
    case True
    with updateLruInsertionPoint_ok [OF ok] t show ?thesis
      unfolding eq by (auto simp: same_list_def c3_def c2_def c0)
  next
    case False
    with lt have "c2 = c0" by blast
    with ok inv0 have "lru_inv c3 (n # as @ bs)" by (simp add: lru_inv_def c3_def)
    with False t show ?thesis unfolding eq by (simp add: c3_def c2_def c0)
  qed
qed

text \<open>Where a new node goes: in front of the tail segment, or to the head when there is none.\<close>

definition lru_insert :: "nat \<Rightarrow> addr \<Rightarrow> addr list \<Rightarrow> addr list" where
  "lru_insert ts n xs =
     (if ts = 0 then n # xs else take (length xs - ts) xs @ n # drop (length xs - ts) xs)"

lemma lru_insert_mset [simp]:
  "set (lru_insert ts n xs) = insert n (set xs)" "length (lru_insert ts n xs) = Suc (length xs)"
  by (auto simp: lru_insert_def dest: in_set_takeD in_set_dropD)
     (metis Un_iff append_take_drop_id set_append)

lemma add_ok:
  assumes inv: "lru_inv c xs" and new: "n \<notin> set xs"
  shows "\<exists>c'. add now n c = Some (True, c') \<and> lru_inv c' (lru_insert (tailSize c) n xs) \<and>
    config c' = config c \<and> getUpdateTime (hooks c') n = now \<and>
    tailSize c' = wanted_tail (lruInsertionPointSpec (config c)) (Suc (length xs))"
proof -
  let ?k = "tailSize c" and ?ys = "lru_insert (tailSize c) n xs"
  have k: "?k \<le> length xs" and seg: "insertionPoint c = first_of (drop (length xs - ?k) xs) None"
    and spec: "lruInsertionPointSpec (config c) = 0 \<longrightarrow> ?k = 0"
    and tl: "\<And>a. isTail (refs c) a \<longleftrightarrow> a \<in> set (drop (length xs - ?k) xs)"
    using inv by (auto simp: lru_inv_def lru_ok_def tail_segment_def)
  obtain h l where hl: "(case insertionPoint c of None \<Rightarrow> linkAtHead n (hooks c, lru c)
      | Some ip \<Rightarrow> if lruInsertionPointSpec (config c) = 0 then linkAtHead n (hooks c, lru c)
                  else insertBefore ip n (hooks c, lru c)) = (h, l)" by fastforce
  have rep: "dlist_rep (h, l) ?ys"
  proof (cases "?k = 0")
    case True
    with seg have "insertionPoint c = None" by simp
    with hl True linkAtHead_rep [OF lru_inv_rep [OF inv] new] show ?thesis
      by (simp add: lru_insert_def)
  next
    case False
    then obtain ip rest where d: "drop (length xs - ?k) xs = ip # rest"
      using k by (cases "drop (length xs - ?k) xs") auto
    then have xs: "xs = take (length xs - ?k) xs @ ip # rest" by (metis append_take_drop_id)
    have "dlist_rep (insertBefore ip n (hooks c, lru c)) (take (length xs - ?k) xs @ n # ip # rest)"
      using lru_inv_rep [OF inv] new xs by (intro insertBefore_rep) auto
    with hl False d seg spec show ?thesis by (auto simp: lru_insert_def)
  qed
  define c' where "c' = c\<lparr>hooks := setUpdateTime n now h, lru := l,
    refs := unmarkAccessed n (upd_ref markInMMContainer n (refs c))\<rparr>"
  have "\<not> inMM (refs c) n" using lru_inv_inMM [OF inv] new by simp
  then have eq: "add now n c = do { c \<leftarrow> updateLruInsertionPoint c'; Some (True, c) }"
    using hl by (simp add: add_def Let_def c'_def)
  have s: "tail_segment c' ?ys = drop (length xs - ?k) xs"
    using k by (auto simp: tail_segment_def lru_insert_def c'_def Suc_diff_le)
  have "inMM (refs c') a \<longleftrightarrow> a \<in> set ?ys" for a
    using lru_inv_inMM [OF inv, of a] by (auto simp: c'_def)
  then have "lru_ok c' ?ys"
    unfolding lru_ok_def s using rep k spec seg tl by (auto simp: c'_def)
  from updateLruInsertionPoint_ok [OF this] show ?thesis
    unfolding eq by (auto simp: same_list_def c'_def getUpdateTime_def hook_simps)
qed

lemma replace_map: "distinct (as @ old # bs) \<Longrightarrow>
  as @ new # bs = map (\<lambda>x. if x = old then new else x) (as @ old # bs)"
  by (auto intro!: map_idI [symmetric])

lemma first_of_map: "first_of (map f xs) None = map_option f (first_of xs None)"
  by (cases xs) auto

lemma replace_ok:
  assumes inv: "lru_inv c (as @ old # bs)" and new: "new \<notin> set (as @ old # bs)"
  shows "\<exists>c'. replace old new c = (True, c') \<and> lru_inv c' (as @ new # bs) \<and>
    config c' = config c \<and> getUpdateTime (hooks c') new = getUpdateTime (hooks c) old \<and>
    isAccessed (refs c') new = isAccessed (refs c) old"
proof -
  let ?xs = "as @ old # bs" and ?f = "\<lambda>x. if x = old then new else x"
  obtain h l where hl: "DList.replace old new (hooks c, lru c) = (h, l)" by fastforce
  note mm = lru_inv_inMM [OF inv]
  obtain c' where c': "replace old new c = (True, c')"
    "hooks c' = setUpdateTime new (getUpdateTime (hooks c) old) h" "lru c' = l"
    "tailSize c' = tailSize c" "config c' = config c"
    "insertionPoint c' = map_option ?f (insertionPoint c)"
    "\<And>a. isTail (refs c') a \<longleftrightarrow> (if a = new then isTail (refs c) old else a \<noteq> old \<and> isTail (refs c) a)"
    "\<And>a. inMM (refs c') a \<longleftrightarrow> a = new \<or> a \<noteq> old \<and> inMM (refs c) a"
    "isAccessed (refs c') new = isAccessed (refs c) old"
    using mm new by (cases "insertionPoint c")
      (auto simp: MMLru.replace_def hl Let_def isAccessed_def markAccessed_def unmarkAccessed_def
        markTail_def unmarkTail_def isTail_def)
  have d: "distinct ?xs" by (rule lru_inv_distinct [OF inv])
  have seg: "tail_segment c' (as @ new # bs) = map ?f (tail_segment c ?xs)"
    by (simp only: replace_map [OF d, of new] tail_segment_def c' drop_map length_map)
  have "dlist_rep (hooks c', lru c') (as @ new # bs)"
    using replace_rep(1) [OF lru_inv_rep [OF inv] new] by (simp add: hl c')
  moreover have "isTail (refs c') a \<longleftrightarrow> a \<in> set (map ?f (tail_segment c ?xs))" for a
  proof -
    have "new \<notin> set (tail_segment c ?xs)" using new by (auto simp: tail_segment_def dest: in_set_dropD)
    with inv show ?thesis by (auto simp: c' lru_inv_def lru_ok_def)
  qed
  ultimately have "lru_inv c' (as @ new # bs)"
    using inv d mm unfolding lru_inv_def lru_ok_def seg
    by (auto simp: c' first_of_map simp del: list.map map_append)
  then show ?thesis using c' by (auto simp: getUpdateTime_def hook_simps)
qed

lemma clearTail_correct:
  assumes "linked h p (as @ ys) None" and "ts = length ys" and "cur = first_of ys None"
  shows "\<exists>r'. clearTail h cur ts r = Some r' \<and> (\<forall>a. isTail r' a \<longleftrightarrow> isTail r a \<and> a \<notin> set ys) \<and>
    (\<forall>a. inMM r' a = inMM r a)"
  using assms
proof (induction ys arbitrary: as ts cur r)
  case Nil
  then show ?case by (simp add: clearTail.simps)
next
  case (Cons y ys)
  from Cons.prems(1) have "getNext h y = first_of ys None" by (simp add: getNext_def linked_append)
  with Cons.prems Cons.IH [of "as @ [y]" "length ys" "first_of ys None" "unmarkTail y r"]
  show ?case by (auto simp: clearTail.simps [of h "Some y"])
qed

lemma setConfig_ok:
  assumes inv: "lru_inv c xs"
  shows "\<exists>c'. setConfig now cfg c = Some c' \<and> lru_inv c' xs \<and> config c' = cfg \<and>
    tailSize c' = (if lruInsertionPointSpec cfg = 0 then 0 else tailSize c)"
proof (cases "lruInsertionPointSpec cfg = 0 \<and> insertionPoint c \<noteq> None")
  case True
  have "\<exists>r'. clearTail (hooks c) (insertionPoint c) (tailSize c) (refs c) = Some r' \<and>
    (\<forall>a. isTail r' a \<longleftrightarrow> isTail (refs c) a \<and> a \<notin> set (tail_segment c xs)) \<and>
    (\<forall>a. inMM r' a = inMM (refs c) a)"
    using inv dlist_repD(2) [OF lru_inv_rep [OF inv]]
    by (intro clearTail_correct [where as = "take (length xs - tailSize c) xs" and p = None])
       (auto simp: lru_inv_def lru_ok_def tail_segment_def)
  with True inv show ?thesis
    by (auto simp: setConfig_def Let_def lru_inv_def lru_ok_def tail_segment_def)
next
  case False
  then have "lruInsertionPointSpec cfg = 0 \<Longrightarrow> tailSize c = 0"
    using inv by (cases "drop (length xs - tailSize c) xs")
      (auto simp: lru_inv_def lru_ok_def tail_segment_def)
  with False inv show ?thesis
    by (auto simp: setConfig_def Let_def lru_inv_def lru_ok_def tail_segment_def)
qed

lemma lru_inv_init:
  assumes "\<And>a. \<not> inMM r a" and "\<And>a. \<not> isTail r a"
  shows "lru_inv (MMLru_init cfg now h r) []"
  using assms by (simp add: lru_inv_def lru_ok_def MMLru_init_def tail_segment_def dlist_rep_def
      DList_empty_def)

lemma lru_inv_markAccessed:
  "lru_inv (c\<lparr>refs := markAccessed n (refs c)\<rparr>) xs = lru_inv c xs"
  by (simp add: lru_inv_def lru_ok_def tail_segment_def)

text \<open>The locked part of an access, run after the node has left the container.\<close>

lemma recordAccess_locked_absent:
  assumes inv: "lru_inv c xs" and "n \<notin> set xs"
  shows "recordAccess_locked now n c = Some (reconfigureLocked now c) \<and>
    lru_inv (reconfigureLocked now c) xs"
proof -
  have c0: "hooks (reconfigureLocked now c) = hooks c" "lru (reconfigureLocked now c) = lru c"
    "refs (reconfigureLocked now c) = refs c" "config (reconfigureLocked now c) = config c"
    "insertionPoint (reconfigureLocked now c) = insertionPoint c"
    "tailSize (reconfigureLocked now c) = tailSize c"
    by (simp_all add: reconfigureLocked_def Let_def)
  have seg: "n \<notin> set (tail_segment c xs)" using assms by (auto simp: tail_segment_def dest: in_set_dropD)
  then have "insertionPoint c \<noteq> Some n"
    using inv by (cases "tail_segment c xs") (auto simp: lru_inv_def lru_ok_def)
  then show ?thesis
    using assms seg by (simp add: recordAccess_locked_def Let_def ensureNotInsertionPoint_def c0
        lru_inv_def lru_ok_def tail_segment_def)
qed

section \<open>The container interface\<close>

definition lru_holds :: "MMLru \<Rightarrow> addr set \<Rightarrow> bool" where
  "lru_holds c A \<longleftrightarrow> (\<exists>xs. lru_inv c xs \<and> set xs = A)"

abbreviation lru_step :: "mm_op \<Rightarrow> MMLru \<Rightarrow> bool option \<times> MMLru" where
  "lru_step \<equiv> mm_step add remove (\<lambda>x y c. Some (replace x y c)) recordAccess"

lemma split_node:
  assumes "n \<in> set xs"
  obtains as bs where "xs = as @ n # bs" "remove1 n xs = as @ bs"
  using split_list_first [OF assms] remove1_append by (metis remove1.simps(2))

lemma remove_ok:
  assumes "lru_inv c xs" and "n \<in> set xs"
  shows "\<exists>c'. remove n c = Some (True, c') \<and> lru_inv c' (remove1 n xs) \<and> config c' = config c \<and>
    tailSize c' = wanted_tail (lruInsertionPointSpec (config c)) (length xs - 1)"
proof -
  obtain as bs where xs: "xs = as @ n # bs" "remove1 n xs = as @ bs" using assms(2) by (rule split_node)
  with removeLocked_ok [of c as n bs] assms lru_inv_inMM [OF assms(1), of n] show ?thesis
    by (auto simp: MMLru.remove_def)
qed

lemma recordAccess_ok:
  assumes inv: "lru_inv c xs" and "n \<in> set xs"
    and mode: "if m = kWrite then updateOnWrite (config c) else updateOnRead (config c)"
    and due: "now \<ge> getUpdateTime (hooks c) n + lruRefreshTime c \<or> \<not> isAccessed (refs c) n"
  shows "\<exists>c'. recordAccess now lck n m c = Some (\<not> tryLockUpdate (config c) \<or> lck, c') \<and>
    lru_inv c' (if \<not> tryLockUpdate (config c) \<or> lck then n # remove1 n xs else xs) \<and>
    (if \<not> tryLockUpdate (config c) \<or> lck then getUpdateTime (hooks c') n = now
     else hooks c' = hooks c \<and> isAccessed (refs c') n)"
proof -
  obtain as bs where xs: "xs = as @ n # bs" "remove1 n xs = as @ bs" using assms(2) by (rule split_node)
  define c1 where "c1 = (if \<not> isAccessed (refs c) n then c\<lparr>refs := markAccessed n (refs c)\<rparr> else c)"
  have c1: "lru_inv c1 xs" "config c1 = config c" "hooks c1 = hooks c" "isAccessed (refs c1) n"
    using inv by (auto simp: c1_def lru_inv_markAccessed) (simp add: isAccessed_def markAccessed_def)
  have eq: "recordAccess now lck n m c =
      (if tryLockUpdate (config c) \<and> \<not> lck then Some (False, c1)
       else do { c \<leftarrow> recordAccess_locked now n c1; Some (True, c) })"
    using mode due lru_inv_inMM [OF inv, of n] assms(2) c1(2)
    by (cases m) (auto simp: recordAccess_def Let_def c1_def)
  show ?thesis
    using c1 recordAccess_locked_ok [of c1 as n bs now, folded xs(1)] unfolding eq xs(2) by auto
qed

lemma recordAccess_skip:
  assumes "\<not> (if m = kWrite then updateOnWrite (config c) else updateOnRead (config c)) \<or>
    \<not> inMM (refs c) n \<or>
    now < getUpdateTime (hooks c) n + lruRefreshTime c \<and> isAccessed (refs c) n"
  shows "recordAccess now lck n m c = Some (False, c)"
  using assms by (cases m) (auto simp: recordAccess_def not_le)

interpretation lru: mm_container lru_holds add remove "\<lambda>x y c. Some (replace x y c)" recordAccess
proof
  fix c A n now
  assume "lru_holds c A"
  then obtain xs where xs: "lru_inv c xs" "set xs = A" by (auto simp: lru_holds_def)
  note mm = lru_inv_inMM [OF xs(1)] and d = lru_inv_distinct [OF xs(1)]
  show "\<exists>s'. add now n c = Some (n \<notin> A, s') \<and> lru_holds s' (insert n A)"
  proof (cases "n \<in> A")
    case True
    with xs mm show ?thesis by (auto simp: add_def lru_holds_def insert_absorb)
  next
    case False
    with add_ok [OF xs(1), of n now] xs(2) show ?thesis
      by (auto simp: lru_holds_def intro!: exI [of _ "lru_insert (tailSize c) n xs"])
  qed
  show "\<exists>s'. remove n c = Some (n \<in> A, s') \<and> lru_holds s' (A - {n})"
  proof (cases "n \<in> A")
    case False
    with xs mm show ?thesis by (auto simp: MMLru.remove_def lru_holds_def)
  next
    case True
    with remove_ok [OF xs(1), of n] xs(2) set_remove1_eq [OF d] show ?thesis
      by (auto simp: lru_holds_def intro!: exI [of _ "remove1 n xs"])
  qed
  show "\<exists>s'. Some (replace n y c) = Some (n \<in> A \<and> y \<notin> A, s') \<and>
      lru_holds s' (if n \<in> A \<and> y \<notin> A then insert y (A - {n}) else A)" for y
  proof (cases "n \<in> A \<and> y \<notin> A")
    case False
    with xs mm show ?thesis by (auto simp: MMLru.replace_def lru_holds_def)
  next
    case True
    then obtain as bs where s: "xs = as @ n # bs" using xs(2) by (metis split_list)
    with True xs d have "set (as @ y # bs) = insert y (A - {n})" by auto
    moreover obtain c' where "replace n y c = (True, c')" "lru_inv c' (as @ y # bs)"
      using replace_ok [of c as n bs y] True xs s by auto
    ultimately have "replace n y c = (True, c')" "lru_holds c' (insert y (A - {n}))"
      unfolding lru_holds_def by blast+
    with True show ?thesis by simp
  qed
  show "\<exists>b s'. recordAccess now lck n m c = Some (b, s') \<and> lru_holds s' A" for lck m
  proof (cases "n \<in> A \<and> (if m = kWrite then updateOnWrite (config c) else updateOnRead (config c)) \<and>
      (now \<ge> getUpdateTime (hooks c) n + lruRefreshTime c \<or> \<not> isAccessed (refs c) n)")
    case True
    let ?b = "\<not> tryLockUpdate (config c) \<or> lck" and ?ys = "n # remove1 n xs"
    obtain c' where c': "recordAccess now lck n m c = Some (?b, c')"
      "lru_inv c' (if ?b then ?ys else xs)"
      using True recordAccess_ok [OF xs(1), of n m now lck] xs(2) by blast
    moreover have "set (if ?b then ?ys else xs) = A" using xs(2) d True by auto
    ultimately show ?thesis unfolding lru_holds_def by blast
  next
    case False
    with recordAccess_skip [of m c n now lck] xs mm show ?thesis
      by (auto simp: lru_holds_def not_le)
  qed
qed

section \<open>Order of eviction and ages\<close>

lemma walkPrev_rev:
  assumes "dlist_rep (h, l) xs"
  shows "walkPrev k h (dl_tail l) = (if k < length xs then Some (rev xs ! k) else None)"
proof -
  have "linked h None (ys @ zs) None \<Longrightarrow>
    walkPrev k h (last_of None ys) = (if k < length ys then Some (rev ys ! k) else None)" for ys zs
  proof (induction k arbitrary: ys zs)
    case 0
    then show ?case by (cases ys rule: rev_cases) (auto simp: last_of_def)
  next
    case (Suc k)
    show ?case
    proof (cases ys rule: rev_cases)
      case (snoc us u)
      with Suc.prems have "getPrev h u = last_of None us" by (simp add: getPrev_def linked_append)
      with Suc.IH [of us "u # zs"] Suc.prems snoc show ?thesis by (simp add: last_of_def nth_append)
    qed (simp add: last_of_def)
  qed
  from this [of xs "[]"] dlist_repD [OF assms] show ?thesis by simp
qed

section \<open>Properties\<close>

definition sample_config :: MMLru_Config where
  "sample_config = \<lparr>defaultLruRefreshTime = 60, cfgLruRefreshTime = 60, scaledAge = (\<lambda>a. a div 2),
     updateOnWrite = False, updateOnRead = True, tryLockUpdate = True, lruInsertionPointSpec = 1,
     mmReconfigureIntervalSecs = 0\<rparr>"

definition sample_init :: MMLru where
  "sample_init = MMLru_init sample_config 0 (\<lambda>_. \<lparr>hk_next = None, hk_prev = None, hk_time = 0\<rparr>) (\<lambda>_. 0)"

definition sample_lru :: MMLru where
  "sample_lru = snd (run lru_step [MAdd 10 1, MAdd 20 2, MAdd 30 3] sample_init)"

lemma sample_init_inv: "lru_inv sample_init []"
  unfolding sample_init_def by (rule lru_inv_init) (simp_all add: ref_bits isTail_def)

lemma sample_lru_inv: "lru_inv sample_lru [2, 3, 1]" "config sample_lru = sample_config"
  "tailSize sample_lru = 1" "getUpdateTime (hooks sample_lru) 3 = 30"
proof -
  have i: "config sample_init = sample_config" "tailSize sample_init = 0"
    by (simp_all add: sample_init_def MMLru_init_def)
  obtain a where a: "add 10 1 sample_init = Some (True, a)" "lru_inv a [1]" "config a = sample_config"
    "tailSize a = 1"
    using add_ok [OF sample_init_inv, of 1 10] i
    by (auto simp: lru_insert_def wanted_tail_def sample_config_def)
  obtain b where b: "add 20 2 a = Some (True, b)" "lru_inv b [2, 1]" "config b = sample_config"
    "tailSize b = 1"
    using add_ok [OF a(2), of 2 20] a by (auto simp: lru_insert_def wanted_tail_def sample_config_def)
  obtain c where c: "add 30 3 b = Some (True, c)" "lru_inv c [2, 3, 1]" "config c = sample_config"
    "tailSize c = 1" "getUpdateTime (hooks c) 3 = 30"
    using add_ok [OF b(2), of 3 30] b by (auto simp: lru_insert_def wanted_tail_def sample_config_def)
  have "sample_lru = c" using a b c by (simp add: sample_lru_def)
  with c show "lru_inv sample_lru [2, 3, 1]" "config sample_lru = sample_config"
    "tailSize sample_lru = 1" "getUpdateTime (hooks sample_lru) 3 = 30" by simp_all
qed

text \<open>C7. Any sequence of add, remove, replace and recordAccess calls (whichever clock readings and
  try_lock outcomes they meet) answers as a set of nodes would, never follows a null pointer, and
  leaves a well-formed list of exactly the nodes of that set, with the tail flags and the insertion
  point right.\<close>

theorem mmlru_implements_set:
  assumes "lru_inv c xs"
  shows "fst (run lru_step ops c) = fst (run mm_spec ops (set xs)) \<and>
    None \<notin> set (fst (run lru_step ops c)) \<and>
    (\<exists>ys. lru_inv (snd (run lru_step ops c)) ys \<and> set ys = snd (run mm_spec ops (set xs)))"
proof -
  have "lru_holds c (set xs)" using assms by (auto simp: lru_holds_def)
  from lru.run_contents [OF this, of ops] lru.never_null [OF this, of ops] show ?thesis
    by (simp add: lru_holds_def)
qed

theorem mmlru_implements_set_witness:
  "fst (run lru_step [MAdd 10 1, MAdd 11 2, MReplace 1 5, MAccess 99 True 2 kRead, MRemove 1, MRemove 5]
      sample_init) = [Some True, Some True, Some True, Some True, Some False, Some True] \<and>
   (\<exists>ys. lru_inv (snd (run lru_step
      [MAdd 10 1, MAdd 11 2, MReplace 1 5, MAccess 99 True 2 kRead, MRemove 1, MRemove 5]
      sample_init)) ys \<and> set ys = {2})"
proof -
  let ?ops = "[MAdd 10 1, MAdd 11 2, MReplace 1 5, MAccess 99 True 2 kRead, MRemove 1, MRemove 5]"
  have "run mm_spec ?ops (set []) =
      ([Some True, Some True, Some True, Some True, Some False, Some True], {2})" by auto
  with mmlru_implements_set [OF sample_init_inv, of ?ops] show ?thesis by (simp del: run.simps)
qed

text \<open>A new node is put in front of the tail segment (at the head while there is none), a removed
  node just leaves the list, and after either the tail segment has the size the specification
  \<^verbatim>\<open>size >> lruInsertionPointSpec\<close> asks for, but at least one node when the insertion point is on.
  Adding a node of the list or removing one that is not changes nothing.\<close>

lemma mmlru_add_remove:
  assumes "lru_inv c xs"
  shows "if n \<in> set xs then
      add now n c = Some (False, c) \<and>
      (\<exists>c'. remove n c = Some (True, c') \<and> lru_inv c' (remove1 n xs) \<and>
        tailSize c' = wanted_tail (lruInsertionPointSpec (config c)) (length xs - 1))
    else
      remove n c = Some (False, c) \<and>
      (\<exists>c'. add now n c = Some (True, c') \<and> lru_inv c' (lru_insert (tailSize c) n xs) \<and>
        getUpdateTime (hooks c') n = now \<and>
        tailSize c' = wanted_tail (lruInsertionPointSpec (config c)) (Suc (length xs)))"
proof (cases "n \<in> set xs")
  case True
  with remove_ok [OF assms True] lru_inv_inMM [OF assms, of n] show ?thesis by (auto simp: add_def)
next
  case False
  with add_ok [OF assms False, of now] lru_inv_inMM [OF assms, of n] show ?thesis
    by (auto simp: MMLru.remove_def)
qed

text \<open>An access of a mode that counts, of a node whose refresh time has passed or that was not
  accessed since it was added.\<close>

definition access_due :: "u32 \<Rightarrow> addr \<Rightarrow> AccessMode \<Rightarrow> MMLru \<Rightarrow> bool" where
  "access_due now n m c \<longleftrightarrow>
     (if m = kWrite then updateOnWrite (config c) else updateOnRead (config c)) \<and>
     (now \<ge> getUpdateTime (hooks c) n + lruRefreshTime c \<or> \<not> isAccessed (refs c) n)"

text \<open>C8. An access moves the node to the head and refreshes its time when it is due and the lock is
  obtained; with tryLockUpdate and no lock it reports false and the order stays. An access that is
  not due, or of a node that is not in the container, changes nothing. The locked part run on a
  node that has left in the meantime leaves the list alone.\<close>

theorem mmlru_access:
  assumes "lru_inv c xs"
  shows "(if n \<in> set xs \<and> access_due now n m c
     then \<exists>c'. recordAccess now lck n m c = Some (\<not> tryLockUpdate (config c) \<or> lck, c') \<and>
       lru_inv c' (if \<not> tryLockUpdate (config c) \<or> lck then n # remove1 n xs else xs) \<and>
       (if \<not> tryLockUpdate (config c) \<or> lck then getUpdateTime (hooks c') n = now
        else hooks c' = hooks c \<and> isAccessed (refs c') n)
     else recordAccess now lck n m c = Some (False, c)) \<and>
    (n \<notin> set xs \<longrightarrow> (\<exists>c'. recordAccess_locked now n c = Some c' \<and> lru_inv c' xs))"
proof (cases "n \<in> set xs \<and> access_due now n m c")
  case True
  then have "n \<in> set xs" "if m = kWrite then updateOnWrite (config c) else updateOnRead (config c)"
    "now \<ge> getUpdateTime (hooks c) n + lruRefreshTime c \<or> \<not> isAccessed (refs c) n"
    unfolding access_due_def by blast+
  from recordAccess_ok [OF assms this, of lck] True show ?thesis by (simp only: simp_thms if_True)
next
  case False
  then have "recordAccess now lck n m c = Some (False, c)"
    using lru_inv_inMM [OF assms, of n] unfolding access_due_def
    by (intro recordAccess_skip) (auto simp: not_le)
  with False recordAccess_locked_absent [OF assms, of n now] show ?thesis by auto
qed

theorem mmlru_access_witness:
  "\<exists>c'. recordAccess 500 True 3 kRead sample_lru = Some (True, c') \<and> lru_inv c' [3, 2, 1] \<and>
    getUpdateTime (hooks c') 3 = 500"
proof -
  have "lruRefreshTime sample_lru = 60" by code_simp
  then have "access_due 500 3 kRead sample_lru"
    by (simp add: access_due_def sample_lru_inv sample_config_def)
  with mmlru_access [OF sample_lru_inv(1), of 3 500 kRead True] show ?thesis by auto
qed

text \<open>C24. Evicting through the eviction iterator takes the last node of the list and leaves the
  iterator where a fresh one would start, so repeated eviction takes the nodes in reverse list
  order; on an empty container the iterator is at its end.\<close>

theorem mmlru_eviction_order:
  assumes "lru_inv c xs"
  shows "if xs = [] then it_curr (getEvictionIterator c) = None
    else it_curr (getEvictionIterator c) = Some (last xs) \<and>
      (\<exists>c'. remove_iter (getEvictionIterator c) c = Some (getEvictionIterator c', c') \<and>
        lru_inv c' (butlast xs))"
proof (cases xs rule: rev_cases)
  case Nil
  with dlist_repD [OF lru_inv_rep [OF assms]] show ?thesis
    by (simp add: getEvictionIterator_def dl_rbegin_def)
next
  case (snoc ys x)
  note rep = lru_inv_rep [OF assms, unfolded snoc]
  obtain c' where c': "removeLocked x c = Some c'" "lru_inv c' ys"
    using removeLocked_ok [of c ys x "[]"] assms snoc by auto
  have "dl_tail (lru c) = Some x" "getPrev (hooks c) x = last_of None ys"
    using dlist_repD [OF rep] by (simp_all add: getPrev_def linked_append last_of_def)
  moreover have "dl_tail (lru c') = last_of None ys"
    using dlist_repD [OF lru_inv_rep [OF c'(2)]] by simp
  ultimately show ?thesis
    using c' snoc by (simp add: getEvictionIterator_def dl_rbegin_def remove_iter_def iter_inc_def
        goForward_def)
qed

theorem mmlru_eviction_order_witness:
  "it_curr (getEvictionIterator sample_lru) = Some 1 \<and>
   (\<exists>c'. remove_iter (getEvictionIterator sample_lru) sample_lru = Some (getEvictionIterator c', c') \<and>
     lru_inv c' [2, 3])"
  using mmlru_eviction_order [OF sample_lru_inv(1)] by simp

text \<open>Replacing a node of the list by one outside it keeps its position, its update time and its
  accessed flag, and the tail segment and the insertion point follow; setting a configuration keeps
  the list, and one with no insertion point clears the tail segment.\<close>

lemma mmlru_replace_setConfig:
  assumes "lru_inv c (as @ old # bs)" and "new \<notin> set (as @ old # bs)"
  shows "\<exists>c'. replace old new c = (True, c') \<and> lru_inv c' (as @ new # bs) \<and>
    getUpdateTime (hooks c') new = getUpdateTime (hooks c) old \<and>
    isAccessed (refs c') new = isAccessed (refs c) old \<and>
    (\<exists>c''. setConfig now cfg c' = Some c'' \<and> lru_inv c'' (as @ new # bs) \<and> config c'' = cfg \<and>
      tailSize c'' = (if lruInsertionPointSpec cfg = 0 then 0 else tailSize c'))"
  using replace_ok [OF assms] setConfig_ok by blast

text \<open>The eviction age of a container is the age of its last node, and the projected age that of
  the node \<open>k\<close> places before the tail, or the oldest age again when the list is shorter. When the
  reconfigure time has come, the refresh time becomes the scaled age kept between the default
  refresh time and the cap of 900 seconds, and the list, flags and insertion point stay.\<close>

lemma mmlru_ages:
  assumes "lru_inv c xs" and "xs \<noteq> []"
  shows "getEvictionAgeStatLocked c now k =
      (now - getUpdateTime (hooks c) (last xs),
       now - getUpdateTime (hooks c) (if k < length xs then rev xs ! k else last xs)) \<and>
    (nextReconfigureTime c \<le> now \<longrightarrow>
      lruRefreshTime (reconfigureLocked now c) =
        min (max (defaultLruRefreshTime (config c))
               (scaledAge (config c) (now - getUpdateTime (hooks c) (last xs)))) 900) \<and>
    lru_inv (reconfigureLocked now c) xs"
proof -
  have t: "dl_tail (lru c) = Some (last xs)"
    using dlist_repD [OF lru_inv_rep [OF assms(1)]] assms(2) by (simp add: last_of_def)
  have w: "walkPrev j (hooks c) (Some (last xs)) = (if j < length xs then Some (rev xs ! j) else None)" for j
    using walkPrev_rev [OF lru_inv_rep [OF assms(1)], of j] t by simp
  have "lru_inv (reconfigureLocked now c) xs"
    using assms(1) by (simp add: lru_inv_def lru_ok_def tail_segment_def reconfigureLocked_def Let_def)
  moreover have "lruRefreshTime (reconfigureLocked now c) =
      min (max (defaultLruRefreshTime (config c))
             (scaledAge (config c) (now - getUpdateTime (hooks c) (last xs)))) 900"
    if "nextReconfigureTime c \<le> now"
    using that by (simp add: reconfigureLocked_def getEvictionAgeStatLocked_def t Let_def leD
        kLruRefreshTimeCap_def)
  ultimately show ?thesis by (simp add: getEvictionAgeStatLocked_def t w Let_def)
qed

end
