(* ===== verification/ChainedHashTable.thy ===== *)
theory ChainedHashTable
  imports Refcount "HOL-Library.Monad_Syntax"
begin

text \<open>
  The hash table that finds items by key, \<^verbatim>\<open>cachelib/allocator/ChainedHashTable.h\<close> and
  \<^verbatim>\<open>ChainedHashTable-inl.h\<close>: an array of buckets, each the head of a chain linked through the items
  (the inner class \<^verbatim>\<open>Impl\<close>), and the container around it that keeps the accessible bit of the
  items, the number of keys, and the iterators. Every container operation is what runs under the
  lock of one bucket. A result \<^const>\<open>None\<close> of an operation means that its walk of a chain never
  returns. The hash function is a field of the table; the handle maker is an argument.
\<close>

section \<open>Chains\<close>

record 'k HT =
  hashNext :: "addr \<Rightarrow> ptr"
  keyOf :: "addr \<Rightarrow> 'k"
  hashTable :: "ptr list"
  hasher :: "'k \<Rightarrow> u32"
  restorable :: bool

datatype ht_error = ZeroBuckets | NotPowerOfTwo | InvalidPowers | BucketPowerMismatch | SizeMismatch
  | HasherMismatch | NotRestorable | PendingIterators

definition numBuckets :: "('k, 'm) HT_scheme \<Rightarrow> nat" where
  "numBuckets t = length (hashTable t)"

definition Impl_init ::
  "nat \<Rightarrow> ('k \<Rightarrow> u32) \<Rightarrow> (addr \<Rightarrow> ptr) \<Rightarrow> (addr \<Rightarrow> 'k) \<Rightarrow> ht_error + 'k HT" where
  "Impl_init n hash nx ky =
     (if n = 0 then Inl ZeroBuckets
      else if (of_nat n :: u64) AND (of_nat n - 1) \<noteq> 0 then Inl NotPowerOfTwo
      else Inr \<lparr>hashNext = nx, keyOf = ky, hashTable = replicate n None, hasher = hash,
                restorable = False\<rparr>)"

text \<open>The table over memory of the user, which is cleared only on request.\<close>

definition Impl_attach ::
  "nat \<Rightarrow> ptr list \<Rightarrow> ('k \<Rightarrow> u32) \<Rightarrow> bool \<Rightarrow> (addr \<Rightarrow> ptr) \<Rightarrow> (addr \<Rightarrow> 'k) \<Rightarrow> ht_error + 'k HT" where
  "Impl_attach n mem hash resetMem nx ky =
     (if n = 0 then Inl ZeroBuckets
      else if (of_nat n :: u64) AND (of_nat n - 1) \<noteq> 0 then Inl NotPowerOfTwo
      else Inr \<lparr>hashNext = nx, keyOf = ky, hashTable = (if resetMem then replicate n None else take n mem),
                hasher = hash, restorable = True\<rparr>)"

definition getHashNext :: "('k, 'm) HT_scheme \<Rightarrow> addr \<Rightarrow> ptr" where
  "getHashNext t a = hashNext t a"
definition setHashNext :: "addr \<Rightarrow> ptr \<Rightarrow> ('k, 'm) HT_scheme \<Rightarrow> ('k, 'm) HT_scheme" where
  "setHashNext a p t = t\<lparr>hashNext := (hashNext t)(a := p)\<rparr>"
definition setHead :: "nat \<Rightarrow> ptr \<Rightarrow> ('k, 'm) HT_scheme \<Rightarrow> ('k, 'm) HT_scheme" where
  "setHead b p t = t\<lparr>hashTable := (hashTable t)[b := p]\<rparr>"

definition getBucket :: "('k, 'm) HT_scheme \<Rightarrow> 'k \<Rightarrow> nat" where
  "getBucket t k = unat ((ucast (hasher t k) :: u64) AND (of_nat (numBuckets t) - 1))"

partial_function (option) findLoop ::
  "(addr \<Rightarrow> ptr) \<Rightarrow> (addr \<Rightarrow> 'k) \<Rightarrow> 'k \<Rightarrow> ptr \<Rightarrow> ptr option" where
  "findLoop nx ky k cur =
     (case cur of
        None \<Rightarrow> Some None
      | Some a \<Rightarrow> if ky a \<noteq> k then findLoop nx ky k (nx a) else Some (Some a))"

definition findInBucket :: "('k, 'm) HT_scheme \<Rightarrow> 'k \<Rightarrow> nat \<Rightarrow> ptr option" where
  "findInBucket t k bucket = findLoop (getHashNext t) (keyOf t) k (hashTable t ! bucket)"

text \<open>The walk that also keeps the previous node: the pair of both at its end.\<close>

partial_function (option) findPrevLoop ::
  "(addr \<Rightarrow> ptr) \<Rightarrow> (addr \<Rightarrow> 'k) \<Rightarrow> 'k \<Rightarrow> ptr \<Rightarrow> ptr \<Rightarrow> (ptr \<times> ptr) option" where
  "findPrevLoop nx ky k prev cur =
     (case cur of
        None \<Rightarrow> Some (prev, None)
      | Some a \<Rightarrow> if k \<noteq> ky a then findPrevLoop nx ky k (Some a) (nx a) else Some (prev, Some a))"

definition findPrevInBucket :: "('k, 'm) HT_scheme \<Rightarrow> addr \<Rightarrow> nat \<Rightarrow> ptr option" where
  "findPrevInBucket t node bucket =
     map_option fst (findPrevLoop (getHashNext t) (keyOf t) (keyOf t node) None (hashTable t ! bucket))"

definition insertInBucket ::
  "addr \<Rightarrow> nat \<Rightarrow> ('k, 'm) HT_scheme \<Rightarrow> (bool \<times> ('k, 'm) HT_scheme) option" where
  "insertInBucket node bucket t =
     do { existing \<leftarrow> findInBucket t (keyOf t node) bucket;
          if existing \<noteq> None then Some (False, t)
          else let head = hashTable t ! bucket;
                   t = setHead bucket (Some node) t
               in Some (True, setHashNext node head t) }"

definition insertOrReplaceInBucket ::
  "addr \<Rightarrow> nat \<Rightarrow> ('k, 'm) HT_scheme \<Rightarrow> (ptr \<times> ('k, 'm) HT_scheme) option" where
  "insertOrReplaceInBucket node bucket t =
     do { (prev, cur) \<leftarrow> findPrevLoop (getHashNext t) (keyOf t) (keyOf t node) None
                           (hashTable t ! bucket);
          case cur of
            None \<Rightarrow>
              let head = hashTable t ! bucket;
                  t = setHead bucket (Some node) t
              in Some (None, setHashNext node head t)
          | Some c \<Rightarrow>
              let t = (case prev of Some p \<Rightarrow> setHashNext p (Some node) t
                                  | None \<Rightarrow> setHead bucket (Some node) t)
              in Some (Some c, setHashNext node (getHashNext t c) t) }"

definition removeFromBucket ::
  "addr \<Rightarrow> nat \<Rightarrow> ('k, 'm) HT_scheme \<Rightarrow> ('k, 'm) HT_scheme option" where
  "removeFromBucket node bucket t =
     do { prev \<leftarrow> findPrevInBucket t node bucket;
          case prev of
            Some p \<Rightarrow> Some (setHashNext p (getHashNext t node) t)
          | None \<Rightarrow> Some (setHead bucket (getHashNext t node) t) }"

partial_function (option) forEachLoop ::
  "(addr \<Rightarrow> ptr) \<Rightarrow> (addr \<Rightarrow> 's \<Rightarrow> 's) \<Rightarrow> ptr \<Rightarrow> 's \<Rightarrow> 's option" where
  "forEachLoop nx func cur s =
     (case cur of None \<Rightarrow> Some s | Some a \<Rightarrow> forEachLoop nx func (nx a) (func a s))"

definition forEachBucketElem ::
  "nat \<Rightarrow> (addr \<Rightarrow> 's \<Rightarrow> 's) \<Rightarrow> ('k, 'm) HT_scheme \<Rightarrow> 's \<Rightarrow> 's option" where
  "forEachBucketElem bucket func t s = forEachLoop (getHashNext t) func (hashTable t ! bucket) s"

partial_function (option) countLoop :: "(addr \<Rightarrow> ptr) \<Rightarrow> ptr \<Rightarrow> u32 \<Rightarrow> u32 option" where
  "countLoop nx cur numElems =
     (case cur of None \<Rightarrow> Some numElems | Some a \<Rightarrow> countLoop nx (nx a) (numElems + 1))"

definition getBucketNumElems :: "('k, 'm) HT_scheme \<Rightarrow> nat \<Rightarrow> u32 option" where
  "getBucketNumElems t bucket = countLoop (getHashNext t) (hashTable t ! bucket) 0"

section \<open>Configuration\<close>

record HT_Config =
  bucketsPower :: nat
  locksPower :: nat
  hasherMagicId :: nat

definition kMaxBucketPower :: nat where "kMaxBucketPower = 32"
definition kMaxLockPower :: nat where "kMaxLockPower = 32"

definition Config_init :: "nat \<Rightarrow> nat \<Rightarrow> nat \<Rightarrow> ht_error + HT_Config" where
  "Config_init bp lp magic =
     (if bp > kMaxBucketPower \<or> lp > kMaxLockPower \<or> lp > bp then Inl InvalidPowers
      else Inr \<lparr>bucketsPower = bp, locksPower = lp, hasherMagicId = magic\<rparr>)"

definition getNumBuckets :: "HT_Config \<Rightarrow> nat" where
  "getNumBuckets c = 2 ^ bucketsPower c"

text \<open>\<open>ceilLog2Load\<close> stands for the floating point \<^verbatim>\<open>ceil(log2(cacheEntries * 1.6))\<close>.\<close>

definition sizeBucketsPowerAndLocksPower ::
  "(nat \<Rightarrow> nat) \<Rightarrow> nat \<Rightarrow> HT_Config \<Rightarrow> ht_error + HT_Config" where
  "sizeBucketsPowerAndLocksPower ceilLog2Load cacheEntries c =
     (let bp = ceilLog2Load cacheEntries
      in if bp > kMaxBucketPower then Inl InvalidPowers
         else Inr (c\<lparr>bucketsPower := bp,
                      locksPower := if bp \<le> 20 then bp div 2 + 1 else bp - 10\<rparr>))"

section \<open>The container\<close>

type_synonym 'h handle_maker = "ptr \<Rightarrow> (addr \<Rightarrow> u32) \<Rightarrow> ('h \<times> (addr \<Rightarrow> u32)) option"

record DistributionStats =
  ds_numKeys :: u64
  ds_distribution :: "u32 \<Rightarrow> u64"
  ds_numBuckets :: nat

record 'k Container = "'k HT" +
  ht_refs :: "addr \<Rightarrow> u32"
  numKeys :: u64
  ht_config :: HT_Config
  numIterators :: nat
  cachedStats :: DistributionStats
  cachedStatsUpdateTime :: u64
  canRecompute :: bool

definition emptyStats :: DistributionStats where
  "emptyStats = \<lparr>ds_numKeys = 0, ds_distribution = (\<lambda>_. 0), ds_numBuckets = 0\<rparr>"

text \<open>The members of a container around a table; the constructor of one with its own memory.\<close>

definition mkContainer :: "'k HT \<Rightarrow> (addr \<Rightarrow> u32) \<Rightarrow> u64 \<Rightarrow> HT_Config \<Rightarrow> 'k Container" where
  "mkContainer t r n cfg =
     \<lparr>hashNext = hashNext t, keyOf = keyOf t, hashTable = hashTable t, hasher = hasher t,
      restorable = restorable t, ht_refs = r, numKeys = n, ht_config = cfg, numIterators = 0,
      cachedStats = emptyStats, cachedStatsUpdateTime = 0, canRecompute = True\<rparr>"

definition Container_init ::
  "HT_Config \<Rightarrow> ('k \<Rightarrow> u32) \<Rightarrow> (addr \<Rightarrow> ptr) \<Rightarrow> (addr \<Rightarrow> 'k) \<Rightarrow> (addr \<Rightarrow> u32) \<Rightarrow>
   ht_error + 'k Container" where
  "Container_init cfg hash nx ky r =
     (case Impl_init (getNumBuckets cfg) hash nx ky of
        Inl e \<Rightarrow> Inl e | Inr t \<Rightarrow> Inr (mkContainer t r 0 cfg))"

text \<open>The constructor over memory of the user, which it clears.\<close>

definition Container_attach ::
  "HT_Config \<Rightarrow> ptr list \<Rightarrow> ('k \<Rightarrow> u32) \<Rightarrow> (addr \<Rightarrow> ptr) \<Rightarrow> (addr \<Rightarrow> 'k) \<Rightarrow> (addr \<Rightarrow> u32) \<Rightarrow>
   ht_error + 'k Container" where
  "Container_attach cfg mem hash nx ky r =
     (case Impl_attach (getNumBuckets cfg) mem hash True nx ky of
        Inl e \<Rightarrow> Inl e | Inr t \<Rightarrow> Inr (mkContainer t r 0 cfg))"

definition insert_ht :: "addr \<Rightarrow> 'k Container \<Rightarrow> (bool \<times> 'k Container) option" where
  "insert_ht node t =
     (if isAccessible (ht_refs t node) then Some (False, t)
      else
        let bucket = getBucket t (keyOf t node)
        in do { (res, t) \<leftarrow> insertInBucket node bucket t;
                Some (res, if res then t\<lparr>ht_refs := (ht_refs t)(node := markAccessible (ht_refs t node)),
                                          numKeys := numKeys t + 1\<rparr>
                           else t) })"

text \<open>The result: \<^term>\<open>Inl ()\<close> when the handle maker threw.\<close>

definition insertOrReplace ::
  "'h handle_maker \<Rightarrow> addr \<Rightarrow> 'k Container \<Rightarrow> ((unit + 'h) \<times> 'k Container) option" where
  "insertOrReplace hm node t =
     (if isAccessible (ht_refs t node) then
        case hm None (ht_refs t) of
          None \<Rightarrow> Some (Inl (), t) | Some (h, r) \<Rightarrow> Some (Inr h, t\<lparr>ht_refs := r\<rparr>)
      else
        let bucket = getBucket t (keyOf t node)
        in do { (oldNode, t) \<leftarrow> insertOrReplaceInBucket node bucket t;
                case hm oldNode (ht_refs t) of
                  None \<Rightarrow>
                    do { old \<leftarrow> oldNode;
                         (_, t) \<leftarrow> insertOrReplaceInBucket old bucket t;
                         Some (Inl (), t) }
                | Some (h, r) \<Rightarrow>
                    let r = r(node := markAccessible (r node))
                    in case oldNode of
                         Some old \<Rightarrow> Some (Inr h, t\<lparr>ht_refs := r(old := unmarkAccessible (r old))\<rparr>)
                       | None \<Rightarrow> Some (Inr h, t\<lparr>ht_refs := r, numKeys := numKeys t + 1\<rparr>) })"

definition replaceIf ::
  "addr \<Rightarrow> addr \<Rightarrow> (addr \<Rightarrow> bool) \<Rightarrow> 'k Container \<Rightarrow> (bool \<times> 'k Container) option" where
  "replaceIf oldNode newNode pred t =
     (let bucket = getBucket t (keyOf t newNode)
      in if isAccessible (ht_refs t oldNode) \<and> pred oldNode then
           do { (_, t) \<leftarrow> insertOrReplaceInBucket newNode bucket t;
                let r = (ht_refs t)(oldNode := unmarkAccessible (ht_refs t oldNode))
                in Some (True, t\<lparr>ht_refs := r(newNode := markAccessible (r newNode))\<rparr>) }
         else Some (False, t))"

definition replaceIfAccessible ::
  "addr \<Rightarrow> addr \<Rightarrow> 'k Container \<Rightarrow> (bool \<times> 'k Container) option" where
  "replaceIfAccessible oldNode newNode t = replaceIf oldNode newNode (\<lambda>_. True) t"

definition remove_ht :: "addr \<Rightarrow> 'k Container \<Rightarrow> (bool \<times> 'k Container) option" where
  "remove_ht node t =
     (let bucket = getBucket t (keyOf t node)
      in if \<not> isAccessible (ht_refs t node) then Some (False, t)
         else do { t \<leftarrow> removeFromBucket node bucket t;
                   Some (True, t\<lparr>ht_refs := (ht_refs t)(node := unmarkAccessible (ht_refs t node)),
                                  numKeys := numKeys t - 1\<rparr>) })"

definition removeIf ::
  "'h handle_maker \<Rightarrow> addr \<Rightarrow> (addr \<Rightarrow> bool) \<Rightarrow> 'k Container \<Rightarrow> ((unit + 'h) \<times> 'k Container) option" where
  "removeIf hm node pred t =
     (let bucket = getBucket t (keyOf t node)
      in if isAccessible (ht_refs t node) \<and> pred node then
           case hm (Some node) (ht_refs t) of
             None \<Rightarrow> Some (Inl (), t)
           | Some (h, r) \<Rightarrow>
               do { t \<leftarrow> removeFromBucket node bucket (t\<lparr>ht_refs := r\<rparr>);
                    Some (Inr h, t\<lparr>ht_refs := (ht_refs t)(node := unmarkAccessible (ht_refs t node)),
                                    numKeys := numKeys t - 1\<rparr>) }
         else case hm None (ht_refs t) of
                None \<Rightarrow> Some (Inl (), t) | Some (h, r) \<Rightarrow> Some (Inr h, t\<lparr>ht_refs := r\<rparr>))"

definition find_ht :: "'h handle_maker \<Rightarrow> 'k \<Rightarrow> 'k Container \<Rightarrow> ((unit + 'h) \<times> 'k Container) option" where
  "find_ht hm k t =
     (let bucket = getBucket t k
      in do { node \<leftarrow> findInBucket t k bucket;
              case hm node (ht_refs t) of
                None \<Rightarrow> Some (Inl (), t) | Some (h, r) \<Rightarrow> Some (Inr h, t\<lparr>ht_refs := r\<rparr>) })"

text \<open>
  The handle maker of the allocator, \<^verbatim>\<open>CacheAllocator::acquire\<close>: one pass of its loop, which is
  the last when the item keeps its state. A moving item gives a handle that waits for it.
\<close>

datatype handle = NullHandle | ItemHandle addr | WaitHandle addr

definition acquire :: "handle handle_maker" where
  "acquire it r =
     (case it of
        None \<Rightarrow> Some (NullHandle, r)
      | Some a \<Rightarrow>
          case incRef (r a) of
            Inl _ \<Rightarrow> None
          | Inr (kIncOk, v) \<Rightarrow> Some (ItemHandle a, r(a := v))
          | Inr (kIncFailedEviction, _) \<Rightarrow> Some (NullHandle, r)
          | Inr (kIncFailedMoving, _) \<Rightarrow> Some (WaitHandle a, r))"

section \<open>Saved state\<close>

record ChainedHashTableObject =
  obj_bucketsPower :: nat
  obj_locksPower :: nat
  obj_numKeys :: u64
  obj_hasherMagicId :: nat

definition saveState :: "'k Container \<Rightarrow> ht_error + ChainedHashTableObject" where
  "saveState t =
     (if \<not> restorable t then Inl NotRestorable
      else if numIterators t \<noteq> 0 then Inl PendingIterators
      else Inr \<lparr>obj_bucketsPower = bucketsPower (ht_config t), obj_locksPower = locksPower (ht_config t),
                obj_numKeys = numKeys t, obj_hasherMagicId = hasherMagicId (ht_config t)\<rparr>)"

text \<open>The container over a table of another process; \<open>ptrSize\<close> is the size of a compressed pointer.\<close>

definition restore ::
  "nat \<Rightarrow> ChainedHashTableObject \<Rightarrow> HT_Config \<Rightarrow> ptr list \<Rightarrow> nat \<Rightarrow> ('k \<Rightarrow> u32) \<Rightarrow> (addr \<Rightarrow> ptr) \<Rightarrow>
   (addr \<Rightarrow> 'k) \<Rightarrow> (addr \<Rightarrow> u32) \<Rightarrow> ht_error + 'k Container" where
  "restore ptrSize obj cfg mem nBytes hash nx ky r =
     (case Impl_attach (getNumBuckets cfg) mem hash False nx ky of
        Inl e \<Rightarrow> Inl e
      | Inr t \<Rightarrow>
          if bucketsPower cfg \<noteq> obj_bucketsPower obj then Inl BucketPowerMismatch
          else if nBytes \<noteq> getNumBuckets cfg * ptrSize then Inl SizeMismatch
          else if obj_hasherMagicId obj \<noteq> 0 \<and> obj_hasherMagicId obj \<noteq> hasherMagicId cfg
          then Inl HasherMismatch
          else Inr (mkContainer t r (obj_numKeys obj) cfg))"

section \<open>Distribution of the keys\<close>

fun distributionLoop :: "('k, 'm) HT_scheme \<Rightarrow> nat list \<Rightarrow> (u32 \<Rightarrow> u64) \<Rightarrow> (u32 \<Rightarrow> u64) option" where
  "distributionLoop t [] d = Some d"
| "distributionLoop t (b # bs) d =
     do { n \<leftarrow> getBucketNumElems t b; distributionLoop t bs (d(n := d n + 1)) }"

text \<open>\<open>exceeds\<close> stands for the floating point comparison of the relative change with 0.05.\<close>

definition getDistributionStats ::
  "(u64 \<Rightarrow> u64 \<Rightarrow> bool) \<Rightarrow> u64 \<Rightarrow> 'k Container \<Rightarrow> (DistributionStats \<times> 'k Container) option" where
  "getDistributionStats exceeds now t =
     (let n = numKeys t;
          old = ds_numKeys (cachedStats t);
          diff = (if n > old then n - old else old - n);
          needToRecompute = (now - cachedStatsUpdateTime t > 10 * 60 \<or> (old > 0 \<and> exceeds diff old))
      in if \<not> needToRecompute \<or> \<not> canRecompute t then Some (cachedStats t, t)
         else do { d \<leftarrow> distributionLoop t [0..<numBuckets t] (\<lambda>_. 0);
                   let st = \<lparr>ds_numKeys = n, ds_distribution = d, ds_numBuckets = numBuckets t\<rparr>
                   in Some (st, t\<lparr>cachedStats := st, cachedStatsUpdateTime := now,
                                    canRecompute := True\<rparr>) })"

section \<open>Iterators\<close>

record 'h Iterator =
  currBucket :: nat
  curSor :: nat
  bucketElems :: "'h list"

text \<open>
  \<open>acq a\<close>: what the handle maker does when the walk reaches item \<open>a\<close>, a handle or (\<^const>\<open>None\<close>) an
  exception. The reference counts that handles hold are left out of the iterators.
\<close>

definition getBucketElems :: "(addr \<Rightarrow> 'h option) \<Rightarrow> 'k Container \<Rightarrow> nat \<Rightarrow> 'h list option" where
  "getBucketElems acq t bucket =
     forEachBucketElem bucket
       (\<lambda>e handles. case acq e of Some h \<Rightarrow> handles @ [h] | None \<Rightarrow> handles) t []"

text \<open>The loop over the buckets, from \<open>b\<close>, until one has an element.\<close>

function nextNonEmpty :: "(addr \<Rightarrow> 'h option) \<Rightarrow> 'k Container \<Rightarrow> nat \<Rightarrow> 'h Iterator option" where
  "nextNonEmpty acq t b =
     (if b < getNumBuckets (ht_config t) then
        do { es \<leftarrow> getBucketElems acq t b;
             if es \<noteq> [] then Some \<lparr>currBucket = b, curSor = 0, bucketElems = es\<rparr>
             else nextNonEmpty acq t (b + 1) }
      else Some \<lparr>currBucket = b, curSor = 0, bucketElems = []\<rparr>)"
  by pat_completeness auto
termination by (relation "measure (\<lambda>(_, t, b). getNumBuckets (ht_config t) - b)") auto

declare nextNonEmpty.simps [simp del]

definition iter_next :: "(addr \<Rightarrow> 'h option) \<Rightarrow> 'k Container \<Rightarrow> 'h Iterator \<Rightarrow> 'h Iterator option" where
  "iter_next acq t it =
     (let it = it\<lparr>curSor := curSor it + 1\<rparr>
      in if curSor it < length (bucketElems it) then Some it
         else nextNonEmpty acq t (currBucket it + 1))"

text \<open>\<^verbatim>\<open>Iterator::reset\<close>, which the constructor of a begin iterator calls; its loop is that of
  \<^verbatim>\<open>operator++\<close> started at bucket zero (a table has at least one bucket).\<close>

definition iter_begin :: "(addr \<Rightarrow> 'h option) \<Rightarrow> 'k Container \<Rightarrow> 'h Iterator option" where
  "iter_begin acq t = nextNonEmpty acq t 0"

definition iter_end :: "'k Container \<Rightarrow> 'h Iterator" where
  "iter_end t = \<lparr>currBucket = getNumBuckets (ht_config t), curSor = 0, bucketElems = []\<rparr>"

section \<open>Chains as lists\<close>

primrec chain :: "(addr \<Rightarrow> ptr) \<Rightarrow> ptr \<Rightarrow> addr list \<Rightarrow> bool" where
  "chain nx p [] = (p = None)"
| "chain nx p (x # xs) = (p = Some x \<and> chain nx (nx x) xs)"

lemma chain_cong: "(\<And>a. a \<in> set xs \<Longrightarrow> nx a = nx' a) \<Longrightarrow> chain nx p xs = chain nx' p xs"
  by (induction xs arbitrary: p) auto

lemma chain_fun_upd [simp]: "a \<notin> set xs \<Longrightarrow> chain (nx(a := q)) p xs = chain nx p xs"
  by (rule chain_cong) auto

lemma chain_None [simp]: "chain nx None xs \<longleftrightarrow> xs = []"
  by (cases xs) auto

lemma loop_simps [simp]:
  "findLoop nx ky k None = Some None"
  "findLoop nx ky k (Some a) = (if ky a \<noteq> k then findLoop nx ky k (nx a) else Some (Some a))"
  "findPrevLoop nx ky k prev None = Some (prev, None)"
  "findPrevLoop nx ky k prev (Some a) =
     (if k \<noteq> ky a then findPrevLoop nx ky k (Some a) (nx a) else Some (prev, Some a))"
  "forEachLoop nx f None s = Some s" "forEachLoop nx f (Some a) s = forEachLoop nx f (nx a) (f a s)"
  "countLoop nx None n = Some n" "countLoop nx (Some a) n = countLoop nx (nx a) (n + 1)"
  by (subst findLoop.simps findPrevLoop.simps forEachLoop.simps countLoop.simps, simp)+

lemma findLoop_chain:
  "chain nx p xs \<Longrightarrow> findLoop nx ky k p = Some (List.find (\<lambda>a. ky a = k) xs)"
  by (induction xs arbitrary: p) auto

lemma findPrevLoop_absent:
  "chain nx p xs \<Longrightarrow> k \<notin> ky ` set xs \<Longrightarrow>
    findPrevLoop nx ky k prev p = Some (if xs = [] then prev else Some (last xs), None)"
  by (induction xs arbitrary: p prev) auto

lemma findPrevLoop_found:
  "chain nx p (as @ a # bs) \<Longrightarrow> ky a = k \<Longrightarrow> k \<notin> ky ` set as \<Longrightarrow>
    findPrevLoop nx ky k prev p = Some (if as = [] then prev else Some (last as), Some a)"
  by (induction as arbitrary: p prev) auto

lemma forEachLoop_chain: "chain nx p xs \<Longrightarrow> forEachLoop nx f p s = Some (fold f xs s)"
  by (induction xs arbitrary: p s) auto

lemma countLoop_chain: "chain nx p xs \<Longrightarrow> countLoop nx p n = Some (n + of_nat (length xs))"
  by (induction xs arbitrary: p n) auto

text \<open>A node in the middle of a chain is passed over, or swapped for another.\<close>

lemma chain_unlink:
  assumes "chain nx p (as @ a # bs)" and "distinct (as @ a # bs)"
  shows "if as = [] then chain nx (nx a) bs else chain (nx(last as := nx a)) p (as @ bs)"
  using assms
proof (induction as arbitrary: p)
  case (Cons x as)
  then show ?case by (cases as) auto
qed simp

lemma chain_swap:
  assumes "chain nx p (as @ a # bs)" and "distinct (as @ a # bs)" and "n \<notin> set (as @ bs)"
  shows "if as = [] then chain (nx(n := nx a)) (Some n) (n # bs)
    else chain (nx(last as := Some n, n := (nx(last as := Some n)) a)) p (as @ n # bs)"
  using assms
proof (induction as arbitrary: p)
  case (Cons x as)
  then show ?case by (cases as) auto
qed simp

section \<open>The buckets as lists\<close>

definition ht_rep :: "('k, 'm) HT_scheme \<Rightarrow> addr list list \<Rightarrow> bool" where
  "ht_rep t bs \<longleftrightarrow>
     list_all2 (chain (hashNext t)) (hashTable t) bs \<and> bs \<noteq> [] \<and> length bs \<le> 2 ^ 32 \<and>
     (\<forall>b < length bs. distinct (map (keyOf t) (bs ! b)) \<and>
        (\<forall>a \<in> set (bs ! b). getBucket t (keyOf t a) = b))"

lemma getBucket_less:
  assumes "0 < numBuckets t" and "numBuckets t \<le> 2 ^ 32"
  shows "getBucket t k < numBuckets t"
proof -
  let ?n = "of_nat (numBuckets t) :: u64"
  have u: "unat ?n = numBuckets t" using assms(2) by (simp add: unat_of_nat take_bit_nat_eq_self)
  then have "?n \<noteq> 0" using assms(1) by (metis unat_0 less_irrefl)
  then have "unat (?n - 1) = numBuckets t - 1" using u by (simp add: unat_minus_one)
  moreover have "ucast (hasher t k) AND (?n - 1) \<le> ?n - 1" by (rule word_and_le1)
  ultimately show ?thesis
    using assms(1) unfolding getBucket_def word_le_nat_alt by linarith
qed

lemma ht_repD:
  assumes "ht_rep t bs"
  shows "length bs = numBuckets t" "getBucket t k < length bs"
    "b < length bs \<Longrightarrow> chain (hashNext t) (hashTable t ! b) (bs ! b)"
    "b < length bs \<Longrightarrow> distinct (map (keyOf t) (bs ! b))"
    "b < length bs \<Longrightarrow> a \<in> set (bs ! b) \<Longrightarrow> getBucket t (keyOf t a) = b"
proof -
  have l: "length (hashTable t) = length bs" using assms list_all2_lengthD unfolding ht_rep_def by blast
  then show "length bs = numBuckets t" by (simp add: numBuckets_def)
  then show "getBucket t k < length bs"
    using assms getBucket_less [of t k] by (metis ht_rep_def length_greater_0_conv)
qed (use assms in \<open>auto simp: ht_rep_def list_all2_conv_all_nth\<close>)

text \<open>One bucket changes: the links of its own nodes and of the new node, and its head.\<close>

lemma ht_rep_update:
  fixes t :: "('k, 'm) HT_scheme" and t' :: "('k, 'm) HT_scheme"
  assumes rep: "ht_rep t bs" and b: "b < length bs"
    and same: "keyOf t' = keyOf t" "hasher t' = hasher t" "hashTable t' = (hashTable t)[b := p]"
    and frame: "\<And>a. getBucket t (keyOf t a) \<noteq> b \<Longrightarrow> hashNext t' a = hashNext t a"
    and ys: "chain (hashNext t') p ys" "distinct (map (keyOf t) ys)"
      "\<And>a. a \<in> set ys \<Longrightarrow> getBucket t (keyOf t a) = b"
  shows "ht_rep t' (bs[b := ys])"
proof -
  have l: "length (hashTable t) = length bs" using ht_repD(1) [OF rep] by (simp add: numBuckets_def)
  have g: "getBucket t' k = getBucket t k" for k by (simp add: getBucket_def numBuckets_def same)
  have "chain (hashNext t') ((hashTable t)[b := p] ! i) (bs[b := ys] ! i)" if i: "i < length bs" for i
  proof (cases "i = b")
    case True
    with ys b l show ?thesis by simp
  next
    case False
    then have "chain (hashNext t') (hashTable t ! i) (bs ! i)"
      using ht_repD(3,5) [OF rep i] frame chain_cong [of "bs ! i" "hashNext t'" "hashNext t"] by metis
    with False show ?thesis by simp
  qed
  then have "list_all2 (chain (hashNext t')) (hashTable t') (bs[b := ys])"
    by (simp add: list_all2_conv_all_nth l same)
  moreover have "distinct (map (keyOf t') (bs[b := ys] ! i)) \<and>
      (\<forall>a \<in> set (bs[b := ys] ! i). getBucket t' (keyOf t' a) = i)" if "i < length bs" for i
    using that ys(2,3) ht_repD(4,5) [OF rep that] b by (cases "i = b") (auto simp: same g)
  ultimately show ?thesis using rep by (auto simp: ht_rep_def)
qed

abbreviation nodes :: "addr list list \<Rightarrow> addr set" where
  "nodes bs \<equiv> set (concat bs)"

lemma concat_update:
  assumes "b < length bs"
  shows "length (concat (bs[b := ys])) + length (bs ! b) = length (concat bs) + length ys"
  using assms
proof (induction bs arbitrary: b)
  case (Cons x bs)
  then show ?case by (cases b) auto
qed simp

lemma nodes_bucket:
  assumes "ht_rep t bs"
  shows "a \<in> set (bs ! getBucket t (keyOf t a)) \<longleftrightarrow> a \<in> nodes bs"
  using ht_repD(2,5) [OF assms] by (fastforce simp: in_set_conv_nth)

lemma nodes_update:
  assumes "ht_rep t bs" and "b < length bs"
  shows "a \<in> nodes (bs[b := ys]) \<longleftrightarrow> a \<in> set ys \<or> a \<in> nodes bs \<and> getBucket t (keyOf t a) \<noteq> b"
proof -
  have "(\<exists>i < length bs. a \<in> set (bs[b := ys] ! i)) \<longleftrightarrow>
      a \<in> set ys \<or> (\<exists>i < length bs. a \<in> set (bs ! i) \<and> i \<noteq> b)"
    using assms(2) by (auto simp: nth_list_update)
  moreover have "(\<exists>i < length bs. a \<in> set (bs ! i) \<and> i \<noteq> b) \<longleftrightarrow>
      a \<in> nodes bs \<and> getBucket t (keyOf t a) \<noteq> b"
    using ht_repD(5) [OF assms(1)] by (fastforce simp: in_set_conv_nth)
  moreover have "a \<in> nodes (bs[b := ys]) \<longleftrightarrow> (\<exists>i < length bs. a \<in> set (bs[b := ys] ! i))"
    by (fastforce simp: in_set_conv_nth)
  ultimately show ?thesis by blast
qed

lemma nodes_replaced:
  assumes "ht_rep t bs" and "b < length bs"
  shows "nodes (bs[b := ys]) = nodes bs - set (bs ! b) \<union> set ys" "set (bs ! b) \<subseteq> nodes bs"
proof -
  show sub: "set (bs ! b) \<subseteq> nodes bs" using assms(2) nth_mem by fastforce
  have "a \<in> nodes bs \<Longrightarrow> getBucket t (keyOf t a) \<noteq> b \<longleftrightarrow> a \<notin> set (bs ! b)" for a
    using ht_repD(5) [OF assms] nodes_bucket [OF assms(1), of a] by blast
  then show "nodes (bs[b := ys]) = nodes bs - set (bs ! b) \<union> set ys"
    using nodes_update [OF assms, of _ ys] by blast
qed

text \<open>The map from keys to nodes that a table stands for.\<close>

definition ht_map :: "('k, 'm) HT_scheme \<Rightarrow> addr list list \<Rightarrow> 'k \<rightharpoonup> addr" where
  "ht_map t bs k = List.find (\<lambda>a. keyOf t a = k) (bs ! getBucket t k)"

lemma ht_map_iff:
  assumes "ht_rep t bs"
  shows "ht_map t bs k = Some a \<longleftrightarrow> a \<in> nodes bs \<and> keyOf t a = k"
proof
  assume "ht_map t bs k = Some a"
  then have "a \<in> set (bs ! getBucket t k)" "keyOf t a = k"
    by (auto simp: ht_map_def find_Some_iff)
  then show "a \<in> nodes bs \<and> keyOf t a = k" using nodes_bucket [OF assms] by blast
next
  assume a: "a \<in> nodes bs \<and> keyOf t a = k"
  then have m: "a \<in> set (bs ! getBucket t k)" using nodes_bucket [OF assms] by blast
  then obtain c where c: "ht_map t bs k = Some c"
    using a by (cases "ht_map t bs k") (auto simp: ht_map_def find_None_iff)
  then have "c \<in> set (bs ! getBucket t k)" "keyOf t c = keyOf t a"
    using a by (auto simp: ht_map_def find_Some_iff)
  with m ht_repD(4) [OF assms ht_repD(2) [OF assms]] have "c = a"
    by (meson distinct_map inj_on_def)
  with c show "ht_map t bs k = Some a" by simp
qed

lemma ht_map_None:
  assumes "ht_rep t bs"
  shows "ht_map t bs k = None \<longleftrightarrow> k \<notin> keyOf t ` nodes bs"
proof (cases "ht_map t bs k")
  case None
  with ht_map_iff [OF assms, of k] show ?thesis by (auto simp del: set_concat)
next
  case (Some a)
  with ht_map_iff [OF assms, of k a] show ?thesis by (auto simp del: set_concat)
qed

definition same_items :: "('k, 'm) HT_scheme \<Rightarrow> ('k, 'm) HT_scheme \<Rightarrow> bool" where
  "same_items t t' \<longleftrightarrow> keyOf t' = keyOf t \<and> hasher t' = hasher t \<and> restorable t' = restorable t \<and>
     HT.more t' = HT.more t \<and> numBuckets t' = numBuckets t"

section \<open>Operations on one bucket\<close>

lemma getHashNext_eq [simp]: "getHashNext t = hashNext t"
  by (simp add: fun_eq_iff getHashNext_def)

lemma findInBucket_ok:
  assumes "ht_rep t bs"
  shows "findInBucket t k (getBucket t k) = Some (ht_map t bs k)"
  using findLoop_chain [OF ht_repD(3) [OF assms ht_repD(2) [OF assms]]]
  by (simp add: findInBucket_def ht_map_def)

lemma link_at_head:
  assumes rep: "ht_rep t bs" and new: "ht_map t bs (keyOf t n) = None"
  defines "b \<equiv> getBucket t (keyOf t n)"
  defines "t' \<equiv> setHashNext n (hashTable t ! b) (setHead b (Some n) t)"
  defines "bs' \<equiv> bs[b := n # bs ! b]"
  shows "ht_rep t' bs' \<and> same_items t t' \<and> nodes bs' = insert n (nodes bs) \<and>
    length (concat bs') = Suc (length (concat bs))"
proof -
  note d = ht_repD [OF rep]
  have b: "b < length bs" using d(2) by (simp add: b_def)
  have k: "keyOf t n \<notin> keyOf t ` nodes bs" using new ht_map_None [OF rep] by blast
  then have k': "keyOf t n \<notin> keyOf t ` set (bs ! b)" using b nth_mem by fastforce
  then have n: "n \<notin> set (bs ! b)" by blast
  have "ht_rep t' bs'"
    unfolding bs'_def
  proof (rule ht_rep_update [OF rep b, where p = "Some n"])
    show "chain (hashNext t') (Some n) (n # bs ! b)"
      using d(3) [OF b] n by (simp add: t'_def setHashNext_def setHead_def)
    show "distinct (map (keyOf t) (n # bs ! b))" using d(4) [OF b] k' by simp
  qed (use d(5) [OF b] in \<open>auto simp: t'_def setHashNext_def setHead_def b_def\<close>)
  moreover have "nodes bs' = insert n (nodes bs)"
    using nodes_replaced(2) [OF rep b] unfolding bs'_def nodes_replaced(1) [OF rep b] by auto
  ultimately show ?thesis
    using concat_update [OF b, of "n # bs ! b"]
    by (simp add: bs'_def t'_def same_items_def setHashNext_def setHead_def numBuckets_def
        del: set_concat)
qed

lemma insertInBucket_ok:
  assumes "ht_rep t bs"
  shows "if ht_map t bs (keyOf t n) = None
    then \<exists>t' bs'. insertInBucket n (getBucket t (keyOf t n)) t = Some (True, t') \<and> ht_rep t' bs' \<and>
      same_items t t' \<and> nodes bs' = insert n (nodes bs) \<and>
      length (concat bs') = Suc (length (concat bs))
    else insertInBucket n (getBucket t (keyOf t n)) t = Some (False, t)"
proof (cases "ht_map t bs (keyOf t n)")
  case None
  let ?b = "getBucket t (keyOf t n)"
  have "insertInBucket n ?b t = Some (True, setHashNext n (hashTable t ! ?b) (setHead ?b (Some n) t))"
    using findInBucket_ok [OF assms, of "keyOf t n"] None by (simp add: insertInBucket_def Let_def)
  with link_at_head [OF assms None] None show ?thesis by (simp del: set_concat) blast
next
  case (Some c)
  with findInBucket_ok [OF assms, of "keyOf t n"] show ?thesis by (simp add: insertInBucket_def)
qed

text \<open>The bucket around the node of a key.\<close>

lemma bucket_split:
  assumes rep: "ht_rep t bs" and c: "ht_map t bs k = Some c"
  obtains as cs where "bs ! getBucket t k = as @ c # cs" "k \<notin> keyOf t ` set as"
    "k \<notin> keyOf t ` set cs" "keyOf t c = k"
    "chain (hashNext t) (hashTable t ! getBucket t k) (as @ c # cs)" "distinct (as @ c # cs)"
proof -
  note d = ht_repD [OF rep]
  have m: "c \<in> set (bs ! getBucket t k)" and k: "keyOf t c = k"
    using c by (auto simp: ht_map_def find_Some_iff)
  then obtain as cs where s: "bs ! getBucket t k = as @ c # cs" by (meson split_list)
  have "distinct (map (keyOf t) (as @ c # cs))" using d(4) [OF d(2)] s by metis
  then have "keyOf t c \<notin> keyOf t ` set as" "keyOf t c \<notin> keyOf t ` set cs" "distinct (as @ c # cs)"
    by (auto simp: distinct_map)
  with s k d(3) [OF d(2), of k] show thesis by (intro that) simp_all
qed

lemma insertOrReplaceInBucket_ok:
  assumes rep: "ht_rep t bs"
  shows "\<exists>t' bs'. insertOrReplaceInBucket n (getBucket t (keyOf t n)) t =
      Some (ht_map t bs (keyOf t n), t') \<and> ht_rep t' bs' \<and> same_items t t' \<and>
    (case ht_map t bs (keyOf t n) of
       None \<Rightarrow> nodes bs' = insert n (nodes bs) \<and> length (concat bs') = Suc (length (concat bs))
     | Some c \<Rightarrow> nodes bs' = insert n (nodes bs - {c}) \<and> length (concat bs') = length (concat bs))"
proof (cases "ht_map t bs (keyOf t n)")
  case None
  let ?b = "getBucket t (keyOf t n)"
  note d = ht_repD [OF rep]
  have "keyOf t n \<notin> keyOf t ` set (bs ! ?b)"
    using None ht_map_None [OF rep] nodes_replaced(2) [OF rep d(2)] by blast
  from findPrevLoop_absent [OF d(3) [OF d(2)] this]
  have "insertOrReplaceInBucket n ?b t =
      Some (None, setHashNext n (hashTable t ! ?b) (setHead ?b (Some n) t))"
    by (simp add: insertOrReplaceInBucket_def Let_def)
  with link_at_head [OF rep None] None show ?thesis by (simp del: set_concat) blast
next
  case (Some c)
  let ?b = "getBucket t (keyOf t n)"
  note d = ht_repD [OF rep]
  have b: "?b < length bs" by (rule d(2))
  obtain as cs where s: "bs ! ?b = as @ c # cs" "keyOf t n \<notin> keyOf t ` set as"
    "keyOf t n \<notin> keyOf t ` set cs" "keyOf t c = keyOf t n"
    "chain (hashNext t) (hashTable t ! ?b) (as @ c # cs)" "distinct (as @ c # cs)"
    using bucket_split [OF rep Some] .
  have n: "n \<notin> set (as @ cs)" using s(2,3) by auto
  define p where "p = (if as = [] then Some n else hashTable t ! ?b)"
  define t1 where "t1 = (if as = [] then setHead ?b (Some n) t else setHashNext (last as) (Some n) t)"
  define t' where "t' = setHashNext n (hashNext t1 c) t1"
  have op: "insertOrReplaceInBucket n ?b t = Some (Some c, t')"
    using findPrevLoop_found [OF s(5), of "keyOf t" "keyOf t n" None] s(2,4)
    by (simp add: insertOrReplaceInBucket_def Let_def t'_def t1_def)
  have A: "chain (hashNext t') p (as @ n # cs)"
    using chain_swap [OF s(5,6) n]
    by (cases "as = []") (simp_all add: t'_def t1_def p_def setHashNext_def setHead_def)
  have B: "distinct (map (keyOf t) (as @ n # cs))" using d(4) [OF b] s by simp
  have C: "getBucket t (keyOf t a) = ?b" if "a \<in> set (as @ n # cs)" for a
    using d(5) [OF b, of a] that unfolding s(1) by auto
  have D: "hashNext t' a = hashNext t a" if "getBucket t (keyOf t a) \<noteq> ?b" for a
  proof -
    have "a \<noteq> n" "as \<noteq> [] \<longrightarrow> a \<noteq> last as"
      using that d(5) [OF b, of "last as"] unfolding s(1) by auto
    then show ?thesis by (simp add: t'_def t1_def setHashNext_def setHead_def)
  qed
  have "ht_rep t' (bs[?b := as @ n # cs])"
    by (rule ht_rep_update [OF rep b _ _ _ D A B C])
       (simp_all add: t'_def t1_def p_def setHashNext_def setHead_def)
  moreover have "nodes (bs[?b := as @ n # cs]) = insert n (nodes bs - {c})"
    using nodes_replaced(2) [OF rep b] s(1,6) unfolding nodes_replaced(1) [OF rep b] by auto
  moreover have "same_items t t'"
    by (simp add: same_items_def t'_def t1_def setHashNext_def setHead_def numBuckets_def)
  ultimately show ?thesis
    using concat_update [OF b, of "as @ n # cs"] s(1) op Some
    by (intro exI [of _ t'] exI [of _ "bs[?b := as @ n # cs]"]) (simp del: set_concat)
qed

lemma removeFromBucket_ok:
  assumes rep: "ht_rep t bs" and n: "n \<in> nodes bs"
  shows "\<exists>t' bs'. removeFromBucket n (getBucket t (keyOf t n)) t = Some t' \<and> ht_rep t' bs' \<and>
    same_items t t' \<and> nodes bs' = nodes bs - {n} \<and> Suc (length (concat bs')) = length (concat bs)"
proof -
  let ?b = "getBucket t (keyOf t n)"
  note d = ht_repD [OF rep]
  have b: "?b < length bs" by (rule d(2))
  have "ht_map t bs (keyOf t n) = Some n" using n by (simp only: ht_map_iff [OF rep])
  from bucket_split [OF rep this]
  obtain as cs where s: "bs ! ?b = as @ n # cs" "keyOf t n \<notin> keyOf t ` set as"
    "chain (hashNext t) (hashTable t ! ?b) (as @ n # cs)" "distinct (as @ n # cs)" .
  define p where "p = (if as = [] then hashNext t n else hashTable t ! ?b)"
  define t' where "t' = (if as = [] then setHead ?b (hashNext t n) t
    else setHashNext (last as) (hashNext t n) t)"
  have op: "removeFromBucket n ?b t = Some t'"
    using findPrevLoop_found [OF s(3), of "keyOf t" "keyOf t n" None] s(2)
    by (simp add: removeFromBucket_def findPrevInBucket_def t'_def)
  have "chain (hashNext t') p (as @ cs)"
    using chain_unlink [OF s(3,4)]
    by (cases "as = []") (simp_all add: t'_def p_def setHashNext_def setHead_def)
  moreover have "distinct (map (keyOf t) (as @ cs))" using d(4) [OF b] s(1) by simp
  moreover have "getBucket t (keyOf t a) = ?b" if "a \<in> set (as @ cs)" for a
    using d(5) [OF b, of a] that unfolding s(1) by auto
  moreover have "hashNext t' a = hashNext t a" if "getBucket t (keyOf t a) \<noteq> ?b" for a
    using that d(5) [OF b, of "last as"] s(1)
    by (auto simp: t'_def setHashNext_def setHead_def)
  ultimately have "ht_rep t' (bs[?b := as @ cs])"
    by (intro ht_rep_update [OF rep b, where p = p])
       (simp_all add: t'_def p_def setHashNext_def setHead_def)
  moreover have "nodes (bs[?b := as @ cs]) = nodes bs - {n}"
    using nodes_replaced(2) [OF rep b] s(1,4) unfolding nodes_replaced(1) [OF rep b] by auto
  moreover have "same_items t t'"
    by (simp add: same_items_def t'_def setHashNext_def setHead_def numBuckets_def)
  ultimately show ?thesis
    using concat_update [OF b, of "as @ cs"] s(1) op
    by (intro exI [of _ t'] exI [of _ "bs[?b := as @ cs]"]) (simp del: set_concat)
qed

section \<open>The container implements a map\<close>

text \<open>
  The items in the chains are exactly those with the accessible bit, and \<^verbatim>\<open>numKeys_\<close> counts them.
\<close>

definition cont_inv :: "'k Container \<Rightarrow> addr list list \<Rightarrow> bool" where
  "cont_inv t bs \<longleftrightarrow> ht_rep t bs \<and> (\<forall>a. isAccessible (ht_refs t a) \<longleftrightarrow> a \<in> nodes bs) \<and>
     numKeys t = of_nat (length (concat bs))"

text \<open>What a client sees: the map from keys to items, the reference counts, and the number of keys.\<close>

type_synonym 'k ht_view = "('k \<rightharpoonup> addr) \<times> (addr \<Rightarrow> u32)"

definition ht_abs :: "(addr \<Rightarrow> 'k) \<Rightarrow> 'k Container \<Rightarrow> 'k ht_view \<Rightarrow> bool" where
  "ht_abs ky t v \<longleftrightarrow> keyOf t = ky \<and> (\<exists>bs. cont_inv t bs \<and> v = (ht_map t bs, ht_refs t))"

datatype 'k ht_op = HInsert addr | HInsertOrReplace addr | HReplaceIf addr addr bool
  | HRemove addr | HRemoveIf addr bool | HFind 'k

datatype 'h ht_out = OBool bool | OHandle 'h | OThrow | ODiverge

definition out_bool :: "'s \<Rightarrow> (bool \<times> 's) option \<Rightarrow> 'h ht_out \<times> 's" where
  "out_bool s res = (case res of None \<Rightarrow> (ODiverge, s) | Some (b, s') \<Rightarrow> (OBool b, s'))"
definition out_handle :: "'s \<Rightarrow> ((unit + 'h) \<times> 's) option \<Rightarrow> 'h ht_out \<times> 's" where
  "out_handle s res =
     (case res of None \<Rightarrow> (ODiverge, s) | Some (Inl _, s') \<Rightarrow> (OThrow, s')
      | Some (Inr h, s') \<Rightarrow> (OHandle h, s'))"

lemma out_simps [simp]:
  "out_bool s (Some (b, s')) = (OBool b, s')"
  "out_handle s (Some (Inl u, s')) = (OThrow, s')" "out_handle s (Some (Inr h, s')) = (OHandle h, s')"
  by (simp_all add: out_bool_def out_handle_def)

fun ht_step :: "'h handle_maker \<Rightarrow> 'k ht_op \<Rightarrow> 'k Container \<Rightarrow> 'h ht_out \<times> 'k Container" where
  "ht_step hm (HInsert n) t = out_bool t (insert_ht n t)"
| "ht_step hm (HInsertOrReplace n) t = out_handle t (insertOrReplace hm n t)"
| "ht_step hm (HReplaceIf x y p) t = out_bool t (replaceIf x y (\<lambda>_. p) t)"
| "ht_step hm (HRemove n) t = out_bool t (remove_ht n t)"
| "ht_step hm (HRemoveIf n p) t = out_handle t (removeIf hm n (\<lambda>_. p) t)"
| "ht_step hm (HFind k) t = out_handle t (find_ht hm k t)"

definition give :: "'h handle_maker \<Rightarrow> ptr \<Rightarrow> 'k ht_view \<Rightarrow> 'h ht_out \<times> 'k ht_view" where
  "give hm p v = (case hm p (snd v) of None \<Rightarrow> (OThrow, v) | Some (h, r) \<Rightarrow> (OHandle h, fst v, r))"

text \<open>The same operations on a map; a call whose handle maker throws changes nothing.\<close>

fun map_step ::
  "(addr \<Rightarrow> 'k) \<Rightarrow> 'h handle_maker \<Rightarrow> 'k ht_op \<Rightarrow> 'k ht_view \<Rightarrow> 'h ht_out \<times> 'k ht_view" where
  "map_step ky hm (HInsert n) (m, r) =
     (if m (ky n) \<noteq> None then (OBool False, m, r)
      else (OBool True, m(ky n \<mapsto> n), r(n := markAccessible (r n))))"
| "map_step ky hm (HInsertOrReplace n) (m, r) =
     (if m (ky n) = Some n then give hm None (m, r)
      else case hm (m (ky n)) r of
             None \<Rightarrow> (OThrow, m, r)
           | Some (h, r') \<Rightarrow>
               (OHandle h, m(ky n \<mapsto> n),
                case m (ky n) of
                  None \<Rightarrow> r'(n := markAccessible (r' n))
                | Some old \<Rightarrow> r'(n := markAccessible (r' n), old := unmarkAccessible (r' old))))"
| "map_step ky hm (HReplaceIf x y p) (m, r) =
     (if m (ky x) = Some x \<and> p
      then (OBool True, m(ky y \<mapsto> y),
            (let r' = r(x := unmarkAccessible (r x)) in r'(y := markAccessible (r' y))))
      else (OBool False, m, r))"
| "map_step ky hm (HRemove n) (m, r) =
     (if m (ky n) = Some n then (OBool True, m(ky n := None), r(n := unmarkAccessible (r n)))
      else (OBool False, m, r))"
| "map_step ky hm (HRemoveIf n p) (m, r) =
     (if m (ky n) = Some n \<and> p
      then case hm (Some n) r of
             None \<Rightarrow> (OThrow, m, r)
           | Some (h, r') \<Rightarrow> (OHandle h, m(ky n := None), r'(n := unmarkAccessible (r' n)))
      else give hm None (m, r))"
| "map_step ky hm (HFind k) (m, r) = give hm (m k) (m, r)"

text \<open>A replacement is asked for an item of the same key.\<close>

fun ht_pre :: "(addr \<Rightarrow> 'k) \<Rightarrow> 'k ht_op \<Rightarrow> 'k ht_view \<Rightarrow> bool" where
  "ht_pre ky (HReplaceIf x y p) v \<longleftrightarrow> ky x = ky y"
| "ht_pre ky _ v \<longleftrightarrow> True"

lemma accessible_bits [simp]:
  "isAccessible (markAccessible v)" "\<not> isAccessible (unmarkAccessible v)"
  by (simp_all add: ref_bits)

lemma ht_map_eqI: "(\<And>k a. f k = Some a \<longleftrightarrow> g k = Some a) \<Longrightarrow> f = (g :: 'k \<rightharpoonup> addr)"
  by (rule ext) (metis not_Some_eq)

lemma ht_map_same:
  assumes "ht_rep t bs" and "ht_rep t' bs'" and "keyOf t' = keyOf t" and "nodes bs' = nodes bs"
  shows "ht_map t' bs' = ht_map t bs"
  by (rule ht_map_eqI) (simp only: ht_map_iff [OF assms(1)] ht_map_iff [OF assms(2)] assms(3,4))

lemma ht_map_put:
  assumes "ht_rep t bs" and "ht_rep t' bs'" and "keyOf t' = keyOf t"
    and "nodes bs' = insert n (nodes bs - C)" and "C = set_option (ht_map t bs (keyOf t n))"
  shows "ht_map t' bs' = (ht_map t bs)(keyOf t n \<mapsto> n)"
proof (rule ht_map_eqI)
  fix k a
  have "c \<in> C \<longleftrightarrow> c \<in> nodes bs \<and> keyOf t c = keyOf t n" for c
    using ht_map_iff [OF assms(1), of "keyOf t n" c] by (simp add: assms(5) elem_set del: set_concat)
  then show "ht_map t' bs' k = Some a \<longleftrightarrow> ((ht_map t bs)(keyOf t n \<mapsto> n)) k = Some a"
    unfolding ht_map_iff [OF assms(2)] assms(3,4) fun_upd_apply
    by (cases "k = keyOf t n") (auto simp: ht_map_iff [OF assms(1)] simp del: set_concat)
qed

lemma ht_map_remove:
  assumes "ht_rep t bs" and "ht_rep t' bs'" and "keyOf t' = keyOf t" and "n \<in> nodes bs"
    and "nodes bs' = nodes bs - {n}"
  shows "ht_map t' bs' = (ht_map t bs)(keyOf t n := None)"
proof (rule ht_map_eqI)
  fix k a
  have "ht_map t bs (keyOf t n) = Some n" using assms(4) by (simp only: ht_map_iff [OF assms(1)])
  then have "c \<in> nodes bs \<and> keyOf t c = keyOf t n \<longleftrightarrow> c = n" for c
    using ht_map_iff [OF assms(1), of "keyOf t n" c] by (metis option.inject)
  then show "ht_map t' bs' k = Some a \<longleftrightarrow> ((ht_map t bs)(keyOf t n := None)) k = Some a"
    unfolding ht_map_iff [OF assms(2)] assms(3,5) fun_upd_apply
    by (cases "k = keyOf t n") (auto simp: ht_map_iff [OF assms(1)] simp del: set_concat)
qed

lemma cont_inv_accessible:
  "cont_inv t bs \<Longrightarrow> isAccessible (ht_refs t a) \<longleftrightarrow> ht_map t bs (keyOf t a) = Some a"
  by (simp add: cont_inv_def ht_map_iff del: set_concat)

lemma container_fields [simp]:
  "ht_rep (t\<lparr>ht_refs := r\<rparr>) bs = ht_rep t bs" "ht_rep (t\<lparr>numKeys := n\<rparr>) bs = ht_rep t bs"
  "getBucket (t\<lparr>ht_refs := r\<rparr>) k = getBucket t k" "getBucket (t\<lparr>numKeys := n\<rparr>) k = getBucket t k"
  "ht_map (t\<lparr>ht_refs := r\<rparr>) bs = ht_map t bs" "ht_map (t\<lparr>numKeys := n\<rparr>) bs = ht_map t bs"
  by (simp_all add: ht_rep_def getBucket_def numBuckets_def ht_map_def fun_eq_iff)

lemma same_items_container:
  assumes "same_items t (t' :: 'k Container)"
  shows "ht_refs t' = ht_refs t" "numKeys t' = numKeys t" "ht_config t' = ht_config t"
    "keyOf t' = keyOf t" "getBucket t' k = getBucket t k"
  using assms by (cases t; cases t'; simp add: same_items_def getBucket_def numBuckets_def)+

lemma ht_absI:
  "keyOf t = ky \<Longrightarrow> ht_rep t bs \<Longrightarrow> (\<And>a. isAccessible (ht_refs t a) \<longleftrightarrow> a \<in> nodes bs) \<Longrightarrow>
    numKeys t = of_nat (length (concat bs)) \<Longrightarrow> ht_map t bs = m \<Longrightarrow> ht_refs t = r \<Longrightarrow>
    ht_abs ky t (m, r)"
  unfolding ht_abs_def cont_inv_def by blast

lemma insert_ht_ok:
  fixes n :: addr
  assumes inv: "cont_inv t bs"
  defines "k \<equiv> keyOf t n"
  shows "if ht_map t bs k \<noteq> None then insert_ht n t = Some (False, t)
    else \<exists>t'. insert_ht n t = Some (True, t') \<and>
      ht_abs (keyOf t) t' ((ht_map t bs)(k \<mapsto> n), (ht_refs t)(n := markAccessible (ht_refs t n)))"
proof (cases "ht_map t bs k")
  case None
  have rep: "ht_rep t bs" and acc: "\<And>a. isAccessible (ht_refs t a) \<longleftrightarrow> a \<in> nodes bs"
    and nk: "numKeys t = of_nat (length (concat bs))" using inv by (auto simp: cont_inv_def simp del: set_concat)
  have na: "\<not> isAccessible (ht_refs t n)" using None cont_inv_accessible [OF inv, of n] by (simp add: k_def)
  obtain t1 bs1 where 1: "insertInBucket n (getBucket t k) t = Some (True, t1)" "ht_rep t1 bs1"
    "same_items t t1" "nodes bs1 = insert n (nodes bs)" "length (concat bs1) = Suc (length (concat bs))"
    using insertInBucket_ok [OF rep, of n] None by (auto simp: k_def simp del: set_concat)
  note same = same_items_container [OF 1(3)]
  define t' where "t' = t1\<lparr>ht_refs := (ht_refs t)(n := markAccessible (ht_refs t n)), numKeys := numKeys t + 1\<rparr>"
  have op: "insert_ht n t = Some (True, t')"
    using na 1(1) by (simp add: insert_ht_def Let_def k_def t'_def same)
  have "ht_map t1 bs1 = (ht_map t bs)(k \<mapsto> n)"
    using ht_map_put [OF rep 1(2) same(4), of n "{}"] 1(4) None by (simp add: k_def del: set_concat)
  then have "ht_abs (keyOf t) t' ((ht_map t bs)(k \<mapsto> n), (ht_refs t)(n := markAccessible (ht_refs t n)))"
    using 1 acc nk by (intro ht_absI [where bs = bs1]) (auto simp: t'_def same simp del: set_concat)
  with op None show ?thesis by simp
next
  case (Some c)
  have rep: "ht_rep t bs" using inv by (simp add: cont_inv_def)
  show ?thesis
    using insertInBucket_ok [OF rep, of n] Some by (auto simp: insert_ht_def Let_def k_def simp del: set_concat)
qed

lemma removeNode_ok:
  assumes inv: "cont_inv t bs" and m: "ht_map t bs (keyOf t n) = Some n"
  shows "\<exists>t1. removeFromBucket n (getBucket t (keyOf t n)) t = Some t1 \<and> same_items t t1 \<and>
    ht_abs (keyOf t) (t1\<lparr>ht_refs := (ht_refs t)(n := unmarkAccessible (ht_refs t n)), numKeys := numKeys t - 1\<rparr>)
      ((ht_map t bs)(keyOf t n := None), (ht_refs t)(n := unmarkAccessible (ht_refs t n)))"
proof -
  have rep: "ht_rep t bs" and acc: "\<And>a. isAccessible (ht_refs t a) \<longleftrightarrow> a \<in> nodes bs"
    and nk: "numKeys t = of_nat (length (concat bs))" using inv by (auto simp: cont_inv_def simp del: set_concat)
  have n: "n \<in> nodes bs" using m by (simp only: ht_map_iff [OF rep])
  obtain t1 bs1 where 1: "removeFromBucket n (getBucket t (keyOf t n)) t = Some t1" "ht_rep t1 bs1"
    "same_items t t1" "nodes bs1 = nodes bs - {n}" "Suc (length (concat bs1)) = length (concat bs)"
    using removeFromBucket_ok [OF rep n] by blast
  note same = same_items_container [OF 1(3)]
  have "ht_map t1 bs1 = (ht_map t bs)(keyOf t n := None)"
    using ht_map_remove [OF rep 1(2) same(4) n 1(4)] .
  then have "ht_abs (keyOf t) (t1\<lparr>ht_refs := (ht_refs t)(n := unmarkAccessible (ht_refs t n)), numKeys := numKeys t - 1\<rparr>)
      ((ht_map t bs)(keyOf t n := None), (ht_refs t)(n := unmarkAccessible (ht_refs t n)))"
    using 1 acc nk by (intro ht_absI [where bs = bs1]) (auto simp: same simp flip: 1(5) simp del: set_concat)
  with 1 show ?thesis by blast
qed

text \<open>An item takes the place of the item of its key, or is added.\<close>

lemma put_ok:
  fixes n :: addr
  assumes inv: "cont_inv t bs"
  defines "old \<equiv> ht_map t bs (keyOf t n)"
  shows "\<exists>t1 bs1. insertOrReplaceInBucket n (getBucket t (keyOf t n)) t = Some (old, t1) \<and>
    same_items t t1 \<and> ht_rep t1 bs1 \<and> ht_map t1 bs1 = (ht_map t bs)(keyOf t n \<mapsto> n) \<and>
    nodes bs1 = insert n (nodes bs - set_option old) \<and>
    length (concat bs1) = (if old = None then Suc (length (concat bs)) else length (concat bs))"
proof -
  have rep: "ht_rep t bs" using inv by (simp add: cont_inv_def)
  obtain t1 bs1 where 1: "insertOrReplaceInBucket n (getBucket t (keyOf t n)) t = Some (old, t1)"
    "ht_rep t1 bs1" "same_items t t1" and
    "case old of None \<Rightarrow> nodes bs1 = insert n (nodes bs) \<and> length (concat bs1) = Suc (length (concat bs))
     | Some c \<Rightarrow> nodes bs1 = insert n (nodes bs - {c}) \<and> length (concat bs1) = length (concat bs)"
    using insertOrReplaceInBucket_ok [OF rep, of n] unfolding old_def by blast
  then have 2: "nodes bs1 = insert n (nodes bs - set_option old)"
    "length (concat bs1) = (if old = None then Suc (length (concat bs)) else length (concat bs))"
    by (auto split: option.splits simp del: set_concat)
  with 1 ht_map_put [OF rep 1(2) same_items_container(4) [OF 1(3)] 2(1)] show ?thesis
    unfolding old_def by blast
qed

text \<open>Putting the replaced item back, as the exception path of \<^verbatim>\<open>insertOrReplace\<close> does.\<close>

lemma put_back_ok:
  assumes inv: "cont_inv t bs" and "n \<notin> nodes bs"
    and c: "ht_map t bs (keyOf t n) = Some c"
    and t1: "ht_rep t1 bs1" "same_items t t1" "ht_map t1 bs1 = (ht_map t bs)(keyOf t n \<mapsto> n)"
      "nodes bs1 = insert n (nodes bs - {c})" "length (concat bs1) = length (concat bs)"
  shows "\<exists>t2. insertOrReplaceInBucket c (getBucket t (keyOf t n)) t1 = Some (Some n, t2) \<and>
    ht_abs (keyOf t) t2 (ht_map t bs, ht_refs t)"
proof -
  have rep: "ht_rep t bs" and acc: "\<And>a. isAccessible (ht_refs t a) \<longleftrightarrow> a \<in> nodes bs"
    and nk: "numKeys t = of_nat (length (concat bs))"
    using inv by (auto simp: cont_inv_def simp del: set_concat)
  note same = same_items_container [OF t1(2)]
  have ck: "keyOf t c = keyOf t n" "c \<in> nodes bs" using c ht_map_iff [OF rep] by (simp_all del: set_concat)
  then obtain t2 bs2 where 2: "insertOrReplaceInBucket c (getBucket t (keyOf t n)) t1 = Some (Some n, t2)"
    "ht_rep t2 bs2" "same_items t1 t2" "nodes bs2 = insert c (nodes bs1 - {n})"
    "length (concat bs2) = length (concat bs1)"
    using insertOrReplaceInBucket_ok [OF t1(1), of c] t1(3) same by (auto simp del: set_concat)
  note same2 = same_items_container [OF 2(3)]
  have "nodes bs2 = nodes bs" using 2(4) t1(4) ck(2) assms(2) by (auto simp del: set_concat)
  then have "ht_abs (keyOf t) t2 (ht_map t bs, ht_refs t)"
    using 2 t1(5) acc nk ht_map_same [OF rep 2(2)]
    by (intro ht_absI [where bs = bs2]) (simp_all add: same same2 del: set_concat)
  with 2(1) show ?thesis by blast
qed

text \<open>A step of the table and a step of the map give the same output and related states.\<close>

definition agree :: "(addr \<Rightarrow> 'k) \<Rightarrow> 'h ht_out \<times> 'k Container \<Rightarrow> 'h ht_out \<times> 'k ht_view \<Rightarrow> bool" where
  "agree ky x y \<longleftrightarrow> ht_abs ky (snd x) (snd y) \<and> fst x = fst y"

lemma agree_pair [simp]: "agree ky (u, t) (u', v) \<longleftrightarrow> ht_abs ky t v \<and> u = u'"
  by (simp add: agree_def)

lemma replaceIf_agrees:
  assumes inv: "cont_inv t bs" and k: "keyOf t a = keyOf t b"
  shows "agree (keyOf t) (out_bool t (replaceIf a b (\<lambda>_. p) t))
    (map_step (keyOf t) hm (HReplaceIf a b p) (ht_map t bs, ht_refs t))"
proof (cases "ht_map t bs (keyOf t a) = Some a \<and> p")
  case True
  let ?r = "let r = (ht_refs t)(a := unmarkAccessible (ht_refs t a)) in r(b := markAccessible (r b))"
  have "ht_map t bs (keyOf t b) = Some a" using True k by simp
  with put_ok [OF inv, of b]
  obtain t1 bs1 where 1: "insertOrReplaceInBucket b (getBucket t (keyOf t b)) t = Some (Some a, t1)"
    "same_items t t1" "ht_rep t1 bs1" "ht_map t1 bs1 = (ht_map t bs)(keyOf t b \<mapsto> b)"
    "nodes bs1 = insert b (nodes bs - {a})" "length (concat bs1) = length (concat bs)"
    by (auto simp del: set_concat)
  note s = same_items_container [OF 1(2)]
  have "replaceIf a b (\<lambda>_. p) t = Some (True, t1\<lparr>ht_refs := ?r\<rparr>)"
    using True 1(1) cont_inv_accessible [OF inv, of a] by (simp add: replaceIf_def s(1) Let_def)
  moreover have "isAccessible (?r x) \<longleftrightarrow> x \<in> nodes bs1" for x
    using inv by (auto simp: 1(5) cont_inv_def Let_def simp del: set_concat)
  then have "ht_abs (keyOf t) (t1\<lparr>ht_refs := ?r\<rparr>) ((ht_map t bs)(keyOf t b \<mapsto> b), ?r)"
    using 1(3,4,6) inv by (intro ht_absI [where bs = bs1])
      (simp_all add: s(2,4) cont_inv_def del: set_concat)
  ultimately show ?thesis using True by (simp add: Let_def)
next
  case False
  with inv cont_inv_accessible [OF inv, of a] show ?thesis
    by (auto simp: replaceIf_def ht_abs_def)
qed

lemma remove_agrees:
  assumes inv: "cont_inv t bs"
  shows "agree (keyOf t) (out_bool t (remove_ht n t))
    (map_step (keyOf t) hm (HRemove n) (ht_map t bs, ht_refs t))"
proof (cases "ht_map t bs (keyOf t n) = Some n")
  case True
  with removeNode_ok [OF inv True] cont_inv_accessible [OF inv, of n] show ?thesis
    by (auto simp: remove_ht_def same_items_container(1,2))
next
  case False
  with inv cont_inv_accessible [OF inv, of n] show ?thesis
    by (auto simp: remove_ht_def ht_abs_def)
qed

text \<open>
  What the table relies on from its handle maker: a null handle can always be made, and making a
  handle does not change which items are accessible.
\<close>

locale hash_client =
  fixes hm :: "'h handle_maker" and ky :: "addr \<Rightarrow> 'k"
  assumes null_handle: "hm None r \<noteq> None"
    and keeps_accessible: "hm p r = Some (h, r') \<Longrightarrow> isAccessible (r' a) = isAccessible (r a)"
begin

lemma cont_inv_hm:
  "cont_inv t bs \<Longrightarrow> hm p (ht_refs t) = Some (h, r) \<Longrightarrow> cont_inv (t\<lparr>ht_refs := r\<rparr>) bs"
  using keeps_accessible by (auto simp: cont_inv_def simp del: set_concat)

lemma give_ok:
  assumes "cont_inv t bs" and "keyOf t = ky"
  shows "agree ky (out_handle t (case hm p (ht_refs t) of None \<Rightarrow> Some (Inl (), t)
      | Some (h, r) \<Rightarrow> Some (Inr h, t\<lparr>ht_refs := r\<rparr>))) (give hm p (ht_map t bs, ht_refs t))"
proof (cases "hm p (ht_refs t)")
  case None
  with assms show ?thesis by (auto simp: give_def ht_abs_def)
next
  case (Some hr)
  with assms cont_inv_hm [OF assms(1), of p "fst hr" "snd hr"] show ?thesis
    by (cases hr) (auto simp: give_def ht_abs_def intro!: exI [of _ bs])
qed

lemma removeIf_agrees:
  assumes inv: "cont_inv t bs" and ky: "keyOf t = ky"
  shows "agree ky (out_handle t (removeIf hm n (\<lambda>_. p) t))
    (map_step ky hm (HRemoveIf n p) (ht_map t bs, ht_refs t))"
proof (cases "ht_map t bs (ky n) = Some n \<and> p")
  case True
  then have acc: "isAccessible (ht_refs t n)" using cont_inv_accessible [OF inv, of n] ky by simp
  show ?thesis
  proof (cases "hm (Some n) (ht_refs t)")
    case None
    with True inv ky acc show ?thesis by (auto simp: removeIf_def ht_abs_def)
  next
    case (Some hr)
    obtain h r where h: "hr = (h, r)" by fastforce
    with Some have inv1: "cont_inv (t\<lparr>ht_refs := r\<rparr>) bs" using cont_inv_hm [OF inv] by simp
    from removeNode_ok [OF this, of n] True ky obtain t1 where
      "removeFromBucket n (getBucket t (ky n)) (t\<lparr>ht_refs := r\<rparr>) = Some t1"
      "same_items (t\<lparr>ht_refs := r\<rparr>) t1"
      "ht_abs ky (t1\<lparr>ht_refs := r(n := unmarkAccessible (r n)), numKeys := numKeys t - 1\<rparr>)
        ((ht_map t bs)(ky n := None), r(n := unmarkAccessible (r n)))"
      by auto
    with True Some h acc ky show ?thesis
      by (simp add: removeIf_def same_items_container(1,2))
  qed
next
  case False
  then show ?thesis
    using give_ok [OF inv ky, of None] cont_inv_accessible [OF inv, of n] ky
    by (auto simp: removeIf_def)
qed

lemma insertOrReplace_new:
  assumes inv: "cont_inv t bs" and ky: "keyOf t = ky" and new: "ht_map t bs (ky n) \<noteq> Some n"
  shows "agree ky (out_handle t (insertOrReplace hm n t))
    (map_step ky hm (HInsertOrReplace n) (ht_map t bs, ht_refs t))"
proof -
  let ?m = "ht_map t bs" and ?r = "ht_refs t"
  have acc: "\<And>a. isAccessible (?r a) \<longleftrightarrow> a \<in> nodes bs"
    and nk: "numKeys t = of_nat (length (concat bs))"
    using inv by (auto simp: cont_inv_def simp del: set_concat)
  have na: "\<not> isAccessible (?r n)" and nn: "n \<notin> nodes bs"
    using new cont_inv_accessible [OF inv, of n] acc [of n] ky by auto
  define old where "old = ?m (ky n)"
  then have no: "old \<noteq> Some n" using new by simp
  obtain t1 bs1 where 1: "insertOrReplaceInBucket n (getBucket t (ky n)) t = Some (old, t1)"
    "same_items t t1" "ht_rep t1 bs1" "ht_map t1 bs1 = ?m(ky n \<mapsto> n)"
    "nodes bs1 = insert n (nodes bs - set_option old)"
    "length (concat bs1) = (if old = None then Suc (length (concat bs)) else length (concat bs))"
    using put_ok [OF inv, of n] ky unfolding old_def by metis
  note same = same_items_container [OF 1(2)]
  note op = insertOrReplace_def Let_def ky same na 1(1)
  show ?thesis
  proof (cases "hm old ?r")
    case None
    then obtain c where c: "old = Some c" using null_handle by (cases old) auto
    obtain t2 where "insertOrReplaceInBucket c (getBucket t (ky n)) t1 = Some (Some n, t2)"
      "ht_abs ky t2 (?m, ?r)"
      using put_back_ok [OF inv nn _ 1(3,2), of c] 1(4-6) c by (auto simp: ky old_def simp del: set_concat)
    with None no c show ?thesis by (simp add: op flip: old_def)
  next
    case (Some hr)
    then obtain h r where h: "hm old ?r = Some (h, r)" by (cases hr) auto
    have acc': "isAccessible (r a) \<longleftrightarrow> a \<in> nodes bs" for a using keeps_accessible [OF h] acc by blast
    let ?r' = "case old of None \<Rightarrow> r(n := markAccessible (r n))
      | Some c \<Rightarrow> r(n := markAccessible (r n), c := unmarkAccessible (r c))"
    have "isAccessible (?r' a) \<longleftrightarrow> a \<in> nodes bs1" for a
      using no by (cases old) (auto simp: 1(5) acc' simp del: set_concat)
    then have "ht_abs ky (if old = None then t1\<lparr>ht_refs := ?r', numKeys := numKeys t + 1\<rparr>
        else t1\<lparr>ht_refs := ?r'\<rparr>) (?m(ky n \<mapsto> n), ?r')"
      using 1(3,4,6) nk by (cases "old = None"; intro ht_absI [where bs = bs1])
        (auto simp: same ky simp del: set_concat)
    then show ?thesis
      using h no by (cases old) (simp_all add: op flip: old_def)
  qed
qed

lemma step_agrees:
  assumes "ht_abs ky t v" and pre: "ht_pre ky x v"
  shows "agree ky (ht_step hm x t) (map_step ky hm x v)"
proof -
  obtain bs where ky: "keyOf t = ky" and inv: "cont_inv t bs" and v: "v = (ht_map t bs, ht_refs t)"
    using assms(1) by (auto simp: ht_abs_def)
  have rep: "ht_rep t bs" using inv by (simp add: cont_inv_def)
  have same: "ht_abs ky t (ht_map t bs, ht_refs t)" using assms(1) by (simp add: v)
  note acc = cont_inv_accessible [OF inv, unfolded ky]
  show ?thesis
  proof (cases x)
    case (HInsert n)
    then show ?thesis using insert_ht_ok [OF inv, of n] same
      by (cases "ht_map t bs (ky n)") (auto simp: v ky)
  next
    case (HInsertOrReplace n)
    show ?thesis
    proof (cases "ht_map t bs (ky n) = Some n")
      case True
      with HInsertOrReplace give_ok [OF inv ky, of None] show ?thesis
        by (simp add: v insertOrReplace_def acc)
    next
      case False
      then show ?thesis
        unfolding HInsertOrReplace v ht_step.simps by (rule insertOrReplace_new [OF inv ky])
    qed
  next
    case (HReplaceIf a b p)
    then have "keyOf t a = keyOf t b" using pre ky by simp
    from replaceIf_agrees [OF inv this] show ?thesis unfolding HReplaceIf v ht_step.simps ky .
  next
    case (HRemove n)
    show ?thesis using remove_agrees [OF inv] unfolding HRemove v ht_step.simps ky .
  next
    case (HRemoveIf n p)
    show ?thesis using removeIf_agrees [OF inv ky] unfolding HRemoveIf v ht_step.simps .
  next
    case (HFind k)
    with give_ok [OF inv ky, of "ht_map t bs k"] findInBucket_ok [OF rep, of k] show ?thesis
      by (simp add: v find_ht_def Let_def)
  qed
qed

end

sublocale hash_client \<subseteq> simulation "ht_abs ky" "ht_step hm" "map_step ky hm" "ht_pre ky"
  by unfold_locales (use step_agrees in \<open>auto simp: agree_def\<close>)

interpretation acq: hash_client acquire ky for ky :: "addr \<Rightarrow> 'k"
proof
  fix p r h r' a
  assume "acquire p r = Some (h, r')"
  then show "isAccessible (r' a) = isAccessible (r a)"
    by (auto simp: acquire_def incRef_cases inc_count ref_bits split: option.splits if_splits)
qed (simp add: acquire_def)

section \<open>Iteration\<close>

definition at_end :: "'k Container \<Rightarrow> 'h Iterator \<Rightarrow> bool" where
  "at_end t it \<longleftrightarrow> currBucket it = getNumBuckets (ht_config t) \<and> curSor it = 0"

text \<open>The handles that a loop \<^verbatim>\<open>for (; it != end; ++it)\<close> of at most \<open>n\<close> rounds meets.\<close>

primrec visited :: "nat \<Rightarrow> (addr \<Rightarrow> 'h option) \<Rightarrow> 'k Container \<Rightarrow> 'h Iterator \<Rightarrow> 'h list option" where
  "visited 0 acq t it = (if at_end t it then Some [] else None)"
| "visited (Suc n) acq t it =
     (if at_end t it then Some []
      else do { it' \<leftarrow> iter_next acq t it;
                hs \<leftarrow> visited n acq t it';
                Some (bucketElems it ! curSor it # hs) })"

lemma fold_acquire:
  "fold (\<lambda>e hs. case acq e of Some h \<Rightarrow> hs @ [h] | None \<Rightarrow> hs) xs hs = hs @ List.map_filter acq xs"
  by (induction xs arbitrary: hs) (auto simp: map_filter_simps split: option.splits)

lemma getBucketElems_ok:
  "ht_rep t bs \<Longrightarrow> b < length bs \<Longrightarrow> getBucketElems acq t b = Some (List.map_filter acq (bs ! b))"
  by (simp add: getBucketElems_def forEachBucketElem_def forEachLoop_chain [OF ht_repD(3)] fold_acquire)

definition elems_from :: "(addr \<Rightarrow> 'h option) \<Rightarrow> addr list list \<Rightarrow> nat \<Rightarrow> 'h list" where
  "elems_from acq bs b = List.map_filter acq (concat (drop b bs))"

lemma map_filter_append: "List.map_filter f (xs @ ys) = List.map_filter f xs @ List.map_filter f ys"
  by (induction xs) (auto simp: map_filter_simps split: option.splits)

lemma elems_from_step:
  "b < length bs \<Longrightarrow> elems_from acq bs b = List.map_filter acq (bs ! b) @ elems_from acq bs (Suc b)"
  by (simp add: elems_from_def map_filter_append flip: Cons_nth_drop_Suc)

text \<open>An iterator stands for the handles still to come.\<close>

definition iter_rep :: "(addr \<Rightarrow> 'h option) \<Rightarrow> addr list list \<Rightarrow> 'h Iterator \<Rightarrow> 'h list \<Rightarrow> bool" where
  "iter_rep acq bs it hs \<longleftrightarrow>
     (if hs = [] then currBucket it = length bs \<and> curSor it = 0
      else currBucket it < length bs \<and> bucketElems it = List.map_filter acq (bs ! currBucket it) \<and>
        curSor it < length (bucketElems it) \<and>
        hs = drop (curSor it) (bucketElems it) @ elems_from acq bs (Suc (currBucket it)))"

lemma nextNonEmpty_ok:
  assumes "ht_rep t bs" and n: "getNumBuckets (ht_config t) = length bs" and "b \<le> length bs"
  shows "\<exists>it. nextNonEmpty acq t b = Some it \<and> iter_rep acq bs it (elems_from acq bs b)"
  using assms(3)
proof (induction rule: inc_induct)
  case base
  then show ?case by (simp add: nextNonEmpty.simps [of acq t "length bs"] n iter_rep_def elems_from_def
      map_filter_simps)
next
  case (step b)
  then show ?case
    using getBucketElems_ok [OF assms(1), of b acq] elems_from_step [of b bs acq]
    by (cases "List.map_filter acq (bs ! b)") (auto simp: nextNonEmpty.simps [of acq t b] n iter_rep_def)
qed

lemma visited_ok:
  assumes rep: "ht_rep t bs" and n: "getNumBuckets (ht_config t) = length bs"
  shows "iter_rep acq bs it hs \<Longrightarrow> length hs \<le> k \<Longrightarrow> visited k acq t it = Some hs"
proof (induction k arbitrary: it hs)
  case 0
  then show ?case by (simp add: iter_rep_def at_end_def n)
next
  case (Suc k)
  show ?case
  proof (cases "hs = []")
    case True
    with Suc.prems show ?thesis by (simp add: iter_rep_def at_end_def n)
  next
    case False
    with Suc.prems have it: "currBucket it < length bs" "curSor it < length (bucketElems it)"
      "hs = drop (curSor it) (bucketElems it) @ elems_from acq bs (Suc (currBucket it))"
      "bucketElems it = List.map_filter acq (bs ! currBucket it)"
      by (auto simp: iter_rep_def)
    then have hs: "hs = bucketElems it ! curSor it # drop (Suc (curSor it)) (bucketElems it) @
        elems_from acq bs (Suc (currBucket it))" by (simp flip: Cons_nth_drop_Suc)
    have "\<exists>it'. iter_next acq t it = Some it' \<and> iter_rep acq bs it' (tl hs)"
    proof (cases "Suc (curSor it) < length (bucketElems it)")
      case True
      with it hs show ?thesis by (auto simp: iter_next_def Let_def iter_rep_def)
    next
      case False
      with it hs nextNonEmpty_ok [OF rep n, of "Suc (currBucket it)" acq] show ?thesis
        by (auto simp: iter_next_def Let_def)
    qed
    then obtain it' where "iter_next acq t it = Some it'" "iter_rep acq bs it' (tl hs)" by blast
    moreover have "length (tl hs) \<le> k" using Suc.prems by simp
    ultimately have "visited (Suc k) acq t it = Some (bucketElems it ! curSor it # tl hs)"
      using Suc.IH it(1) n by (simp add: at_end_def)
    with hs show ?thesis by simp
  qed
qed

section \<open>Distribution\<close>

lemma distributionLoop_ok:
  assumes "ht_rep t bs" and "\<And>b. b \<in> set is \<Longrightarrow> b < length bs"
  shows "distributionLoop t is d =
    Some (\<lambda>c. d c + of_nat (length (filter (\<lambda>b. of_nat (length (bs ! b)) = c) is)))"
  using assms(2)
proof (induction "is" arbitrary: d)
  case (Cons b "is")
  have "getBucketNumElems t b = Some (of_nat (length (bs ! b)))"
    using countLoop_chain [OF ht_repD(3) [OF assms(1)]] Cons.prems by (simp add: getBucketNumElems_def)
  with Cons show ?case by (auto simp: fun_eq_iff)
qed simp

section \<open>Properties\<close>

lemma power_of_two_test: "(of_nat (2 ^ p) :: u64) AND (of_nat (2 ^ p) - 1) = 0"
proof -
  have "(2 :: u64) ^ p AND (2 ^ p - 1) = take_bit p (2 ^ p)"
    by (simp add: take_bit_eq_mask mask_eq_exp_minus_1)
  also have "\<dots> = 0" by (rule bit_word_eqI) (auto simp: bit_simps)
  finally show ?thesis by simp
qed

lemma container_rep_mk:
  "ht_rep (mkContainer t r n cfg) bs = ht_rep t bs" "ht_map (mkContainer t r n cfg) bs = ht_map t bs"
  by (simp_all add: ht_rep_def getBucket_def numBuckets_def ht_map_def fun_eq_iff mkContainer_def)

lemma empty_container:
  assumes "bucketsPower cfg \<le> 32" and "\<And>a. \<not> isAccessible (r a)"
    and t: "hashTable t = replicate (2 ^ bucketsPower cfg) None"
  shows "cont_inv (mkContainer t r 0 cfg) (replicate (2 ^ bucketsPower cfg) [])"
    "ht_abs (keyOf t) (mkContainer t r 0 cfg) (Map.empty, r)"
proof -
  have p: "(2 :: nat) ^ bucketsPower cfg \<le> 2 ^ 32" using assms(1) by (intro power_increasing) simp_all
  have rep: "ht_rep t (replicate (2 ^ bucketsPower cfg) [])"
    using p by (simp add: ht_rep_def t list_all2_conv_all_nth)
  with assms(2) show inv: "cont_inv (mkContainer t r 0 cfg) (replicate (2 ^ bucketsPower cfg) [])"
    by (simp add: cont_inv_def container_rep_mk) (simp add: mkContainer_def)
  have "ht_map t (replicate (2 ^ bucketsPower cfg) []) = Map.empty"
    using ht_map_None [OF rep] by (simp add: fun_eq_iff)
  with inv show "ht_abs (keyOf t) (mkContainer t r 0 cfg) (Map.empty, r)"
    unfolding ht_abs_def
    by (intro conjI exI [of _ "replicate (2 ^ bucketsPower cfg) []"])
       (simp_all only: container_rep_mk, simp_all add: mkContainer_def)
qed

lemma distinct_concat_nth:
  assumes "\<And>i. i < length xs \<Longrightarrow> distinct (xs ! i)"
    and "\<And>i j. i < j \<Longrightarrow> j < length xs \<Longrightarrow> set (xs ! i) \<inter> set (xs ! j) = {}"
  shows "distinct (concat xs)"
  using assms
proof (induction xs)
  case (Cons x xs)
  have "distinct (concat xs)"
    using Cons.prems(1) [of "Suc i" for i] Cons.prems(2) [of "Suc i" "Suc j" for i j] by (intro Cons.IH) auto
  moreover have "set x \<inter> set (concat xs) = {}"
    using Cons.prems(2) [of 0 "Suc j" for j] by (fastforce simp: in_set_conv_nth)
  ultimately show ?case using Cons.prems(1) [of 0] by simp
qed simp

lemma nodes_distinct:
  assumes rep: "ht_rep t bs"
  shows "distinct (concat bs)"
proof (rule distinct_concat_nth)
  note d = ht_repD [OF rep]
  show "distinct (bs ! i)" if "i < length bs" for i using d(4) [OF that] by (simp add: distinct_map)
  show "set (bs ! i) \<inter> set (bs ! j) = {}" if "i < j" "j < length bs" for i j
  proof (rule ccontr)
    assume "set (bs ! i) \<inter> set (bs ! j) \<noteq> {}"
    then obtain a where "a \<in> set (bs ! i)" "a \<in> set (bs ! j)" by blast
    with d(5) [of i a] d(5) [of j a] that show False by simp
  qed
qed

lemma numKeys_card:
  assumes "cont_inv t bs"
  shows "numKeys t = of_nat (card (dom (ht_map t bs)))"
proof -
  have rep: "ht_rep t bs" using assms by (simp add: cont_inv_def)
  have key: "inj_on (keyOf t) (nodes bs)"
  proof (rule inj_onI)
    fix x y
    assume "x \<in> nodes bs" "y \<in> nodes bs" "keyOf t x = keyOf t y"
    then show "x = y"
      using ht_map_iff [OF rep, of "keyOf t x" x] ht_map_iff [OF rep, of "keyOf t x" y]
      by (simp del: set_concat)
  qed
  have "length (concat bs) = card (nodes bs)" by (rule distinct_card [OF nodes_distinct [OF rep], symmetric])
  also have "\<dots> = card (keyOf t ` nodes bs)" by (rule card_image [OF key, symmetric])
  also have "keyOf t ` nodes bs = dom (ht_map t bs)"
  proof (rule set_eqI)
    show "k \<in> keyOf t ` nodes bs \<longleftrightarrow> k \<in> dom (ht_map t bs)" for k
      using ht_map_None [OF rep, of k] by (auto simp: domIff simp del: set_concat)
  qed
  finally show ?thesis using assms by (simp add: cont_inv_def)
qed

text \<open>Items 1 to 9 with their address as key, in a table of four buckets.\<close>

definition sample_ht :: "nat Container" where
  "sample_ht = mkContainer \<lparr>hashNext = (\<lambda>_. None), keyOf = (\<lambda>a. a mod 10), hashTable = replicate 4 None,
     hasher = of_nat, restorable = True\<rparr> (\<lambda>_. 0) 0 \<lparr>bucketsPower = 2, locksPower = 1, hasherMagicId = 2\<rparr>"

lemma sample_ht_empty: "ht_abs (\<lambda>a. a mod 10) sample_ht (Map.empty, \<lambda>_. 0)"
  "cont_inv sample_ht (replicate 4 [])"
  unfolding sample_ht_def
  using empty_container [of "\<lparr>bucketsPower = 2, locksPower = 1, hasherMagicId = 2\<rparr>" "\<lambda>_. 0"
      "\<lparr>hashNext = (\<lambda>_. None), keyOf = (\<lambda>a. a mod 10), hashTable = replicate 4 None,
        hasher = of_nat, restorable = True\<rparr> :: nat HT"]
  by (simp_all add: ref_bits)

lemma ht_abs_refs:
  assumes "ht_abs ky t (m, r)" and "\<And>a. isAccessible (r' a) = isAccessible (r a)"
  shows "ht_abs ky (t\<lparr>ht_refs := r'\<rparr>) (m, r')"
  using assms by (auto simp: ht_abs_def cont_inv_def simp del: set_concat)

lemma length_map_filter_le: "length (List.map_filter f xs) \<le> length xs"
  by (induction xs) (auto simp: map_filter_simps split: option.splits)

text \<open>A table of three items, two of them in one chain.\<close>

definition sample_full :: "nat Container" where
  "sample_full = mkContainer \<lparr>hashNext = (\<lambda>_. None)(1 := Some 5), keyOf = (\<lambda>a. a mod 10),
     hashTable = [None, Some 1, Some 2, None], hasher = of_nat, restorable = True\<rparr>
     (\<lambda>a. if a \<in> {1, 2, 5} then markAccessible 0 else 0) 3
     \<lparr>bucketsPower = 2, locksPower = 1, hasherMagicId = 2\<rparr>"

lemma sample_full_inv: "cont_inv sample_full [[], [1, 5], [2], []]"
proof -
  have f: "hashNext sample_full = (\<lambda>_. None)(1 := Some 5)" "keyOf sample_full = (\<lambda>a. a mod 10)"
    "hashTable sample_full = [None, Some 1, Some 2, None]"
    by (simp_all add: sample_full_def mkContainer_def)
  have b: "getBucket sample_full 1 = 1" "getBucket sample_full 5 = 1" "getBucket sample_full 2 = 2"
    by (simp_all add: sample_full_def mkContainer_def getBucket_def numBuckets_def)
  have four: "(\<forall>b < 4. P b) \<longleftrightarrow> P 0 \<and> P 1 \<and> P 2 \<and> P (3 :: nat)" for P
    by (simp add: numeral_eq_Suc All_less_Suc) auto
  have "length [[], [1 :: nat, 5], [2], []] = 4" by simp
  then have "ht_rep sample_full [[], [1, 5], [2], []]"
    unfolding ht_rep_def f by (simp only: four) (simp add: b b [unfolded One_nat_def])
  then show ?thesis by (simp add: cont_inv_def) (simp add: sample_full_def mkContainer_def ref_bits)
qed

lemma sample_full_config: "getNumBuckets (ht_config sample_full) = 4"
  by (simp add: sample_full_def mkContainer_def getNumBuckets_def)

text \<open>C25. Any sequence of insert, insertOrReplace, replaceIf, remove, removeIf and find calls on the
  hash table gives the outputs of the same calls on a map from keys to items, also when acquiring a
  handle throws, and leaves the chains, the accessible bits and the reference counts of that map;
  every walk of a chain ends, and the number of keys is the size of the map.\<close>

theorem hashtable_implements_map:
  assumes "ht_abs ky t (m, r)" and "admissible (map_step ky acquire) (ht_pre ky) ops (m, r)"
  shows "fst (run (ht_step acquire) ops t) = fst (run (map_step ky acquire) ops (m, r)) \<and>
    ht_abs ky (snd (run (ht_step acquire) ops t)) (snd (run (map_step ky acquire) ops (m, r))) \<and>
    numKeys (snd (run (ht_step acquire) ops t)) =
      of_nat (card (dom (fst (snd (run (map_step ky acquire) ops (m, r))))))"
  using acq.run_simulates [OF assms] numKeys_card by (auto simp: ht_abs_def)

theorem hashtable_implements_map_witness:
  "let ops = [HInsert 1, HInsert 5, HInsertOrReplace 15, HFind 5, HRemove 1, HFind 1, HInsert 25] in
   fst (run (ht_step acquire) ops sample_ht) =
     [OBool True, OBool True, OHandle (ItemHandle 5), OHandle (ItemHandle 15), OBool True,
      OHandle NullHandle, OBool False] \<and>
   numKeys (snd (run (ht_step acquire) ops sample_ht)) = 1"
proof -
  let ?ops = "[HInsert 1, HInsert 5, HInsertOrReplace 15, HFind 5, HRemove 1, HFind 1, HInsert 25]"
  let ?ky = "\<lambda>a. a mod 10 :: nat"
  let ?run = "run (map_step ?ky acquire) ?ops (Map.empty, \<lambda>_. 0)"
  have f: "incRef (markAccessible 0) = Inr (kIncOk, markAccessible 0 + 1)" by code_simp
  have s: "fst ?run = [OBool True, OBool True, OHandle (ItemHandle 5), OHandle (ItemHandle 15), OBool True,
      OHandle NullHandle, OBool False]" "dom (fst (snd ?run)) = {5}"
    by (auto simp: acquire_def f give_def)
  show ?thesis
    using hashtable_implements_map [OF sample_ht_empty(1), of ?ops]
    unfolding s Let_def by (simp del: run.simps)
qed

text \<open>Strong exception safety of insertOrReplace: when the handle of the replaced item cannot be
  acquired because its count is at the maximum, the call throws and the table is the map it was.\<close>

lemma insertOrReplace_throws:
  assumes "ht_abs ky t (m, r)" and "m (ky n) = Some c" and "c \<noteq> n"
    and "incRef (r c) = Inl RefcountOverflow"
  shows "\<exists>t'. insertOrReplace acquire n t = Some (Inl (), t') \<and> ht_abs ky t' (m, r)"
proof -
  have "acquire (Some c) r = None" using assms(4) by (simp add: acquire_def)
  with assms(2,3) have "map_step ky acquire (HInsertOrReplace n) (m, r) = (OThrow, m, r)" by simp
  with acq.step_agrees [OF assms(1), of "HInsertOrReplace n"]
  have a: "agree ky (out_handle t (insertOrReplace acquire n t)) (OThrow, m, r)" by simp
  show ?thesis
  proof (cases "insertOrReplace acquire n t")
    case (Some p)
    with a show ?thesis by (cases p; cases "fst p") auto
  qed (use a in \<open>simp add: out_handle_def\<close>)
qed

text \<open>C26. A loop over an iterator of an unchanging table ends and meets, bucket by bucket and in chain
  order, a handle of every item whose handle maker does not throw: each item once.\<close>

theorem iteration_complete:
  assumes "cont_inv t bs" and "getNumBuckets (ht_config t) = length bs"
  shows "\<exists>it. iter_begin acq t = Some it \<and>
    visited (length (concat bs)) acq t it = Some (List.map_filter acq (concat bs)) \<and>
    (\<forall>a. a \<in> set (concat bs) \<longleftrightarrow> isAccessible (ht_refs t a)) \<and> distinct (concat bs)"
proof -
  have rep: "ht_rep t bs" using assms(1) by (simp add: cont_inv_def)
  obtain it where it: "iter_begin acq t = Some it" "iter_rep acq bs it (elems_from acq bs 0)"
    using nextNonEmpty_ok [OF rep assms(2), of 0 acq] by (auto simp: iter_begin_def)
  have "length (elems_from acq bs 0) \<le> length (concat bs)"
    by (simp add: elems_from_def length_map_filter_le)
  from visited_ok [OF rep assms(2) it(2) this] it(1) assms(1) nodes_distinct [OF rep] show ?thesis
    by (auto simp: elems_from_def cont_inv_def simp del: set_concat)
qed

theorem iteration_complete_witness:
  "\<exists>it. iter_begin Some sample_full = Some it \<and> visited 3 Some sample_full it = Some [1, 5, 2]"
  using iteration_complete [OF sample_full_inv, of Some] sample_full_config
  by (auto simp: map_filter_simps numeral_3_eq_3 simp del: visited.simps)

definition stats_stale :: "(u64 \<Rightarrow> u64 \<Rightarrow> bool) \<Rightarrow> u64 \<Rightarrow> 'k Container \<Rightarrow> bool" where
  "stats_stale exceeds now t \<longleftrightarrow>
     (let n = numKeys t; old = ds_numKeys (cachedStats t)
      in now - cachedStatsUpdateTime t > 600 \<or>
         (old > 0 \<and> exceeds (if n > old then n - old else old - n) old))"

lemma distribution_counts:
  assumes rep: "ht_rep t bs" and "length (concat bs) < 2 ^ 32"
  shows "\<exists>d. distributionLoop t [0..<numBuckets t] (\<lambda>_. 0) = Some d \<and>
    (\<forall>k < 2 ^ 32. d (of_nat k) = of_nat (length (filter (\<lambda>xs. length xs = k) bs)))"
proof -
  have n: "numBuckets t = length bs" using ht_repD(1) [OF rep] by simp
  let ?d = "\<lambda>c. of_nat (length (filter (\<lambda>b. of_nat (length (bs ! b)) = (c :: u32)) [0..<length bs])) :: u64"
  have d: "distributionLoop t [0..<numBuckets t] (\<lambda>_. 0) = Some ?d"
    using distributionLoop_ok [OF rep, of "[0..<length bs]" "\<lambda>_. 0"] by (simp add: n)
  have short: "length xs < 2 ^ 32" if "xs \<in> set bs" for xs
    using that assms(2) by (auto simp: length_concat dest!: split_list)
  have "?d (of_nat k) = of_nat (length (filter (\<lambda>xs. length xs = k) bs))" if "k < 2 ^ 32" for k
  proof -
    have "length (filter (\<lambda>b. of_nat (length (bs ! b)) = (of_nat k :: u32)) [0..<length bs]) =
        length (filter (\<lambda>xs. of_nat (length xs) = (of_nat k :: u32)) (map ((!) bs) [0..<length bs]))"
      by (simp add: filter_map o_def)
    also have "\<dots> = length (filter (\<lambda>xs. length xs = k) bs)"
      using short that by (simp add: map_nth) (intro arg_cong [where f = length] filter_cong refl,
        auto simp: word_of_nat_eq_iff take_bit_nat_eq_self)
    finally show ?thesis by simp
  qed
  with d show ?thesis by blast
qed

text \<open>Distribution statistics: when the cached ones are older than ten minutes, or the number of keys
  has changed enough, and no other thread computes them, the new ones count the buckets of every
  chain length; otherwise the cached ones are returned. Neither changes the table.\<close>

lemma distribution_stats:
  assumes "cont_inv t bs" and "length (concat bs) < 2 ^ 32"
  shows "if canRecompute t \<and> stats_stale exceeds now t
    then \<exists>st t'. getDistributionStats exceeds now t = Some (st, t') \<and> ds_numKeys st = numKeys t \<and>
      ds_numBuckets st = length bs \<and>
      (\<forall>n < 2 ^ 32. ds_distribution st (of_nat n) = of_nat (length (filter (\<lambda>xs. length xs = n) bs))) \<and>
      cachedStats t' = st \<and> cont_inv t' bs \<and> ht_map t' bs = ht_map t bs
    else getDistributionStats exceeds now t = Some (cachedStats t, t)"
proof -
  have rep: "ht_rep t bs" using assms(1) by (simp add: cont_inv_def)
  have n: "numBuckets t = length bs" using ht_repD(1) [OF rep] by simp
  obtain d where d: "distributionLoop t [0..<numBuckets t] (\<lambda>_. 0) = Some d"
    "\<forall>k < 2 ^ 32. d (of_nat k) = of_nat (length (filter (\<lambda>xs. length xs = k) bs))"
    using distribution_counts [OF rep assms(2)] by blast
  let ?st = "\<lparr>ds_numKeys = numKeys t, ds_distribution = d, ds_numBuckets = numBuckets t\<rparr>"
  let ?t = "t\<lparr>cachedStats := ?st, cachedStatsUpdateTime := now, canRecompute := True\<rparr>"
  have "cont_inv ?t bs" "ht_map ?t bs = ht_map t bs"
    using assms(1) by (simp_all add: cont_inv_def ht_rep_def getBucket_def numBuckets_def ht_map_def
        fun_eq_iff del: set_concat)
  moreover have "getDistributionStats exceeds now t =
      (if canRecompute t \<and> stats_stale exceeds now t then Some (?st, ?t) else Some (cachedStats t, t))"
    using d(1) by (auto simp: getDistributionStats_def Let_def stats_stale_def)
  ultimately show ?thesis using d(2) n by (simp del: set_concat)
qed

text \<open>C27. A restorable table without iterators saves its state, and a container restored from it over
  the same memory with the same configuration stands for the same map with the same number of keys;
  another number of buckets, another memory size or another hash function is refused.\<close>

theorem save_restore:
  assumes inv: "cont_inv t bs" and n: "getNumBuckets (ht_config t) = length bs"
  shows "if restorable t \<and> numIterators t = 0 then
      \<exists>obj. saveState t = Inr obj \<and>
        (let res = restore sz obj cfg (hashTable t) nBytes (hasher t) (hashNext t) (keyOf t) (ht_refs t)
         in if bucketsPower cfg = bucketsPower (ht_config t) \<and> nBytes = length bs * sz \<and>
               (hasherMagicId (ht_config t) = 0 \<or> hasherMagicId (ht_config t) = hasherMagicId cfg)
            then \<exists>t'. res = Inr t' \<and> cont_inv t' bs \<and> ht_map t' bs = ht_map t bs \<and> numKeys t' = numKeys t
            else \<exists>e. res = Inl e)
    else \<exists>e. saveState t = Inl e"
proof -
  let ?obj = "\<lparr>obj_bucketsPower = bucketsPower (ht_config t), obj_locksPower = locksPower (ht_config t),
    obj_numKeys = numKeys t, obj_hasherMagicId = hasherMagicId (ht_config t)\<rparr>"
  have s: "saveState t = (if restorable t \<and> numIterators t = 0 then Inr ?obj else
      Inl (if restorable t then PendingIterators else NotRestorable))"
    by (simp add: saveState_def)
  have l: "length (hashTable t) = length bs"
    using inv ht_repD(1) [of t bs] by (simp add: cont_inv_def numBuckets_def)
  define t1 where "t1 = \<lparr>hashNext = hashNext t, keyOf = keyOf t, hashTable = hashTable t,
    hasher = hasher t, restorable = True\<rparr>"
  have c: "cont_inv (mkContainer t1 (ht_refs t) (numKeys t) cfg) bs"
    "ht_map (mkContainer t1 (ht_refs t) (numKeys t) cfg) bs = ht_map t bs"
    "numKeys (mkContainer t1 (ht_refs t) (numKeys t) cfg) = numKeys t"
    using inv by (simp_all add: cont_inv_def ht_rep_def getBucket_def numBuckets_def ht_map_def
        fun_eq_iff mkContainer_def t1_def del: set_concat)
  have gn: "getNumBuckets cfg = length bs" if "bucketsPower cfg = bucketsPower (ht_config t)"
    using n that by (simp add: getNumBuckets_def)
  have a: "Impl_attach (getNumBuckets cfg) (hashTable t) (hasher t) False (hashNext t) (keyOf t) =
      Inr (if bucketsPower cfg = bucketsPower (ht_config t) then t1
           else t1\<lparr>hashTable := take (getNumBuckets cfg) (hashTable t)\<rparr>)"
    using power_of_two_test [of "bucketsPower cfg"] gn l
    by (auto simp: Impl_attach_def t1_def) (simp_all add: getNumBuckets_def)
  show ?thesis unfolding s using gn c by (simp add: restore_def a Let_def)
qed

theorem save_restore_witness:
  "\<exists>obj t'. saveState sample_full = Inr obj \<and>
    restore 4 obj (ht_config sample_full) (hashTable sample_full) 16 (hasher sample_full)
      (hashNext sample_full) (keyOf sample_full) (ht_refs sample_full) = Inr t' \<and>
    ht_map t' [[], [1, 5], [2], []] = ht_map sample_full [[], [1, 5], [2], []]"
proof -
  have "restorable sample_full" "numIterators sample_full = 0"
    by (simp_all add: sample_full_def mkContainer_def)
  with save_restore [OF sample_full_inv, of 4 "ht_config sample_full" 16] sample_full_config
  show ?thesis by (auto simp: Let_def)
qed

lemma set_map_filter: "set (List.map_filter f xs) = {y. \<exists>x \<in> set xs. f x = Some y}"
  by (induction xs) (auto simp: map_filter_simps split: option.splits)

text \<open>The sample table with one item being evicted.\<close>

definition sample_evicting :: "nat Container" where
  "sample_evicting = sample_full\<lparr>ht_refs := (ht_refs sample_full)
     (1 := snd (markForEviction (markInMMContainer (markAccessible 0))))\<rparr>"

text \<open>C28. The handles that the iterator collects from a bucket: an item marked for eviction is not
  skipped but gives a null handle, since acquiring it returns one and does not throw.\<close>

theorem iterator_null_handle:
  assumes "cont_inv t bs" and "b < length bs" and "a \<in> set (bs ! b)" and "isMarkedForEviction (ht_refs t a)"
  shows "\<exists>hs. getBucketElems (\<lambda>e. map_option fst (acquire (Some e) (ht_refs t))) t b = Some hs \<and>
    NullHandle \<in> set hs"
proof -
  have "acquire (Some a) (ht_refs t) = Some (NullHandle, ht_refs t)"
    using assms(4) by (simp add: acquire_def incRef_cases tests_bit access_max_pos)
  with assms(1-3) show ?thesis
    by (auto simp: cont_inv_def getBucketElems_ok set_map_filter intro!: bexI [of _ a])
qed

theorem iterator_null_handle_witness:
  "\<exists>hs. getBucketElems (\<lambda>e. map_option fst (acquire (Some e) (ht_refs sample_evicting))) sample_evicting 1 =
    Some hs \<and> NullHandle \<in> set hs"
proof -
  have v: "isMarkedForEviction (snd (markForEviction (markInMMContainer (markAccessible 0))))"
    "isAccessible (snd (markForEviction (markInMMContainer (markAccessible 0))))" by code_simp+
  then have inv: "cont_inv sample_evicting [[], [1, 5], [2], []]"
    using sample_full_inv by (auto simp: cont_inv_def sample_evicting_def)
  have "isMarkedForEviction (ht_refs sample_evicting 1)" using v(1) by (simp add: sample_evicting_def)
  with iterator_null_handle [OF inv, of 1 1] show ?thesis by simp
qed

end
