(* ===== verification/Bytes.thy ===== *)
theory Bytes
  imports Prelude
begin

text \<open>
  Memory as lists of bytes: little-endian integers of packed structures, copies into a buffer, and
  \<^verbatim>\<open>memmove\<close> within one.
\<close>

type_synonym bytes = "u8 list"

primrec le_bytes :: "nat \<Rightarrow> nat \<Rightarrow> bytes" where
  "le_bytes 0 x = []"
| "le_bytes (Suc n) x = of_nat x # le_bytes n (x div 256)"

primrec from_le :: "bytes \<Rightarrow> nat" where
  "from_le [] = 0"
| "from_le (b # bs) = unat b + 256 * from_le bs"

lemma length_le_bytes [simp]: "length (le_bytes n x) = n"
  by (induction n arbitrary: x) auto

lemma from_le_bytes: "from_le (le_bytes n x) = x mod 256 ^ n"
proof (induction n arbitrary: x)
  case (Suc n)
  have "from_le (le_bytes (Suc n) x) = x mod 256 + 256 * (x div 256 mod 256 ^ n)"
    by (simp add: Suc unat_of_nat take_bit_eq_mod)
  also have "\<dots> = x mod 256 ^ Suc n"
    by (simp add: mod_mult2_eq)
  finally show ?case .
qed simp

lemma from_le_bytes_id [simp]: "x < 256 ^ n \<Longrightarrow> from_le (le_bytes n x) = x"
  by (simp add: from_le_bytes)

lemma from_le_less: "from_le bs < 256 ^ length bs"
proof (induction bs)
  case (Cons b bs)
  have "unat b < 256" using unsigned_less [of b] by simp
  with Cons show ?case by simp
qed simp

lemma le_bytes_from_le: "le_bytes (length bs) (from_le bs) = bs"
proof (induction bs)
  case (Cons b bs)
  have b: "unat b < 256" using unsigned_less [of b] by simp
  then have "(unat b + 256 * from_le bs) div 256 = from_le bs" by simp
  moreover have z: "(of_nat 256 :: u8) = 0" by simp
  have "(of_nat (unat b + 256 * from_le bs) :: u8) = b" unfolding of_nat_add of_nat_mult z by simp
  ultimately show ?case using Cons by simp
qed simp

text \<open>Copying bytes to an offset of a buffer, and moving a part of it.\<close>

definition write_at :: "nat \<Rightarrow> bytes \<Rightarrow> bytes \<Rightarrow> bytes" where
  "write_at off bs d = take off d @ bs @ drop (off + length bs) d"

definition memmove :: "nat \<Rightarrow> nat \<Rightarrow> nat \<Rightarrow> bytes \<Rightarrow> bytes" where
  "memmove dst src len d = write_at dst (take len (drop src d)) d"

lemma length_write_at [simp]:
  "off + length bs \<le> length d \<Longrightarrow> length (write_at off bs d) = length d"
  by (simp add: write_at_def)

lemma take_write_at:
  "off \<le> length d \<Longrightarrow> take (off + length bs) (write_at off bs d) = take off d @ bs"
  "n \<le> off \<Longrightarrow> off \<le> length d \<Longrightarrow> take n (write_at off bs d) = take n d"
  by (simp_all add: write_at_def)

lemma drop_write_at:
  "off + length bs \<le> n \<Longrightarrow> off + length bs \<le> length d \<Longrightarrow> drop n (write_at off bs d) = drop n d"
  by (simp add: write_at_def)

lemma nth_write_at:
  "off + length bs \<le> length d \<Longrightarrow> i < length d \<Longrightarrow>
    write_at off bs d ! i = (if off \<le> i \<and> i < off + length bs then bs ! (i - off) else d ! i)"
  by (auto simp: write_at_def nth_append)

lemma read_write_at:
  "off + length bs \<le> length d \<Longrightarrow> take (length bs) (drop off (write_at off bs d)) = bs"
  by (simp add: write_at_def)

text \<open>Closing a gap: bytes move down, what follows the moved part stays.\<close>

lemma move_down:
  assumes "dst \<le> src" and "src + len \<le> length d"
  defines "d' \<equiv> (if dst \<noteq> src then memmove dst src len d else d)"
  shows "length d' = length d" "take (dst + len) d' = take dst d @ take len (drop src d)"
    "dst + len \<le> n \<Longrightarrow> drop n d' = drop n d"
proof -
  have l: "length (take len (drop src d)) = len" using assms by simp
  show "length d' = length d" using assms(1,2) by (simp add: d'_def memmove_def l)
  show "take (dst + len) d' = take dst d @ take len (drop src d)"
    using take_write_at(1) [of dst d "take len (drop src d)"] assms(1,2)
    by (simp add: d'_def memmove_def l take_add)
  show "drop n d' = drop n d" if "dst + len \<le> n"
    using that assms(1,2) by (simp add: d'_def memmove_def drop_write_at l)
qed

end
