(* ===== verification/BucketStorage.thy ===== *)
theory BucketStorage
  imports Bytes
begin

text \<open>
  The allocator inside a bucket on flash, \<^verbatim>\<open>cachelib/navy/bighash/BucketStorage.h\<close> and
  \<^verbatim>\<open>BucketStorage.cpp\<close>: slots of a four byte size and that many bytes, one after the other, removed
  by moving what follows. Offsets are natural numbers; the one sum that can leave 32 bits for
  allowed arguments, the slot size, wraps as in the code. The byte array is kept at full capacity.
\<close>

section \<open>State and operations\<close>

record BucketStorage =
  capacity :: nat
  numAllocations :: nat
  endOffset :: nat
  sdata :: bytes

text \<open>An allocation: the offset and the size of its view, and its position; \<open>Done\<close> has a null view.\<close>

datatype Allocation = Done | Alloc nat nat nat

fun a_off :: "Allocation \<Rightarrow> nat" where
  "a_off Done = 0" | "a_off (Alloc off _ _) = off"
fun a_size :: "Allocation \<Rightarrow> nat" where
  "a_size Done = 0" | "a_size (Alloc _ sz _) = sz"
fun position :: "Allocation \<Rightarrow> nat" where
  "position Done = 0" | "position (Alloc _ _ p) = p"

definition kAllocationOverhead :: nat where "kAllocationOverhead = 4"

definition slotSize :: "nat \<Rightarrow> nat" where
  "slotSize sz = (kAllocationOverhead + sz) mod 2 ^ 32"

definition BucketStorage_init :: "nat \<Rightarrow> bytes \<Rightarrow> BucketStorage" where
  "BucketStorage_init cap mem = \<lparr>capacity = cap, numAllocations = 0, endOffset = 0, sdata = mem\<rparr>"

definition remainingCapacity :: "BucketStorage \<Rightarrow> nat" where
  "remainingCapacity s = capacity s - endOffset s"

definition canAllocate :: "BucketStorage \<Rightarrow> nat \<Rightarrow> bool" where
  "canAllocate s sz \<longleftrightarrow> endOffset s + slotSize sz \<le> capacity s"

definition allocate :: "nat \<Rightarrow> BucketStorage \<Rightarrow> Allocation \<times> BucketStorage" where
  "allocate sz s =
     (if \<not> canAllocate s sz then (Done, s)
      else (Alloc (endOffset s + kAllocationOverhead) sz (numAllocations s),
            s\<lparr>sdata := write_at (endOffset s) (le_bytes 4 sz) (sdata s),
              endOffset := endOffset s + slotSize sz,
              numAllocations := numAllocations s + 1\<rparr>))"

text \<open>The loop of \<^verbatim>\<open>remove\<close>: source and destination offset, number of allocations, bytes.\<close>

fun removeLoop :: "Allocation list \<Rightarrow> nat \<times> nat \<times> nat \<times> bytes \<Rightarrow> nat \<times> nat \<times> nat \<times> bytes" where
  "removeLoop [] st = st"
| "removeLoop (alloc # allocs) (srcOffset, dstOffset, num, d) =
     (let allocOffset = a_off alloc;
          removedOffset = allocOffset - kAllocationOverhead;
          (dstOffset, d) =
            (if srcOffset \<noteq> removedOffset then
               let len = removedOffset - srcOffset
               in (dstOffset + len,
                   if dstOffset \<noteq> srcOffset then memmove dstOffset srcOffset len d else d)
             else (dstOffset, d))
      in removeLoop allocs (allocOffset + a_size alloc, dstOffset, num - 1, d))"

definition remove_allocs :: "Allocation list \<Rightarrow> BucketStorage \<Rightarrow> BucketStorage" where
  "remove_allocs allocs s =
     (if allocs = [] then s
      else
        let (srcOffset, dstOffset, num, d) = removeLoop allocs (0, 0, numAllocations s, sdata s);
            (dstOffset, d) =
              (if srcOffset \<noteq> endOffset s then
                 let len = endOffset s - srcOffset
                 in (dstOffset + len, memmove dstOffset srcOffset len d)
               else (dstOffset, d))
        in s\<lparr>sdata := d, numAllocations := num, endOffset := dstOffset\<rparr>)"

definition remove_alloc :: "Allocation \<Rightarrow> BucketStorage \<Rightarrow> BucketStorage" where
  "remove_alloc alloc s = remove_allocs [alloc] s"

definition removeUntil :: "Allocation \<Rightarrow> BucketStorage \<Rightarrow> BucketStorage" where
  "removeUntil alloc s =
     (if alloc = Done then s
      else
        let offset = a_off alloc + a_size alloc
        in if offset > endOffset s then s
           else s\<lparr>sdata := memmove 0 offset (endOffset s - offset) (sdata s),
                  endOffset := endOffset s - offset,
                  numAllocations := numAllocations s - (position alloc + 1)\<rparr>)"

text \<open>The slot at an offset: its size is read from the bytes.\<close>

definition slot_size_at :: "bytes \<Rightarrow> nat \<Rightarrow> nat" where
  "slot_size_at d off = from_le (take 4 (drop off d))"

definition getFirst_st :: "BucketStorage \<Rightarrow> Allocation" where
  "getFirst_st s =
     (if endOffset s = 0 then Done
      else Alloc kAllocationOverhead (slot_size_at (sdata s) 0) 0)"

definition getNext_st :: "BucketStorage \<Rightarrow> Allocation \<Rightarrow> Allocation" where
  "getNext_st s alloc =
     (if alloc = Done then Done
      else
        let next = a_off alloc + a_size alloc
        in if next \<ge> endOffset s then Done
           else Alloc (next + kAllocationOverhead) (slot_size_at (sdata s) next) (position alloc + 1))"

section \<open>A storage holds a list of byte strings\<close>

definition slot :: "bytes \<Rightarrow> bytes" where
  "slot e = le_bytes 4 (length e) @ e"

definition slots :: "bytes list \<Rightarrow> bytes" where
  "slots es = concat (map slot es)"

definition storage_rep :: "BucketStorage \<Rightarrow> bytes list \<Rightarrow> bool" where
  "storage_rep s es \<longleftrightarrow>
     length (sdata s) = capacity s \<and> capacity s < 2 ^ 32 \<and> endOffset s = length (slots es) \<and>
     endOffset s \<le> capacity s \<and> numAllocations s = length es \<and> take (endOffset s) (sdata s) = slots es"

lemma slots_simps [simp]:
  "slots [] = []" "slots (e # es) = slot e @ slots es" "slots (as @ bs) = slots as @ slots bs"
  by (simp_all add: slots_def)

lemma length_slot [simp]: "length (slot e) = 4 + length e"
  by (simp add: slot_def)

text \<open>The allocation of the element with a given index.\<close>

definition alloc_at :: "bytes list \<Rightarrow> nat \<Rightarrow> Allocation" where
  "alloc_at es k = Alloc (length (slots (take k es)) + 4) (length (es ! k)) k"

lemma slots_split:
  assumes "k < length es"
  shows "slots es = slots (take k es) @ slot (es ! k) @ slots (drop (Suc k) es)"
  using arg_cong [OF id_take_nth_drop [OF assms], of slots] by simp

lemma slots_take_Suc:
  "k < length es \<Longrightarrow> length (slots (take (Suc k) es)) = length (slots (take k es)) + 4 + length (es ! k)"
  by (simp add: take_Suc_conv_app_nth)

lemma slots_take_mono: "length (slots (take k es)) \<le> length (slots es)"
  by (metis append_take_drop_id le_add1 length_append slots_simps(3))

lemma storage_repD:
  assumes "storage_rep s es"
  shows "length (slots es) \<le> length (sdata s)" "length (sdata s) = capacity s"
    "endOffset s = length (slots es)" "numAllocations s = length es"
    "sdata s = slots es @ drop (endOffset s) (sdata s)" "capacity s < 2 ^ 32"
  using assms by (auto simp: storage_rep_def) (metis append_take_drop_id)

text \<open>The bytes of the view of an allocation are those of its element.\<close>

lemma read_slot:
  assumes rep: "storage_rep s es" and k: "k < length es"
  shows "take (length (es ! k)) (drop (a_off (alloc_at es k)) (sdata s)) = es ! k"
    "slot_size_at (sdata s) (length (slots (take k es))) = length (es ! k)"
    "a_off (alloc_at es k) + length (es ! k) \<le> length (sdata s)"
proof -
  note d = storage_repD [OF rep]
  have eq: "sdata s = slots (take k es) @ le_bytes 4 (length (es ! k)) @ es ! k @
      slots (drop (Suc k) es) @ drop (endOffset s) (sdata s)"
    using d(5) slots_split [OF k] by (simp add: slot_def)
  have l: "length (slots (take k es)) + 4 + length (es ! k) \<le> length (slots es)"
    using slots_take_mono [of "Suc k" es] slots_take_Suc [OF k] by simp
  then show "a_off (alloc_at es k) + length (es ! k) \<le> length (sdata s)"
    using d(1) by (simp add: alloc_at_def)
  from l d(1,2,6) have small: "length (es ! k) < 256 ^ 4" by simp
  show "take (length (es ! k)) (drop (a_off (alloc_at es k)) (sdata s)) = es ! k"
    by (subst eq) (simp add: alloc_at_def)
  show "slot_size_at (sdata s) (length (slots (take k es))) = length (es ! k)"
    using small by (subst eq) (simp add: slot_size_at_def)
qed

lemma getFirst_ok:
  assumes "storage_rep s es"
  shows "getFirst_st s = (if es = [] then Done else alloc_at es 0)"
proof (cases es)
  case Nil
  with storage_repD(3) [OF assms] show ?thesis by (simp add: getFirst_st_def)
next
  case (Cons e es')
  with storage_repD(3) [OF assms] read_slot(2) [OF assms, of 0] show ?thesis
    by (simp add: getFirst_st_def alloc_at_def kAllocationOverhead_def)
qed

lemma getNext_ok:
  assumes rep: "storage_rep s es" and k: "k < length es"
  shows "getNext_st s (alloc_at es k) = (if Suc k < length es then alloc_at es (Suc k) else Done)"
proof -
  have next_off: "a_off (alloc_at es k) + a_size (alloc_at es k) = length (slots (take (Suc k) es))"
    using slots_take_Suc [OF k] by (simp add: alloc_at_def)
  show ?thesis
  proof (cases "Suc k < length es")
    case True
    then have "length (slots (take (Suc k) es)) < length (slots es)"
      using slots_take_mono [of "Suc (Suc k)" es] slots_take_Suc [OF True] by simp
    with True storage_repD(3) [OF rep] read_slot(2) [OF rep True] next_off show ?thesis
      by (simp add: getNext_st_def alloc_at_def kAllocationOverhead_def Let_def)
  next
    case False
    with k have "take (Suc k) es = es" by simp
    with False storage_repD(3) [OF rep] next_off show ?thesis
      by (simp add: getNext_st_def alloc_at_def Let_def)
  qed
qed

section \<open>Operations on the list\<close>

lemma slotSize_small: "4 + n < 2 ^ 32 \<Longrightarrow> slotSize n = 4 + n"
  by (simp add: slotSize_def kAllocationOverhead_def)

text \<open>An allocation whose view is then filled with bytes.\<close>

lemma allocate_ok:
  assumes rep: "storage_rep s es" and fits: "endOffset s + 4 + length e \<le> capacity s"
  shows "\<exists>s'. allocate (length e) s = (alloc_at (es @ [e]) (length es), s') \<and>
    storage_rep (s'\<lparr>sdata := write_at (a_off (alloc_at (es @ [e]) (length es))) e (sdata s')\<rparr>) (es @ [e])"
proof -
  note d = storage_repD [OF rep]
  let ?n = "length (slots es)"
  have tk: "take ?n (sdata s) = slots es" using rep unfolding storage_rep_def by metis
  have sl: "slotSize (length e) = 4 + length e" using fits d(6) by (intro slotSize_small) simp
  have "allocate (length e) s = (alloc_at (es @ [e]) (length es),
      s\<lparr>sdata := write_at ?n (le_bytes 4 (length e)) (sdata s), endOffset := ?n + (4 + length e),
        numAllocations := length es + 1\<rparr>)"
    using fits d by (simp add: allocate_def canAllocate_def sl alloc_at_def kAllocationOverhead_def)
  moreover have "write_at (?n + 4) e (write_at ?n (le_bytes 4 (length e)) (sdata s)) =
      slots (es @ [e]) @ drop (?n + 4 + length e) (sdata s)"
  proof -
    have "take (?n + 4) (write_at ?n (le_bytes 4 (length e)) (sdata s)) = slots es @ le_bytes 4 (length e)"
      using take_write_at(1) [of ?n "sdata s" "le_bytes 4 (length e)"] d(1) tk by simp
    moreover have "drop (?n + 4 + length e) (write_at ?n (le_bytes 4 (length e)) (sdata s)) =
        drop (?n + 4 + length e) (sdata s)"
      using fits d(2,3) by (intro drop_write_at) simp_all
    ultimately show ?thesis by (simp add: write_at_def [of "?n + 4"] slot_def add.assoc)
  qed
  ultimately show ?thesis
    using fits d by (simp add: storage_rep_def alloc_at_def)
qed

lemma removeUntil_ok:
  assumes rep: "storage_rep s es" and k: "k < length es"
  shows "storage_rep (removeUntil (alloc_at es k) s) (drop (Suc k) es)"
proof -
  note d = storage_repD [OF rep]
  let ?off = "length (slots (take (Suc k) es))"
  have s: "slots es = slots (take (Suc k) es) @ slots (drop (Suc k) es)"
    by (simp flip: slots_simps(3))
  have off: "a_off (alloc_at es k) + a_size (alloc_at es k) = ?off" "alloc_at es k \<noteq> Done"
    "position (alloc_at es k) = k"
    using slots_take_Suc [OF k] by (simp_all add: alloc_at_def)
  let ?len = "length (slots (drop (Suc k) es))"
  have len: "endOffset s = ?off + ?len" using d(3) s by simp
  have "take ?len (drop ?off (sdata s)) = slots (drop (Suc k) es)" using d(5) s by (metis append.assoc
      append_eq_conv_conj)
  then have "take ?len (memmove 0 ?off ?len (sdata s)) = slots (drop (Suc k) es)"
    "length (memmove 0 ?off ?len (sdata s)) = length (sdata s)"
    using d(1) s take_write_at(1) [of 0 "sdata s" "slots (drop (Suc k) es)"]
    by (simp_all add: memmove_def)
  with len d k off show ?thesis by (simp add: removeUntil_def storage_rep_def Let_def)
qed

text \<open>
  The state of the loop of \<^verbatim>\<open>remove\<close> once the elements before index \<open>j\<close> are settled and \<open>kept\<close> of
  them moved to the front.
\<close>

definition settled :: "bytes list \<Rightarrow> bytes \<Rightarrow> nat \<Rightarrow> bytes list \<Rightarrow> nat \<times> nat \<times> bytes \<Rightarrow> bool" where
  "settled es d0 j kept st \<longleftrightarrow>
     (case st of (src, dst, d) \<Rightarrow>
        src = length (slots (take j es)) \<and> dst = length (slots kept) \<and> dst \<le> src \<and>
        length d = length d0 \<and> take dst d = slots kept \<and> drop src d = drop src d0)"

lemma settled_move:
  assumes st: "settled es d0 j kept (src, dst, d)" and j: "j \<le> k" "k \<le> length es"
    and d0: "d0 = slots es @ rest"
  defines "len \<equiv> length (slots (take k es)) - src"
  shows "settled es d0 k (kept @ drop j (take k es))
      (length (slots (take k es)), dst + len, if dst \<noteq> src then memmove dst src len d else d)"
    "src + len = length (slots (take k es))" "len = 0 \<longleftrightarrow> j = k"
proof -
  let ?seg = "drop j (take k es)"
  have t: "take k es = take j es @ ?seg" using j by (metis append_take_drop_id min.absorb1 take_take)
  then have seg: "slots (take k es) = slots (take j es) @ slots ?seg" by (metis slots_simps(3))
  have src: "src = length (slots (take j es))" and dst: "dst = length (slots kept)" "dst \<le> src"
    and d: "length d = length d0" "take dst d = slots kept" "drop src d = drop src d0"
    using st unfolding settled_def prod.case by blast+
  have len: "len = length (slots ?seg)" using seg src by (simp add: len_def)
  show sl: "src + len = length (slots (take k es))" using seg src len by simp
  have "len = 0 \<longleftrightarrow> ?seg = []" unfolding len by (cases ?seg) simp_all
  then show "len = 0 \<longleftrightarrow> j = k" using j by auto
  have es: "slots es = slots (take k es) @ slots (drop k es)" by (simp flip: slots_simps(3))
  have bound: "src + len \<le> length d" using sl es d(1) d0 by simp
  have "take len (drop src d0) = slots ?seg" using es seg d0 src len by simp
  note m = this move_down [OF dst(2) bound]
  have "dst + len \<le> src + len" using dst(2) by simp
  then have "drop (src + len) (if dst \<noteq> src then memmove dst src len d else d) = drop (src + len) d"
    by (rule m(4))
  also have "\<dots> = drop (src + len) d0" using d(3) by (metis drop_drop add.commute)
  finally show "settled es d0 k (kept @ ?seg)
      (length (slots (take k es)), dst + len, if dst \<noteq> src then memmove dst src len d else d)"
    unfolding settled_def prod.case sl using m(1-3) d dst len seg sl src by (metis le_add_same_cancel1
        add_le_mono1 length_append slots_simps(3))
qed

lemma upt_split: "i \<le> j \<Longrightarrow> j \<le> k \<Longrightarrow> [i..<k] = [i..<j] @ [j..<k]"
  by (metis le_Suc_ex upt_add_eq_append)

lemma memmove_same: "dst + len \<le> length d \<Longrightarrow> memmove dst dst len d = d"
  by (simp add: memmove_def write_at_def) (metis append_take_drop_id drop_drop add.commute)

lemma length_filter_removed:
  assumes "sorted_wrt (<) ks" and "\<forall>k \<in> set ks. k < n"
  shows "length (filter (\<lambda>i. i \<notin> set ks) [0..<n]) = n - length (ks :: nat list)"
proof -
  have "set (filter (\<lambda>i. i \<in> set ks) [0..<n]) = set ks" using assms(2) by auto
  then have "length (filter (\<lambda>i. i \<in> set ks) [0..<n]) = length ks"
    using assms(1) by (metis distinct_card distinct_filter distinct_upt strict_sorted_iff)
  with sum_length_filter_compl [of "\<lambda>i. i \<in> set ks" "[0..<n]"] show ?thesis by simp
qed

lemma memmove_0 [simp]: "memmove dst src 0 d = d"
  by (simp add: memmove_def write_at_def)

lemma map_nth_segment: "k \<le> length xs \<Longrightarrow> map ((!) xs) [j..<k] = drop j (take k xs)"
  by (rule nth_equalityI) auto

lemma settled_skip:
  assumes "settled es d0 k kept (length (slots (take k es)), dst, d)" and "k < length es"
  shows "settled es d0 (Suc k) kept (length (slots (take (Suc k) es)), dst, d)"
proof -
  have "drop (length (slots (take (Suc k) es))) xs =
      drop (4 + length (es ! k)) (drop (length (slots (take k es))) xs)" for xs
    using slots_take_Suc [OF assms(2)] by (simp add: ac_simps)
  then have d: "drop (length (slots (take (Suc k) es))) d = drop (length (slots (take (Suc k) es))) d0"
    using assms(1) unfolding settled_def prod.case by metis
  have "dst = length (slots kept)" "dst \<le> length (slots (take k es))" "length d = length d0"
    "take dst d = slots kept" using assms(1) unfolding settled_def prod.case by blast+
  with d slots_take_Suc [OF assms(2)] show ?thesis unfolding settled_def prod.case by simp
qed

lemma removeLoop_ok:
  assumes d0: "d0 = slots es @ rest"
  shows "settled es d0 j kept (src, dst, d) \<Longrightarrow> sorted_wrt (<) ks \<Longrightarrow> \<forall>k \<in> set ks. j \<le> k \<and> k < length es \<Longrightarrow>
    j \<le> length es \<Longrightarrow>
    \<exists>src' dst' d' j'. removeLoop (map (alloc_at es) ks) (src, dst, num, d) = (src', dst', num - length ks, d') \<and>
      j \<le> j' \<and> j' \<le> length es \<and> (\<forall>k \<in> set ks. k < j') \<and>
      settled es d0 j' (kept @ map ((!) es) (filter (\<lambda>i. i \<notin> set ks) [j..<j'])) (src', dst', d')"
proof (induction ks arbitrary: j kept src dst num d)
  case Nil
  then show ?case by (auto intro!: exI [of _ j])
next
  case (Cons k ks)
  then have jk: "j \<le> k" "k < length es" "\<forall>i \<in> set ks. k < i" "sorted_wrt (<) ks"
    "\<forall>i \<in> set ks. Suc k \<le> i \<and> i < length es" by auto
  let ?len = "length (slots (take k es)) - src"
  let ?d = "if dst \<noteq> src then memmove dst src ?len d else d"
  note m = settled_move [OF Cons.prems(1) jk(1) less_imp_le [OF jk(2)] d0]
  have st: "settled es d0 (Suc k) (kept @ drop j (take k es))
      (length (slots (take (Suc k) es)), dst + ?len, ?d)"
    by (rule settled_skip [OF m(1) jk(2)])
  have step: "removeLoop (map (alloc_at es) (k # ks)) (src, dst, num, d) =
      removeLoop (map (alloc_at es) ks) (length (slots (take (Suc k) es)), dst + ?len, num - 1, ?d)"
    using slots_take_Suc [OF jk(2)]
    by (cases "src = length (slots (take k es))") (simp_all add: alloc_at_def kAllocationOverhead_def Let_def)
  have seg: "kept @ drop j (take k es) @ map ((!) es) (filter (\<lambda>i. i \<notin> set ks) [Suc k..<j']) =
      kept @ map ((!) es) (filter (\<lambda>i. i \<notin> set (k # ks)) [j..<j'])" if "Suc k \<le> j'" for j'
  proof -
    have "[j..<j'] = [j..<k] @ k # [Suc k..<j']" using jk(1) that upt_split [of j k j'] by (simp add: upt_conv_Cons)
    moreover have "filter (\<lambda>i. i \<notin> set (k # ks)) [j..<k] = [j..<k]"
      using jk(3) by (auto simp: filter_id_conv)
    moreover have "filter (\<lambda>i. i \<notin> set (k # ks)) [Suc k..<j'] = filter (\<lambda>i. i \<notin> set ks) [Suc k..<j']"
      by (rule filter_cong) auto
    ultimately show ?thesis using jk(2) by (simp add: map_nth_segment)
  qed
  from Cons.IH [OF st jk(4,5) Suc_leI [OF jk(2)], of "num - 1"] obtain src' dst' d' j' where
    r: "removeLoop (map (alloc_at es) ks) (length (slots (take (Suc k) es)), dst + ?len, num - 1, ?d) =
        (src', dst', num - 1 - length ks, d')" "Suc k \<le> j'" "j' \<le> length es" "\<forall>k \<in> set ks. k < j'"
      "settled es d0 j' ((kept @ drop j (take k es)) @ map ((!) es) (filter (\<lambda>i. i \<notin> set ks) [Suc k..<j']))
        (src', dst', d')" by blast
  show ?case
    unfolding step using r jk(1) seg [OF r(2)]
    by (intro exI [of _ src'] exI [of _ dst'] exI [of _ d'] exI [of _ j']) auto
qed

lemma remove_allocs_ok:
  assumes rep: "storage_rep s es" and ks: "sorted_wrt (<) ks" "\<forall>k \<in> set ks. k < length es"
  shows "storage_rep (remove_allocs (map (alloc_at es) ks) s)
      (map ((!) es) (filter (\<lambda>i. i \<notin> set ks) [0..<length es]))"
    "capacity (remove_allocs (map (alloc_at es) ks) s) = capacity s"
proof -
  note d = storage_repD [OF rep]
  let ?kept = "\<lambda>j. map ((!) es) (filter (\<lambda>i. i \<notin> set ks) [0..<j])"
  show "capacity (remove_allocs (map (alloc_at es) ks) s) = capacity s"
    by (simp add: remove_allocs_def split: prod.splits)
  show "storage_rep (remove_allocs (map (alloc_at es) ks) s) (?kept (length es))"
  proof (cases "ks = []")
    case True
    with rep show ?thesis by (simp add: remove_allocs_def map_nth)
  next
    case False
    have "settled es (sdata s) 0 [] (0, 0, sdata s)" by (simp add: settled_def)
    from removeLoop_ok [OF d(5) this ks(1), of "numAllocations s"] ks(2) obtain src dst d' j where
      r: "removeLoop (map (alloc_at es) ks) (0, 0, numAllocations s, sdata s) =
          (src, dst, numAllocations s - length ks, d')" "j \<le> length es" "\<forall>k \<in> set ks. k < j"
        "settled es (sdata s) j (?kept j) (src, dst, d')" by auto
    let ?len = "endOffset s - src"
    note m = settled_move [OF r(4) r(2) order_refl d(5)]
    have kept: "?kept j @ drop j es = ?kept (length es)"
    proof -
      have "[0..<length es] = [0..<j] @ [j..<length es]" using r(2) by (intro upt_split) simp_all
      moreover have "filter (\<lambda>i. i \<notin> set ks) [j..<length es] = [j..<length es]"
        using r(3) by (auto simp: filter_id_conv)
      ultimately show ?thesis using map_nth_segment [of "length es" es j] by simp
    qed
    have n: "numAllocations s - length ks = length (?kept (length es))"
      using length_filter_removed [OF ks] d(4) by simp
    have eq: "remove_allocs (map (alloc_at es) ks) s = s\<lparr>sdata := memmove dst src ?len d',
        numAllocations := numAllocations s - length ks, endOffset := dst + ?len\<rparr>"
      using False r(1) m(2) d(3) by (auto simp: remove_allocs_def Let_def)
    have "settled es (sdata s) (length es) (?kept (length es)) (endOffset s, dst + ?len, memmove dst src ?len d')"
    proof (cases "dst = src")
      case True
      moreover have "length d' = length (sdata s)" using r(4) by (simp add: settled_def)
      ultimately have "memmove dst src ?len d' = d'"
        using d(1,3) m(2) by (simp add: memmove_same)
      with m(1) True kept d(3) show ?thesis by simp
    qed (use m(1) kept d(3) in simp)
    then show ?thesis
      unfolding eq storage_rep_def settled_def prod.case using d(1-4,6) n by auto
  qed
qed

lemma le_bytes_4:
  "le_bytes 4 x = [of_nat x, of_nat (x div 256), of_nat (x div 65536), of_nat (x div 16777216)]"
proof -
  have "(4::nat) = Suc (Suc (Suc (Suc 0)))" by simp
  then show ?thesis by (simp only: le_bytes.simps) (simp add: div_mult2_eq [symmetric])
qed

section \<open>Properties\<close>

text \<open>Compaction of a bucket storage: removing any allocations, given in order, leaves the other
  byte strings, unchanged and in order, packed at the front; removing until an allocation drops it and
  all before it. The sizes, the count and the end offset follow.\<close>

lemma storage_compaction:
  assumes "storage_rep s es" and "sorted_wrt (<) ks" and "\<forall>k \<in> set ks. k < length es" and "j < length es"
  shows "storage_rep (remove_allocs (map (alloc_at es) ks) s)
      (map ((!) es) (filter (\<lambda>i. i \<notin> set ks) [0..<length es])) \<and>
    storage_rep (removeUntil (alloc_at es j) s) (drop (Suc j) es) \<and>
    getFirst_st s = alloc_at es 0 \<and>
    getNext_st s (alloc_at es j) = (if Suc j < length es then alloc_at es (Suc j) else Done)"
  using remove_allocs_ok [OF assms(1-3)] removeUntil_ok [OF assms(1,4)] getFirst_ok [OF assms(1)]
    getNext_ok [OF assms(1,4)] assms(4) by auto

end
