(* ===== verification/Bucket.thy ===== *)
theory Bucket
  imports BucketStorage "HOL-Library.Monad_Syntax"
begin

text \<open>
  A bucket of the small object cache on flash, \<^verbatim>\<open>cachelib/navy/bighash/Bucket.h\<close> and \<^verbatim>\<open>Bucket.cpp\<close>:
  entries of a key, its hash and a value, laid out byte by byte in a bucket storage; looked up by
  walking the slots, evicted from the front. The calls of the destructor callback are returned as a
  list. A result \<^const>\<open>None\<close> stands for following a null pointer.
\<close>

section \<open>Entries\<close>

record HashedKey =
  hk_key :: bytes
  hk_hash :: u64

datatype DestructorEvent = Recycled | Removed | PutFailed

type_synonym destructor_call = "HashedKey \<times> bytes \<times> DestructorEvent"
type_synonym expired_check = "(bytes \<Rightarrow> bool) option"

definition entryOverhead :: nat where "entryOverhead = 16"

definition computeSize :: "nat \<Rightarrow> nat \<Rightarrow> nat" where
  "computeSize keySize valueSize = (entryOverhead + keySize + valueSize) mod 2 ^ 32"

text \<open>The bytes that the constructor of \<^verbatim>\<open>BucketEntry\<close> writes.\<close>

definition entry_bytes :: "HashedKey \<Rightarrow> bytes \<Rightarrow> bytes" where
  "entry_bytes hk v = le_bytes 4 (length (hk_key hk)) @ le_bytes 4 (length v) @
     le_bytes 8 (unat (hk_hash hk)) @ hk_key hk @ v"

definition create :: "nat \<Rightarrow> HashedKey \<Rightarrow> bytes \<Rightarrow> bytes \<Rightarrow> bytes" where
  "create off hk v d = write_at off (entry_bytes hk v) d"

text \<open>Its members, read at an offset of the storage.\<close>

definition e_keySize :: "bytes \<Rightarrow> nat \<Rightarrow> nat" where
  "e_keySize d off = from_le (take 4 (drop off d))"
definition e_valueSize :: "bytes \<Rightarrow> nat \<Rightarrow> nat" where
  "e_valueSize d off = from_le (take 4 (drop (off + 4) d))"
definition e_keyHash :: "bytes \<Rightarrow> nat \<Rightarrow> u64" where
  "e_keyHash d off = of_nat (from_le (take 8 (drop (off + 8) d)))"
definition e_key :: "bytes \<Rightarrow> nat \<Rightarrow> bytes" where
  "e_key d off = take (e_keySize d off) (drop (off + 16) d)"
definition e_value :: "bytes \<Rightarrow> nat \<Rightarrow> bytes" where
  "e_value d off = take (e_valueSize d off) (drop (off + 16 + e_keySize d off) d)"
definition hashedKey :: "bytes \<Rightarrow> nat \<Rightarrow> HashedKey" where
  "hashedKey d off = \<lparr>hk_key = e_key d off, hk_hash = e_keyHash d off\<rparr>"

definition keyEqualsTo :: "bytes \<Rightarrow> nat \<Rightarrow> HashedKey \<Rightarrow> bool" where
  "keyEqualsTo d off hk \<longleftrightarrow> hk_hash hk = e_keyHash d off \<and>
     length (hk_key hk) = length (e_key d off) \<and> hk_key hk = e_key d off"

section \<open>Walks of the storage\<close>

text \<open>The distance of an allocation from the end, which each step of a walk makes smaller.\<close>

definition to_go :: "BucketStorage \<Rightarrow> Allocation \<Rightarrow> nat" where
  "to_go s itr = (case itr of Done \<Rightarrow> 0 | Alloc off _ _ \<Rightarrow> Suc (endOffset s + 4 - off))"

lemma to_go_next: "itr \<noteq> Done \<Longrightarrow> to_go s (getNext_st s itr) < to_go s itr"
  by (cases itr) (auto simp: to_go_def getNext_st_def Let_def kAllocationOverhead_def)

function bucket_findLoop :: "HashedKey \<Rightarrow> BucketStorage \<Rightarrow> Allocation \<Rightarrow> bytes option" where
  "bucket_findLoop hk s itr =
     (if itr = Done then None
      else if keyEqualsTo (sdata s) (a_off itr) hk then Some (e_value (sdata s) (a_off itr))
      else bucket_findLoop hk s (getNext_st s itr))"
  by pat_completeness auto
termination by (relation "measure (\<lambda>(hk, s, itr). to_go s itr)") (auto simp: to_go_next)

definition bucket_find :: "HashedKey \<Rightarrow> BucketStorage \<Rightarrow> bytes option" where
  "bucket_find hk s = bucket_findLoop hk s (getFirst_st s)"

function bucket_removeLoop ::
  "HashedKey \<Rightarrow> BucketStorage \<Rightarrow> Allocation \<Rightarrow> nat \<times> destructor_call list \<times> BucketStorage" where
  "bucket_removeLoop hk s itr =
     (if itr = Done then (0, [], s)
      else if keyEqualsTo (sdata s) (a_off itr) hk then
        (1, [(hashedKey (sdata s) (a_off itr), e_value (sdata s) (a_off itr), Removed)],
         remove_alloc itr s)
      else bucket_removeLoop hk s (getNext_st s itr))"
  by pat_completeness auto
termination by (relation "measure (\<lambda>(hk, s, itr). to_go s itr)") (auto simp: to_go_next)

definition bucket_remove ::
  "HashedKey \<Rightarrow> BucketStorage \<Rightarrow> nat \<times> destructor_call list \<times> BucketStorage" where
  "bucket_remove hk s = bucket_removeLoop hk s (getFirst_st s)"

text \<open>The loop of \<^verbatim>\<open>removeExpired\<close>: the allocations to remove and the callbacks made.\<close>

function expiredLoop ::
  "(bytes \<Rightarrow> bool) \<Rightarrow> BucketStorage \<Rightarrow> Allocation \<Rightarrow> Allocation list \<times> destructor_call list" where
  "expiredLoop expired s itr =
     (if itr = Done then ([], [])
      else
        let (removed, calls) = expiredLoop expired s (getNext_st s itr)
        in if \<not> expired (e_value (sdata s) (a_off itr)) then (removed, calls)
           else (itr # removed,
                 (hashedKey (sdata s) (a_off itr), e_value (sdata s) (a_off itr), Recycled) # calls))"
  by pat_completeness auto
termination by (relation "measure (\<lambda>(e, s, itr). to_go s itr)") (auto simp: to_go_next)

definition removeExpired ::
  "expired_check \<Rightarrow> Allocation \<Rightarrow> BucketStorage \<Rightarrow> nat \<times> destructor_call list \<times> BucketStorage" where
  "removeExpired checkExpired itr s =
     (case checkExpired of
        None \<Rightarrow> (0, [], s)
      | Some expired \<Rightarrow>
          let (removed, calls) = expiredLoop expired s itr
          in (length removed, calls, remove_allocs removed s))"

function makeSpaceLoop ::
  "nat \<Rightarrow> BucketStorage \<Rightarrow> Allocation \<Rightarrow> nat \<Rightarrow> nat \<Rightarrow> destructor_call list \<Rightarrow>
   (nat \<times> destructor_call list \<times> BucketStorage) option" where
  "makeSpaceLoop requiredSize s itr curFreeSpace evictions calls =
     (if itr = Done then None
      else
        let evictions = evictions + 1;
            calls = calls @
              [(hashedKey (sdata s) (a_off itr), e_value (sdata s) (a_off itr), Recycled)];
            curFreeSpace = curFreeSpace + slotSize (a_size itr)
        in if curFreeSpace \<ge> requiredSize then Some (evictions, calls, removeUntil itr s)
           else makeSpaceLoop requiredSize s (getNext_st s itr) curFreeSpace evictions calls)"
  by pat_completeness auto
termination by (relation "measure (\<lambda>(r, s, itr, _). to_go s itr)") (auto simp: to_go_next)

declare bucket_findLoop.simps [simp del] bucket_removeLoop.simps [simp del]
  expiredLoop.simps [simp del] makeSpaceLoop.simps [simp del]

text \<open>The pair of numbers is evictions and, among them, expirations.\<close>

definition makeSpace ::
  "nat \<Rightarrow> expired_check \<Rightarrow> BucketStorage \<Rightarrow> ((nat \<times> nat) \<times> destructor_call list \<times> BucketStorage) option" where
  "makeSpace sz checkExpired s =
     (let requiredSize = slotSize sz
      in if remainingCapacity s \<ge> requiredSize then Some ((0, 0), [], s)
         else
           let (evictionExpired, calls, s) = removeExpired checkExpired (getFirst_st s) s;
               evictions = evictionExpired;
               curFreeSpace = remainingCapacity s
           in if evictionExpired > 0 \<and> curFreeSpace \<ge> requiredSize
              then Some ((evictions, evictionExpired), calls, s)
              else do { (evictions, calls, s) \<leftarrow>
                          makeSpaceLoop requiredSize s (getFirst_st s) curFreeSpace evictions calls;
                        Some ((evictions, evictionExpired), calls, s) })"

definition bucket_insert ::
  "HashedKey \<Rightarrow> bytes \<Rightarrow> expired_check \<Rightarrow> BucketStorage \<Rightarrow>
   ((nat \<times> nat) \<times> destructor_call list \<times> BucketStorage) option" where
  "bucket_insert hk v checkExpired s =
     (let sz = computeSize (length (hk_key hk)) (length v)
      in do { (ret, calls, s) \<leftarrow> makeSpace sz checkExpired s;
              let (alloc, s) = allocate sz s
              in if alloc = Done then None
                 else Some (ret, calls, s\<lparr>sdata := create (a_off alloc) hk v (sdata s)\<rparr>) })"

text \<open>
  A string made from a pointer to bytes ends before the first zero byte; \<^const>\<open>None\<close> when there is none
  up to the end of the buffer.
\<close>

definition c_string :: "bytes \<Rightarrow> bytes option" where
  "c_string d = (if 0 \<in> set d then Some (takeWhile (\<lambda>b. b \<noteq> 0) d) else None)"

text \<open>\<^verbatim>\<open>getRandomAlloc\<close> for a given random offset: the key (see \<^const>\<open>c_string\<close>) and the value.\<close>

function randomLoop :: "nat \<Rightarrow> BucketStorage \<Rightarrow> Allocation \<Rightarrow> (bytes option \<times> bytes) option" where
  "randomLoop randOffset s itr =
     (if itr = Done then None
      else if randOffset < a_off itr + a_size itr then
        Some (c_string (drop (a_off itr + 16) (sdata s)), e_value (sdata s) (a_off itr))
      else randomLoop randOffset s (getNext_st s itr))"
  by pat_completeness auto
termination by (relation "measure (\<lambda>(r, s, itr). to_go s itr)") (auto simp: to_go_next)

declare randomLoop.simps [simp del]

definition bucket_getRandomAlloc :: "nat \<Rightarrow> BucketStorage \<Rightarrow> (bytes option \<times> bytes) option" where
  "bucket_getRandomAlloc randOffset s = randomLoop randOffset s (getFirst_st s)"

section \<open>The bucket in memory\<close>

record Bucket =
  b_checksum :: u32
  b_generationTime :: u64
  b_storage :: BucketStorage

definition kBucketOverhead :: nat where "kBucketOverhead = 24"

definition bucket_bytes :: "Bucket \<Rightarrow> bytes" where
  "bucket_bytes b = le_bytes 4 (unat (b_checksum b)) @ le_bytes 8 (unat (b_generationTime b)) @
     le_bytes 4 (capacity (b_storage b)) @ le_bytes 4 (numAllocations (b_storage b)) @
     le_bytes 4 (endOffset (b_storage b)) @ sdata (b_storage b)"

text \<open>A buffer seen as a bucket.\<close>

definition bucket_of :: "bytes \<Rightarrow> Bucket" where
  "bucket_of d =
     \<lparr>b_checksum = of_nat (from_le (take 4 d)), b_generationTime = of_nat (from_le (take 8 (drop 4 d))),
      b_storage = \<lparr>capacity = from_le (take 4 (drop 12 d)), numAllocations = from_le (take 4 (drop 16 d)),
                   endOffset = from_le (take 4 (drop 20 d)), sdata = drop 24 d\<rparr>\<rparr>"

text \<open>\<open>crc\<close> is the checksum function of the library.\<close>

definition computeChecksum :: "(bytes \<Rightarrow> u32) \<Rightarrow> bytes \<Rightarrow> u32" where
  "computeChecksum crc view = crc (drop 4 view)"

definition initNew :: "bytes \<Rightarrow> u64 \<Rightarrow> Bucket" where
  "initNew view gen =
     \<lparr>b_checksum = 0, b_generationTime = gen,
      b_storage = BucketStorage_init (length view - kBucketOverhead) (drop kBucketOverhead view)\<rparr>"

section \<open>A bucket holds a list of entries\<close>

type_synonym entry = "HashedKey \<times> bytes"

definition ebytes :: "entry \<Rightarrow> bytes" where
  "ebytes e = entry_bytes (fst e) (snd e)"

definition bucket_rep :: "BucketStorage \<Rightarrow> entry list \<Rightarrow> bool" where
  "bucket_rep s es \<longleftrightarrow> storage_rep s (map ebytes es)"

definition itr_at :: "entry list \<Rightarrow> nat \<Rightarrow> Allocation" where
  "itr_at es k = (if k < length es then alloc_at (map ebytes es) k else Done)"

lemma length_ebytes: "length (ebytes e) = 16 + length (hk_key (fst e)) + length (snd e)"
  by (simp add: ebytes_def entry_bytes_def)

lemma itr_at_simps [simp]:
  "itr_at es k = Done \<longleftrightarrow> length es \<le> k" "k < length es \<Longrightarrow> position (itr_at es k) = k"
  "k < length es \<Longrightarrow> a_size (itr_at es k) = length (ebytes (es ! k))"
  by (auto simp: itr_at_def alloc_at_def)

lemma getFirst_itr: "bucket_rep s es \<Longrightarrow> getFirst_st s = itr_at es 0"
  using getFirst_ok [of s "map ebytes es"] by (auto simp: bucket_rep_def itr_at_def)

lemma getNext_itr: "bucket_rep s es \<Longrightarrow> k < length es \<Longrightarrow> getNext_st s (itr_at es k) = itr_at es (Suc k)"
  using getNext_ok [of s "map ebytes es" k] by (simp add: bucket_rep_def itr_at_def)

lemma unat_64 [simp]: "unat (w :: u64) < 256 ^ 8" "unat (w :: u64) < 18446744073709551616"
  using unsigned_less [of w] by simp_all

lemma read_entry:
  assumes rep: "bucket_rep s es" and k: "k < length es"
  defines "off \<equiv> a_off (itr_at es k)"
  shows "e_value (sdata s) off = snd (es ! k)" "hashedKey (sdata s) off = fst (es ! k)"
    "keyEqualsTo (sdata s) off hk \<longleftrightarrow> hk = fst (es ! k)"
    "\<exists>rest. drop (off + 16) (sdata s) = hk_key (fst (es ! k)) @ snd (es ! k) @ rest"
proof -
  let ?e = "ebytes (es ! k)" and ?hk = "fst (es ! k)" and ?v = "snd (es ! k)"
  have r: "storage_rep s (map ebytes es)" using rep by (simp add: bucket_rep_def)
  have len: "off + length ?e \<le> length (sdata s)"
    using read_slot(3) [OF r, of k] k by (simp add: off_def itr_at_def)
  have "take (length ?e) (drop off (sdata s)) = ?e"
    using read_slot(1) [OF r, of k] k by (simp add: off_def itr_at_def)
  then obtain rest where d: "drop off (sdata s) = ?e @ rest" by (metis append_take_drop_id)
  have at: "drop (off + n) (sdata s) = drop n (?e @ rest)" for n using d by (metis drop_drop add.commute)
  have "length ?e < 2 ^ 32" using len storage_repD(2,6) [OF r] by simp
  then have small: "length (hk_key ?hk) < 256 ^ 4" "length ?v < 256 ^ 4" by (simp_all add: length_ebytes)
  have ks: "e_keySize (sdata s) off = length (hk_key ?hk)"
    using small at [of 0] by (simp add: e_keySize_def ebytes_def entry_bytes_def)
  have vs: "e_valueSize (sdata s) off = length ?v"
    using small by (simp add: e_valueSize_def at ebytes_def entry_bytes_def)
  have h: "e_keyHash (sdata s) off = hk_hash ?hk"
    by (simp add: e_keyHash_def at ebytes_def entry_bytes_def)
  have key: "e_key (sdata s) off = hk_key ?hk"
    by (simp add: e_key_def ks at ebytes_def entry_bytes_def)
  show "e_value (sdata s) off = ?v"
    using at [of "16 + length (hk_key ?hk)"]
    by (simp add: e_value_def ks vs ebytes_def entry_bytes_def add.assoc)
  show "hashedKey (sdata s) off = ?hk" by (simp add: hashedKey_def key h)
  show "keyEqualsTo (sdata s) off hk \<longleftrightarrow> hk = ?hk"
    by (auto simp: keyEqualsTo_def key h)
  show "\<exists>rest. drop (off + 16) (sdata s) = hk_key ?hk @ ?v @ rest"
    using at [of 16] by (simp add: ebytes_def entry_bytes_def)
qed

lemma drop_nth: "k < length xs \<Longrightarrow> drop k xs = xs ! k # drop (Suc k) xs"
  by (simp add: Cons_nth_drop_Suc)

lemma findLoop_ok:
  assumes "bucket_rep s es"
  shows "bucket_findLoop hk s (itr_at es k) = map_option snd (List.find (\<lambda>e. fst e = hk) (drop k es))"
proof (induction "length es - k" arbitrary: k)
  case 0
  then show ?case by (simp add: bucket_findLoop.simps)
next
  case (Suc n)
  then have k: "k < length es" by simp
  with Suc getNext_itr [OF assms k] read_entry [OF assms k] drop_nth [OF k] show ?case
    by (subst bucket_findLoop.simps) auto
qed

lemma bucket_find_ok:
  "bucket_rep s es \<Longrightarrow> bucket_find hk s = map_option snd (List.find (\<lambda>e. fst e = hk) es)"
  by (simp add: bucket_find_def getFirst_itr findLoop_ok)

text \<open>The first entry of a key leaves the list.\<close>

fun remove_key :: "HashedKey \<Rightarrow> entry list \<Rightarrow> entry list" where
  "remove_key hk [] = []"
| "remove_key hk (e # es) = (if fst e = hk then es else e # remove_key hk es)"

lemma map_nth_except:
  assumes "k < length es"
  shows "map ((!) es) (filter (\<lambda>i. i \<noteq> k) [0..<length es]) = take k es @ drop (Suc k) es"
proof -
  have "[0..<length es] = [0..<k] @ k # [Suc k..<length es]"
    using assms upt_split [of 0 k "length es"] by (simp add: upt_conv_Cons)
  moreover have "filter (\<lambda>i. i \<noteq> k) [0..<k] = [0..<k]" "filter (\<lambda>i. i \<noteq> k) [Suc k..<length es] = [Suc k..<length es]"
    by (auto simp: filter_id_conv)
  ultimately show ?thesis
    using assms map_nth_segment [of k es 0] map_nth_segment [of "length es" es "Suc k"] by simp
qed

lemma remove_alloc_ok:
  assumes "bucket_rep s es" and "k < length es"
  shows "bucket_rep (remove_alloc (itr_at es k) s) (take k es @ drop (Suc k) es)"
    "capacity (remove_alloc (itr_at es k) s) = capacity s"
  using remove_allocs_ok [of s "map ebytes es" "[k]"] assms map_nth_except [of k "map ebytes es"]
  by (simp_all add: remove_alloc_def bucket_rep_def itr_at_def take_map drop_map)

lemma removeLoop_entries:
  assumes rep: "bucket_rep s es"
  shows "fst ` set (take k es) \<subseteq> - {hk} \<Longrightarrow>
    \<exists>s'. bucket_removeLoop hk s (itr_at es k) =
      (case List.find (\<lambda>e. fst e = hk) (drop k es) of
         None \<Rightarrow> (0, [], s) | Some e \<Rightarrow> (1, [(hk, snd e, Removed)], s')) \<and>
      (List.find (\<lambda>e. fst e = hk) (drop k es) \<noteq> None \<longrightarrow>
        bucket_rep s' (remove_key hk es) \<and> capacity s' = capacity s)"
proof (induction "length es - k" arbitrary: k)
  case 0
  then show ?case by (simp add: bucket_removeLoop.simps)
next
  case (Suc n)
  then have k: "k < length es" by simp
  note r = read_entry [OF rep k] and dn = drop_nth [OF k]
  show ?case
  proof (cases "fst (es ! k) = hk")
    case True
    have "remove_key hk (as @ e # bs) = as @ bs" if "fst ` set as \<subseteq> - {hk}" "fst e = hk" for as e bs
      using that by (induction as) auto
    with Suc.prems True have "remove_key hk es = take k es @ drop (Suc k) es"
      by (metis dn append_take_drop_id)
    with True k r dn remove_alloc_ok [OF rep k] show ?thesis
      by (subst bucket_removeLoop.simps) auto
  next
    case False
    then have "fst ` set (take (Suc k) es) \<subseteq> - {hk}"
      using Suc.prems k by (auto simp: take_Suc_conv_app_nth)
    with Suc.hyps(1) [of "Suc k"] Suc.hyps(2) False k r dn getNext_itr [OF rep k] show ?thesis
      by (subst bucket_removeLoop.simps) auto
  qed
qed

lemma bucket_remove_ok:
  assumes "bucket_rep s es"
  shows "\<exists>s'. bucket_remove hk s =
      (case List.find (\<lambda>e. fst e = hk) es of
         None \<Rightarrow> (0, [], s) | Some e \<Rightarrow> (1, [(hk, snd e, Removed)], s')) \<and>
      (List.find (\<lambda>e. fst e = hk) es \<noteq> None \<longrightarrow> bucket_rep s' (remove_key hk es) \<and> capacity s' = capacity s)"
  using removeLoop_entries [OF assms, of 0 hk] by (simp add: bucket_remove_def getFirst_itr [OF assms])

section \<open>Making room\<close>

definition esize :: "entry \<Rightarrow> nat" where
  "esize e = 4 + length (ebytes e)"

definition used :: "entry list \<Rightarrow> nat" where
  "used es = sum_list (map esize es)"

lemma used_simps [simp]: "used [] = 0" "used (e # es) = esize e + used es" "used (as @ bs) = used as + used bs"
  by (simp_all add: used_def)

lemma bucket_repD:
  assumes "bucket_rep s es"
  shows "endOffset s = used es" "used es \<le> capacity s" "capacity s < 2 ^ 32"
    "remainingCapacity s = capacity s - used es"
proof -
  have "length (slots (map ebytes es)) = used es"
    by (induction es) (simp_all add: esize_def)
  with storage_repD [OF assms [unfolded bucket_rep_def]] show "endOffset s = used es"
    "used es \<le> capacity s" "capacity s < 2 ^ 32" "remainingCapacity s = capacity s - used es"
    by (simp_all add: remainingCapacity_def)
qed

text \<open>The callback of an entry that leaves to make room.\<close>

abbreviation recycled :: "entry \<Rightarrow> destructor_call" where
  "recycled e \<equiv> (fst e, snd e, Recycled)"

lemma filter_nth: "map ((!) xs) (filter (\<lambda>i. P (xs ! i)) [0..<length xs]) = filter P xs"
proof (induction xs rule: rev_induct)
  case (snoc x xs)
  have "filter (\<lambda>i. P ((xs @ [x]) ! i)) [0..<length xs] = filter (\<lambda>i. P (xs ! i)) [0..<length xs]"
    "map ((!) (xs @ [x])) (filter (\<lambda>i. P (xs ! i)) [0..<length xs]) =
      map ((!) xs) (filter (\<lambda>i. P (xs ! i)) [0..<length xs])"
    by (auto intro!: filter_cong simp: nth_append)
  with snoc show ?case by simp
qed simp

lemma expiredLoop_ok:
  assumes rep: "bucket_rep s es"
  shows "expiredLoop ex s (itr_at es k) =
    (let ks = filter (\<lambda>i. ex (snd (es ! i))) [k..<length es]
     in (map (itr_at es) ks, map (\<lambda>i. recycled (es ! i)) ks))"
proof (induction "length es - k" arbitrary: k)
  case 0
  then show ?case by (simp add: expiredLoop.simps)
next
  case (Suc n)
  then have k: "k < length es" by simp
  with Suc getNext_itr [OF rep k] read_entry [OF rep k] show ?case
    by (subst expiredLoop.simps) (auto simp: Let_def upt_conv_Cons)
qed

lemma removeExpired_ok:
  assumes rep: "bucket_rep s es"
  shows "\<exists>s'. removeExpired (Some ex) (getFirst_st s) s =
      (length (filter (ex \<circ> snd) es), map recycled (filter (ex \<circ> snd) es), s') \<and>
    bucket_rep s' (filter (Not \<circ> ex \<circ> snd) es) \<and> capacity s' = capacity s"
proof -
  let ?ks = "filter (\<lambda>i. ex (snd (es ! i))) [0..<length es]"
  have ks: "sorted_wrt (<) ?ks" "\<forall>k \<in> set ?ks. k < length (map ebytes es)"
    by (auto intro: sorted_wrt_filter)
  have a: "map (alloc_at (map ebytes es)) ?ks = map (itr_at es) ?ks" by (auto simp: itr_at_def)
  have f: "filter (\<lambda>i. i \<notin> set ?ks) [0..<length es] = filter (\<lambda>i. \<not> ex (snd (es ! i))) [0..<length es]"
    by (rule filter_cong) auto
  have "map ((!) es) (filter (\<lambda>i. \<not> ex (snd (es ! i))) [0..<length es]) = filter (Not \<circ> ex \<circ> snd) es"
    using filter_nth [of es "Not \<circ> ex \<circ> snd"] by (simp add: o_def)
  moreover have "map ((!) (map ebytes es)) (filter (\<lambda>i. \<not> ex (snd (es ! i))) [0..<length es]) =
      map ebytes (map ((!) es) (filter (\<lambda>i. \<not> ex (snd (es ! i))) [0..<length es]))"
    by simp
  ultimately have "bucket_rep (remove_allocs (map (itr_at es) ?ks) s) (filter (Not \<circ> ex \<circ> snd) es)"
    "capacity (remove_allocs (map (itr_at es) ?ks) s) = capacity s"
    using remove_allocs_ok [OF rep [unfolded bucket_rep_def] ks] unfolding bucket_rep_def a f length_map
    by (simp_all only:)
  moreover have "length ?ks = length (filter (ex \<circ> snd) es)"
    "map (\<lambda>i. recycled (es ! i)) ?ks = map recycled (filter (ex \<circ> snd) es)"
    using arg_cong [OF filter_nth [of es "ex \<circ> snd"], of length]
      arg_cong [OF filter_nth [of es "ex \<circ> snd"], of "map recycled"] by (simp_all add: o_def)
  ultimately show ?thesis
    by (simp add: removeExpired_def getFirst_itr [OF rep] expiredLoop_ok [OF rep] Let_def)
qed

text \<open>Evicting from the front until there is room: the evicted entries and the rest.\<close>

fun evict :: "nat \<Rightarrow> nat \<Rightarrow> entry list \<Rightarrow> entry list \<times> entry list" where
  "evict req free [] = ([], [])"
| "evict req free (e # es) =
     (let free = free + esize e
      in if free \<ge> req then ([e], es) else let (out, kept) = evict req free es in (e # out, kept))"

lemma evict_append: "fst (evict req free es) @ snd (evict req free es) = es"
  by (induction es arbitrary: free) (simp_all add: Let_def case_prod_beta)

lemma makeSpaceLoop_ok:
  assumes rep: "bucket_rep s es" and enough: "req \<le> free + used (drop k es)" and k: "k < length es"
  shows "\<exists>s'. makeSpaceLoop req s (itr_at es k) free ev calls =
      Some (ev + length (fst (evict req free (drop k es))),
        calls @ map recycled (fst (evict req free (drop k es))), s') \<and>
    bucket_rep s' (snd (evict req free (drop k es))) \<and> capacity s' = capacity s"
  using enough k
proof (induction "length es - k" arbitrary: k free ev calls)
  case 0
  then show ?case by simp
next
  case (Suc n)
  then have k: "k < length es" by simp
  note r = read_entry [OF rep k] and dn = drop_nth [OF k]
  have "esize (es ! k) \<le> used es"
    using k member_le_sum_list [of "esize (es ! k)" "map esize es"] by (simp add: used_def)
  then have sz: "slotSize (length (ebytes (es ! k))) = esize (es ! k)"
    using bucket_repD(2,3) [OF rep] by (simp add: slotSize_small esize_def)
  have until: "bucket_rep (removeUntil (itr_at es k) s) (drop (Suc k) es)"
    "capacity (removeUntil (itr_at es k) s) = capacity s"
    using removeUntil_ok [OF rep [unfolded bucket_rep_def], of k] k
    by (simp_all add: bucket_rep_def itr_at_def drop_map removeUntil_def Let_def)
  show ?case
  proof (cases "free + esize (es ! k) \<ge> req")
    case True
    with k r dn sz until show ?thesis by (subst makeSpaceLoop.simps) (simp add: Let_def)
  next
    case False
    with Suc.prems dn have e: "req \<le> (free + esize (es ! k)) + used (drop (Suc k) es)" by simp
    with False have "Suc k < length es" by (cases "Suc k < length es") simp_all
    from Suc.hyps(1) [OF _ e this, of "ev + 1" "calls @ [recycled (es ! k)]"] Suc.hyps(2) False k r dn sz
      getNext_itr [OF rep k]
    show ?thesis by (subst makeSpaceLoop.simps) (auto simp: Let_def split: prod.splits)
  qed
qed

text \<open>
  Which entries leave to make room: none when there is room; otherwise first all expired ones, and
  then, when that is not enough, the oldest ones as far as needed.
\<close>

definition make_room :: "expired_check \<Rightarrow> nat \<Rightarrow> nat \<Rightarrow> entry list \<Rightarrow> entry list \<times> entry list \<times> entry list" where
  "make_room check req cap es =
     (if cap - used es \<ge> req then ([], [], es)
      else
        let dead = (case check of None \<Rightarrow> [] | Some ex \<Rightarrow> filter (ex \<circ> snd) es);
            live = (case check of None \<Rightarrow> es | Some ex \<Rightarrow> filter (Not \<circ> ex \<circ> snd) es)
        in if cap - used live \<ge> req then (dead, [], live)
           else (dead, evict req (cap - used live) live))"

lemma makeSpace_ok:
  fixes check :: expired_check
  assumes rep: "bucket_rep s es" and fits: "4 + sz \<le> capacity s"
  defines "room \<equiv> make_room check (4 + sz) (capacity s) es"
  shows "\<exists>s'. makeSpace sz check s =
      Some ((length (fst room) + length (fst (snd room)), length (fst room)),
        map recycled (fst room @ fst (snd room)), s') \<and>
    bucket_rep s' (snd (snd room)) \<and> capacity s' = capacity s"
proof -
  note d = bucket_repD [OF rep]
  have sl: "slotSize sz = 4 + sz" using fits d(3) by (intro slotSize_small) simp
  show ?thesis
  proof (cases "capacity s - used es \<ge> 4 + sz")
    case True
    with rep d sl show ?thesis by (simp add: makeSpace_def room_def make_room_def)
  next
    case False
    define dead where "dead = (case check of None \<Rightarrow> [] | Some ex \<Rightarrow> filter (ex \<circ> snd) es)"
    define live where "live = (case check of None \<Rightarrow> es | Some ex \<Rightarrow> filter (Not \<circ> ex \<circ> snd) es)"
    obtain s1 where s1: "removeExpired check (getFirst_st s) s = (length dead, map recycled dead, s1)"
      "bucket_rep s1 live" "capacity s1 = capacity s"
      using removeExpired_ok [OF rep] rep
      by (cases check) (auto simp: removeExpired_def dead_def live_def)
    note d1 = bucket_repD [OF s1(2)]
    have none: "dead = [] \<Longrightarrow> live = es" unfolding dead_def live_def
      by (cases check) (auto simp: filter_empty_conv filter_id_conv)
    show ?thesis
    proof (cases "capacity s - used live \<ge> 4 + sz")
      case True
      with False none have "dead \<noteq> []" by auto
      with True False s1 d d1 sl show ?thesis
        by (simp add: makeSpace_def room_def make_room_def Let_def flip: dead_def live_def)
    next
      case False2: False
      then have "live \<noteq> []" using fits by auto
      with makeSpaceLoop_ok [OF s1(2), of "4 + sz" "capacity s - used live" 0 "length dead" "map recycled dead"]
      obtain s2 where "makeSpaceLoop (4 + sz) s1 (getFirst_st s1) (capacity s - used live) (length dead) (map recycled dead) =
          Some (length dead + length (fst (evict (4 + sz) (capacity s - used live) live)),
            map recycled dead @ map recycled (fst (evict (4 + sz) (capacity s - used live) live)), s2)"
        "bucket_rep s2 (snd (evict (4 + sz) (capacity s - used live) live))" "capacity s2 = capacity s"
        using fits d1 s1(3) getFirst_itr [OF s1(2)] by auto
      with False False2 s1 d d1 sl show ?thesis
        by (simp add: makeSpace_def room_def make_room_def Let_def flip: dead_def live_def)
    qed
  qed
qed

lemma evict_room:
  assumes "free < req" and "req \<le> free + used es"
  shows "req \<le> free + used (fst (evict req free es))" "fst (evict req free es) \<noteq> []"
    "free + used (butlast (fst (evict req free es))) < req"
  using assms
proof (induction es arbitrary: free)
  case (Cons e es)
  { case 1 with Cons.IH(1) [of "free + esize e"] show ?case
      by (cases "req \<le> free + esize e") (auto simp: Let_def case_prod_beta) }
  { case 2 show ?case by (auto simp: Let_def case_prod_beta) }
  { case 3 with Cons.IH(2,3) [of "free + esize e"] show ?case
      by (cases "req \<le> free + esize e") (auto simp: Let_def case_prod_beta) }
qed simp_all

lemma used_filter: "used (filter P es) \<le> used es"
  by (induction es) auto

lemma make_room_fits:
  assumes "req \<le> cap" and "used es \<le> cap"
  shows "used (snd (snd (make_room check req cap es))) + req \<le> cap"
proof -
  define live where "live = (case check of None \<Rightarrow> es | Some ex \<Rightarrow> filter (Not \<circ> ex \<circ> snd) es)"
  have l: "used live \<le> cap" using assms(2) used_filter [of _ es] unfolding live_def
    by (auto split: option.splits intro: order_trans)
  let ?ev = "evict req (cap - used live) live"
  have "used live = used (fst ?ev) + used (snd ?ev)"
    using arg_cong [OF evict_append [of req "cap - used live" live], of used] by simp
  with evict_room(1) [of "cap - used live" req live] l assms show ?thesis
    by (auto simp: make_room_def Let_def split: if_splits simp flip: live_def)
qed

lemma bucket_insert_ok:
  fixes check :: expired_check
  assumes rep: "bucket_rep s es" and fits: "esize (hk, v) \<le> capacity s"
  defines "room \<equiv> make_room check (esize (hk, v)) (capacity s) es"
  shows "\<exists>s'. bucket_insert hk v check s =
      Some ((length (fst room) + length (fst (snd room)), length (fst room)),
        map recycled (fst room @ fst (snd room)), s') \<and>
    bucket_rep s' (snd (snd room) @ [(hk, v)]) \<and> capacity s' = capacity s"
proof -
  let ?e = "ebytes (hk, v)" and ?es = "map ebytes (snd (snd room))"
  note d = bucket_repD [OF rep]
  have "length ?e < 2 ^ 32" using fits d(3) by (simp add: esize_def)
  then have cs: "computeSize (length (hk_key hk)) (length v) = length ?e"
    by (simp add: computeSize_def length_ebytes entryOverhead_def)
  obtain s1 where s1: "makeSpace (length ?e) check s =
      Some ((length (fst room) + length (fst (snd room)), length (fst room)),
        map recycled (fst room @ fst (snd room)), s1)"
    "bucket_rep s1 (snd (snd room))" "capacity s1 = capacity s"
    using makeSpace_ok [OF rep, of "length ?e" check] fits by (auto simp: room_def esize_def)
  have "used (snd (snd room)) + esize (hk, v) \<le> capacity s"
    unfolding room_def by (rule make_room_fits [OF fits d(2)])
  then have "endOffset s1 + 4 + length ?e \<le> capacity s1"
    using bucket_repD(1) [OF s1(2)] s1(3) by (simp add: esize_def)
  from allocate_ok [OF s1(2) [unfolded bucket_rep_def] this] obtain s2 where
    s2: "allocate (length ?e) s1 = (alloc_at (?es @ [?e]) (length ?es), s2)"
      "storage_rep (s2\<lparr>sdata := write_at (a_off (alloc_at (?es @ [?e]) (length ?es))) ?e (sdata s2)\<rparr>) (?es @ [?e])"
    by blast
  have "alloc_at (?es @ [?e]) (length ?es) \<noteq> Done" "capacity s2 = capacity s1"
    using s2(1) by (auto simp: alloc_at_def allocate_def split: if_splits)
  with s1 s2 cs show ?thesis
    by (simp add: bucket_insert_def create_def bucket_rep_def ebytes_def)
qed

section \<open>Lookups after an insertion\<close>

abbreviation lookup_entry :: "HashedKey \<Rightarrow> entry list \<Rightarrow> bytes option" where
  "lookup_entry hk es \<equiv> map_option snd (List.find (\<lambda>e. fst e = hk) es)"

lemma find_append_entry:
  "lookup_entry hk (as @ bs) = (case lookup_entry hk as of None \<Rightarrow> lookup_entry hk bs | Some v \<Rightarrow> Some v)"
  by (induction as) auto

lemma lookup_entry_iff:
  "distinct (map fst es) \<Longrightarrow> lookup_entry hk es = Some v \<longleftrightarrow> (hk, v) \<in> set es"
  by (induction es) (auto, force+)

lemma lookup_entry_None: "lookup_entry hk es = None \<longleftrightarrow> hk \<notin> fst ` set es"
  by (induction es) auto

lemma remove_key_distinct:
  "distinct (map fst es) \<Longrightarrow> remove_key hk es = filter (\<lambda>e. fst e \<noteq> hk) es"
proof (induction es)
  case (Cons e es)
  then show ?case by (auto intro!: filter_True [symmetric] simp: image_iff)
qed simp

lemma make_room_set:
  "set (fst (make_room check req cap es)) \<union> set (fst (snd (make_room check req cap es))) \<union>
    set (snd (snd (make_room check req cap es))) = set es"
  "distinct (map fst es) \<Longrightarrow> distinct (map fst (snd (snd (make_room check req cap es))))"
proof -
  define dead where "dead = (case check of None \<Rightarrow> [] | Some ex \<Rightarrow> filter (ex \<circ> snd) es)"
  define live where "live = (case check of None \<Rightarrow> es | Some ex \<Rightarrow> filter (Not \<circ> ex \<circ> snd) es)"
  have dl: "set dead \<union> set live = set es" by (auto simp: dead_def live_def split: option.splits)
  have di: "distinct (map fst es) \<Longrightarrow> distinct (map fst live)"
    by (auto simp: live_def distinct_map_filter split: option.splits)
  have ev: "fst (evict req f live) @ snd (evict req f live) = live" for f by (rule evict_append)
  show "set (fst (make_room check req cap es)) \<union> set (fst (snd (make_room check req cap es))) \<union>
    set (snd (snd (make_room check req cap es))) = set es"
    using dl arg_cong [OF ev [of "cap - used live"], of set]
    by (auto simp: make_room_def Let_def simp flip: dead_def live_def)
  show "distinct (map fst (snd (snd (make_room check req cap es))))" if "distinct (map fst es)"
    using that di arg_cong [OF ev [of "cap - used live"], of "\<lambda>xs. distinct (map fst xs)"]
    by (auto simp: make_room_def Let_def simp flip: dead_def live_def)
qed

text \<open>An entry that the callback of the owner finds expired.\<close>

abbreviation entry_expired :: "expired_check \<Rightarrow> entry \<Rightarrow> bool" where
  "entry_expired check e \<equiv> (case check of None \<Rightarrow> False | Some ex \<Rightarrow> ex (snd e))"

lemma make_room_spec:
  assumes "used es \<le> cap" and "req \<le> cap" and "\<not> req \<le> cap - used es"
    and "make_room check req cap es = (dead, out, kept)"
  shows "dead = filter (entry_expired check) es" "out @ kept = filter (\<lambda>e. \<not> entry_expired check e) es"
    "out \<noteq> [] \<Longrightarrow> cap < used (last out # kept) + req"
proof -
  define live where "live = filter (\<lambda>e. \<not> entry_expired check e) es"
  have l: "(case check of None \<Rightarrow> es | Some ex \<Rightarrow> filter (Not \<circ> ex \<circ> snd) es) = live"
    by (auto simp: live_def o_def split: option.splits)
  have d: "(case check of None \<Rightarrow> [] | Some ex \<Rightarrow> filter (ex \<circ> snd) es) = filter (entry_expired check) es"
    by (auto simp: o_def split: option.splits)
  have ul: "used live \<le> cap" using used_filter [of _ es] assms(1) unfolding live_def by (rule order_trans)
  note r = assms(4) [unfolded make_room_def Let_def l d]
  show "dead = filter (entry_expired check) es" using r assms(3) by (simp split: if_splits)
  have ok: "out @ kept = live"
    using r assms(3) evict_append [of req "cap - used live" live] by (auto split: if_splits)
  then show "out @ kept = filter (\<lambda>e. \<not> entry_expired check e) es" by (simp add: live_def)
  show "cap < used (last out # kept) + req" if "out \<noteq> []"
  proof -
    have e: "\<not> req \<le> cap - used live" "evict req (cap - used live) live = (out, kept)"
      using r assms(3) that by (auto split: if_splits)
    then have "cap - used live + used (butlast out) < req"
      using evict_room(3) [of "cap - used live" req live] assms(2) ul by simp
    moreover have "used live = used (butlast out) + used (last out # kept)"
      using that by (simp flip: ok, metis append_butlast_last_id used_simps(1,2,3) add.right_neutral)
    ultimately show ?thesis using ul by simp
  qed
qed

lemma bucket_remove_then:
  assumes "bucket_rep s es" and "distinct (map fst es)"
  shows "\<exists>s'. bucket_remove hk s = (if bucket_find hk s = None then 0 else 1,
      case bucket_find hk s of None \<Rightarrow> [] | Some w \<Rightarrow> [(hk, w, Removed)], s') \<and>
    bucket_rep s' (filter (\<lambda>e. fst e \<noteq> hk) es) \<and> capacity s' = capacity s"
proof (cases "List.find (\<lambda>e. fst e = hk) es")
  case None
  then have "filter (\<lambda>e. fst e \<noteq> hk) es = es" by (auto simp: find_None_iff filter_id_conv)
  with None bucket_remove_ok [OF assms(1), of hk] assms(1) show ?thesis
    by (auto simp: bucket_find_ok [OF assms(1)])
next
  case (Some e)
  with bucket_remove_ok [OF assms(1), of hk] show ?thesis
    by (auto simp: bucket_find_ok [OF assms(1)] remove_key_distinct [OF assms(2)])
qed

lemma kept_or_recycled:
  assumes "distinct (map fst es)" and "distinct (map fst (kept @ [(hk, v)]))" and "k \<noteq> hk"
    and "set gone \<union> set kept = set (filter (\<lambda>e. fst e \<noteq> hk) es)"
  shows "lookup_entry k (kept @ [(hk, v)]) = lookup_entry k es \<or>
    lookup_entry k (kept @ [(hk, v)]) = None \<and>
      (\<exists>w. lookup_entry k es = Some w \<and> (k, w, Recycled) \<in> set (map recycled gone))"
proof (cases "lookup_entry k (kept @ [(hk, v)])")
  case (Some w)
  then have "(k, w) \<in> set es" unfolding lookup_entry_iff [OF assms(2)] using assms(3,4) by auto
  then have "lookup_entry k es = Some w" unfolding lookup_entry_iff [OF assms(1)] .
  with Some show ?thesis by (simp only:) simp
next
  case None
  then have n: "k \<notin> fst ` set kept" by (subst (asm) lookup_entry_None) auto
  show ?thesis
  proof (cases "lookup_entry k es")
    case (Some w)
    then have "(k, w) \<in> set es" unfolding lookup_entry_iff [OF assms(1)] .
    then have "(k, w) \<in> set gone \<union> set kept" using assms(3,4) by auto
    then have "(k, w) \<in> set gone" using n by force
    with None Some show ?thesis by force
  qed (use None in simp)
qed

section \<open>Properties\<close>

text \<open>An empty bucket of 100 bytes, and one with two entries.\<close>

definition sample_storage :: BucketStorage where
  "sample_storage = BucketStorage_init 100 (replicate 100 0)"

abbreviation sample_key :: "u8 \<Rightarrow> HashedKey" where
  "sample_key b \<equiv> \<lparr>hk_key = [b], hk_hash = ucast b\<rparr>"

lemma sample_storage_rep: "bucket_rep sample_storage []"
  by (simp add: bucket_rep_def storage_rep_def sample_storage_def BucketStorage_init_def)

text \<open>C33. Insertion into a bucket of an entry that fits: it is appended, the older entries keep their
  order; when there was room nothing leaves, otherwise all expired entries leave and then the oldest
  of the others, as few as make room, with the destructor called once for each entry that leaves, in
  that order, and the two counts right.\<close>

theorem bucket_insert_evicts:
  assumes "bucket_rep s es" and "esize (hk, v) \<le> capacity s"
  shows "\<exists>dead out kept s'.
    bucket_insert hk v check s =
      Some ((length dead + length out, length dead), map recycled (dead @ out), s') \<and>
    bucket_rep s' (kept @ [(hk, v)]) \<and> capacity s' = capacity s \<and>
    (if esize (hk, v) \<le> remainingCapacity s then dead = [] \<and> out = [] \<and> kept = es
     else dead = filter (entry_expired check) es \<and>
       out @ kept = filter (\<lambda>e. \<not> entry_expired check e) es \<and>
       (out \<noteq> [] \<longrightarrow> capacity s < used (last out # kept) + esize (hk, v)))"
proof -
  obtain dead out kept where r: "make_room check (esize (hk, v)) (capacity s) es = (dead, out, kept)"
    by (metis prod.exhaust)
  note d = bucket_repD [OF assms(1)]
  from bucket_insert_ok [OF assms, of check] r d(4) make_room_spec [OF d(2) assms(2) _ r] show ?thesis
    by (intro exI [of _ dead] exI [of _ out] exI [of _ kept])
      (auto simp: make_room_def split: if_splits)
qed

theorem bucket_insert_evicts_witness:
  "\<exists>s'. bucket_insert (sample_key 3) [5] None (BucketStorage_init 30 (replicate 30 0)) = Some ((0, 0), [], s') \<and>
     bucket_rep s' [(sample_key 3, [5])]"
  using bucket_insert_evicts [of "BucketStorage_init 30 (replicate 30 0)" "[]" "sample_key 3" "[5]" None]
  by (simp add: bucket_rep_def storage_rep_def BucketStorage_init_def esize_def length_ebytes
      remainingCapacity_def) blast

text \<open>C34. The bucket is a bounded dictionary: a lookup returns the value of the first entry of that key
  (hash and bytes), a removal takes out that entry and calls the destructor for it; after removing a
  key and inserting it again, as the cache does, the key is found with the new value, and every other
  key is found with its old value or has been evicted.\<close>

theorem bucket_update_lookup:
  assumes "bucket_rep s es" and "distinct (map fst es)" and "esize (hk, v) \<le> capacity s"
  shows "\<exists>n c s1 r d s2. bucket_remove hk s = (n, c, s1) \<and> bucket_insert hk v check s1 = Some (r, d, s2) \<and>
    n = (if bucket_find hk s = None then 0 else 1) \<and> c = (case bucket_find hk s of None \<Rightarrow> [] | Some w \<Rightarrow> [(hk, w, Removed)]) \<and>
    bucket_find hk s1 = None \<and> bucket_find hk s2 = Some v \<and>
    (\<exists>es2. bucket_rep s2 es2 \<and> distinct (map fst es2)) \<and>
    (\<forall>k. k \<noteq> hk \<longrightarrow> bucket_find k s2 = bucket_find k s \<or>
      bucket_find k s2 = None \<and> (\<exists>w. bucket_find k s = Some w \<and> (k, w, Recycled) \<in> set d))"
proof -
  let ?rest = "filter (\<lambda>e. fst e \<noteq> hk) es"
  obtain s1 where s1: "bucket_remove hk s = (if bucket_find hk s = None then 0 else 1,
      case bucket_find hk s of None \<Rightarrow> [] | Some w \<Rightarrow> [(hk, w, Removed)], s1)"
    "bucket_rep s1 ?rest" "capacity s1 = capacity s"
    using bucket_remove_then [OF assms(1,2)] by blast
  have di: "distinct (map fst ?rest)" using assms(2) by (simp add: distinct_map_filter)
  obtain dead out kept where r: "make_room check (esize (hk, v)) (capacity s) ?rest = (dead, out, kept)"
    by (metis prod.exhaust)
  obtain s2 where s2: "bucket_insert hk v check s1 =
      Some ((length dead + length out, length dead), map recycled (dead @ out), s2)"
      "bucket_rep s2 (kept @ [(hk, v)])"
    using bucket_insert_ok [OF s1(2), of hk v check] assms(3) s1(3) r by auto
  have m: "set dead \<union> set out \<union> set kept = set ?rest" "distinct (map fst kept)"
    using make_room_set(1) [where check = check and req = "esize (hk, v)" and cap = "capacity s" and es = ?rest]
      make_room_set(2) [OF di, of check "esize (hk, v)" "capacity s"] r by simp_all
  then have fresh: "hk \<notin> fst ` set kept" by auto
  then have d2: "distinct (map fst (kept @ [(hk, v)]))" using m(2) by simp
  note f = bucket_find_ok [OF assms(1)] bucket_find_ok [OF s1(2)] bucket_find_ok [OF s2(2)]
  have other: "bucket_find k s2 = bucket_find k s \<or>
      bucket_find k s2 = None \<and> (\<exists>w. bucket_find k s = Some w \<and> (k, w, Recycled) \<in> set (map recycled (dead @ out)))"
    if "k \<noteq> hk" for k
    using kept_or_recycled [OF assms(2) d2 that, of "dead @ out"] m(1) f(1,3) that by auto
  have "bucket_find hk s1 = None" unfolding f(2) by (subst lookup_entry_None) auto
  moreover have "bucket_find hk s2 = Some v" unfolding f(3) by (subst lookup_entry_iff [OF d2]) simp
  ultimately show ?thesis using s1(1) s2 d2 other by blast
qed

theorem bucket_update_lookup_witness:
  "\<exists>s2. map_option (snd \<circ> snd) (bucket_insert (sample_key 3) [5] None sample_storage) = Some s2 \<and>
     bucket_find (sample_key 3) s2 = Some [5]"
  using bucket_update_lookup [OF sample_storage_rep, of "sample_key 3" "[5]" None]
    bucket_remove_ok [OF sample_storage_rep, of "sample_key 3"]
  by (auto simp: sample_storage_def BucketStorage_init_def esize_def length_ebytes)

text \<open>
  The random offset falls into the slot of the entry whose end is the first past it. The string is
  built from the start of the key without its length.
\<close>

lemma itr_end:
  assumes "k < length es"
  shows "a_off (itr_at es k) + a_size (itr_at es k) = used (take (Suc k) es)"
proof -
  have u: "length (slots (map ebytes es)) = used es" for es
    by (induction es) (simp_all add: esize_def)
  show ?thesis using assms u [of "take k es"]
    by (simp add: itr_at_def alloc_at_def take_Suc_conv_app_nth take_map esize_def)
qed

lemma randomLoop_ok:
  assumes rep: "bucket_rep s es"
  shows "used (take k es) \<le> r \<Longrightarrow> r < used es \<Longrightarrow>
    \<exists>j < length es. used (take j es) \<le> r \<and> r < used (take (Suc j) es) \<and>
      (\<exists>rest. randomLoop r s (itr_at es k) =
        Some (c_string (hk_key (fst (es ! j)) @ snd (es ! j) @ rest), snd (es ! j)))"
proof (induction "length es - k" arbitrary: k)
  case 0
  then show ?case by simp
next
  case (Suc n)
  then have k: "k < length es" by simp
  note r = read_entry [OF rep k] and e = itr_end [OF k]
  show ?case
  proof (cases "r < used (take (Suc k) es)")
    case True
    with k r e Suc.prems show ?thesis by (subst randomLoop.simps) (auto intro!: exI [of _ k])
  next
    case False
    with Suc.hyps(1) [of "Suc k"] Suc.hyps(2) Suc.prems k e getNext_itr [OF rep k] show ?thesis
      by (subst randomLoop.simps) simp
  qed
qed

text \<open>C35. The random pick of a bucket: an offset below the used size selects the entry whose slot
  contains it, so the chance of an entry is proportional to its size, and its value is returned; the
  key returned is the bytes from the start of the key up to the first zero byte, the bytes of the value
  and of what follows it included, not the key of the entry.\<close>

theorem random_alloc_overreads_key:
  assumes "bucket_rep s es" and "r < endOffset s"
  shows "\<exists>j rest. j < length es \<and> used (take j es) \<le> r \<and> r < used (take (Suc j) es) \<and>
    bucket_getRandomAlloc r s =
      Some (c_string (hk_key (fst (es ! j)) @ snd (es ! j) @ rest), snd (es ! j))"
  using randomLoop_ok [OF assms(1), of 0 r] assms(2) bucket_repD(1) [OF assms(1)] getFirst_itr [OF assms(1)]
  by (auto simp: bucket_getRandomAlloc_def)

theorem random_alloc_overreads_key_witness:
  "\<exists>s. bucket_rep s [(sample_key 3, [5, 0])] \<and> bucket_getRandomAlloc 0 s = Some (Some [3, 5], [5, 0])"
proof -
  from bucket_insert_ok [OF sample_storage_rep, of "sample_key 3" "[5, 0]" None] obtain s where
    s: "bucket_rep s [(sample_key 3, [5, 0])]"
    by (auto simp: sample_storage_def BucketStorage_init_def esize_def length_ebytes make_room_def)
  with random_alloc_overreads_key [OF s, of 0] bucket_repD(1) [OF s] show ?thesis
    by (auto simp: esize_def c_string_def)
qed

lemma bucket_of_bytes:
  assumes "capacity (b_storage b) < 2 ^ 32" "numAllocations (b_storage b) < 2 ^ 32" "endOffset (b_storage b) < 2 ^ 32"
  shows "bucket_of (bucket_bytes b) = b" "length (bucket_bytes b) = kBucketOverhead + length (sdata (b_storage b))"
    "computeChecksum crc (bucket_bytes (b\<lparr>b_checksum := c\<rparr>)) = computeChecksum crc (bucket_bytes b)"
proof -
  have w: "unat (b_checksum b) < 256 ^ 4" using unsigned_less [of "b_checksum b"] by simp
  show "bucket_of (bucket_bytes b) = b"
    using assms w by (cases b; cases "b_storage b") (simp add: bucket_of_def bucket_bytes_def)
  show "length (bucket_bytes b) = kBucketOverhead + length (sdata (b_storage b))"
    "computeChecksum crc (bucket_bytes (b\<lparr>b_checksum := c\<rparr>)) = computeChecksum crc (bucket_bytes b)"
    by (simp_all add: bucket_bytes_def computeChecksum_def kBucketOverhead_def)
qed

text \<open>The layout of a bucket: reading back the bytes of a bucket gives the bucket, and its checksum
  covers everything but the checksum itself.\<close>

lemma bucket_layout_roundtrip:
  assumes "capacity (b_storage b) < 2 ^ 32" "numAllocations (b_storage b) < 2 ^ 32" "endOffset (b_storage b) < 2 ^ 32"
  shows "bucket_of (bucket_bytes b) = b \<and> length (bucket_bytes b) = kBucketOverhead + length (sdata (b_storage b)) \<and>
    computeChecksum crc (bucket_bytes (b\<lparr>b_checksum := c\<rparr>)) = computeChecksum crc (bucket_bytes b)"
  using bucket_of_bytes [OF assms] by blast

end
