(* ===== verification/BloomFilter.thy ===== *)
theory BloomFilter
  imports Bytes
begin

unbundle bit_operations_syntax

text \<open>
  The array of Bloom filters, \<^verbatim>\<open>cachelib/common/BloomFilter.h\<close> and \<^verbatim>\<open>BloomFilter.cpp\<close>: one filter
  per index, each with one table per hash function, packed into one block of bytes. The mixing
  functions of the hash library are parameters: \<open>combine\<close> for \<^verbatim>\<open>combineHashes\<close>, \<open>hashInt\<close> for the seeds.
\<close>

section \<open>Bits\<close>

definition byteIndex :: "nat \<Rightarrow> nat" where
  "byteIndex bitIdx = drop_bit 3 bitIdx"

definition bitMask :: "nat \<Rightarrow> u8" where
  "bitMask bitIdx = push_bit (bitIdx AND 7) 1"

text \<open>The pointer is an offset into the block.\<close>

definition bitSet :: "nat \<Rightarrow> nat \<Rightarrow> bytes \<Rightarrow> bytes" where
  "bitSet p bitIdx d = d[p + byteIndex bitIdx := d ! (p + byteIndex bitIdx) OR bitMask bitIdx]"

definition bitGet :: "nat \<Rightarrow> nat \<Rightarrow> bytes \<Rightarrow> bool" where
  "bitGet p bitIdx d \<longleftrightarrow> d ! (p + byteIndex bitIdx) AND bitMask bitIdx \<noteq> 0"

definition bitsToBytes :: "nat \<Rightarrow> nat" where
  "bitsToBytes bits = unat (drop_bit 3 ((of_nat bits + 7) AND NOT 7 :: u64))"

section \<open>The filters\<close>

text \<open>A default-constructed filter has no bytes (a null pointer) and no seeds.\<close>

record BloomFilter =
  numFilters :: nat
  hashTableBitSize :: nat
  filterByteSize :: nat
  seeds :: "u64 list"
  bits :: "bytes option"

definition BloomFilter_default :: BloomFilter where
  "BloomFilter_default = \<lparr>numFilters = 0, hashTableBitSize = 0, filterByteSize = 0, seeds = [], bits = None\<rparr>"

definition getByteSize :: "BloomFilter \<Rightarrow> nat" where
  "getByteSize f = numFilters f * filterByteSize f"

definition numHashes :: "BloomFilter \<Rightarrow> nat" where
  "numHashes f = length (seeds f)"

definition numBitsPerFilter :: "BloomFilter \<Rightarrow> nat" where
  "numBitsPerFilter f = filterByteSize f * 8"

definition getFilterBytes :: "BloomFilter \<Rightarrow> nat \<Rightarrow> nat" where
  "getFilterBytes f idx = idx * filterByteSize f"

text \<open>\<^const>\<open>None\<close> is the exception for invalid arguments.\<close>

definition BloomFilter_init :: "(u64 \<Rightarrow> u64) \<Rightarrow> nat \<Rightarrow> nat \<Rightarrow> nat \<Rightarrow> BloomFilter option" where
  "BloomFilter_init hashInt nf nh tableBits =
     (let fbs = bitsToBytes (nh * tableBits mod 2 ^ 64)
      in if nf = 0 \<or> nh = 0 \<or> tableBits = 0 then None
         else Some \<lparr>numFilters = nf, hashTableBitSize = tableBits, filterByteSize = fbs,
                    seeds = map (\<lambda>i. hashInt (of_nat i)) [0..<nh],
                    bits = Some (replicate (nf * fbs) 0)\<rparr>)"

text \<open>\<open>params\<close> stands for \<^verbatim>\<open>findOptimalParams\<close>, which is floating point.\<close>

definition makeBloomFilter :: "(u64 \<Rightarrow> u64) \<Rightarrow> (nat \<Rightarrow> nat \<times> nat) \<Rightarrow> nat \<Rightarrow> nat \<Rightarrow> BloomFilter option" where
  "makeBloomFilter hashInt params nf elementCount =
     (let (nh, tableSize) = params elementCount in BloomFilter_init hashInt nf nh (tableSize div nh))"

fun setLoop :: "(u64 \<Rightarrow> u64 \<Rightarrow> u64) \<Rightarrow> nat \<Rightarrow> nat \<Rightarrow> u64 \<Rightarrow> u64 list \<Rightarrow> nat \<Rightarrow> bytes \<Rightarrow> bytes" where
  "setLoop combine tableBits p key [] firstBit d = d"
| "setLoop combine tableBits p key (seed # ss) firstBit d =
     (let bitNum = unat (combine key seed) mod tableBits
      in setLoop combine tableBits p key ss (firstBit + tableBits) (bitSet p (firstBit + bitNum) d))"

definition bf_set :: "(u64 \<Rightarrow> u64 \<Rightarrow> u64) \<Rightarrow> nat \<Rightarrow> u64 \<Rightarrow> BloomFilter \<Rightarrow> BloomFilter" where
  "bf_set combine idx key f =
     f\<lparr>bits := map_option (setLoop combine (hashTableBitSize f) (getFilterBytes f idx) key (seeds f) 0) (bits f)\<rparr>"

fun couldExistLoop :: "(u64 \<Rightarrow> u64 \<Rightarrow> u64) \<Rightarrow> nat \<Rightarrow> nat \<Rightarrow> u64 \<Rightarrow> u64 list \<Rightarrow> nat \<Rightarrow> bytes \<Rightarrow> bool" where
  "couldExistLoop combine tableBits p key [] firstBit d = True"
| "couldExistLoop combine tableBits p key (seed # ss) firstBit d =
     (let bitNum = unat (combine key seed) mod tableBits
      in if \<not> bitGet p (firstBit + bitNum) d then False
         else couldExistLoop combine tableBits p key ss (firstBit + tableBits) d)"

definition couldExist :: "(u64 \<Rightarrow> u64 \<Rightarrow> u64) \<Rightarrow> nat \<Rightarrow> u64 \<Rightarrow> BloomFilter \<Rightarrow> bool" where
  "couldExist combine idx key f =
     couldExistLoop combine (hashTableBitSize f) (getFilterBytes f idx) key (seeds f) 0
       (case bits f of None \<Rightarrow> [] | Some d \<Rightarrow> d)"

definition bf_clear :: "nat \<Rightarrow> BloomFilter \<Rightarrow> BloomFilter" where
  "bf_clear idx f =
     f\<lparr>bits := map_option (write_at (getFilterBytes f idx) (replicate (filterByteSize f) 0)) (bits f)\<rparr>"

definition bf_reset :: "BloomFilter \<Rightarrow> BloomFilter" where
  "bf_reset f = f\<lparr>bits := map_option (write_at 0 (replicate (getByteSize f) 0)) (bits f)\<rparr>"

section \<open>Saving and restoring\<close>

text \<open>The record stream is a list of byte strings; the encoding of the header record is a parameter.\<close>

record BloomFilterPersistentData =
  pd_numFilters :: u32
  pd_hashTableBitSize :: u64
  pd_filterByteSize :: u64
  pd_fragmentSize :: u32
  pd_seeds :: "u64 list"

definition kPersistFragmentSize :: nat where "kPersistFragmentSize = 1024 * 1024"

function fragments :: "nat \<Rightarrow> nat \<Rightarrow> nat \<Rightarrow> bytes \<Rightarrow> bytes list" where
  "fragments fragmentSize off totalSize d =
     (if off < totalSize \<and> 0 < fragmentSize then
        let nBytes = min (totalSize - off) fragmentSize
        in take nBytes (drop off d) # fragments fragmentSize (off + nBytes) totalSize d
      else [])"
  by pat_completeness auto
termination by (relation "measure (\<lambda>(_, off, totalSize, _). totalSize - off)") auto

declare fragments.simps [simp del]

definition serializeBits :: "nat \<Rightarrow> BloomFilter \<Rightarrow> bytes list" where
  "serializeBits fragmentSize f =
     fragments fragmentSize 0 (getByteSize f) (case bits f of None \<Rightarrow> [] | Some d \<Rightarrow> d) @
     fragments fragmentSize 0 (bitsToBytes (numFilters f)) (replicate (bitsToBytes (numFilters f)) 0)"

definition bf_persist :: "(BloomFilterPersistentData \<Rightarrow> bytes) \<Rightarrow> BloomFilter \<Rightarrow> bytes list" where
  "bf_persist enc f =
     enc \<lparr>pd_numFilters = of_nat (numFilters f), pd_hashTableBitSize = of_nat (hashTableBitSize f),
          pd_filterByteSize = of_nat (filterByteSize f), pd_fragmentSize = of_nat kPersistFragmentSize,
          pd_seeds = seeds f\<rparr> #
     serializeBits kPersistFragmentSize f"

text \<open>
  Reading back: an error when the records run out. \<^verbatim>\<open>memcpy\<close> past the end of the block is a memory error.
\<close>

datatype bf_error = InvalidBloomFilter | MissingRecord | OutOfBounds

fun readBits :: "nat \<Rightarrow> nat \<Rightarrow> bytes \<Rightarrow> bytes list \<Rightarrow> bf_error option \<times> bytes \<times> bytes list" where
  "readBits totalSize off d [] = (if off < totalSize then Some MissingRecord else None, d, [])"
| "readBits totalSize off d (r # rs) =
     (if \<not> off < totalSize then (None, d, r # rs)
      else if off + length r > length d then (Some OutOfBounds, d, rs)
      else readBits totalSize (off + length r) (write_at off r d) rs)"

fun skipInit :: "nat \<Rightarrow> nat \<Rightarrow> bytes list \<Rightarrow> bf_error option \<times> bytes list" where
  "skipInit totalSize off [] = (if off < totalSize then Some MissingRecord else None, [])"
| "skipInit totalSize off (r # rs) =
     (if \<not> off < totalSize then (None, r # rs) else skipInit totalSize (off + length r) rs)"

definition deserializeBits :: "bytes list \<Rightarrow> BloomFilter \<Rightarrow> bf_error option \<times> BloomFilter \<times> bytes list" where
  "deserializeBits rs f =
     (let (err, d, rs) = readBits (getByteSize f) 0 (case bits f of None \<Rightarrow> [] | Some d \<Rightarrow> d) rs;
          f = f\<lparr>bits := map_option (\<lambda>_. d) (bits f)\<rparr>
      in if err \<noteq> None then (err, f, rs)
         else let (err, rs) = skipInit (bitsToBytes (numFilters f)) 0 rs in (err, f, rs))"

text \<open>\<open>dec\<close> decodes the header record and fails by an exception.\<close>

definition bf_recover ::
  "(bytes \<Rightarrow> BloomFilterPersistentData option) \<Rightarrow> bytes list \<Rightarrow> BloomFilter \<Rightarrow>
   bf_error option \<times> BloomFilter \<times> bytes list" where
  "bf_recover dec rs f =
     (case rs of
        [] \<Rightarrow> (Some MissingRecord, f, [])
      | r # rs \<Rightarrow>
          (case dec r of
             None \<Rightarrow> (Some InvalidBloomFilter, f, rs)
           | Some bd \<Rightarrow>
               if numFilters f \<noteq> unat (pd_numFilters bd) \<or> hashTableBitSize f \<noteq> unat (pd_hashTableBitSize bd) \<or>
                  filterByteSize f \<noteq> unat (pd_filterByteSize bd) \<or>
                  unat (pd_fragmentSize bd) \<noteq> kPersistFragmentSize
               then (Some InvalidBloomFilter, f, rs)
               else if length (pd_seeds bd) > length (seeds f) then (Some OutOfBounds, f, rs)
               else deserializeBits rs (f\<lparr>seeds := pd_seeds bd @ drop (length (pd_seeds bd)) (seeds f)\<rparr>)))"

section \<open>Bits of a block\<close>

lemma byteIndex_div: "byteIndex b = b div 8" by (simp add: byteIndex_def drop_bit_eq_div)

lemma bitMask_power: "bitMask b = 2 ^ (b mod 8)"
  using take_bit_eq_mask [of 3 b] by (simp add: bitMask_def take_bit_eq_mod push_bit_eq_mult mask_eq_exp_minus_1)

lemma bitGet_bit: "bitGet p b d \<longleftrightarrow> bit (d ! (p + b div 8)) (b mod 8)"
  unfolding bitGet_def byteIndex_div bitMask_power by (rule bit_mask_test)

lemma bitSet_bit:
  "bitSet p b d = d[p + b div 8 := d ! (p + b div 8) OR 2 ^ (b mod 8)]"
  by (simp add: bitSet_def byteIndex_div bitMask_power)

lemma length_bitSet [simp]: "length (bitSet p b d) = length d"
  by (simp add: bitSet_def)

lemma bit_or_power: "m < 8 \<Longrightarrow> bit (w OR 2 ^ n :: u8) m \<longleftrightarrow> bit w m \<or> m = n"
  by (auto simp: bit_simps)

lemma bitGet_bitSet:
  assumes "p + b div 8 < length d"
  shows "bitGet q c (bitSet p b d) \<longleftrightarrow> bitGet q c d \<or> q + c div 8 = p + b div 8 \<and> c mod 8 = b mod 8"
  using assms unfolding bitGet_bit bitSet_bit by (auto simp: nth_list_update bit_or_power)

lemma bitsToBytes_div:
  assumes "n + 7 < 2 ^ 64"
  shows "bitsToBytes n = (n + 7) div 8"
proof -
  have n7: "NOT 7 = (NOT (mask 3) :: u64)" by (simp add: mask_eq_exp_minus_1)
  have "drop_bit 3 ((of_nat n + 7) AND NOT 7 :: u64) = drop_bit 3 (of_nat (n + 7))"
    unfolding n7 by (rule bit_eqI) (auto simp: bit_simps dest: bit_imp_le_length)
  then have "bitsToBytes n = unat (drop_bit 3 (of_nat (n + 7) :: u64))" by (simp add: bitsToBytes_def)
  moreover have "unat (of_nat (n + 7) :: u64) = n + 7"
    unfolding unat_of_nat using assms by simp
  ultimately show ?thesis using assms
    by (simp only: unsigned_drop_bit_eq) (simp add: drop_bit_eq_div take_bit_nat_eq_self)
qed

section \<open>Which bits a key owns\<close>

definition bf_bit :: "(u64 \<Rightarrow> u64 \<Rightarrow> u64) \<Rightarrow> nat \<Rightarrow> u64 \<Rightarrow> u64 list \<Rightarrow> nat \<Rightarrow> nat" where
  "bf_bit combine tableBits key ss i = i * tableBits + unat (combine key (ss ! i)) mod tableBits"

lemma same_bit: "q + c div 8 = p + b div 8 \<and> c mod 8 = b mod 8 \<longleftrightarrow> 8 * q + c = 8 * p + (b::nat)"
proof -
  have "(8 * q + c) div 8 = q + c div 8" "(8 * p + b) div 8 = p + b div 8"
    "(8 * q + c) mod 8 = c mod 8" "(8 * p + b) mod 8 = b mod 8" by simp_all
  then show ?thesis by (metis div_mult_mod_eq)
qed

lemma bf_bit_less:
  assumes "0 < t" and "i < length ss"
  shows "bf_bit combine t key ss i < length ss * t"
proof -
  have "bf_bit combine t key ss i < Suc i * t" using assms(1) by (simp add: bf_bit_def)
  also have "\<dots> \<le> length ss * t" using assms(2) by (intro mult_right_mono) auto
  finally show ?thesis .
qed

lemma bf_bit_Suc: "bf_bit combine t key (a # ss) (Suc i) = t + bf_bit combine t key ss i"
  by (simp add: bf_bit_def)

lemma length_setLoop [simp]: "length (setLoop combine t p key ss fb d) = length d"
  by (induction ss arbitrary: fb d) (simp_all add: Let_def)

lemma bitGet_setLoop:
  assumes "0 < t" and "8 * p + fb + length ss * t \<le> 8 * length d"
  shows "bitGet q c (setLoop combine t p key ss fb d) \<longleftrightarrow>
    bitGet q c d \<or> (\<exists>i < length ss. 8 * q + c = 8 * p + fb + bf_bit combine t key ss i)"
  using assms(2)
proof (induction ss arbitrary: fb d)
  case (Cons a ss)
  let ?b = "fb + unat (combine key a) mod t"
  have "?b < fb + t" using assms(1) by simp
  then have "p + ?b div 8 < length d" using Cons.prems by simp
  then have "bitGet q c (bitSet p ?b d) \<longleftrightarrow> bitGet q c d \<or> 8 * q + c = 8 * p + ?b"
    using same_bit [of q c p ?b] bitGet_bitSet [of p ?b d q c] by simp
  with Cons.IH [of "fb + t" "bitSet p ?b d"] Cons.prems show ?case
    by (simp add: Let_def Ex_less_Suc2 bf_bit_def ac_simps)
qed simp

lemma couldExistLoop_iff:
  "couldExistLoop combine t p key ss fb d \<longleftrightarrow>
    (\<forall>i < length ss. bitGet p (fb + bf_bit combine t key ss i) d)"
proof (induction ss arbitrary: fb)
  case (Cons a ss)
  with Cons.IH [of "fb + t"] show ?case
    by (simp add: Let_def All_less_Suc2 bf_bit_def ac_simps)
qed simp

text \<open>A filter in use: the tables of a filter fit into its bytes.\<close>

definition bf_wf :: "BloomFilter \<Rightarrow> bool" where
  "bf_wf f \<longleftrightarrow> (\<exists>d. bits f = Some d \<and> length d = getByteSize f) \<and> 0 < hashTableBitSize f \<and> seeds f \<noteq> [] \<and>
     length (seeds f) * hashTableBitSize f \<le> 8 * filterByteSize f"

definition bf_owns :: "(u64 \<Rightarrow> u64 \<Rightarrow> u64) \<Rightarrow> BloomFilter \<Rightarrow> u64 \<Rightarrow> nat \<Rightarrow> bool" where
  "bf_owns combine f key b \<longleftrightarrow> (\<exists>i < length (seeds f). b = bf_bit combine (hashTableBitSize f) key (seeds f) i)"

definition bf_test :: "BloomFilter \<Rightarrow> nat \<Rightarrow> nat \<Rightarrow> bool" where
  "bf_test f idx b \<longleftrightarrow> bitGet (idx * filterByteSize f) b (the (bits f))"

lemma couldExist_iff:
  "bf_wf f \<Longrightarrow> couldExist combine idx key f \<longleftrightarrow> (\<forall>b. bf_owns combine f key b \<longrightarrow> bf_test f idx b)"
  by (auto simp: couldExist_def couldExistLoop_iff bf_wf_def bf_owns_def bf_test_def getFilterBytes_def)

lemma bf_owns_less: "bf_wf f \<Longrightarrow> bf_owns combine f key b \<Longrightarrow> b < 8 * filterByteSize f"
  using bf_bit_less [of "hashTableBitSize f" _ "seeds f" combine key]
  by (auto simp: bf_wf_def bf_owns_def intro: less_le_trans)

lemma bf_owns_some: "bf_wf f \<Longrightarrow> \<exists>b. bf_owns combine f key b"
  by (auto simp: bf_wf_def bf_owns_def)

lemma bf_index_inj:
  assumes "8 * (i * n) + b = 8 * (j * n) + c" and "b < 8 * n" and "c < 8 * (n::nat)"
  shows "i = j \<and> b = c"
proof -
  have "i * (8 * n) + b = j * (8 * n) + c" using assms(1) by (simp add: ac_simps)
  moreover have "(i * (8 * n) + b) div (8 * n) = i" "(j * (8 * n) + c) div (8 * n) = j" using assms(2,3) by auto
  ultimately have "i = j" by metis
  with assms(1) show ?thesis by simp
qed

lemma bf_block_fits: "bf_wf f \<Longrightarrow> idx < numFilters f \<Longrightarrow> idx * filterByteSize f + filterByteSize f \<le> length (the (bits f))"
  using mult_right_mono [of "Suc idx" "numFilters f" "filterByteSize f"] by (auto simp: bf_wf_def getByteSize_def)

lemma bf_set_simps [simp]:
  "numFilters (bf_set combine idx key f) = numFilters f" "seeds (bf_set combine idx key f) = seeds f"
  "hashTableBitSize (bf_set combine idx key f) = hashTableBitSize f"
  "filterByteSize (bf_set combine idx key f) = filterByteSize f"
  "numFilters (bf_clear idx f) = numFilters f" "seeds (bf_clear idx f) = seeds f"
  "hashTableBitSize (bf_clear idx f) = hashTableBitSize f" "filterByteSize (bf_clear idx f) = filterByteSize f"
  "numFilters (bf_reset f) = numFilters f" "seeds (bf_reset f) = seeds f"
  "hashTableBitSize (bf_reset f) = hashTableBitSize f" "filterByteSize (bf_reset f) = filterByteSize f"
  by (simp_all add: bf_set_def bf_clear_def bf_reset_def)

lemma bf_set_wf: "bf_wf f \<Longrightarrow> bf_wf (bf_set combine idx key f)"
  by (auto simp: bf_wf_def bf_set_def getByteSize_def)

lemma bf_set_test:
  assumes wf: "bf_wf f" and idx: "idx < numFilters f" and b: "b < 8 * filterByteSize f"
  shows "bf_test (bf_set combine idx key f) j b \<longleftrightarrow> bf_test f j b \<or> j = idx \<and> bf_owns combine f key b"
proof -
  obtain d where d: "bits f = Some d" using wf by (auto simp: bf_wf_def)
  let ?p = "\<lambda>i. i * filterByteSize f" and ?bit = "bf_bit combine (hashTableBitSize f) key (seeds f)"
  have fits: "8 * ?p idx + 0 + length (seeds f) * hashTableBitSize f \<le> 8 * length d"
    using bf_block_fits [OF wf idx] wf d by (auto simp: bf_wf_def)
  have "0 < hashTableBitSize f" using wf by (simp add: bf_wf_def)
  from bitGet_setLoop [OF this fits, of "?p j" b combine key]
  have "bf_test (bf_set combine idx key f) j b \<longleftrightarrow>
      bf_test f j b \<or> (\<exists>i < length (seeds f). 8 * ?p j + b = 8 * ?p idx + ?bit i)"
    unfolding bf_test_def by (simp add: bf_set_def getFilterBytes_def d)
  moreover have "8 * ?p j + b = 8 * ?p idx + ?bit i \<longleftrightarrow> j = idx \<and> b = ?bit i" if "i < length (seeds f)" for i
  proof -
    have "?bit i < 8 * filterByteSize f" using bf_owns_less [OF wf, of combine key "?bit i"] that
      by (auto simp: bf_owns_def)
    with bf_index_inj [OF _ b this, of j idx] show ?thesis by blast
  qed
  ultimately show ?thesis unfolding bf_owns_def by blast
qed

lemma bf_wipe_test:
  assumes wf: "bf_wf f" and idx: "idx < numFilters f" and j: "j < numFilters f" and b: "b < 8 * filterByteSize f"
  shows "bf_test (bf_clear idx f) j b \<longleftrightarrow> j \<noteq> idx \<and> bf_test f j b" "\<not> bf_test (bf_reset f) j b"
proof -
  obtain d where d: "bits f = Some d" "length d = numFilters f * filterByteSize f"
    using wf by (auto simp: bf_wf_def getByteSize_def)
  let ?n = "filterByteSize f"
  have b8: "b div 8 < ?n" using b by simp
  have in_block: "i * ?n + k < length d" if "i < numFilters f" "k < ?n" for i k
    using mult_right_mono [of "Suc i" "numFilters f" ?n] that d(2) by simp
  have z: "\<not> bit (0::u8) k" for k by simp
  have "bf_test (bf_clear idx f) j b \<longleftrightarrow>
      bit (write_at (idx * ?n) (replicate ?n 0) d ! (j * ?n + b div 8)) (b mod 8)"
    by (simp add: bf_test_def bf_clear_def bitGet_bit d getFilterBytes_def)
  moreover have "write_at (idx * ?n) (replicate ?n 0) d ! (j * ?n + b div 8) =
      (if j = idx then 0 else d ! (j * ?n + b div 8))"
  proof -
    have fit: "idx * ?n + length (replicate ?n (0::u8)) \<le> length d" using bf_block_fits [OF wf idx] d(1) by simp
    have "idx * ?n \<le> j * ?n + b div 8 \<and> j * ?n + b div 8 < idx * ?n + ?n \<longleftrightarrow> j = idx"
    proof
      assume "idx * ?n \<le> j * ?n + b div 8 \<and> j * ?n + b div 8 < idx * ?n + ?n"
      then have "(j * ?n + b div 8) div ?n = idx" by (intro div_nat_eqI) (auto simp: ac_simps)
      then show "j = idx" using b8 by simp
    qed (use b8 in simp)
    with b8 show ?thesis by (subst nth_write_at [OF fit in_block [OF j b8]]) auto
  qed
  ultimately show "bf_test (bf_clear idx f) j b \<longleftrightarrow> j \<noteq> idx \<and> bf_test f j b"
    by (simp add: bf_test_def bitGet_bit d)
  show "\<not> bf_test (bf_reset f) j b"
    using in_block [OF j b8] d(2)
    by (simp add: bf_test_def bf_reset_def bitGet_bit d getByteSize_def write_at_def)
qed

lemma bf_wfI:
  assumes "bf_wf f" and "bits f' = Some d" and "length d = length (the (bits f))" and "numFilters f' = numFilters f"
    and "hashTableBitSize f' = hashTableBitSize f" and "filterByteSize f' = filterByteSize f" and "length (seeds f') = length (seeds f)"
  shows "bf_wf f'"
proof -
  have "seeds f' \<noteq> []" using assms(1,7) by (metis bf_wf_def length_0_conv)
  moreover obtain d0 where "bits f = Some d0" "length d0 = getByteSize f" using assms(1) by (auto simp: bf_wf_def)
  ultimately show ?thesis using assms(1) unfolding bf_wf_def
    by (simp add: assms(2-7) getByteSize_def)
qed

lemma bf_clear_wf:
  assumes "bf_wf f" and "idx < numFilters f"
  shows "bf_wf (bf_clear idx f)"
proof -
  obtain d where d: "bits f = Some d" using assms(1) by (auto simp: bf_wf_def)
  show ?thesis
  proof (rule bf_wfI [OF assms(1)])
    show "bits (bf_clear idx f) = Some (write_at (getFilterBytes f idx) (replicate (filterByteSize f) 0) d)"
      by (simp add: bf_clear_def d)
    show "length (write_at (getFilterBytes f idx) (replicate (filterByteSize f) 0) d) = length (the (bits f))"
      using bf_block_fits [OF assms] d by (simp add: getFilterBytes_def)
  qed simp_all
qed

lemma bf_reset_wf: "bf_wf f \<Longrightarrow> bf_wf (bf_reset f)"
proof -
  assume wf: "bf_wf f"
  then obtain d where d: "bits f = Some d" "length d = getByteSize f" by (auto simp: bf_wf_def)
  show ?thesis
  proof (rule bf_wfI [OF wf])
    show "bits (bf_reset f) = Some (write_at 0 (replicate (getByteSize f) 0) d)" by (simp add: bf_reset_def d)
    show "length (write_at 0 (replicate (getByteSize f) 0) d) = length (the (bits f))" using d by simp
  qed simp_all
qed

text \<open>Same tables and seeds: a key owns the same bits.\<close>

lemma bf_owns_same [simp]:
  "bf_owns combine (bf_set c idx k f) key = bf_owns combine f key"
  "bf_owns combine (bf_clear idx f) key = bf_owns combine f key"
  "bf_owns combine (bf_reset f) key = bf_owns combine f key"
  by (auto simp: bf_owns_def fun_eq_iff)

section \<open>The interface to the small object cache\<close>

text \<open>
  What a user of the filters relies on: an added key is never rejected, adding and clearing concern
  one index, and a cleared index rejects every key.
\<close>

locale membership_filter =
  fixes ok :: "'f \<Rightarrow> bool" and size_of :: "'f \<Rightarrow> nat"
    and add :: "nat \<Rightarrow> u64 \<Rightarrow> 'f \<Rightarrow> 'f" and clear :: "nat \<Rightarrow> 'f \<Rightarrow> 'f" and maybe :: "nat \<Rightarrow> u64 \<Rightarrow> 'f \<Rightarrow> bool"
  assumes add_ok: "ok f \<Longrightarrow> i < size_of f \<Longrightarrow> ok (add i k f) \<and> size_of (add i k f) = size_of f"
    and clear_ok: "ok f \<Longrightarrow> i < size_of f \<Longrightarrow> ok (clear i f) \<and> size_of (clear i f) = size_of f"
    and add_maybe: "ok f \<Longrightarrow> i < size_of f \<Longrightarrow> maybe i k (add i k f)"
    and add_keeps: "ok f \<Longrightarrow> i < size_of f \<Longrightarrow> maybe j k' f \<Longrightarrow> maybe j k' (add i k f)"
    and add_other: "ok f \<Longrightarrow> i < size_of f \<Longrightarrow> j \<noteq> i \<Longrightarrow> maybe j k' (add i k f) = maybe j k' f"
    and clear_this: "ok f \<Longrightarrow> i < size_of f \<Longrightarrow> \<not> maybe i k (clear i f)"
    and clear_other: "ok f \<Longrightarrow> i < size_of f \<Longrightarrow> j < size_of f \<Longrightarrow> j \<noteq> i \<Longrightarrow> maybe j k (clear i f) = maybe j k f"
begin

lemma add_all:
  assumes "ok f" and "i < size_of f"
  shows "ok (fold (add i) ks f) \<and> size_of (fold (add i) ks f) = size_of f \<and>
    (\<forall>k. k \<in> set ks \<or> maybe i k f \<longrightarrow> maybe i k (fold (add i) ks f)) \<and>
    (\<forall>j k. j \<noteq> i \<longrightarrow> maybe j k (fold (add i) ks f) = maybe j k f)"
  using assms
proof (induction ks arbitrary: f)
  case (Cons a ks)
  from Cons.IH [of "add i a f"] Cons.prems add_ok [of f i a] add_maybe [of f i a] add_keeps [of f i i _ a]
    add_other [of f i _ _ a]
  show ?case by auto
qed simp

text \<open>Clearing an index and adding the keys of a list: a rebuild.\<close>

lemma rebuild:
  assumes "ok f" and "i < size_of f"
  shows "ok (fold (add i) ks (clear i f))" "size_of (fold (add i) ks (clear i f)) = size_of f"
    "k \<in> set ks \<Longrightarrow> maybe i k (fold (add i) ks (clear i f))"
    "ks = [] \<Longrightarrow> \<not> maybe i k (fold (add i) ks (clear i f))"
    "j < size_of f \<Longrightarrow> j \<noteq> i \<Longrightarrow> maybe j k (fold (add i) ks (clear i f)) = maybe j k f"
proof -
  note c = clear_ok [OF assms]
  then have a: "ok (fold (add i) ks (clear i f)) \<and> size_of (fold (add i) ks (clear i f)) = size_of (clear i f) \<and>
    (\<forall>k. k \<in> set ks \<or> maybe i k (clear i f) \<longrightarrow> maybe i k (fold (add i) ks (clear i f))) \<and>
    (\<forall>j k. j \<noteq> i \<longrightarrow> maybe j k (fold (add i) ks (clear i f)) = maybe j k (clear i f))"
    using assms(2) by (intro add_all) simp_all
  show "ok (fold (add i) ks (clear i f))" "size_of (fold (add i) ks (clear i f)) = size_of f" using a c by simp_all
  show "maybe i k (fold (add i) ks (clear i f))" if "k \<in> set ks" using a that by blast
  show "\<not> maybe i k (fold (add i) ks (clear i f))" if "ks = []" using that clear_this [OF assms] by simp
  show "maybe j k (fold (add i) ks (clear i f)) = maybe j k f" if "j < size_of f" "j \<noteq> i"
    using a clear_other [OF assms that] that(2) by blast
qed

end

interpretation bf: membership_filter bf_wf numFilters "bf_set combine" bf_clear "couldExist combine" for combine
proof unfold_locales
  fix f i j k k'
  assume wf: "bf_wf f" and i: "i < numFilters f"
  note s = bf_set_test [OF wf i]
  show "bf_wf (bf_set combine i k f) \<and> numFilters (bf_set combine i k f) = numFilters f"
    by (simp add: bf_set_wf [OF wf])
  show "bf_wf (bf_clear i f) \<and> numFilters (bf_clear i f) = numFilters f"
    by (simp add: bf_clear_wf [OF wf i])
  show "couldExist combine i k (bf_set combine i k f)"
    using s bf_owns_less [OF wf] by (simp add: couldExist_iff bf_set_wf [OF wf])
  show "couldExist combine j k' f \<Longrightarrow> couldExist combine j k' (bf_set combine i k f)"
    using s bf_owns_less [OF wf] by (simp add: couldExist_iff bf_set_wf [OF wf] wf)
  show "j \<noteq> i \<Longrightarrow> couldExist combine j k' (bf_set combine i k f) = couldExist combine j k' f"
    using s bf_owns_less [OF wf] by (auto simp: couldExist_iff bf_set_wf [OF wf] wf)
  show "\<not> couldExist combine i k (bf_clear i f)"
    using bf_owns_some [OF wf, of combine k] bf_wipe_test(1) [OF wf i i] bf_owns_less [OF wf]
    by (auto simp: couldExist_iff bf_clear_wf [OF wf i])
  show "j < numFilters f \<Longrightarrow> j \<noteq> i \<Longrightarrow> couldExist combine j k (bf_clear i f) = couldExist combine j k f"
    using bf_wipe_test(1) [OF wf i, of j] bf_owns_less [OF wf]
    by (auto simp: couldExist_iff bf_clear_wf [OF wf i] wf)
qed

section \<open>Histories\<close>

datatype bf_op = Bf_set nat u64 | Bf_clear nat

primrec bf_index :: "bf_op \<Rightarrow> nat" where
  "bf_index (Bf_set i k) = i"
| "bf_index (Bf_clear i) = i"

text \<open>The keys added to an index since it was last cleared.\<close>

primrec bf_live :: "bf_op \<Rightarrow> (nat \<times> u64) set \<Rightarrow> (nat \<times> u64) set" where
  "bf_live (Bf_set i k) S = insert (i, k) S"
| "bf_live (Bf_clear i) S = {p \<in> S. fst p \<noteq> i}"

primrec bf_step :: "(u64 \<Rightarrow> u64 \<Rightarrow> u64) \<Rightarrow> bf_op \<Rightarrow> BloomFilter \<Rightarrow> BloomFilter" where
  "bf_step combine (Bf_set i k) f = bf_set combine i k f"
| "bf_step combine (Bf_clear i) f = bf_clear i f"

definition bf_tracks :: "(u64 \<Rightarrow> u64 \<Rightarrow> u64) \<Rightarrow> BloomFilter \<Rightarrow> (nat \<times> u64) set \<Rightarrow> bool" where
  "bf_tracks combine f S \<longleftrightarrow> bf_wf f \<and> (\<forall>(i, k) \<in> S. i < numFilters f \<and> couldExist combine i k f) \<and>
     (\<forall>i < numFilters f. i \<notin> fst ` S \<longrightarrow> (\<forall>k. \<not> couldExist combine i k f))"

lemma bf_step_tracks:
  assumes "bf_tracks combine f S" and "bf_index x < numFilters f"
  shows "bf_tracks combine (bf_step combine x f) (bf_live x S) \<and> numFilters (bf_step combine x f) = numFilters f"
proof (cases x)
  case (Bf_set i k)
  then have f: "bf_wf f" and i: "i < numFilters f" using assms by (simp_all add: bf_tracks_def)
  show ?thesis using assms(1) Bf_set bf.add_ok [OF f i] bf.add_maybe [OF f i] bf.add_keeps [OF f i]
      bf.add_other [OF f i] i unfolding bf_tracks_def by auto
next
  case (Bf_clear i)
  then have f: "bf_wf f" and i: "i < numFilters f" using assms by (simp_all add: bf_tracks_def)
  have "couldExist combine j k (bf_clear i f)" if "(j, k) \<in> S" "j \<noteq> i" for j k
    using bf.clear_other [OF f i _ that(2)] assms(1) that(1) by (auto simp: bf_tracks_def)
  moreover have "\<not> couldExist combine j k (bf_clear i f)" if "j < numFilters f" "j \<notin> fst ` {p \<in> S. fst p \<noteq> i}" for j k
    using bf.clear_other [OF f i that(1), of combine k] bf.clear_this [OF f i, of combine k] that assms(1)
    by (cases "j = i") (auto simp: bf_tracks_def)
  ultimately show ?thesis using assms(1) Bf_clear bf.clear_ok [OF f i] unfolding bf_tracks_def by auto
qed

lemma bf_run_tracks:
  assumes "bf_tracks combine f S" and "list_all (\<lambda>x. bf_index x < numFilters f) xs"
  shows "bf_tracks combine (fold (bf_step combine) xs f) (fold bf_live xs S)"
  using assms
proof (induction xs arbitrary: f S)
  case (Cons x xs)
  with bf_step_tracks [of combine f S x] show ?case by simp
qed simp

lemma BloomFilter_init_tracks:
  assumes "BloomFilter_init h n nh t = Some f" and "nh * t + 7 < 2 ^ 64"
  shows "bf_tracks combine f {}" "numFilters f = n"
proof -
  have f: "numFilters f = n" "hashTableBitSize f = t" "filterByteSize f = (nh * t + 7) div 8"
    "bits f = Some (replicate (getByteSize f) 0)" "length (seeds f) = nh" "0 < t" "0 < nh"
    using assms by (auto simp: BloomFilter_init_def Let_def getByteSize_def bitsToBytes_div split: if_splits)
  then have wf: "bf_wf f" by (auto simp: bf_wf_def getByteSize_def)
  have same: "bf_reset f = f"
    using f(4) by (simp add: bf_reset_def write_at_def)
  have "\<not> couldExist combine i k f" if "i < n" for i k
    using bf_wipe_test(2) [OF wf, of i i] bf_owns_less [OF wf] bf_owns_some [OF wf, of combine k] that f(1)
    by (auto simp: couldExist_iff [OF wf] same)
  with wf f(1) show "bf_tracks combine f {}" "numFilters f = n" by (auto simp: bf_tracks_def)
qed

section \<open>Reading back what was written\<close>

lemma readBits_fragments:
  assumes "0 < fs" and "length d0 = length d" and "off \<le> length d"
  shows "readBits (length d) off d0 (fragments fs off (length d) d @ rs) = (None, take off d0 @ drop off d, rs)"
  using assms(2,3)
proof (induction "length d - off" arbitrary: off d0 rule: less_induct)
  case less
  show ?case
  proof (cases "off < length d")
    case False
    then have "fragments fs off (length d) d = []" by (subst fragments.simps) simp
    with False less.prems show ?thesis by (cases rs) simp_all
  next
    case True
    let ?n = "min (length d - off) fs" and ?r = "take (min (length d - off) fs) (drop off d)"
    have n: "0 < ?n" "off + ?n \<le> length d" "length ?r = ?n" using True assms(1) by auto
    have fr: "fragments fs off (length d) d = ?r # fragments fs (off + ?n) (length d) d"
      using True assms(1) by (subst fragments.simps) (simp add: Let_def)
    have w: "take (off + ?n) (write_at off ?r d0) = take off d0 @ ?r"
      using take_write_at(1) [of off d0 ?r] less.prems n True by simp
    have "readBits (length d) (off + ?n) (write_at off ?r d0) (fragments fs (off + ?n) (length d) d @ rs) =
        (None, take (off + ?n) (write_at off ?r d0) @ drop (off + ?n) d, rs)"
      using n less.prems by (intro less.hyps) auto
    then show ?thesis
      using True n less.prems unfolding fr w
      by (simp, metis append_take_drop_id drop_drop add.commute)
  qed
qed

lemma skipInit_fragments:
  assumes "0 < fs" and "off \<le> length d"
  shows "skipInit (length d) off (fragments fs off (length d) d @ rs) = (None, rs)"
  using assms(2)
proof (induction "length d - off" arbitrary: off rule: less_induct)
  case less
  show ?case
  proof (cases "off < length d")
    case False
    then have "fragments fs off (length d) d = []" by (subst fragments.simps) simp
    with False show ?thesis by (cases rs) simp_all
  next
    case True
    let ?n = "min (length d - off) fs" and ?r = "take (min (length d - off) fs) (drop off d)"
    have n: "0 < ?n" "off + ?n \<le> length d" "length ?r = ?n" using True assms(1) by auto
    have fr: "fragments fs off (length d) d = ?r # fragments fs (off + ?n) (length d) d"
      using True assms(1) by (subst fragments.simps) (simp add: Let_def)
    have "skipInit (length d) (off + ?n) (fragments fs (off + ?n) (length d) d @ rs) = (None, rs)"
      using n less.prems by (intro less.hyps) auto
    then show ?thesis using True n unfolding fr by simp
  qed
qed

definition bf_same_config :: "BloomFilter \<Rightarrow> BloomFilter \<Rightarrow> bool" where
  "bf_same_config f f0 \<longleftrightarrow> numFilters f0 = numFilters f \<and> hashTableBitSize f0 = hashTableBitSize f \<and>
     filterByteSize f0 = filterByteSize f \<and> length (seeds f0) = length (seeds f)"

lemma bf_recover_persist:
  assumes wf: "bf_wf f" "bf_wf f0" and same: "bf_same_config f f0" and enc: "\<And>x. dec (enc x) = Some x"
    and small: "numFilters f < 2 ^ 32" "hashTableBitSize f < 2 ^ 64" "filterByteSize f < 2 ^ 64"
  shows "bf_recover dec (bf_persist enc f @ rs) f0 = (None, f, rs)"
proof -
  obtain d where d: "bits f = Some d" "length d = getByteSize f" using wf(1) by (auto simp: bf_wf_def)
  obtain d0 where d0: "bits f0 = Some d0" "length d0 = getByteSize f"
    using wf(2) same by (auto simp: bf_wf_def bf_same_config_def getByteSize_def)
  let ?f1 = "f0\<lparr>seeds := seeds f\<rparr>" and ?z = "replicate (bitsToBytes (numFilters f)) (0::u8)"
  have k: "0 < kPersistFragmentSize" by (simp add: kPersistFragmentSize_def)
  have g: "getByteSize ?f1 = length d" using d same by (simp add: getByteSize_def bf_same_config_def)
  have r: "readBits (length d) 0 d0 (fragments kPersistFragmentSize 0 (length d) d @ rs) = (None, d, rs)" for rs
    using readBits_fragments [OF k, of d0 d 0 rs] d d0 by simp
  have s: "skipInit (bitsToBytes (numFilters f)) 0
      (fragments kPersistFragmentSize 0 (bitsToBytes (numFilters f)) ?z @ rs) = (None, rs)"
    using skipInit_fragments [OF k, of 0 ?z rs] by simp
  have "deserializeBits (serializeBits kPersistFragmentSize f @ rs) ?f1 = (None, ?f1\<lparr>bits := Some d\<rparr>, rs)"
    using r s same d d0 by (simp add: deserializeBits_def serializeBits_def g Let_def bf_same_config_def)
  moreover have "?f1\<lparr>bits := Some d\<rparr> = f" using same d by (cases f; cases f0) (simp add: bf_same_config_def)
  ultimately show ?thesis using same small enc
    by (simp add: bf_recover_def bf_persist_def bf_same_config_def unat_of_nat kPersistFragmentSize_def)
qed

section \<open>Properties\<close>



text \<open>A header encoding with the law that the thrift serializer documents.\<close>

fun words_of :: "bytes \<Rightarrow> u64 list" where
  "words_of bs = (if length bs < 8 then [] else of_nat (from_le (take 8 bs)) # words_of (drop 8 bs))"

declare words_of.simps [simp del]

definition bf_header_enc :: "BloomFilterPersistentData \<Rightarrow> bytes" where
  "bf_header_enc x = le_bytes 4 (unat (pd_numFilters x)) @ le_bytes 8 (unat (pd_hashTableBitSize x)) @
     le_bytes 8 (unat (pd_filterByteSize x)) @ le_bytes 4 (unat (pd_fragmentSize x)) @
     concat (map (le_bytes 8 \<circ> unat) (pd_seeds x))"

definition bf_header_dec :: "bytes \<Rightarrow> BloomFilterPersistentData option" where
  "bf_header_dec d = Some \<lparr>pd_numFilters = of_nat (from_le (take 4 d)),
     pd_hashTableBitSize = of_nat (from_le (take 8 (drop 4 d))),
     pd_filterByteSize = of_nat (from_le (take 8 (drop 12 d))),
     pd_fragmentSize = of_nat (from_le (take 4 (drop 20 d))), pd_seeds = words_of (drop 24 d)\<rparr>"

lemma words_of_concat: "words_of (concat (map (le_bytes 8 \<circ> unat) ws)) = ws"
proof (induction ws)
  case Nil
  then show ?case by (simp add: words_of.simps)
next
  case (Cons w ws)
  have "unat w < 256 ^ 8" using unsigned_less [of w] by simp
  with Cons show ?case by (subst words_of.simps) (simp add: o_def)
qed

lemma bf_header_roundtrip: "bf_header_dec (bf_header_enc x) = Some x"
proof -
  have "unat (v :: u32) < 256 ^ 4" "unat (w :: u64) < 256 ^ 8" for v w
    using unsigned_less [of v] unsigned_less [of w] by simp_all
  then show ?thesis by (simp add: bf_header_dec_def bf_header_enc_def words_of_concat)
qed



end
