(* ===== verification/Device.thy ===== *)
theory Device
  imports Bytes "HOL-Library.Monad_Syntax"
begin

unbundle bit_operations_syntax

text \<open>
  The device of the flash cache, \<^verbatim>\<open>cachelib/navy/common/Device.h\<close> and \<^verbatim>\<open>Device.cpp\<close>: aligned reads and
  writes, split into pieces that the hardware accepts, with optional encryption, on top of the virtual
  functions \<^verbatim>\<open>writeImpl\<close> and \<^verbatim>\<open>readImpl\<close>. Two implementations: a buffer in memory, and one or several
  files striped as RAID0 through the synchronous system calls, which are parameters. A result
  \<^const>\<open>None\<close> is an aborted process (\<^verbatim>\<open>XCHECK\<close>); latency statistics are left out.
\<close>

section \<open>Alignment\<close>

definition powTwoAlign :: "nat \<Rightarrow> nat \<Rightarrow> nat" where
  "powTwoAlign sz boundary = unat ((of_nat sz + (of_nat boundary - 1)) AND NOT (of_nat boundary - 1) :: u64)"

section \<open>The device\<close>

text \<open>The virtual functions, on the state \<open>'d\<close> of an implementation.\<close>

record 'd dev_impl =
  writeImpl :: "nat \<Rightarrow> bytes \<Rightarrow> int \<Rightarrow> 'd \<Rightarrow> bool \<times> 'd"
  readImpl :: "nat \<Rightarrow> nat \<Rightarrow> 'd \<Rightarrow> bytes option \<times> 'd"

text \<open>The encryptor, which is supplied by the user of the library.\<close>

record DeviceEncryptor =
  encryptionBlockSize :: nat
  encrypt :: "bytes \<Rightarrow> nat \<Rightarrow> bytes option"
  decrypt :: "bytes \<Rightarrow> nat \<Rightarrow> bytes option"

record 'd Device =
  dev_size :: nat
  ioAlignmentSize :: nat
  maxIOSize :: nat
  maxWriteSize :: nat
  encryptor :: "DeviceEncryptor option"
  bytesWritten :: nat
  bytesRead :: nat
  writeIOErrors :: nat
  readIOErrors :: nat
  encryptionErrors :: nat
  decryptionErrors :: nat
  dev_io :: 'd

datatype dev_error = InvalidIoAlign | InvalidBlockSize | InvalidMaxWriteSize | InvalidMaxIOSize | InvalidFileSize

definition Device_init ::
  "nat \<Rightarrow> DeviceEncryptor option \<Rightarrow> nat \<Rightarrow> nat \<Rightarrow> nat \<Rightarrow> 'd \<Rightarrow> dev_error + 'd Device" where
  "Device_init sz enc ioAlignSize maxIO maxWrite io =
     (if ioAlignSize = 0 then Inl InvalidIoAlign
      else if enc \<noteq> None \<and> encryptionBlockSize (the enc) \<noteq> ioAlignSize then Inl InvalidBlockSize
      else if maxWrite mod ioAlignSize \<noteq> 0 then Inl InvalidMaxWriteSize
      else if maxIO mod ioAlignSize \<noteq> 0 then Inl InvalidMaxIOSize
      else Inr \<lparr>dev_size = sz, ioAlignmentSize = ioAlignSize, maxIOSize = maxIO, maxWriteSize = maxWrite,
                encryptor = enc, bytesWritten = 0, bytesRead = 0, writeIOErrors = 0, readIOErrors = 0,
                encryptionErrors = 0, decryptionErrors = 0, dev_io = io\<rparr>)"

definition getIOAlignedSize :: "'d Device \<Rightarrow> nat \<Rightarrow> nat" where
  "getIOAlignedSize dev sz = powTwoAlign sz (ioAlignmentSize dev)"

text \<open>The piece size is positive while there is something to write.\<close>

function writeLoop :: "'d dev_impl \<Rightarrow> nat \<Rightarrow> int \<Rightarrow> nat \<Rightarrow> bytes \<Rightarrow> 'd Device \<Rightarrow> bool \<times> 'd Device" where
  "writeLoop impl maxSize placeHandle off d dev =
     (if d = [] \<or> maxSize = 0 then (True, dev)
      else
        let writeSize = min maxSize (length d);
            (result, io) = writeImpl impl off (take writeSize d) placeHandle (dev_io dev);
            dev = dev\<lparr>dev_io := io\<rparr>
        in if result
           then writeLoop impl maxSize placeHandle (off + writeSize) (drop writeSize d)
                  (dev\<lparr>bytesWritten := bytesWritten dev + writeSize\<rparr>)
           else (False, dev))"
  by pat_completeness auto
termination by (relation "measure (\<lambda>(_, _, _, _, d, _). length d)") auto

declare writeLoop.simps [simp del]

definition writeInternal :: "'d dev_impl \<Rightarrow> nat \<Rightarrow> bytes \<Rightarrow> int \<Rightarrow> 'd Device \<Rightarrow> bool \<times> 'd Device" where
  "writeInternal impl off d placeHandle dev =
     (let maxSize = if maxWriteSize dev = 0 then length d else maxWriteSize dev;
          (result, dev) = writeLoop impl maxSize placeHandle off d dev
      in if \<not> result then (False, dev\<lparr>writeIOErrors := writeIOErrors dev + 1\<rparr>) else (True, dev))"

definition write_buffer :: "'d dev_impl \<Rightarrow> nat \<Rightarrow> bytes \<Rightarrow> int \<Rightarrow> 'd Device \<Rightarrow> (bool \<times> 'd Device) option" where
  "write_buffer impl off buffer placeHandle dev =
     (case encryptor dev of
        None \<Rightarrow> Some (writeInternal impl off buffer placeHandle dev)
      | Some enc \<Rightarrow>
          if off mod encryptionBlockSize enc \<noteq> 0 then None
          else case encrypt enc buffer off of
            None \<Rightarrow> Some (False, dev\<lparr>encryptionErrors := encryptionErrors dev + 1\<rparr>)
          | Some buffer \<Rightarrow> Some (writeInternal impl off buffer placeHandle dev))"

text \<open>
  Writing a view copies it into an aligned buffer when there is an encryptor. The bytes past the view
  in that buffer are uninitialised memory, here the parameter \<open>junk\<close>.
\<close>

definition write_view ::
  "'d dev_impl \<Rightarrow> (nat \<Rightarrow> bytes) \<Rightarrow> nat \<Rightarrow> bytes \<Rightarrow> int \<Rightarrow> 'd Device \<Rightarrow> (bool \<times> 'd Device) option" where
  "write_view impl junk off view placeHandle dev =
     (if encryptor dev \<noteq> None
      then write_buffer impl off (view @ junk (getIOAlignedSize dev (length view) - length view)) placeHandle dev
      else Some (writeInternal impl off view placeHandle dev))"

function readLoop :: "'d dev_impl \<Rightarrow> nat \<Rightarrow> nat \<Rightarrow> nat \<Rightarrow> bytes \<Rightarrow> 'd Device \<Rightarrow> bytes option \<times> 'd Device" where
  "readLoop impl maxSize off n acc dev =
     (if n = 0 \<or> maxSize = 0 then (Some acc, dev)
      else
        let readSize = min maxSize n;
            (result, io) = readImpl impl off readSize (dev_io dev);
            dev = dev\<lparr>dev_io := io\<rparr>
        in case result of
             None \<Rightarrow> (None, dev\<lparr>readIOErrors := readIOErrors dev + 1\<rparr>)
           | Some d \<Rightarrow> readLoop impl maxSize (off + readSize) (n - readSize) (acc @ d)
                         (dev\<lparr>bytesRead := bytesRead dev + readSize\<rparr>))"
  by pat_completeness auto
termination by (relation "measure (\<lambda>(_, _, _, n, _, _). n)") auto

declare readLoop.simps [simp del]

definition readInternal :: "'d dev_impl \<Rightarrow> nat \<Rightarrow> nat \<Rightarrow> 'd Device \<Rightarrow> (bytes option \<times> 'd Device) option" where
  "readInternal impl off n dev =
     (let maxSize = if maxIOSize dev = 0 then n else maxIOSize dev;
          (result, dev) = readLoop impl maxSize off n [] dev
      in case result of
           None \<Rightarrow> Some (None, dev)
         | Some d \<Rightarrow>
             (case encryptor dev of
                None \<Rightarrow> Some (Some d, dev)
              | Some enc \<Rightarrow>
                  if off mod encryptionBlockSize enc \<noteq> 0 then None
                  else case decrypt enc d off of
                    None \<Rightarrow> Some (None, dev\<lparr>decryptionErrors := decryptionErrors dev + 1\<rparr>)
                  | Some d \<Rightarrow> Some (Some d, dev)))"

text \<open>The read that aligns its range, and the one that expects an aligned range.\<close>

definition read_range :: "'d dev_impl \<Rightarrow> nat \<Rightarrow> nat \<Rightarrow> 'd Device \<Rightarrow> (bytes option \<times> 'd Device) option" where
  "read_range impl off n dev =
     (let readOffset = unat (of_nat off AND NOT (of_nat (ioAlignmentSize dev) - 1) :: u64);
          readPrefixSize = unat (of_nat off AND (of_nat (ioAlignmentSize dev) - 1) :: u64);
          readSize = getIOAlignedSize dev (readPrefixSize + n)
      in do { (result, dev) \<leftarrow> readInternal impl readOffset readSize dev;
              Some (map_option (\<lambda>buffer. take n (drop readPrefixSize buffer)) result, dev) })"

definition read_into :: "'d dev_impl \<Rightarrow> nat \<Rightarrow> nat \<Rightarrow> 'd Device \<Rightarrow> (bytes option \<times> 'd Device) option" where
  "read_into impl off n dev = readInternal impl off n dev"

section \<open>The memory device\<close>

definition MemoryDevice :: "bytes dev_impl" where
  "MemoryDevice = \<lparr>writeImpl = (\<lambda>off d _ buffer. (True, write_at off d buffer)),
                   readImpl = (\<lambda>off n buffer. (Some (take n (drop off buffer)), buffer))\<rparr>"

definition createMemoryDevice :: "nat \<Rightarrow> DeviceEncryptor option \<Rightarrow> nat \<Rightarrow> dev_error + bytes Device" where
  "createMemoryDevice sz enc ioAlignSize = Device_init sz enc ioAlignSize 0 0 (replicate sz 0)"

section \<open>The file device\<close>

text \<open>A piece of a request: the file, the offset in it, the size, and the offset in the request.\<close>

record IOOp =
  op_fd :: nat
  op_offset :: nat
  op_size :: nat
  op_data :: nat

function stripeLoop :: "nat \<Rightarrow> nat \<Rightarrow> nat \<Rightarrow> nat \<Rightarrow> nat \<Rightarrow> IOOp list" where
  "stripeLoop numFiles stripeSize off n buf =
     (if n = 0 \<or> stripeSize = 0 then []
      else
        let stripe = off div stripeSize;
            fdIdx = stripe mod numFiles;
            stripeStartOffset = (stripe div numFiles) * stripeSize;
            ioOffsetInStripe = off mod stripeSize;
            allowedIOSize = min n (stripeSize - ioOffsetInStripe)
        in \<lparr>op_fd = fdIdx, op_offset = stripeStartOffset + ioOffsetInStripe, op_size = allowedIOSize, op_data = buf\<rparr> #
           stripeLoop numFiles stripeSize (off + allowedIOSize) (n - allowedIOSize) (buf + allowedIOSize))"
  by pat_completeness auto
termination by (relation "measure (\<lambda>(_, _, _, n, _). n)") (auto simp: Let_def)

declare stripeLoop.simps [simp del]

definition IOReq_ops :: "nat \<Rightarrow> nat \<Rightarrow> nat \<Rightarrow> nat \<Rightarrow> IOOp list" where
  "IOReq_ops numFiles stripeSize off n =
     (if numFiles > 1 then stripeLoop numFiles stripeSize off n 0
      else [\<lparr>op_fd = 0, op_offset = off, op_size = n, op_data = 0\<rparr>])"

text \<open>
  The synchronous context: the system calls return the number of bytes moved, or a negative number, and
  the state of the operating system after them. A short transfer is a failure, after which the rest of
  the request is not submitted.
\<close>

record 'os posix =
  pwrite :: "nat \<Rightarrow> bytes \<Rightarrow> nat \<Rightarrow> 'os \<Rightarrow> int \<times> 'os"
  pread :: "nat \<Rightarrow> nat \<Rightarrow> nat \<Rightarrow> 'os \<Rightarrow> (int \<times> bytes) \<times> 'os"

fun submitWrite :: "'os posix \<Rightarrow> bytes \<Rightarrow> IOOp list \<Rightarrow> 'os \<Rightarrow> bool \<times> 'os" where
  "submitWrite sys d [] os = (True, os)"
| "submitWrite sys d (op # ops) os =
     (let (len, os) = pwrite sys (op_fd op) (take (op_size op) (drop (op_data op) d)) (op_offset op) os
      in if len = int (op_size op) then submitWrite sys d ops os else (False, os))"

fun submitRead :: "'os posix \<Rightarrow> bytes \<Rightarrow> IOOp list \<Rightarrow> 'os \<Rightarrow> bytes option \<times> 'os" where
  "submitRead sys d [] os = (Some d, os)"
| "submitRead sys d (op # ops) os =
     (let ((len, bs), os) = pread sys (op_fd op) (op_size op) (op_offset op) os
      in if len = int (op_size op) then submitRead sys (write_at (op_data op) bs d) ops os else (None, os))"

text \<open>The buffer of a read starts with arbitrary contents, here zeros, all overwritten on success.\<close>

definition FileDevice :: "'os posix \<Rightarrow> nat \<Rightarrow> nat \<Rightarrow> 'os dev_impl" where
  "FileDevice sys numFiles stripeSize =
     \<lparr>writeImpl = (\<lambda>off d _. submitWrite sys d (IOReq_ops numFiles stripeSize off (length d))),
      readImpl = (\<lambda>off n. submitRead sys (replicate n 0) (IOReq_ops numFiles stripeSize off n))\<rparr>"

definition FileDevice_init ::
  "nat \<Rightarrow> nat \<Rightarrow> nat \<Rightarrow> nat \<Rightarrow> nat \<Rightarrow> nat \<Rightarrow> DeviceEncryptor option \<Rightarrow> 'os \<Rightarrow> dev_error + 'os Device" where
  "FileDevice_init numFiles fileSize blockSize stripeSize maxIO maxDeviceWriteSize enc os =
     (case Device_init (fileSize * numFiles) enc blockSize maxIO maxDeviceWriteSize os of
        Inl e \<Rightarrow> Inl e
      | Inr dev \<Rightarrow> if numFiles > 1 \<and> fileSize mod stripeSize \<noteq> 0 then Inl InvalidFileSize else Inr dev)"

text \<open>Without placement support the largest IO is the largest write.\<close>

definition createDirectIoFileDevice ::
  "nat \<Rightarrow> nat \<Rightarrow> nat \<Rightarrow> nat \<Rightarrow> nat \<Rightarrow> DeviceEncryptor option \<Rightarrow> 'os \<Rightarrow> dev_error + 'os Device" where
  "createDirectIoFileDevice numFiles fileSize blockSize stripeSize maxDeviceWriteSize enc os =
     (let maxIO = maxDeviceWriteSize;
          maxDeviceWriteSize = if maxIO \<noteq> 0 then min maxDeviceWriteSize maxIO else maxDeviceWriteSize
      in FileDevice_init numFiles fileSize blockSize stripeSize maxIO maxDeviceWriteSize enc os)"

section \<open>The interface of the implementations\<close>

text \<open>Two images that may differ only in a range.\<close>

definition same_outside :: "nat \<Rightarrow> nat \<Rightarrow> bytes \<Rightarrow> bytes \<Rightarrow> bool" where
  "same_outside off n a b \<longleftrightarrow> length b = length a \<and> take off b = take off a \<and> drop (off + n) b = drop (off + n) a"

lemma same_outside_write_at: "off + length bs \<le> length a \<Longrightarrow> same_outside off (length bs) a (write_at off bs a)"
  by (simp add: same_outside_def write_at_def)

lemma same_outside_mono:
  assumes "same_outside off n a b" and "off' \<le> off" and "off + n \<le> off' + n'"
  shows "same_outside off' n' a b"
proof -
  obtain k l where "off = off' + k" "off' + n' = off + n + l"
    using assms(2,3) le_Suc_ex by blast
  with assms(1) have "take off' b = take off' a" "drop (off' + n') b = drop (off' + n') a"
    unfolding same_outside_def by (metis take_take min_absorb1 le_add1, metis drop_drop add.commute)
  with assms(1) show ?thesis by (simp add: same_outside_def)
qed

lemma same_outside_trans: "same_outside off n a b \<Longrightarrow> same_outside off n b c \<Longrightarrow> same_outside off n a c"
  by (simp add: same_outside_def)

lemma same_outside_read:
  assumes "same_outside off n a b" and "off' + m \<le> off \<or> off + n \<le> off'"
  shows "take m (drop off' b) = take m (drop off' a)"
  using assms(2)
proof
  assume "off' + m \<le> off"
  then have "take m (drop off' x) = drop off' (take (off' + m) (take off x))" for x :: bytes
    by (simp add: drop_take)
  with assms(1) show ?thesis by (metis same_outside_def)
next
  assume "off + n \<le> off'"
  then obtain k where "off' = off + n + k" using le_Suc_ex by blast
  then have "drop off' x = drop k (drop (off + n) x)" for x :: bytes by (simp add: ac_simps)
  with assms(1) show ?thesis by (metis same_outside_def)
qed

lemma write_at_append: "off + length (as @ bs) \<le> length d \<Longrightarrow>
    write_at (off + length as) bs (write_at off as d) = write_at off (as @ bs) d"
  by (simp add: write_at_def ac_simps)

text \<open>
  What an implementation promises: a successful write replaces the bytes of its range, a failed one
  changes nothing outside its range, a read that succeeds returns the bytes of its range.
\<close>

locale raw_io =
  fixes impl :: "'d dev_impl" and good :: "'d \<Rightarrow> bool" and disk :: "'d \<Rightarrow> bytes"
  assumes write_done: "good d \<Longrightarrow> off + length b \<le> length (disk d) \<Longrightarrow> writeImpl impl off b h d = (True, d') \<Longrightarrow>
      good d' \<and> disk d' = write_at off b (disk d)"
    and write_failed: "good d \<Longrightarrow> off + length b \<le> length (disk d) \<Longrightarrow> writeImpl impl off b h d = (False, d') \<Longrightarrow>
      good d' \<and> same_outside off (length b) (disk d) (disk d')"
    and read_done: "good d \<Longrightarrow> off + n \<le> length (disk d) \<Longrightarrow> readImpl impl off n d = (r, d') \<Longrightarrow>
      good d' \<and> disk d' = disk d \<and> (\<forall>b. r = Some b \<longrightarrow> b = take n (drop off (disk d)))"
begin

text \<open>The pieces of a write or a read add up to the whole.\<close>

lemma writeLoop_whole:
  assumes "good (dev_io dev)" and "off + length b \<le> length (disk (dev_io dev))" and "0 < mx"
    and "writeLoop impl mx h off b dev = (r, dev')"
  shows "good (dev_io dev') \<and> dev'\<lparr>dev_io := dev_io dev, bytesWritten := bytesWritten dev\<rparr> = dev \<and>
    same_outside off (length b) (disk (dev_io dev)) (disk (dev_io dev')) \<and>
    (r \<longrightarrow> disk (dev_io dev') = write_at off b (disk (dev_io dev)) \<and> bytesWritten dev' = bytesWritten dev + length b)"
  using assms(1,2,4)
proof (induction b arbitrary: off dev rule: length_induct)
  case (1 b)
  show ?case
  proof (cases "b = []")
    case True
    with 1 show ?thesis by (simp add: writeLoop.simps write_at_def same_outside_def)
  next
    case False
    let ?n = "min mx (length b)" and ?a = "take (min mx (length b)) b"
    obtain ok io where w: "writeImpl impl off ?a h (dev_io dev) = (ok, io)" by fastforce
    have b: "length ?a = ?n" "off + length ?a \<le> length (disk (dev_io dev))" "?a @ drop ?n b = b"
      using 1(3) by auto
    show ?thesis
    proof (cases ok)
      case True
      let ?dev = "dev\<lparr>dev_io := io, bytesWritten := bytesWritten dev + ?n\<rparr>"
      have s: "good io" "disk io = write_at off ?a (disk (dev_io dev))"
        using write_done [OF 1(2) b(2), of h io] w True by simp_all
      have rec: "writeLoop impl mx h (off + ?n) (drop ?n b) ?dev = (r, dev')"
        using 1(4) w True False assms(3) by (subst (asm) writeLoop.simps) (simp add: Let_def)
      have len: "length (drop ?n b) < length b" using False assms(3) by simp
      have fit: "off + ?n + length (drop ?n b) \<le> length (disk (dev_io ?dev))" using 1(3) s b by simp
      have gd: "good (dev_io ?dev)" using s(1) by simp
      have ih: "good (dev_io dev') \<and> dev'\<lparr>dev_io := dev_io ?dev, bytesWritten := bytesWritten ?dev\<rparr> = ?dev \<and>
          same_outside (off + ?n) (length (drop ?n b)) (disk (dev_io ?dev)) (disk (dev_io dev')) \<and>
          (r \<longrightarrow> disk (dev_io dev') = write_at (off + ?n) (drop ?n b) (disk (dev_io ?dev)) \<and>
            bytesWritten dev' = bytesWritten ?dev + length (drop ?n b))"
        by (rule 1(1) [rule_format, OF len gd fit rec])
      have "same_outside off (length b) (disk (dev_io dev)) (disk (dev_io dev'))"
      proof (rule same_outside_trans)
        show "same_outside off (length b) (disk (dev_io dev)) (disk io)"
          unfolding s(2) by (rule same_outside_mono [OF same_outside_write_at [OF b(2)]]) simp_all
        show "same_outside off (length b) (disk io) (disk (dev_io dev'))"
          by (rule same_outside_mono [of "off + ?n" "length (drop ?n b)"]) (use ih in simp_all)
      qed
      moreover have "write_at (off + ?n) (drop ?n b) (disk io) = write_at off b (disk (dev_io dev))"
        using write_at_append [of off ?a "drop ?n b" "disk (dev_io dev)"] 1(3) b(1,3) s(2) by simp
      ultimately show ?thesis using ih b(1) by (cases dev, cases dev') auto
    next
      case False2: False
      then have "r = False \<and> dev' = dev\<lparr>dev_io := io\<rparr>"
        using 1(4) w False assms(3) by (subst (asm) writeLoop.simps) (simp add: Let_def)
      moreover have f: "good io" "same_outside off (length ?a) (disk (dev_io dev)) (disk io)"
        using write_failed [OF 1(2) b(2), of h io] w False2 by simp_all
      moreover have "same_outside off (length b) (disk (dev_io dev)) (disk io)"
        by (rule same_outside_mono [OF f(2)]) simp_all
      ultimately show ?thesis by simp
    qed
  qed
qed

lemma readLoop_whole:
  assumes "good (dev_io dev)" and "off + n \<le> length (disk (dev_io dev))" and "0 < mx \<or> n = 0"
    and "readLoop impl mx off n acc dev = (r, dev')"
  shows "good (dev_io dev') \<and> disk (dev_io dev') = disk (dev_io dev) \<and>
    dev'\<lparr>dev_io := dev_io dev, bytesRead := bytesRead dev, readIOErrors := readIOErrors dev\<rparr> = dev \<and>
    (\<forall>b. r = Some b \<longrightarrow> b = acc @ take n (drop off (disk (dev_io dev))))"
  using assms
proof (induction n arbitrary: off acc dev rule: less_induct)
  case (less n)
  show ?case
  proof (cases "n = 0")
    case True
    with less.prems show ?thesis by (auto simp: readLoop.simps)
  next
    case False
    let ?n = "min mx n"
    obtain d io where w: "readImpl impl off ?n (dev_io dev) = (d, io)" by fastforce
    have "off + ?n \<le> length (disk (dev_io dev))" using less.prems by auto
    from read_done [OF less.prems(1) this w] have s: "good io" "disk io = disk (dev_io dev)"
      "\<And>b. d = Some b \<Longrightarrow> b = take ?n (drop off (disk (dev_io dev)))" by auto
    show ?thesis
    proof (cases d)
      case None
      with less.prems False w have "r = None" "dev' = dev\<lparr>dev_io := io, readIOErrors := readIOErrors dev + 1\<rparr>"
        by (auto simp: readLoop.simps [of impl mx off n] Let_def)
      with s show ?thesis by simp
    next
      case (Some b)
      let ?dev = "dev\<lparr>dev_io := io, bytesRead := bytesRead dev + ?n\<rparr>"
      have rec: "readLoop impl mx (off + ?n) (n - ?n) (acc @ b) ?dev = (r, dev')"
        using less.prems(3,4) False w Some by (simp add: readLoop.simps [of impl mx off n] Let_def)
      have small: "n - ?n < n" using less.prems(3) False by auto
      have fit: "off + ?n + (n - ?n) \<le> length (disk (dev_io ?dev))" using less.prems(2) s(2) by simp
      have gd: "good (dev_io ?dev)" using s(1) by simp
      have mx: "0 < mx \<or> n - ?n = 0" using less.prems(3) by auto
      from less.IH [OF small gd fit mx rec]
      have ih: "good (dev_io dev')" "disk (dev_io dev') = disk io"
        "dev'\<lparr>dev_io := io, bytesRead := bytesRead dev + ?n, readIOErrors := readIOErrors dev\<rparr> = ?dev"
        "\<forall>x. r = Some x \<longrightarrow> x = (acc @ b) @ take (n - ?n) (drop (off + ?n) (disk io))"
        by simp_all
      have "take n (drop off x) = take ?n (drop off x) @ take (n - ?n) (drop (off + ?n) x)" for x :: bytes
        using take_add [of ?n "n - ?n" "drop off x"] by (simp add: ac_simps)
      then have "\<forall>x. r = Some x \<longrightarrow> x = acc @ take n (drop off (disk (dev_io dev)))"
        using ih(4) s(2) s(3) [OF Some] by simp
      moreover have "dev'\<lparr>dev_io := dev_io dev, bytesRead := bytesRead dev, readIOErrors := readIOErrors dev\<rparr> = dev"
        using ih(3) by (cases dev, cases dev') simp
      ultimately show ?thesis using ih(1,2) s(2) by simp
    qed
  qed
qed

end

section \<open>The interface of the device\<close>

text \<open>
  What the engines rely on: reading a range that was written returns what was written, and writes
  elsewhere do not matter. \<open>view\<close> is what a read of a range yields if the hardware does not fail.
\<close>

definition apart :: "nat \<Rightarrow> nat \<Rightarrow> nat \<Rightarrow> nat \<Rightarrow> bool" where
  "apart off n off' n' \<longleftrightarrow> off + n \<le> off' \<or> off' + n' \<le> off"

locale block_device =
  fixes ok :: "'s \<Rightarrow> bool" and extent :: "'s \<Rightarrow> nat" and aligned :: "'s \<Rightarrow> nat \<Rightarrow> bool"
    and view :: "'s \<Rightarrow> nat \<Rightarrow> nat \<Rightarrow> bytes option"
    and wr :: "nat \<Rightarrow> bytes \<Rightarrow> int \<Rightarrow> 's \<Rightarrow> (bool \<times> 's) option"
    and rd :: "nat \<Rightarrow> nat \<Rightarrow> 's \<Rightarrow> (bytes option \<times> 's) option"
  assumes wr_runs: "ok s \<Longrightarrow> aligned s off \<Longrightarrow> \<exists>r s'. wr off b h s = Some (r, s')"
    and rd_runs: "ok s \<Longrightarrow> off + n \<le> extent s \<Longrightarrow> aligned s off \<Longrightarrow> \<exists>x s'. rd off n s = Some (x, s')"
    and wr_done: "ok s \<Longrightarrow> off + length b \<le> extent s \<Longrightarrow> wr off b h s = Some (r, s') \<Longrightarrow>
      ok s' \<and> extent s' = extent s \<and> aligned s' = aligned s \<and> (r \<longrightarrow> view s' off (length b) = Some b) \<and>
      (\<forall>off' n. apart off (length b) off' n \<longrightarrow> view s' off' n = view s off' n)"
    and rd_done: "ok s \<Longrightarrow> off + n \<le> extent s \<Longrightarrow> rd off n s = Some (x, s') \<Longrightarrow>
      ok s' \<and> extent s' = extent s \<and> aligned s' = aligned s \<and> view s' = view s \<and> (x = None \<or> x = view s off n)"
    and view_size: "ok s \<Longrightarrow> off + n \<le> extent s \<Longrightarrow> view s off n = Some b \<Longrightarrow> length b = n"
begin

lemma reads_back:
  assumes "ok s" and "off + length b \<le> extent s" and "aligned s off"
  shows "\<exists>r s'. wr off b h s = Some (r, s') \<and> ok s' \<and> extent s' = extent s \<and>
    (r \<longrightarrow> (\<forall>x s2. rd off (length b) s' = Some (x, s2) \<longrightarrow> x = None \<or> x = Some b)) \<and>
    (\<forall>off' n x s2. apart off (length b) off' n \<and> off' + n \<le> extent s \<longrightarrow>
      rd off' n s' = Some (x, s2) \<longrightarrow> x = None \<or> x = view s off' n)"
proof -
  obtain r s' where w: "wr off b h s = Some (r, s')" using wr_runs [OF assms(1,3)] by blast
  note d = wr_done [OF assms(1,2) w]
  then have ok: "ok s'" and e: "extent s' = extent s" by auto
  have rd: "x = None \<or> x = view s' off' n" if "off' + n \<le> extent s" "rd off' n s' = Some (x, s2)" for off' n x s2
    using rd_done [OF ok _ that(2)] that(1) e by simp
  have "x = None \<or> x = Some b" if "r" "rd off (length b) s' = Some (x, s2)" for x s2
    using rd [OF assms(2) that(2)] d that(1) by simp
  moreover have "x = None \<or> x = view s off' n"
    if "apart off (length b) off' n" "off' + n \<le> extent s" "rd off' n s' = Some (x, s2)" for off' n x s2
    using rd [OF that(2,3)] d that(1) by simp
  ultimately show ?thesis using w d by blast
qed

end

text \<open>The law that the encryptor is documented to satisfy.\<close>

definition encryptor_law :: "DeviceEncryptor option \<Rightarrow> bool" where
  "encryptor_law e \<longleftrightarrow> (\<forall>enc. e = Some enc \<longrightarrow>
     (\<forall>b salt c. encrypt enc b salt = Some c \<longrightarrow> length c = length b \<and> decrypt enc c salt = Some b) \<and>
     (\<forall>c salt b. decrypt enc c salt = Some b \<longrightarrow> length b = length c))"

definition dev_aligned :: "'d Device \<Rightarrow> nat \<Rightarrow> bool" where
  "dev_aligned dev off \<longleftrightarrow> (\<forall>enc. encryptor dev = Some enc \<longrightarrow> off mod encryptionBlockSize enc = 0)"

definition decoded :: "DeviceEncryptor option \<Rightarrow> bytes \<Rightarrow> nat \<Rightarrow> bytes option" where
  "decoded e c off = (case e of None \<Rightarrow> Some c | Some enc \<Rightarrow> decrypt enc c off)"

definition dev_ok :: "('d \<Rightarrow> bool) \<Rightarrow> ('d \<Rightarrow> bytes) \<Rightarrow> 'd Device \<Rightarrow> bool" where
  "dev_ok good disk dev \<longleftrightarrow>
     good (dev_io dev) \<and> length (disk (dev_io dev)) = dev_size dev \<and> encryptor_law (encryptor dev)"

definition dev_view :: "('d \<Rightarrow> bytes) \<Rightarrow> 'd Device \<Rightarrow> nat \<Rightarrow> nat \<Rightarrow> bytes option" where
  "dev_view disk dev off n = decoded (encryptor dev) (take n (drop off (disk (dev_io dev)))) off"

context raw_io
begin

lemma writeInternal_whole:
  assumes "good (dev_io dev)" and "off + length b \<le> length (disk (dev_io dev))"
    and "writeInternal impl off b h dev = (r, dev')"
  shows "good (dev_io dev') \<and> encryptor dev' = encryptor dev \<and> dev_size dev' = dev_size dev \<and>
    ioAlignmentSize dev' = ioAlignmentSize dev \<and>
    same_outside off (length b) (disk (dev_io dev)) (disk (dev_io dev')) \<and>
    (r \<longrightarrow> disk (dev_io dev') = write_at off b (disk (dev_io dev)) \<and> bytesWritten dev' = bytesWritten dev + length b) \<and>
    writeIOErrors dev' = writeIOErrors dev + (if r then 0 else 1)"
proof -
  let ?mx = "if maxWriteSize dev = 0 then length b else maxWriteSize dev"
  obtain r1 dev1 where l: "writeLoop impl ?mx h off b dev = (r1, dev1)" by fastforce
  have d: "r = r1" "dev' = (if r1 then dev1 else dev1\<lparr>writeIOErrors := writeIOErrors dev1 + 1\<rparr>)"
    using assms(3) l by (auto simp: writeInternal_def Let_def split: if_splits)
  show ?thesis
  proof (cases "b = []")
    case True
    with l have "r1 = True" "dev1 = dev" by (auto simp: writeLoop.simps)
    with True d assms(1,2) show ?thesis by (simp add: same_outside_def write_at_def)
  next
    case False
    then have "0 < ?mx" by simp
    note w = writeLoop_whole [OF assms(1,2) this l]
    have "encryptor dev1 = encryptor dev" "dev_size dev1 = dev_size dev" "writeIOErrors dev1 = writeIOErrors dev"
      "ioAlignmentSize dev1 = ioAlignmentSize dev"
      using w by (cases dev, cases dev1, simp)+
    with w d show ?thesis by auto
  qed
qed

end

context raw_io
begin

lemma write_buffer_law:
  assumes ok: "dev_ok good disk dev" and fit: "off + length b \<le> dev_size dev"
    and w: "write_buffer impl off b h dev = Some (r, dev')"
  shows "dev_ok good disk dev' \<and> dev_size dev' = dev_size dev \<and> encryptor dev' = encryptor dev \<and>
    ioAlignmentSize dev' = ioAlignmentSize dev \<and>
    same_outside off (length b) (disk (dev_io dev)) (disk (dev_io dev')) \<and>
    (r \<longrightarrow> dev_view disk dev' off (length b) = Some b)"
proof -
  have g: "good (dev_io dev)" and l: "length (disk (dev_io dev)) = dev_size dev"
    and e: "encryptor_law (encryptor dev)" using ok by (auto simp: dev_ok_def)
  have step: "dev_ok good disk dev' \<and> dev_size dev' = dev_size dev \<and> encryptor dev' = encryptor dev \<and>
      ioAlignmentSize dev' = ioAlignmentSize dev \<and>
      same_outside off (length c) (disk (dev_io dev)) (disk (dev_io dev')) \<and>
      (r \<longrightarrow> take (length c) (drop off (disk (dev_io dev'))) = c)"
    if "writeInternal impl off c h dev = (r, dev')" "length c = length b" for c
    using writeInternal_whole [OF g _ that(1)] that(2) fit l e read_write_at [of off c "disk (dev_io dev)"]
    by (auto simp: dev_ok_def same_outside_def)
  show ?thesis
  proof (cases "encryptor dev")
    case None
    with w have "writeInternal impl off b h dev = (r, dev')" by (simp add: write_buffer_def)
    from step [OF this] None show ?thesis by (simp add: dev_view_def decoded_def)
  next
    case (Some enc)
    show ?thesis
    proof (cases "encrypt enc b off")
      case None
      with Some w have "r = False" "dev' = dev\<lparr>encryptionErrors := encryptionErrors dev + 1\<rparr>"
        by (auto simp: write_buffer_def split: if_splits)
      with ok show ?thesis by (simp add: dev_ok_def same_outside_def)
    next
      case c: (Some c)
      with Some w have "writeInternal impl off c h dev = (r, dev')"
        by (auto simp: write_buffer_def split: if_splits)
      moreover have d: "length c = length b" "decrypt enc c off = Some b"
        using e c Some by (auto simp: encryptor_law_def)
      ultimately show ?thesis using step [of c] Some by (simp add: dev_view_def decoded_def)
    qed
  qed
qed

lemma read_into_law:
  assumes ok: "dev_ok good disk dev" and fit: "off + n \<le> dev_size dev"
    and w: "read_into impl off n dev = Some (r, dev')"
  shows "dev_ok good disk dev' \<and> dev_size dev' = dev_size dev \<and> encryptor dev' = encryptor dev \<and>
    ioAlignmentSize dev' = ioAlignmentSize dev \<and>
    disk (dev_io dev') = disk (dev_io dev) \<and> (r = None \<or> r = dev_view disk dev off n)"
proof -
  have g: "good (dev_io dev)" and l: "length (disk (dev_io dev)) = dev_size dev" using ok by (auto simp: dev_ok_def)
  let ?mx = "if maxIOSize dev = 0 then n else maxIOSize dev"
  obtain d dev1 where rl: "readLoop impl ?mx off n [] dev = (d, dev1)" by fastforce
  have "0 < ?mx \<or> n = 0" by auto
  from readLoop_whole [OF g _ this rl] fit l have d: "good (dev_io dev1)" "disk (dev_io dev1) = disk (dev_io dev)"
    "dev1\<lparr>dev_io := dev_io dev, bytesRead := bytesRead dev, readIOErrors := readIOErrors dev\<rparr> = dev"
    "\<And>b. d = Some b \<Longrightarrow> b = take n (drop off (disk (dev_io dev)))" by auto
  have c: "encryptor dev1 = encryptor dev" "dev_size dev1 = dev_size dev" "ioAlignmentSize dev1 = ioAlignmentSize dev"
    using d(3) by (cases dev, cases dev1, simp)+
  have ok1: "dev_ok good disk dev1" using ok d c by (simp add: dev_ok_def)
  show ?thesis using w rl d c ok1
    by (auto simp: read_into_def readInternal_def Let_def dev_view_def decoded_def dev_ok_def
        split: option.splits if_splits prod.splits)
qed

lemma read_into_runs:
  assumes ok: "dev_ok good disk dev" and fit: "off + n \<le> dev_size dev" and al: "dev_aligned dev off"
  shows "\<exists>r dev'. read_into impl off n dev = Some (r, dev')"
proof -
  have g: "good (dev_io dev)" and l: "length (disk (dev_io dev)) = dev_size dev" using ok by (auto simp: dev_ok_def)
  let ?mx = "if maxIOSize dev = 0 then n else maxIOSize dev"
  obtain d dev1 where rl: "readLoop impl ?mx off n [] dev = (d, dev1)" by fastforce
  have "0 < ?mx \<or> n = 0" by auto
  from readLoop_whole [OF g _ this rl] fit l have "encryptor dev1 = encryptor dev"
    by (cases dev, cases dev1) simp
  with al rl show ?thesis
    by (auto simp: read_into_def readInternal_def dev_aligned_def Let_def split: option.splits)
qed

end

sublocale raw_io \<subseteq> bd: block_device "dev_ok good disk" dev_size dev_aligned "dev_view disk"
  "write_buffer impl" "read_into impl"
proof unfold_locales
  fix s s' :: "'d Device" and off n :: nat and b h r x
  assume ok: "dev_ok good disk s"
  show "\<exists>r s'. write_buffer impl off b h s = Some (r, s')" if "dev_aligned s off"
    using that by (auto simp: write_buffer_def dev_aligned_def split: option.splits)
  show "\<exists>x s'. read_into impl off n s = Some (x, s')" if "off + n \<le> dev_size s" "dev_aligned s off"
    by (rule read_into_runs [OF ok that])
  show "dev_ok good disk s' \<and> dev_size s' = dev_size s \<and> dev_aligned s' = dev_aligned s \<and>
      (r \<longrightarrow> dev_view disk s' off (length b) = Some b) \<and>
      (\<forall>off' n. apart off (length b) off' n \<longrightarrow> dev_view disk s' off' n = dev_view disk s off' n)"
    if fit: "off + length b \<le> dev_size s" and w: "write_buffer impl off b h s = Some (r, s')"
  proof -
    note l = write_buffer_law [OF ok fit w]
    have "dev_view disk s' off' m = dev_view disk s off' m" if "apart off (length b) off' m" for off' m
    proof -
      have "take m (drop off' (disk (dev_io s'))) = take m (drop off' (disk (dev_io s)))"
        by (rule same_outside_read [of off "length b"]) (use l that in \<open>auto simp: apart_def\<close>)
      then show ?thesis using l by (simp add: dev_view_def)
    qed
    moreover have "dev_aligned s' = dev_aligned s" using l by (simp add: dev_aligned_def fun_eq_iff)
    ultimately show ?thesis using l by blast
  qed
  show "dev_ok good disk s' \<and> dev_size s' = dev_size s \<and> dev_aligned s' = dev_aligned s \<and>
      dev_view disk s' = dev_view disk s \<and> (x = None \<or> x = dev_view disk s off n)"
    if fit: "off + n \<le> dev_size s" and w: "read_into impl off n s = Some (x, s')"
    using read_into_law [OF ok fit w] by (auto simp: dev_aligned_def dev_view_def fun_eq_iff)
  show "length b = n" if "off + n \<le> dev_size s" "dev_view disk s off n = Some b"
    using that ok by (auto simp: dev_view_def decoded_def dev_ok_def encryptor_law_def split: option.splits)
qed

interpretation memory: raw_io MemoryDevice "\<lambda>_. True" "\<lambda>buffer. buffer"
  by unfold_locales (auto simp: MemoryDevice_def)

section \<open>Striping\<close>

text \<open>What the system calls are documented to do, for files with the given contents.\<close>

definition posix_law :: "'os posix \<Rightarrow> ('os \<Rightarrow> bytes list) \<Rightarrow> bool" where
  "posix_law sys files \<longleftrightarrow>
     (\<forall>os fd b off len os'. fd < length (files os) \<longrightarrow> off + length b \<le> length (files os ! fd) \<longrightarrow>
        pwrite sys fd b off os = (len, os') \<longrightarrow>
        (\<exists>c. files os' = (files os)[fd := c] \<and> same_outside off (length b) (files os ! fd) c \<and>
           (len = int (length b) \<longrightarrow> c = write_at off b (files os ! fd)))) \<and>
     (\<forall>os fd n off len bs os'. fd < length (files os) \<longrightarrow> off + n \<le> length (files os ! fd) \<longrightarrow>
        pread sys fd n off os = ((len, bs), os') \<longrightarrow>
        files os' = files os \<and> (len = int n \<longrightarrow> bs = take n (drop off (files os ! fd))))"

text \<open>The image of several files: which file and where in it a byte of the device is.\<close>

definition stripe_fd :: "nat \<Rightarrow> nat \<Rightarrow> nat \<Rightarrow> nat" where
  "stripe_fd n S x = x div S mod n"

definition stripe_off :: "nat \<Rightarrow> nat \<Rightarrow> nat \<Rightarrow> nat" where
  "stripe_off n S x = x div S div n * S + x mod S"

definition raid_image :: "nat \<Rightarrow> nat \<Rightarrow> bytes list \<Rightarrow> bytes" where
  "raid_image n S fs = map (\<lambda>x. fs ! stripe_fd n S x ! stripe_off n S x) [0..<length fs * length (fs ! 0)]"

definition raid_ok :: "nat \<Rightarrow> nat \<Rightarrow> bytes list \<Rightarrow> bool" where
  "raid_ok n S fs \<longleftrightarrow> 0 < S \<and> 1 < n \<and> length fs = n \<and>
     (\<exists>F. S dvd F \<and> (\<forall>i < n. length (fs ! i) = F))"

lemma stripe_inj:
  assumes "0 < S" and "0 < n" and "stripe_fd n S x = stripe_fd n S y" and "stripe_off n S x = stripe_off n S y"
  shows "x = y"
proof -
  have "stripe_off n S z div S = z div S div n" "stripe_off n S z mod S = z mod S" for z
    using assms(1) by (simp_all add: stripe_off_def)
  then have "x div S div n = y div S div n" "x mod S = y mod S" using assms(4) by metis+
  then show ?thesis using assms(3) unfolding stripe_fd_def by (metis div_mult_mod_eq)
qed

lemma stripe_in_file:
  assumes "0 < S" and "0 < n" and "S dvd F" and "x < n * F"
  shows "stripe_fd n S x < n" "stripe_off n S x < F"
proof -
  show "stripe_fd n S x < n" using assms(2) by (simp add: stripe_fd_def)
  obtain k where F: "F = S * k" using assms(3) by blast
  have "x < (n * k) * S" using assms(4) F by (simp add: ac_simps)
  then have "x div S < n * k" using assms(1) by (simp add: div_less_iff_less_mult)
  then have "x div S div n < k" using assms(2) by (simp add: div_less_iff_less_mult ac_simps)
  then have "(x div S div n + 1) * S \<le> F" unfolding F by (metis Suc_eq_plus1 Suc_leI mult.commute mult_le_mono1)
  moreover have "x mod S < S" using assms(1) by simp
  ultimately show "stripe_off n S x < F" unfolding stripe_off_def by (simp add: distrib_right)
qed

text \<open>Consecutive bytes within a stripe are consecutive in the file.\<close>

lemma stripe_run:
  assumes "0 < S" and "off mod S + k < S"
  shows "stripe_fd n S (off + k) = stripe_fd n S off" "stripe_off n S (off + k) = stripe_off n S off + k"
proof -
  have e: "off + k = off div S * S + (off mod S + k)" using div_mult_mod_eq [of off S] by linarith
  have d: "(q * S + r) div S = q" "(q * S + r) mod S = r" if "r < S" for q r using that by simp_all
  have "(off + k) div S = off div S" "(off + k) mod S = off mod S + k"
    unfolding e by (rule d [OF assms(2)])+
  then show "stripe_fd n S (off + k) = stripe_fd n S off" "stripe_off n S (off + k) = stripe_off n S off + k"
    by (simp_all add: stripe_fd_def stripe_off_def)
qed

lemma same_outside_nth:
  assumes "off + n \<le> length a"
  shows "same_outside off n a b \<longleftrightarrow>
    length b = length a \<and> (\<forall>i < length a. i < off \<or> off + n \<le> i \<longrightarrow> b ! i = a ! i)"
proof
  assume s: "same_outside off n a b"
  then have lb: "length b = length a" by (simp add: same_outside_def)
  have "b ! i = a ! i" if "i < length a" "i < off \<or> off + n \<le> i" for i
    using that(2)
  proof
    assume "i < off"
    then have "b ! i = take off b ! i" "a ! i = take off a ! i" by simp_all
    then show ?thesis using s by (simp add: same_outside_def)
  next
    assume "off + n \<le> i"
    then have "b ! i = drop (off + n) b ! (i - (off + n))" "a ! i = drop (off + n) a ! (i - (off + n))"
      using \<open>i < length a\<close> lb by simp_all
    then show ?thesis using s by (simp add: same_outside_def)
  qed
  then show "length b = length a \<and> (\<forall>i < length a. i < off \<or> off + n \<le> i \<longrightarrow> b ! i = a ! i)"
    using s by (simp add: same_outside_def)
next
  assume "length b = length a \<and> (\<forall>i < length a. i < off \<or> off + n \<le> i \<longrightarrow> b ! i = a ! i)"
  then show "same_outside off n a b"
    using assms unfolding same_outside_def by (intro conjI nth_equalityI) auto
qed

lemma raid_image_nth:
  assumes "raid_ok n S fs" and "x < length fs * length (fs ! 0)"
  shows "raid_image n S fs ! x = fs ! stripe_fd n S x ! stripe_off n S x"
    "stripe_fd n S x < length fs" "stripe_off n S x < length (fs ! stripe_fd n S x)"
proof -
  show "raid_image n S fs ! x = fs ! stripe_fd n S x ! stripe_off n S x"
    using assms(2) by (simp add: raid_image_def)
  obtain F where F: "0 < S" "1 < n" "length fs = n" "S dvd F" "\<And>i. i < n \<Longrightarrow> length (fs ! i) = F"
    using assms(1) by (auto simp: raid_ok_def)
  then have "x < n * F" using assms(2) by (simp add: F(3) F(5) [of 0])
  from stripe_in_file [OF F(1) _ F(4) this] F
  show "stripe_fd n S x < length fs" "stripe_off n S x < length (fs ! stripe_fd n S x)" by simp_all
qed

lemma length_raid_image [simp]: "length (raid_image n S fs) = length fs * length (fs ! 0)"
  by (simp add: raid_image_def)

text \<open>A piece within one stripe: its place in the file.\<close>

definition raid_piece :: "nat \<Rightarrow> nat \<Rightarrow> bytes list \<Rightarrow> nat \<Rightarrow> nat \<Rightarrow> bool" where
  "raid_piece n S fs off k \<longleftrightarrow> raid_ok n S fs \<and> off + k \<le> length (raid_image n S fs) \<and> off mod S + k \<le> S \<and> 0 < k"

lemma raid_piece_at:
  assumes p: "raid_piece n S fs off k"
  defines "fd \<equiv> stripe_fd n S off" and "fo \<equiv> stripe_off n S off"
  shows "j < k \<Longrightarrow> stripe_fd n S (off + j) = fd" "j < k \<Longrightarrow> stripe_off n S (off + j) = fo + j"
    "fd < length fs" "fo + k \<le> length (fs ! fd)"
    "take k (drop off (raid_image n S fs)) = take k (drop fo (fs ! fd))"
proof -
  have ok: "raid_ok n S fs" and fit: "off + k \<le> length (raid_image n S fs)" and run: "off mod S + k \<le> S" and k: "0 < k"
    using p by (auto simp: raid_piece_def)
  have S: "0 < S" "0 < n" using ok by (auto simp: raid_ok_def)
  show at: "stripe_fd n S (off + j) = fd" "stripe_off n S (off + j) = fo + j" if "j < k" for j
    using stripe_run [of S off j n] S run that by (simp_all add: fd_def fo_def)
  have bound: "off + j < length fs * length (fs ! 0)" if "j < k" for j using fit that by simp
  show fd: "fd < length fs" using raid_image_nth(2) [OF ok bound [of 0]] k by (simp add: fd_def)
  show fo: "fo + k \<le> length (fs ! fd)"
    using raid_image_nth(3) [OF ok bound [of "k - 1"]] at [of "k - 1"] k by simp
  show "take k (drop off (raid_image n S fs)) = take k (drop fo (fs ! fd))"
  proof (rule nth_equalityI)
    fix j assume "j < length (take k (drop off (raid_image n S fs)))"
    then have "j < k" by simp
    with raid_image_nth(1) [OF ok bound] at fit fo
    show "take k (drop off (raid_image n S fs)) ! j = take k (drop fo (fs ! fd)) ! j" by simp
  qed (use fit fo in simp)
qed

text \<open>Changing the piece in its file changes the piece of the image, and nothing else.\<close>

lemma raid_update_same_size:
  assumes "raid_ok n S fs" and "fd < length fs" and "length c = length (fs ! fd)"
  shows "raid_ok n S (fs[fd := c])" "length (raid_image n S (fs[fd := c])) = length (raid_image n S fs)"
proof -
  show "raid_ok n S (fs[fd := c])"
    using assms unfolding raid_ok_def by (auto simp: nth_list_update)
  have "length (fs[fd := c] ! 0) = length (fs ! 0)"
    using assms(2,3) by (subst nth_list_update) auto
  then show "length (raid_image n S (fs[fd := c])) = length (raid_image n S fs)" by simp
qed

lemma raid_update_nth:
  assumes p: "raid_piece n S fs off k"
    and c: "same_outside (stripe_off n S off) k (fs ! stripe_fd n S off) c" and x: "x < length (raid_image n S fs)"
  shows "raid_image n S (fs[stripe_fd n S off := c]) ! x =
    (if off \<le> x \<and> x < off + k then c ! (stripe_off n S off + (x - off)) else raid_image n S fs ! x)"
proof -
  let ?fd = "stripe_fd n S off" and ?fo = "stripe_off n S off"
  have ok: "raid_ok n S fs" and S: "0 < S" "0 < n" using p by (auto simp: raid_piece_def raid_ok_def)
  note at = raid_piece_at [OF p]
  have lc: "length c = length (fs ! ?fd)" using c by (simp add: same_outside_def)
  note u = raid_update_same_size [OF ok at(3) lc]
  have n: "raid_image n S (fs[?fd := c]) ! x = fs[?fd := c] ! stripe_fd n S x ! stripe_off n S x"
    using x unfolding u(2) [symmetric] by (intro raid_image_nth(1) [OF u(1)]) (simp only: length_raid_image)
  note o = raid_image_nth [OF ok x [unfolded length_raid_image]]
  show ?thesis
  proof (cases "off \<le> x \<and> x < off + k")
    case True
    then have "x - off < k" by auto
    from at(1,2) [OF this] True n at(3) show ?thesis by simp
  next
    case False
    have "c ! stripe_off n S x = fs ! ?fd ! stripe_off n S x" if "stripe_fd n S x = ?fd"
    proof -
      have "stripe_off n S x < ?fo \<or> ?fo + k \<le> stripe_off n S x"
      proof (rule ccontr)
        assume "\<not> ?thesis"
        then have j: "stripe_off n S x - ?fo < k" "?fo \<le> stripe_off n S x" by auto
        then have "x = off + (stripe_off n S x - ?fo)"
          using stripe_inj [OF S, of x "off + (stripe_off n S x - ?fo)"] at(1,2) [OF j(1)] that by simp
        with False j(1) show False by simp
      qed
      with c [unfolded same_outside_nth [OF at(4)]] o(3) that show ?thesis by auto
    qed
    then show ?thesis using n o at(3) False by (cases "stripe_fd n S x = ?fd") auto
  qed
qed

lemma raid_update_outside:
  assumes p: "raid_piece n S fs off k" and c: "same_outside (stripe_off n S off) k (fs ! stripe_fd n S off) c"
  shows "raid_ok n S (fs[stripe_fd n S off := c])"
    "same_outside off k (raid_image n S fs) (raid_image n S (fs[stripe_fd n S off := c]))"
proof -
  have ok: "raid_ok n S fs" and fit: "off + k \<le> length (raid_image n S fs)" using p by (auto simp: raid_piece_def)
  have "length c = length (fs ! stripe_fd n S off)" using c by (simp add: same_outside_def)
  note u = raid_update_same_size [OF ok raid_piece_at(3) [OF p] this]
  show "raid_ok n S (fs[stripe_fd n S off := c])" by (rule u(1))
  show "same_outside off k (raid_image n S fs) (raid_image n S (fs[stripe_fd n S off := c]))"
    unfolding same_outside_nth [OF fit] using u(2) raid_update_nth [OF p c] by auto
qed

lemma raid_update_write:
  assumes p: "raid_piece n S fs off k" and b: "length b = k"
  defines "fs' \<equiv> fs[stripe_fd n S off := write_at (stripe_off n S off) b (fs ! stripe_fd n S off)]"
  shows "raid_image n S fs' = write_at off b (raid_image n S fs)"
proof (rule nth_equalityI)
  note at = raid_piece_at [OF p]
  have fit: "off + k \<le> length (raid_image n S fs)" using p by (simp add: raid_piece_def)
  have c: "same_outside (stripe_off n S off) k (fs ! stripe_fd n S off) (write_at (stripe_off n S off) b (fs ! stripe_fd n S off))"
    using same_outside_write_at [of "stripe_off n S off" b "fs ! stripe_fd n S off"] at(4) b by simp
  have l: "length (raid_image n S fs') = length (raid_image n S fs)"
    using raid_update_outside(2) [OF p c] unfolding fs'_def same_outside_def by blast
  then show "length (raid_image n S fs') = length (write_at off b (raid_image n S fs))"
    using fit b by (simp only: length_write_at)
  fix x assume "x < length (raid_image n S fs')"
  with l have x: "x < length (raid_image n S fs)" by simp
  show "raid_image n S fs' ! x = write_at off b (raid_image n S fs) ! x"
    unfolding fs'_def raid_update_nth [OF p c x] using fit b at(4) x
    by (subst nth_write_at) (auto simp: nth_write_at)
qed

text \<open>Whole requests.\<close>

lemma stripeLoop_piece:
  assumes "raid_ok n S fs" and "off + m \<le> length (raid_image n S fs)" and "0 < m"
  defines "k \<equiv> min m (S - off mod S)"
  shows "raid_piece n S fs off k" "k \<le> m"
    "stripeLoop n S off m buf = \<lparr>op_fd = stripe_fd n S off, op_offset = stripe_off n S off, op_size = k, op_data = buf\<rparr> #
      stripeLoop n S (off + k) (m - k) (buf + k)"
proof -
  have S: "0 < S" using assms(1) by (simp add: raid_ok_def)
  then have "off mod S < S" by simp
  then show "raid_piece n S fs off k" using assms by (auto simp: raid_piece_def k_def)
  show "k \<le> m" by (simp add: k_def)
  show "stripeLoop n S off m buf = \<lparr>op_fd = stripe_fd n S off, op_offset = stripe_off n S off, op_size = k, op_data = buf\<rparr> #
      stripeLoop n S (off + k) (m - k) (buf + k)"
    using S assms(3) by (subst stripeLoop.simps) (simp add: Let_def k_def stripe_fd_def stripe_off_def)
qed

lemma raid_write:
  assumes law: "posix_law sys files"
  shows "raid_ok n S (files os) \<Longrightarrow> off + m \<le> length (raid_image n S (files os)) \<Longrightarrow> buf + m \<le> length d \<Longrightarrow>
    submitWrite sys d (stripeLoop n S off m buf) os = (r, os') \<Longrightarrow>
    raid_ok n S (files os') \<and> same_outside off m (raid_image n S (files os)) (raid_image n S (files os')) \<and>
    (r \<longrightarrow> raid_image n S (files os') = write_at off (take m (drop buf d)) (raid_image n S (files os)))"
proof (induction m arbitrary: off buf os rule: less_induct)
  case (less m)
  let ?fs = "files os"
  show ?case
  proof (cases "m = 0")
    case True
    with less.prems show ?thesis by (simp add: stripeLoop.simps same_outside_def write_at_def)
  next
    case False
    let ?k = "min m (S - off mod S)" and ?fd = "stripe_fd n S off" and ?fo = "stripe_off n S off"
    from False have m: "0 < m" by simp
    note st = stripeLoop_piece [OF less.prems(1,2) m]
    have p: "raid_piece n S ?fs off ?k" and k: "0 < ?k" "?k \<le> m" using st by (auto simp: raid_piece_def)
    let ?b = "take ?k (drop buf d)"
    have lb: "length ?b = ?k" using less.prems(3) by simp
    obtain len os1 where w: "pwrite sys ?fd ?b ?fo os = (len, os1)" by fastforce
    obtain c where c: "files os1 = ?fs[?fd := c]" "same_outside ?fo ?k (?fs ! ?fd) c"
      "len = int ?k \<longrightarrow> c = write_at ?fo ?b (?fs ! ?fd)"
      using law w raid_piece_at(3,4) [OF p] lb unfolding posix_law_def by metis
    note u = raid_update_outside [OF p c(2)]
    have out: "same_outside off m (raid_image n S ?fs) (raid_image n S (files os1))"
      unfolding c(1) by (rule same_outside_mono [OF u(2)]) (use k in simp_all)
    show ?thesis
    proof (cases "len = int ?k")
      case True
      have img: "raid_image n S (files os1) = write_at off ?b (raid_image n S ?fs)"
        using c(1,3) True raid_update_write [OF p lb] by simp
      have rec: "submitWrite sys d (stripeLoop n S (off + ?k) (m - ?k) (buf + ?k)) os1 = (r, os')"
        using less.prems(4) st(3) [of buf] w True by simp
      have l1: "length (raid_image n S (files os1)) = length (raid_image n S ?fs)" using out by (simp add: same_outside_def)
      have ih: "raid_ok n S (files os') \<and>
          same_outside (off + ?k) (m - ?k) (raid_image n S (files os1)) (raid_image n S (files os')) \<and>
          (r \<longrightarrow> raid_image n S (files os') = write_at (off + ?k) (take (m - ?k) (drop (buf + ?k) d)) (raid_image n S (files os1)))"
      proof (rule less.IH [OF _ _ _ _ rec])
        show "m - ?k < m" "buf + ?k + (m - ?k) \<le> length d" using k m less.prems(3) by simp_all
        show "raid_ok n S (files os1)" using u(1) c(1) by simp
        show "off + ?k + (m - ?k) \<le> length (raid_image n S (files os1))" unfolding l1 using less.prems(2) by simp
      qed
      have "same_outside off m (raid_image n S (files os1)) (raid_image n S (files os'))"
        by (rule same_outside_mono [of "off + ?k" "m - ?k"]) (use ih k in simp_all)
      moreover have "?b @ take (m - ?k) (drop (buf + ?k) d) = take m (drop buf d)"
        using take_add [of ?k "m - ?k" "drop buf d"] k by (simp add: ac_simps)
      then have "write_at (off + ?k) (take (m - ?k) (drop (buf + ?k) d)) (raid_image n S (files os1)) =
          write_at off (take m (drop buf d)) (raid_image n S ?fs)"
        using write_at_append [of off ?b "take (m - ?k) (drop (buf + ?k) d)" "raid_image n S ?fs"] lb img less.prems(2,3) k
        by simp
      ultimately show ?thesis using ih same_outside_trans [OF out] by simp
    next
      case False2: False
      then have "r = False" "os' = os1" using less.prems(4) st(3) [of buf] w by auto
      then show ?thesis using u(1) c(1) out by simp
    qed
  qed
qed

lemma raid_read:
  assumes law: "posix_law sys files"
  shows "raid_ok n S (files os) \<Longrightarrow> off + m \<le> length (raid_image n S (files os)) \<Longrightarrow> buf + m = length d \<Longrightarrow>
    submitRead sys d (stripeLoop n S off m buf) os = (r, os') \<Longrightarrow>
    files os' = files os \<and> (\<forall>b. r = Some b \<longrightarrow> b = take buf d @ take m (drop off (raid_image n S (files os))))"
proof (induction m arbitrary: off buf os d rule: less_induct)
  case (less m)
  let ?fs = "files os" and ?img = "raid_image n S (files os)"
  show ?case
  proof (cases "m = 0")
    case True
    with less.prems show ?thesis by (auto simp: stripeLoop.simps)
  next
    case False
    let ?k = "min m (S - off mod S)" and ?fd = "stripe_fd n S off" and ?fo = "stripe_off n S off"
    from False have m: "0 < m" by simp
    note st = stripeLoop_piece [OF less.prems(1,2) m]
    have p: "raid_piece n S ?fs off ?k" and k: "0 < ?k" "?k \<le> m" using st by (auto simp: raid_piece_def)
    obtain len bs os1 where w: "pread sys ?fd ?k ?fo os = ((len, bs), os1)" by (metis prod.exhaust)
    have c: "files os1 = ?fs" "len = int ?k \<longrightarrow> bs = take ?k (drop off ?img)"
      using law w raid_piece_at(3,4,5) [OF p] unfolding posix_law_def by metis+
    show ?thesis
    proof (cases "len = int ?k")
      case True
      then have bs: "bs = take ?k (drop off ?img)" "length bs = ?k" using c less.prems(2) k by auto
      have rec: "submitRead sys (write_at buf bs d) (stripeLoop n S (off + ?k) (m - ?k) (buf + ?k)) os1 = (r, os')"
        using less.prems(4) st(3) [of buf] w True by simp
      have ih: "files os' = files os1 \<and> (\<forall>b. r = Some b \<longrightarrow>
          b = take (buf + ?k) (write_at buf bs d) @ take (m - ?k) (drop (off + ?k) (raid_image n S (files os1))))"
        by (rule less.IH [OF _ _ _ _ rec]) (use k less.prems c bs in simp_all)
      have "take (buf + ?k) (write_at buf bs d) = take buf d @ bs"
        using take_write_at(1) [of buf d bs] less.prems(3) bs(2) by simp
      moreover have "bs @ take (m - ?k) (drop (off + ?k) ?img) = take m (drop off ?img)"
        using take_add [of ?k "m - ?k" "drop off ?img"] k bs(1) by (simp add: ac_simps)
      ultimately show ?thesis using ih c(1) by simp
    next
      case False2: False
      then have "r = None" "os' = os1" using less.prems(4) st(3) [of buf] w by auto
      then show ?thesis using c by simp
    qed
  qed
qed

section \<open>The file device\<close>

definition file_image :: "nat \<Rightarrow> nat \<Rightarrow> bytes list \<Rightarrow> bytes" where
  "file_image n S fs = (if n > 1 then raid_image n S fs else fs ! 0)"

definition file_good :: "nat \<Rightarrow> nat \<Rightarrow> bytes list \<Rightarrow> bool" where
  "file_good n S fs \<longleftrightarrow> (if n > 1 then raid_ok n S fs else fs \<noteq> [])"

lemma file_device_raw_io:
  assumes law: "posix_law sys files"
  shows "raw_io (FileDevice sys n S) (\<lambda>os. file_good n S (files os)) (\<lambda>os. file_image n S (files os))"
proof unfold_locales
  fix os off h os' and b :: bytes
  assume g: "file_good n S (files os)" and fit: "off + length b \<le> length (file_image n S (files os))"
  have w: "file_good n S (files os') \<and>
      same_outside off (length b) (file_image n S (files os)) (file_image n S (files os')) \<and>
      (r \<longrightarrow> file_image n S (files os') = write_at off b (file_image n S (files os)))"
    if "writeImpl (FileDevice sys n S) off b h os = (r, os')" for r
  proof (cases "n > 1")
    case True
    then show ?thesis using raid_write [OF law, of n S os off "length b" 0 b r os'] that g fit
      by (simp add: FileDevice_def IOReq_ops_def file_image_def file_good_def)
  next
    case False
    obtain len os1 where p: "pwrite sys 0 b off os = (len, os1)" by fastforce
    have "0 < length (files os)" "off + length b \<le> length (files os ! 0)"
      using g fit False by (simp_all add: file_good_def file_image_def)
    then obtain c where "files os1 = (files os)[0 := c]" "same_outside off (length b) (files os ! 0) c"
      "len = int (length b) \<longrightarrow> c = write_at off b (files os ! 0)"
      using law p unfolding posix_law_def by metis
    moreover have "os' = os1" "r = (len = int (length b))"
      using that False p by (auto simp: FileDevice_def IOReq_ops_def split: if_splits)
    ultimately show ?thesis using g False by (simp add: file_image_def file_good_def)
  qed
  show "file_good n S (files os') \<and> file_image n S (files os') = write_at off b (file_image n S (files os))"
    if "writeImpl (FileDevice sys n S) off b h os = (True, os')" using w [OF that] by simp
  show "file_good n S (files os') \<and> same_outside off (length b) (file_image n S (files os)) (file_image n S (files os'))"
    if "writeImpl (FileDevice sys n S) off b h os = (False, os')" using w [OF that] by simp
next
  fix os off m r os'
  assume g: "file_good n S (files os)" and fit: "off + m \<le> length (file_image n S (files os))"
    and rd: "readImpl (FileDevice sys n S) off m os = (r, os')"
  show "file_good n S (files os') \<and> file_image n S (files os') = file_image n S (files os) \<and>
      (\<forall>b. r = Some b \<longrightarrow> b = take m (drop off (file_image n S (files os))))"
  proof (cases "n > 1")
    case True
    then show ?thesis using raid_read [OF law, of n S os off m 0 "replicate m 0" r os'] rd g fit
      by (simp add: FileDevice_def IOReq_ops_def file_image_def file_good_def)
  next
    case False
    obtain len bs os1 where p: "pread sys 0 m off os = ((len, bs), os1)" by (metis prod.exhaust)
    have b: "0 < length (files os)" "off + m \<le> length (files os ! 0)"
      using g fit False by (simp_all add: file_good_def file_image_def)
    then have c: "files os1 = files os \<and> (len = int m \<longrightarrow> bs = take m (drop off (files os ! 0)))"
      using law p unfolding posix_law_def by metis
    moreover have "os' = os1" "r = (if len = int m then Some (write_at 0 bs (replicate m 0)) else None)"
      using rd False p by (auto simp: FileDevice_def IOReq_ops_def split: if_splits)
    ultimately show ?thesis using g False b by (auto simp: file_image_def file_good_def write_at_def)
  qed
qed

section \<open>Aligned reads\<close>

lemma and_not_mask_nat:
  assumes "x < 2 ^ 64" and "k < 64"
  shows "unat (of_nat x AND NOT (2 ^ k - 1) :: u64) = x div 2 ^ k * 2 ^ k"
    "unat (of_nat x AND (2 ^ k - 1) :: u64) = x mod 2 ^ k"
proof -
  have m: "(2 ^ k - 1 :: u64) = mask k" by (simp add: mask_eq_exp_minus_1)
  have x: "unat (of_nat x :: u64) = x" using assms(1) by (simp add: unat_of_nat take_bit_nat_eq_self)
  show mo: "unat (of_nat x AND (2 ^ k - 1) :: u64) = x mod 2 ^ k"
    unfolding m by (simp only: flip: take_bit_eq_mask) (simp add: unat_take_bit x)
  have "(of_nat x AND NOT (mask k) :: u64) + (of_nat x AND mask k) = of_nat x"
    by (subst disjunctive_add) (auto simp: bit_simps intro: bit_eqI)
  moreover have "(of_nat x AND mask k :: u64) = of_nat (x mod 2 ^ k)"
    using mo unfolding m by (metis of_nat_unat ucast_id)
  moreover have "(of_nat (x div 2 ^ k * 2 ^ k) :: u64) + of_nat (x mod 2 ^ k) = of_nat x"
    unfolding of_nat_add [symmetric] div_mult_mod_eq ..
  ultimately have a: "(of_nat x AND NOT (mask k) :: u64) = of_nat (x div 2 ^ k * 2 ^ k)"
    by (metis add_right_cancel)
  have "x div 2 ^ k * 2 ^ k \<le> x" by simp
  then have "x div 2 ^ k * 2 ^ k < 2 ^ 64" using assms(1) by linarith
  then show "unat (of_nat x AND NOT (2 ^ k - 1) :: u64) = x div 2 ^ k * 2 ^ k"
    unfolding m a by (simp only: unat_of_nat) (simp add: take_bit_nat_eq_self)
qed

lemma powTwoAlign_eq:
  assumes "sz + 2 ^ k \<le> 2 ^ 64" and "k < 64"
  shows "powTwoAlign sz (2 ^ k) = (sz + (2 ^ k - 1)) div 2 ^ k * 2 ^ k"
proof -
  have k: "(1::nat) \<le> 2 ^ k" by simp
  then have "sz + (2 ^ k - 1) < 2 ^ 64" using assms(1) by linarith
  moreover have "(of_nat (2 ^ k) :: u64) - 1 = 2 ^ k - 1" by simp
  moreover have "(of_nat (2 ^ k - 1) :: u64) = 2 ^ k - 1" using k by (simp add: of_nat_diff)
  then have "(of_nat sz + (2 ^ k - 1) :: u64) = of_nat (sz + (2 ^ k - 1))" by (simp only: of_nat_add)
  ultimately show ?thesis unfolding powTwoAlign_def using and_not_mask_nat(1) [OF _ assms(2)] by metis
qed

lemma aligned_range:
  fixes off n a :: nat
  assumes "0 < a"
  defines "lo \<equiv> off div a * a" and "m \<equiv> (off mod a + n + (a - 1)) div a * a"
  shows "lo + off mod a = off" "off mod a + n \<le> m" "lo mod a = 0"
    "take n (drop (off mod a) (take m (drop lo xs))) = take n (drop off xs)"
    "sz mod a = 0 \<Longrightarrow> off + n \<le> sz \<Longrightarrow> lo + m \<le> sz"
proof -
  show lo: "lo + off mod a = off" by (simp add: lo_def)
  have "(off mod a + n + (a - 1)) mod a \<le> a - 1" using assms(1) by (metis Suc_pred' less_Suc_eq_le mod_less_divisor)
  then show m: "off mod a + n \<le> m" using div_mult_mod_eq [of "off mod a + n + (a - 1)" a] unfolding m_def by linarith
  show "lo mod a = 0" by (simp add: lo_def)
  show "take n (drop (off mod a) (take m (drop lo xs))) = take n (drop off xs)"
    using m lo by (simp add: drop_take min_def add.commute)
  show "lo + m \<le> sz" if "sz mod a = 0" "off + n \<le> sz"
  proof -
    have "a dvd sz" using that(1) by (simp add: dvd_eq_mod_eq_0)
    then obtain c where c: "sz = c * a" by (metis dvd_def mult.commute)
    let ?d = "off div a + (off mod a + n + (a - 1)) div a"
    have d: "lo + m = ?d * a" by (simp add: lo_def m_def distrib_right)
    have "m \<le> off mod a + n + (a - 1)" by (simp add: m_def)
    then have "?d * a < c * a + a" using lo that(2) c assms(1) d by linarith
    then have "?d * a < Suc c * a" by simp
    then have "?d < Suc c" by (simp only: mult_less_cancel2)
    then show ?thesis unfolding d c by (intro mult_le_mono1) simp
  qed
qed

context raw_io
begin

lemma read_range_law:
  assumes ok: "dev_ok good disk dev" and plain: "encryptor dev = None" and al: "ioAlignmentSize dev = 2 ^ k" "k < 64"
    and dsz: "dev_size dev mod 2 ^ k = 0" "dev_size dev < 2 ^ 63" "k < 63" and fit: "off + n \<le> dev_size dev"
  shows "\<exists>x dev'. read_range impl off n dev = Some (x, dev') \<and> dev_ok good disk dev' \<and>
    disk (dev_io dev') = disk (dev_io dev) \<and> (x = None \<or> x = Some (take n (drop off (disk (dev_io dev)))))"
proof -
  let ?a = "2 ^ k :: nat"
  let ?lo = "off div ?a * ?a" and ?m = "(off mod ?a + n + (?a - 1)) div ?a * ?a"
  have off: "off < 2 ^ 64" using fit dsz by simp
  have "(2::nat) ^ k < 2 ^ 63" using dsz(3) by (rule power_strict_increasing) simp
  moreover have "off mod ?a + n \<le> dev_size dev" using fit mod_less_eq_dividend [of off ?a] by linarith
  ultimately have "off mod ?a + n + ?a \<le> 2 ^ 64" using dsz(2) by simp
  then have ms: "powTwoAlign (off mod ?a + n) (2 ^ k) = ?m" by (rule powTwoAlign_eq [OF _ al(2)])
  have fit2: "?lo + ?m \<le> dev_size dev"
    by (rule aligned_range(5) [OF _ dsz(1) fit]) simp
  obtain x dev' where rd: "read_into impl ?lo ?m dev = Some (x, dev')"
    using read_into_runs [OF ok fit2] plain by (auto simp: dev_aligned_def)
  note law = read_into_law [OF ok fit2 rd]
  have "(of_nat (2 ^ k) :: u64) - 1 = 2 ^ k - 1" by simp
  then have "read_range impl off n dev = Some (map_option (\<lambda>b. take n (drop (off mod ?a) b)) x, dev')"
    using rd ms and_not_mask_nat [OF off al(2)] al(1)
    by (simp add: read_range_def getIOAlignedSize_def read_into_def Let_def)
  with law aligned_range(4) [of ?a n off "disk (dev_io dev)"] plain show ?thesis
    by (auto simp: dev_view_def decoded_def)
qed

lemmas device_laws = bd.reads_back

end

section \<open>Properties\<close>

text \<open>An encryptor for the examples: it adds the salt to every byte.\<close>

definition shift_encryptor :: "nat \<Rightarrow> DeviceEncryptor" where
  "shift_encryptor bs = \<lparr>encryptionBlockSize = bs, encrypt = (\<lambda>b salt. Some (map (\<lambda>x. x + of_nat salt) b)),
     decrypt = (\<lambda>b salt. Some (map (\<lambda>x. x - of_nat salt) b))\<rparr>"

lemma shift_encryptor_law: "encryptor_law (Some (shift_encryptor bs))"
  by (simp add: encryptor_law_def shift_encryptor_def o_def)

text \<open>C39. Devices read back what was written, on every implementation that keeps its contract, with
  or without encryption, whatever the sizes of the pieces the write and the read are split into: a write
  either succeeds, and then every successful read of that range returns exactly those bytes, or fails,
  is counted, and changes at most its own range; ranges apart from it read as before.\<close>

theorem device_reads_back:
  assumes "raw_io impl good disk" and "dev_ok good disk dev" and "off + length b \<le> dev_size dev" and "dev_aligned dev off"
  shows "\<exists>r dev'. write_buffer impl off b h dev = Some (r, dev') \<and> dev_ok good disk dev' \<and> dev_size dev' = dev_size dev \<and>
    (r \<longrightarrow> (\<forall>x dev2. read_into impl off (length b) dev' = Some (x, dev2) \<longrightarrow> x = None \<or> x = Some b)) \<and>
    (\<forall>off' n x dev2. apart off (length b) off' n \<and> off' + n \<le> dev_size dev \<longrightarrow>
      read_into impl off' n dev' = Some (x, dev2) \<longrightarrow> x = None \<or> x = dev_view disk dev off' n)"
  by (rule raw_io.device_laws [OF assms])

theorem device_reads_back_witness:
  "\<exists>dev. createMemoryDevice 8 (Some (shift_encryptor 4)) 4 = Inr dev \<and>
     (\<exists>dev'. write_buffer MemoryDevice 4 [1, 2, 3, 4] (-1) dev = Some (True, dev') \<and>
       map_option fst (read_into MemoryDevice 4 4 dev') = Some (Some [1, 2, 3, 4]))"
proof -
  obtain dev where d: "createMemoryDevice 8 (Some (shift_encryptor 4)) 4 = Inr dev"
    by (simp add: createMemoryDevice_def Device_init_def shift_encryptor_def)
  then have dev: "dev_io dev = replicate 8 0" "dev_size dev = 8" "encryptor dev = Some (shift_encryptor 4)"
    "maxWriteSize dev = 0" "maxIOSize dev = 0"
    by (auto simp: createMemoryDevice_def Device_init_def split: if_splits)
  have "dev_ok (\<lambda>_. True) (\<lambda>b. b) dev" using dev shift_encryptor_law by (simp add: dev_ok_def)
  moreover have l: "length [1, 2, 3, 4 :: u8] = 4" by simp
  ultimately have "\<exists>r dev'. write_buffer MemoryDevice 4 [1, 2, 3, 4] (-1) dev = Some (r, dev') \<and>
      (r \<longrightarrow> (\<forall>x dev2. read_into MemoryDevice 4 4 dev' = Some (x, dev2) \<longrightarrow> x = None \<or> x = Some [1, 2, 3, 4]))"
    using device_reads_back [OF memory.raw_io_axioms, of dev 4 "[1, 2, 3, 4]" "-1", unfolded l] dev
    unfolding dev_aligned_def shift_encryptor_def by force
  then
  obtain r dev' where w: "write_buffer MemoryDevice 4 [1, 2, 3, 4] (-1) dev = Some (r, dev')"
    and r: "r \<longrightarrow> (\<forall>x dev2. read_into MemoryDevice 4 4 dev' = Some (x, dev2) \<longrightarrow> x = None \<or> x = Some [1, 2, 3, 4])"
    by blast
  have "r" "encryptor dev' = Some (shift_encryptor 4)" "maxIOSize dev' = 0"
    using w dev by (auto simp: write_buffer_def writeInternal_def writeLoop.simps MemoryDevice_def shift_encryptor_def Let_def)
  moreover from this obtain x dev2 where "read_into MemoryDevice 4 4 dev' = Some (x, dev2)" "x \<noteq> None"
    by (auto simp: read_into_def readInternal_def readLoop.simps MemoryDevice_def shift_encryptor_def Let_def)
  ultimately show ?thesis using d w r by fastforce
qed

text \<open>Files held in a list, for the examples.\<close>

definition list_files :: "bytes list posix" where
  "list_files = \<lparr>pwrite = (\<lambda>fd b off fs. (int (length b), fs[fd := write_at off b (fs ! fd)])),
     pread = (\<lambda>fd n off fs. ((int n, take n (drop off (fs ! fd))), fs))\<rparr>"

lemma list_files_law: "posix_law list_files (\<lambda>fs. fs)"
  by (auto simp: posix_law_def list_files_def same_outside_write_at)

text \<open>C38. Several files striped as RAID0 are one flat device: a write of any range that crosses stripes
  and files either completes, and then the image of the device has exactly those bytes replaced and a
  completed read of the range returns them, or stops at the first short system call and changes nothing
  outside its range.\<close>

theorem raid0_flat_device:
  assumes "posix_law sys files" and "raid_ok n S (files os)" and "off + length d \<le> length (raid_image n S (files os))"
    and "writeImpl (FileDevice sys n S) off d h os = (r, os')"
  shows "raid_ok n S (files os') \<and> same_outside off (length d) (raid_image n S (files os)) (raid_image n S (files os')) \<and>
    (r \<longrightarrow> raid_image n S (files os') = write_at off d (raid_image n S (files os)) \<and>
      (\<forall>x os2. readImpl (FileDevice sys n S) off (length d) os' = (Some x, os2) \<longrightarrow> x = d))"
proof -
  have n: "1 < n" using assms(2) by (simp add: raid_ok_def)
  note rw = read_write_at [of off d "raid_image n S (files os)"]
  have w: "raid_ok n S (files os')" "same_outside off (length d) (raid_image n S (files os)) (raid_image n S (files os'))"
    "r \<longrightarrow> raid_image n S (files os') = write_at off d (raid_image n S (files os))"
    using raid_write [OF assms(1,2), of off "length d" 0 d r os'] assms(3,4) n by (auto simp: FileDevice_def IOReq_ops_def)
  have "length (raid_image n S (files os')) = length (raid_image n S (files os))" using w(2) by (simp only: same_outside_def)
  with raid_read [OF assms(1) w(1), of off "length d" 0 "replicate (length d) 0"] assms(3) n
  have "readImpl (FileDevice sys n S) off (length d) os' = (Some x, os2) \<Longrightarrow>
      x = take (length d) (drop off (raid_image n S (files os')))" for x os2
    by (auto simp: FileDevice_def IOReq_ops_def)
  with w rw assms(3) show ?thesis by auto
qed

theorem raid0_flat_device_witness:
  "\<exists>fs. writeImpl (FileDevice list_files 2 2) 1 [7, 8, 9, 10] 0 [replicate 4 0, replicate 4 0] = (True, fs) \<and>
     fs = [[0, 7, 10, 0], [8, 9, 0, 0]] \<and> raid_image 2 2 fs = [0, 7, 8, 9, 10, 0, 0, 0]"
proof -
  let ?fs = "[replicate 4 0, replicate 4 0] :: bytes list"
  have ok: "raid_ok 2 2 ?fs" by (auto simp: raid_ok_def less_2_cases_iff intro!: exI [of _ 4])
  have w: "writeImpl (FileDevice list_files 2 2) 1 [7, 8, 9, 10] 0 ?fs = (True, [[0, 7, 10, 0], [8, 9, 0, 0]])"
    by code_simp
  have z: "raid_image 2 2 ?fs = replicate 8 0" by code_simp
  have "write_at 1 [7, 8, 9, 10] (replicate 8 0) = [0, 7, 8, 9, 10, 0, 0, 0 :: u8]" by code_simp
  with raid0_flat_device [OF list_files_law ok _ w] w z show ?thesis by auto
qed

text \<open>A read of any range, aligned or not, on a device with a power of two as its alignment: the
  enclosing aligned range stays inside the device, and a read that succeeds returns exactly the bytes
  asked for.\<close>

lemma unaligned_read:
  assumes "raw_io impl good disk" and "dev_ok good disk dev" and "encryptor dev = None"
    and "ioAlignmentSize dev = 2 ^ k" and "k < 63" and "dev_size dev mod 2 ^ k = 0" and "dev_size dev < 2 ^ 63"
    and "off + n \<le> dev_size dev"
  shows "\<exists>x dev'. read_range impl off n dev = Some (x, dev') \<and> dev_ok good disk dev' \<and>
    disk (dev_io dev') = disk (dev_io dev) \<and> (x = None \<or> x = Some (take n (drop off (disk (dev_io dev)))))"
  using raw_io.read_range_law [OF assms(1-4) _ assms(6,7,5,8)] assms(5) by simp

text \<open>C40. Encryption and partial reads: a read inside a range that was written with one call passes the
  offset of the read, not that of the write, as the salt to the decryptor.\<close>

theorem partial_read_salt:
  assumes "encryptor dev = Some enc" and "encrypt enc b off = Some c" and "length c = length b"
    and "off mod encryptionBlockSize enc = 0" and "k mod encryptionBlockSize enc = 0"
    and "k + n \<le> length b" and "off + length b \<le> length (dev_io dev)" and "maxWriteSize dev = 0" "maxIOSize dev = 0"
    and "0 < n"
  shows "\<exists>dev'. write_buffer MemoryDevice off b h dev = Some (True, dev') \<and>
    map_option fst (read_into MemoryDevice (off + k) n dev') = Some (decrypt enc (take n (drop k c)) (off + k))"
proof -
  have b: "c \<noteq> []" "length c \<noteq> 0" using assms(3,6,10) by auto
  let ?dev = "dev\<lparr>dev_io := write_at off c (dev_io dev), bytesWritten := bytesWritten dev + length c\<rparr>"
  have w: "write_buffer MemoryDevice off b h dev = Some (True, ?dev)"
    using assms b by (simp add: write_buffer_def writeInternal_def writeLoop.simps [of _ _ _ _ c] writeLoop.simps [of _ _ _ _ "[]"] MemoryDevice_def Let_def)
  have "drop (off + k) (write_at off c (dev_io dev)) = drop k c @ drop (off + length c) (dev_io dev)"
    using assms(3,6,7) by (simp add: write_at_def)
  then have "take n (drop (off + k) (write_at off c (dev_io dev))) = take n (drop k c)" using assms(3,6) by simp
  moreover have "(off + k) mod encryptionBlockSize enc = 0" using assms(4,5) by (simp add: mod_add_eq [symmetric])
  ultimately have "map_option fst (read_into MemoryDevice (off + k) n ?dev) = Some (decrypt enc (take n (drop k c)) (off + k))"
    using assms by (simp add: read_into_def readInternal_def readLoop.simps [of _ _ _ n] readLoop.simps [of _ _ _ 0] MemoryDevice_def Let_def
        split: option.splits)
  with w show ?thesis by blast
qed

theorem partial_read_salt_witness:
  "\<exists>dev dev'. createMemoryDevice 8 (Some (shift_encryptor 4)) 4 = Inr dev \<and>
     write_buffer MemoryDevice 0 (replicate 8 0) 0 dev = Some (True, dev') \<and>
     map_option fst (read_into MemoryDevice 4 4 dev') = Some (Some (replicate 4 252))"
proof -
  obtain dev where d: "createMemoryDevice 8 (Some (shift_encryptor 4)) 4 = Inr dev"
    by (simp add: createMemoryDevice_def Device_init_def shift_encryptor_def)
  then have "dev_io dev = replicate 8 0" "encryptor dev = Some (shift_encryptor 4)" "maxWriteSize dev = 0" "maxIOSize dev = 0"
    by (auto simp: createMemoryDevice_def Device_init_def split: if_splits)
  with partial_read_salt [of dev "shift_encryptor 4" "replicate 8 0" 0 "replicate 8 0" 4 4 0] d show ?thesis
    by (auto simp: shift_encryptor_def)
qed

end
