(* ===== verification/BigHash.thy ===== *)
theory BigHash
  imports Bucket BloomFilter Device
begin

text \<open>
  The flash cache for small objects, \<^verbatim>\<open>cachelib/navy/bighash/BigHash.h\<close> and \<^verbatim>\<open>BigHash.cpp\<close>: a hash
  table of buckets on a device, each read and written whole, with a checksum and a generation, in front
  of it an array of Bloom filters. The statuses, the destructor calls and every counter are modelled;
  the bucket locks make each operation one step. A result \<^const>\<open>None\<close> is an aborted process or an access
  outside of a buffer.
\<close>

datatype Status = Ok | NotFound | Rejected | Retry | DeviceError | BadState

text \<open>What the code is linked with: the device, the checksum and the hash functions.\<close>

record 'd bh_env =
  env_io :: "'d dev_impl"
  env_checksum :: "bytes \<Rightarrow> u32"
  env_combine :: "u64 \<Rightarrow> u64 \<Rightarrow> u64"
  env_hash :: "bytes \<Rightarrow> u64"

definition makeHK :: "'d bh_env \<Rightarrow> bytes \<Rightarrow> HashedKey" where
  "makeHK env key = \<lparr>hk_key = key, hk_hash = env_hash env key\<rparr>"

section \<open>State\<close>

record bh_counters =
  lookupCount :: u64
  bfProbeCount :: u64
  bfRejectCount :: u64
  itemCount :: u64
  insertCount :: u64
  succInsertCount :: u64
  succLookupCount :: u64
  removeCount :: u64
  succRemoveCount :: u64
  evictionCount :: u64
  evictionExpiredCount :: u64
  logicalWrittenCount :: u64
  physicalWrittenCount :: u64
  ioErrorCount :: u64
  bfFalsePositiveCount :: u64
  bfRebuildCount :: u64
  checksumErrorCount :: u64
  usedSizeBytes :: u64

definition no_counts :: bh_counters where
  "no_counts = \<lparr>lookupCount = 0, bfProbeCount = 0, bfRejectCount = 0, itemCount = 0, insertCount = 0,
     succInsertCount = 0, succLookupCount = 0, removeCount = 0, succRemoveCount = 0, evictionCount = 0,
     evictionExpiredCount = 0, logicalWrittenCount = 0, physicalWrittenCount = 0, ioErrorCount = 0,
     bfFalsePositiveCount = 0, bfRebuildCount = 0, checksumErrorCount = 0, usedSizeBytes = 0\<rparr>"

record 'd BigHash =
  checkExpired :: expired_check
  bucketSize :: nat
  cacheBaseOffset :: nat
  bh_numBuckets :: nat
  bloomFilter :: "BloomFilter option"
  generationTime :: u64
  device :: "'d Device"
  placementHandle :: int
  counters :: bh_counters

abbreviation count :: "(bh_counters \<Rightarrow> bh_counters) \<Rightarrow> 'd BigHash \<Rightarrow> 'd BigHash" where
  "count f s \<equiv> s\<lparr>counters := f (counters s)\<rparr>"

section \<open>Configuration\<close>

record 'd bh_Config =
  cfg_bucketSize :: nat
  cfg_cacheBaseOffset :: nat
  cfg_cacheSize :: nat
  cfg_device :: "'d Device option"
  cfg_checkExpired :: expired_check
  cfg_bloomFilter :: "BloomFilter option"

datatype bh_error = CacheTooSmall | InvalidBucketSize | TooManyBuckets | Misaligned | NoDevice | FilterMismatch

definition cfg_numBuckets :: "'d bh_Config \<Rightarrow> nat" where
  "cfg_numBuckets c = cfg_cacheSize c div cfg_bucketSize c"

definition isPowTwo :: "nat \<Rightarrow> bool" where
  "isPowTwo n \<longleftrightarrow> n \<noteq> 0 \<and> (of_nat n AND (of_nat n - 1) = (0 :: u64))"

definition bh_validate :: "'d bh_Config \<Rightarrow> bh_error option" where
  "bh_validate c =
     (if cfg_cacheSize c < cfg_bucketSize c then Some CacheTooSmall
      else if \<not> isPowTwo (cfg_bucketSize c) then Some InvalidBucketSize
      else if cfg_cacheSize c > cfg_bucketSize c * 2 ^ 32 then Some TooManyBuckets
      else if cfg_cacheBaseOffset c mod cfg_bucketSize c \<noteq> 0 \<or> cfg_cacheSize c mod cfg_bucketSize c \<noteq> 0
        then Some Misaligned
      else if cfg_device c = None then Some NoDevice
      else case cfg_bloomFilter c of
             None \<Rightarrow> None
           | Some f \<Rightarrow> if numFilters f \<noteq> cfg_numBuckets c then Some FilterMismatch else None)"

text \<open>\<open>clock\<close> is the steady clock at the call. Two counters are not reset.\<close>

definition bh_reset :: "u64 \<Rightarrow> 'd BigHash \<Rightarrow> 'd BigHash" where
  "bh_reset clock s =
     s\<lparr>generationTime := clock, bloomFilter := map_option bf_reset (bloomFilter s),
       counters := no_counts\<lparr>bfRejectCount := bfRejectCount (counters s), bfRebuildCount := bfRebuildCount (counters s)\<rparr>\<rparr>"

definition BigHash_init :: "u64 \<Rightarrow> int \<Rightarrow> 'd bh_Config \<Rightarrow> bh_error + 'd BigHash" where
  "BigHash_init clock handle c =
     (case bh_validate c of
        Some e \<Rightarrow> Inl e
      | None \<Rightarrow> Inr (bh_reset clock
          \<lparr>checkExpired = cfg_checkExpired c, bucketSize = cfg_bucketSize c, cacheBaseOffset = cfg_cacheBaseOffset c,
           bh_numBuckets = cfg_numBuckets c, bloomFilter = cfg_bloomFilter c, generationTime = 0,
           device = the (cfg_device c), placementHandle = handle, counters = no_counts\<rparr>))"

definition bh_getSize :: "'d BigHash \<Rightarrow> nat" where
  "bh_getSize s = bucketSize s * bh_numBuckets s"

definition getMaxItemSize :: "'d BigHash \<Rightarrow> u64" where
  "getMaxItemSize s = of_nat (bucketSize s) - of_nat kBucketOverhead - of_nat (slotSize entryOverhead)"

definition getBucketId :: "'d BigHash \<Rightarrow> HashedKey \<Rightarrow> nat" where
  "getBucketId s hk = unat (hk_hash hk) mod bh_numBuckets s mod 2 ^ 32"

definition getBucketOffset :: "'d BigHash \<Rightarrow> nat \<Rightarrow> nat" where
  "getBucketOffset s bid = cacheBaseOffset s + bucketSize s * bid"

definition estimateWriteSize :: "'d BigHash \<Rightarrow> nat" where
  "estimateWriteSize s = bucketSize s"

section \<open>Reading and writing buckets\<close>

definition readBucket :: "'d bh_env \<Rightarrow> nat \<Rightarrow> 'd BigHash \<Rightarrow> (Bucket option \<times> 'd BigHash) option" where
  "readBucket env bid s = do {
     (res, dev) \<leftarrow> read_into (env_io env) (getBucketOffset s bid) (getIOAlignedSize (device s) (bucketSize s)) (device s);
     let s = s\<lparr>device := dev\<rparr>
     in case res of
          None \<Rightarrow> Some (None, s)
        | Some buffer \<Rightarrow>
            let bucket = bucket_of buffer;
                checksumSuccess = computeChecksum (env_checksum env) buffer = b_checksum bucket
            in if \<not> checksumSuccess \<or> generationTime s \<noteq> b_generationTime bucket
               then Some (Some (initNew buffer (generationTime s)), s)
               else Some (Some bucket, s) }"

definition writeBucket :: "'d bh_env \<Rightarrow> nat \<Rightarrow> Bucket \<Rightarrow> 'd BigHash \<Rightarrow> (bool \<times> 'd BigHash) option" where
  "writeBucket env bid bucket s = do {
     let bucket = bucket\<lparr>b_checksum := computeChecksum (env_checksum env) (bucket_bytes bucket)\<rparr>
     in do { (res, dev) \<leftarrow> write_buffer (env_io env) (getBucketOffset s bid) (bucket_bytes bucket)
                              (placementHandle s) (device s);
             Some (res, s\<lparr>device := dev\<rparr>) } }"

section \<open>The Bloom filters\<close>

definition bfSet :: "'d bh_env \<Rightarrow> nat \<Rightarrow> u64 \<Rightarrow> 'd BigHash \<Rightarrow> 'd BigHash" where
  "bfSet env bid keyHash s = s\<lparr>bloomFilter := map_option (bf_set (env_combine env) bid keyHash) (bloomFilter s)\<rparr>"

definition bfClear :: "nat \<Rightarrow> 'd BigHash \<Rightarrow> 'd BigHash" where
  "bfClear bid s = s\<lparr>bloomFilter := map_option (bf_clear bid) (bloomFilter s)\<rparr>"

definition bfReject :: "'d bh_env \<Rightarrow> nat \<Rightarrow> u64 \<Rightarrow> 'd BigHash \<Rightarrow> bool \<times> 'd BigHash" where
  "bfReject env bid keyHash s =
     (case bloomFilter s of
        None \<Rightarrow> (False, s)
      | Some f \<Rightarrow>
          let s = count (\<lambda>c. c\<lparr>bfProbeCount := bfProbeCount c + 1\<rparr>) s
          in if \<not> couldExist (env_combine env) bid keyHash f
             then (True, count (\<lambda>c. c\<lparr>bfRejectCount := bfRejectCount c + 1\<rparr>) s)
             else (False, s))"

function rebuildLoop :: "(u64 \<Rightarrow> u64 \<Rightarrow> u64) \<Rightarrow> nat \<Rightarrow> BucketStorage \<Rightarrow> Allocation \<Rightarrow> BloomFilter \<Rightarrow> BloomFilter" where
  "rebuildLoop combine bid st itr f =
     (if itr = Done then f
      else rebuildLoop combine bid st (getNext_st st itr)
             (bf_set combine bid (e_keyHash (sdata st) (a_off itr)) f))"
  by pat_completeness auto
termination by (relation "measure (\<lambda>(c, b, s, itr, f). to_go s itr)") (auto simp: to_go_next)

declare rebuildLoop.simps [simp del]

definition bfRebuild :: "'d bh_env \<Rightarrow> nat \<Rightarrow> Bucket \<Rightarrow> 'd BigHash \<Rightarrow> 'd BigHash" where
  "bfRebuild env bid bucket s =
     (case bloomFilter s of
        None \<Rightarrow> s
      | Some f \<Rightarrow>
          (count (\<lambda>c. c\<lparr>bfRebuildCount := bfRebuildCount c + 1\<rparr>) s)
            \<lparr>bloomFilter := Some (rebuildLoop (env_combine env) bid (b_storage bucket)
                                     (getFirst_st (b_storage bucket)) (bf_clear bid f))\<rparr>)"

section \<open>Operations\<close>

text \<open>The destructor calls collected while the lock was held, made with the hash computed from the key again.\<close>

definition rehashed :: "'d bh_env \<Rightarrow> destructor_call list \<Rightarrow> destructor_call list" where
  "rehashed env calls = map (\<lambda>(hk, v, ev). (makeHK env (hk_key hk), v, ev)) calls"

text \<open>The statistics of an insertion, updated after the lock is released.\<close>

definition insert_stats :: "nat \<Rightarrow> nat \<Rightarrow> nat \<Rightarrow> nat \<Rightarrow> nat \<Rightarrow> nat \<Rightarrow> nat \<Rightarrow> bh_counters \<Rightarrow> bh_counters" where
  "insert_stats oldRemainingBytes newRemainingBytes removed evicted evictExpired written bsize c =
     c\<lparr>usedSizeBytes :=
         (if oldRemainingBytes < newRemainingBytes
          then usedSizeBytes c - of_nat (newRemainingBytes - oldRemainingBytes)
          else usedSizeBytes c + of_nat (oldRemainingBytes - newRemainingBytes)),
       itemCount := itemCount c + 1 - of_nat (evicted + removed),
       evictionCount := evictionCount c + of_nat evicted,
       evictionExpiredCount := evictionExpiredCount c + of_nat evictExpired,
       logicalWrittenCount := logicalWrittenCount c + of_nat written,
       physicalWrittenCount := physicalWrittenCount c + of_nat bsize,
       succInsertCount := succInsertCount c + 1\<rparr>"

definition bh_insert ::
  "'d bh_env \<Rightarrow> HashedKey \<Rightarrow> bytes \<Rightarrow> 'd BigHash \<Rightarrow> (Status \<times> destructor_call list \<times> 'd BigHash) option" where
  "bh_insert env hk v s = do {
     let bid = getBucketId s hk;
         s = count (\<lambda>c. c\<lparr>insertCount := insertCount c + 1\<rparr>) s
     in do {
       (res, s) \<leftarrow> readBucket env bid s;
       case res of
         None \<Rightarrow> Some (DeviceError, [], count (\<lambda>c. c\<lparr>ioErrorCount := ioErrorCount c + 1\<rparr>) s)
       | Some bucket \<Rightarrow>
           let oldRemainingBytes = remainingCapacity (b_storage bucket);
               (removed, calls1, st) = bucket_remove hk (b_storage bucket)
           in do {
             ((evicted, evictExpired), calls2, st) \<leftarrow> bucket_insert hk v (checkExpired s) st;
             let newRemainingBytes = remainingCapacity st;
                 bucket = bucket\<lparr>b_storage := st\<rparr>;
                 s = (if removed + evicted = 0 then bfSet env bid (hk_hash hk) s else bfRebuild env bid bucket s)
             in do {
               (res, s) \<leftarrow> writeBucket env bid bucket s;
               if \<not> res
               then Some (DeviceError, [], count (\<lambda>c. c\<lparr>ioErrorCount := ioErrorCount c + 1\<rparr>) (bfClear bid s))
               else Some (Ok, rehashed env (calls1 @ calls2),
                      count (insert_stats oldRemainingBytes newRemainingBytes removed evicted evictExpired
                               (length (hk_key hk) + length v) (bucketSize s)) s) } } } }"

definition bh_couldExist :: "'d bh_env \<Rightarrow> HashedKey \<Rightarrow> 'd BigHash \<Rightarrow> bool \<times> 'd BigHash" where
  "bh_couldExist env hk s =
     (let (reject, s) = bfReject env (getBucketId s hk) (hk_hash hk) s
      in if reject then (False, count (\<lambda>c. c\<lparr>lookupCount := lookupCount c + 1\<rparr>) s) else (True, s))"

definition bh_lookup :: "'d bh_env \<Rightarrow> HashedKey \<Rightarrow> 'd BigHash \<Rightarrow> ((Status \<times> bytes option) \<times> 'd BigHash) option" where
  "bh_lookup env hk s =
     (let bid = getBucketId s hk;
          s = count (\<lambda>c. c\<lparr>lookupCount := lookupCount c + 1\<rparr>) s;
          (reject, s) = bfReject env bid (hk_hash hk) s
      in if reject then Some ((NotFound, None), s)
         else do {
           (res, s) \<leftarrow> readBucket env bid s;
           case res of
             None \<Rightarrow> Some ((DeviceError, None), count (\<lambda>c. c\<lparr>ioErrorCount := ioErrorCount c + 1\<rparr>) s)
           | Some bucket \<Rightarrow>
               (case bucket_find hk (b_storage bucket) of
                  None \<Rightarrow> Some ((NotFound, None), count (\<lambda>c. c\<lparr>bfFalsePositiveCount := bfFalsePositiveCount c + 1\<rparr>) s)
                | Some v \<Rightarrow> Some ((Ok, Some v), count (\<lambda>c. c\<lparr>succLookupCount := succLookupCount c + 1\<rparr>) s)) })"

definition remove_stats :: "nat \<Rightarrow> nat \<Rightarrow> nat \<Rightarrow> bh_counters \<Rightarrow> bh_counters" where
  "remove_stats oldRemainingBytes newRemainingBytes bsize c =
     c\<lparr>usedSizeBytes := usedSizeBytes c - of_nat (newRemainingBytes - oldRemainingBytes),
       itemCount := itemCount c - 1,
       physicalWrittenCount := physicalWrittenCount c + of_nat bsize,
       succRemoveCount := succRemoveCount c + 1\<rparr>"

definition bh_remove :: "'d bh_env \<Rightarrow> HashedKey \<Rightarrow> 'd BigHash \<Rightarrow> (Status \<times> destructor_call list \<times> 'd BigHash) option" where
  "bh_remove env hk s =
     (let bid = getBucketId s hk;
          s = count (\<lambda>c. c\<lparr>removeCount := removeCount c + 1\<rparr>) s;
          (reject, s) = bfReject env bid (hk_hash hk) s
      in if reject then Some (NotFound, [], s)
         else do {
           (res, s) \<leftarrow> readBucket env bid s;
           case res of
             None \<Rightarrow> Some (DeviceError, [], count (\<lambda>c. c\<lparr>ioErrorCount := ioErrorCount c + 1\<rparr>) s)
           | Some bucket \<Rightarrow>
               let oldRemainingBytes = remainingCapacity (b_storage bucket);
                   (removed, calls, st) = bucket_remove hk (b_storage bucket)
               in if removed = 0
                  then Some (NotFound, [], count (\<lambda>c. c\<lparr>bfFalsePositiveCount := bfFalsePositiveCount c + 1\<rparr>) s)
                  else
                    let newRemainingBytes = remainingCapacity st;
                        bucket = bucket\<lparr>b_storage := st\<rparr>;
                        s = bfRebuild env bid bucket s
                    in do {
                      (res, s) \<leftarrow> writeBucket env bid bucket s;
                      if \<not> res
                      then Some (DeviceError, [], count (\<lambda>c. c\<lparr>ioErrorCount := ioErrorCount c + 1\<rparr>) (bfClear bid s))
                      else Some (Ok, map (\<lambda>(_, v, _). (hk, v, Removed)) calls,
                             count (remove_stats oldRemainingBytes newRemainingBytes (bucketSize s)) s) } })"

text \<open>The random pick, for a given random bucket and a given random offset in it.\<close>

definition bh_getRandomAlloc ::
  "'d bh_env \<Rightarrow> nat \<Rightarrow> nat \<Rightarrow> 'd BigHash \<Rightarrow> ((Status \<times> bytes \<times> bytes option) \<times> 'd BigHash) option" where
  "bh_getRandomAlloc env bid randOffset s = do {
     (res, s) \<leftarrow> readBucket env bid s;
     case res of
       None \<Rightarrow> Some ((NotFound, [], None), count (\<lambda>c. c\<lparr>ioErrorCount := ioErrorCount c + 1\<rparr>) s)
     | Some bucket \<Rightarrow>
         (case bucket_getRandomAlloc randOffset (b_storage bucket) of
            None \<Rightarrow> Some ((NotFound, [], None), s)
          | Some (key, v) \<Rightarrow> do {
              key \<leftarrow> key;
              if key = [] then Some ((NotFound, [], None), s) else Some ((Ok, key, Some v), s) }) }"

section \<open>Saving and restoring\<close>

record BigHashPersistentData =
  bpd_version :: u32
  bpd_generationTime :: u64
  bpd_itemCount :: u64
  bpd_bucketSize :: u64
  bpd_cacheBaseOffset :: u64
  bpd_numBuckets :: u64
  bpd_usedSizeBytes :: u64

definition kFormatVersion :: u32 where "kFormatVersion = 10"

definition bh_persist ::
  "(BigHashPersistentData \<Rightarrow> bytes) \<Rightarrow> (BloomFilterPersistentData \<Rightarrow> bytes) \<Rightarrow> 'd BigHash \<Rightarrow> bytes list" where
  "bh_persist enc bf_enc s =
     enc \<lparr>bpd_version = kFormatVersion, bpd_generationTime = generationTime s, bpd_itemCount = itemCount (counters s),
          bpd_bucketSize = of_nat (bucketSize s), bpd_cacheBaseOffset = of_nat (cacheBaseOffset s),
          bpd_numBuckets = of_nat (bh_numBuckets s),
          bpd_usedSizeBytes = usedSizeBytes (counters s)\<rparr> #
     (case bloomFilter s of None \<Rightarrow> [] | Some f \<Rightarrow> bf_persist bf_enc f)"

text \<open>Every exception resets the cache. The clock is read then.\<close>

definition bh_recover ::
  "(bytes \<Rightarrow> BigHashPersistentData option) \<Rightarrow> (bytes \<Rightarrow> BloomFilterPersistentData option) \<Rightarrow> u64 \<Rightarrow>
   bytes list \<Rightarrow> 'd BigHash \<Rightarrow> (bool \<times> 'd BigHash) option" where
  "bh_recover dec bf_dec clock rs s =
     (case rs of
        [] \<Rightarrow> Some (False, bh_reset clock s)
      | r # rs \<Rightarrow>
          (case dec r of
             None \<Rightarrow> Some (False, bh_reset clock s)
           | Some pd \<Rightarrow>
               if bpd_version pd \<noteq> kFormatVersion then Some (False, bh_reset clock s)
               else if unat (bpd_bucketSize pd) \<noteq> bucketSize s \<or> unat (bpd_cacheBaseOffset pd) \<noteq> cacheBaseOffset s \<or>
                       unat (bpd_numBuckets pd) \<noteq> bh_numBuckets s then Some (False, bh_reset clock s)
               else
                 let s = count (\<lambda>c. c\<lparr>itemCount := bpd_itemCount pd, usedSizeBytes := bpd_usedSizeBytes pd\<rparr>)
                           (s\<lparr>generationTime := bpd_generationTime pd\<rparr>)
                 in case bloomFilter s of
                      None \<Rightarrow> Some (True, s)
                    | Some f \<Rightarrow>
                        let (err, f, rs) = bf_recover bf_dec rs f;
                            s = s\<lparr>bloomFilter := Some f\<rparr>
                        in if err = Some OutOfBounds then None
                           else if err \<noteq> None then Some (False, bh_reset clock s) else Some (True, s)))"

section \<open>What a cache on a device holds\<close>

text \<open>The bucket that a buffer read from the device stands for.\<close>

definition bh_decode :: "'d bh_env \<Rightarrow> u64 \<Rightarrow> bytes \<Rightarrow> Bucket" where
  "bh_decode env gen buffer =
     (if computeChecksum (env_checksum env) buffer \<noteq> b_checksum (bucket_of buffer) \<or>
         gen \<noteq> b_generationTime (bucket_of buffer)
      then initNew buffer gen else bucket_of buffer)"

text \<open>A bucket with given entries.\<close>

definition bucket_holds :: "'d BigHash \<Rightarrow> Bucket \<Rightarrow> entry list \<Rightarrow> bool" where
  "bucket_holds s b es \<longleftrightarrow> bucket_rep (b_storage b) es \<and>
     capacity (b_storage b) = bucketSize s - kBucketOverhead \<and> b_generationTime b = generationTime s"

text \<open>The buckets lie on the device, aligned.\<close>

definition bh_geometry :: "('d \<Rightarrow> bool) \<Rightarrow> ('d \<Rightarrow> bytes) \<Rightarrow> 'd BigHash \<Rightarrow> bool" where
  "bh_geometry good disk s \<longleftrightarrow> dev_ok good disk (device s) \<and> kBucketOverhead \<le> bucketSize s \<and> bucketSize s < 2 ^ 32 \<and>
     getIOAlignedSize (device s) (bucketSize s) = bucketSize s \<and> 0 < bh_numBuckets s \<and> bh_numBuckets s \<le> 2 ^ 32 \<and>
     cacheBaseOffset s + bucketSize s * bh_numBuckets s \<le> dev_size (device s) \<and>
     (\<forall>bid < bh_numBuckets s. dev_aligned (device s) (getBucketOffset s bid))"

definition bh_view :: "('d \<Rightarrow> bytes) \<Rightarrow> 'd BigHash \<Rightarrow> nat \<Rightarrow> bytes option" where
  "bh_view disk s bid = dev_view disk (device s) (getBucketOffset s bid) (bucketSize s)"

text \<open>Each bucket holds the entries of a map from bucket to entry list, one per key, in its bucket.\<close>

definition bh_holds :: "('d \<Rightarrow> bytes) \<Rightarrow> 'd bh_env \<Rightarrow> 'd BigHash \<Rightarrow> nat \<Rightarrow> entry list \<Rightarrow> bool" where
  "bh_holds disk env s bid es \<longleftrightarrow>
     (\<forall>buffer. bh_view disk s bid = Some buffer \<longrightarrow>
        bucket_holds s (bh_decode env (generationTime s) buffer) es)"

definition bh_entries_ok :: "'d BigHash \<Rightarrow> nat \<Rightarrow> entry list \<Rightarrow> bool" where
  "bh_entries_ok s bid es \<longleftrightarrow> distinct (map fst es) \<and> (\<forall>e \<in> set es. getBucketId s (fst e) = bid)"

definition bh_filter_ok :: "'d bh_env \<Rightarrow> 'd BigHash \<Rightarrow> (nat \<Rightarrow> entry list) \<Rightarrow> bool" where
  "bh_filter_ok env s M \<longleftrightarrow>
     (\<forall>f. bloomFilter s = Some f \<longrightarrow> bf_wf f \<and> numFilters f = bh_numBuckets s \<and>
        (\<forall>bid < bh_numBuckets s. \<forall>e \<in> set (M bid). couldExist (env_combine env) bid (hk_hash (fst e)) f))"

definition bh_rep :: "('d \<Rightarrow> bool) \<Rightarrow> ('d \<Rightarrow> bytes) \<Rightarrow> 'd bh_env \<Rightarrow> 'd BigHash \<Rightarrow> (nat \<Rightarrow> entry list) \<Rightarrow> bool" where
  "bh_rep good disk env s M \<longleftrightarrow> bh_geometry good disk s \<and> bh_filter_ok env s M \<and>
     (\<forall>bid < bh_numBuckets s. bh_holds disk env s bid (M bid) \<and> bh_entries_ok s bid (M bid))"

lemma initNew_holds:
  assumes "kBucketOverhead \<le> bucketSize s" and "bucketSize s < 2 ^ 32" and "length buffer = bucketSize s"
  shows "bucket_holds s (initNew buffer (generationTime s)) []"
  using assms by (simp add: bucket_holds_def initNew_def bucket_rep_def storage_rep_def BucketStorage_init_def)

lemma getBucketId_less: "bh_geometry good disk s \<Longrightarrow> getBucketId s hk < bh_numBuckets s"
  by (auto simp: getBucketId_def bh_geometry_def intro: le_less_trans [OF mod_less_eq_dividend])

text \<open>Only some members of the state matter to what the cache holds.\<close>

lemma bh_same:
  assumes "bucketSize s' = bucketSize s" "cacheBaseOffset s' = cacheBaseOffset s" "bh_numBuckets s' = bh_numBuckets s"
    "generationTime s' = generationTime s" "device s' = device s"
  shows "bh_geometry good disk s' = bh_geometry good disk s" "bh_holds disk env s' = bh_holds disk env s"
    "bh_entries_ok s' = bh_entries_ok s" "getBucketId s' = getBucketId s"
    "bloomFilter s' = bloomFilter s \<Longrightarrow> bh_filter_ok env s' = bh_filter_ok env s"
    "bloomFilter s' = bloomFilter s \<Longrightarrow> bh_rep good disk env s' = bh_rep good disk env s"
  using assms
  by (simp_all add: bh_geometry_def bh_holds_def bh_view_def bh_entries_ok_def bh_filter_ok_def bh_rep_def
      getBucketId_def getBucketOffset_def bucket_holds_def fun_eq_iff)

lemma buckets_apart:
  assumes "i \<noteq> j"
  shows "apart (getBucketOffset s i) (bucketSize s) (getBucketOffset s j) (bucketSize s)"
proof -
  have "bucketSize s * i + bucketSize s \<le> bucketSize s * j \<or> bucketSize s * j + bucketSize s \<le> bucketSize s * i"
    using assms mult_le_mono2 [of "Suc i" j "bucketSize s"] mult_le_mono2 [of "Suc j" i "bucketSize s"]
    by (cases "i < j") (auto simp: Suc_le_eq add.commute)
  then show ?thesis by (auto simp: apart_def getBucketOffset_def)
qed

lemma bucket_on_device:
  assumes "bh_geometry good disk s" and "bid < bh_numBuckets s"
  shows "getBucketOffset s bid + bucketSize s \<le> dev_size (device s)"
proof -
  have "bucketSize s * Suc bid \<le> bucketSize s * bh_numBuckets s" using assms(2) by (intro mult_le_mono2) simp
  then show ?thesis using assms(1) by (simp add: bh_geometry_def getBucketOffset_def)
qed

context raw_io
begin

lemma readBucket_ok:
  assumes env: "env_io env = impl" and geo: "bh_geometry good disk s" and bid: "bid < bh_numBuckets s"
  shows "\<exists>res dev. readBucket env bid s = Some (res, s\<lparr>device := dev\<rparr>) \<and> bh_geometry good disk (s\<lparr>device := dev\<rparr>) \<and>
    bh_view disk (s\<lparr>device := dev\<rparr>) = bh_view disk s \<and>
    (\<forall>b. res = Some b \<longrightarrow> (\<exists>buffer. bh_view disk s bid = Some buffer \<and> b = bh_decode env (generationTime s) buffer))"
proof -
  let ?off = "getBucketOffset s bid"
  have ok: "dev_ok good disk (device s)" and al: "dev_aligned (device s) ?off"
    and sz: "getIOAlignedSize (device s) (bucketSize s) = bucketSize s"
    using geo bid by (auto simp: bh_geometry_def)
  note fit = bucket_on_device [OF geo bid]
  obtain x dev where rd: "read_into impl ?off (bucketSize s) (device s) = Some (x, dev)"
    using read_into_runs [OF ok fit al] by blast
  note l = read_into_law [OF ok fit rd] and v = bd.rd_done [OF ok fit rd]
  have "bh_geometry good disk (s\<lparr>device := dev\<rparr>)"
    using geo l v by (simp add: bh_geometry_def getIOAlignedSize_def getBucketOffset_def)
  moreover have "bh_view disk (s\<lparr>device := dev\<rparr>) = bh_view disk s"
    using v by (simp add: bh_view_def getBucketOffset_def fun_eq_iff)
  moreover have "readBucket env bid s =
      Some (map_option (bh_decode env (generationTime s)) x, s\<lparr>device := dev\<rparr>)"
    using rd sz env by (auto simp: readBucket_def bh_decode_def Let_def split: option.splits)
  ultimately show ?thesis using l by (auto simp: bh_view_def)
qed

lemma writeBucket_ok:
  assumes env: "env_io env = impl" and geo: "bh_geometry good disk s" and bid: "bid < bh_numBuckets s"
    and b: "bucket_holds s b es"
  shows "\<exists>r dev. writeBucket env bid b s = Some (r, s\<lparr>device := dev\<rparr>) \<and> bh_geometry good disk (s\<lparr>device := dev\<rparr>) \<and>
    (r \<longrightarrow> bh_holds disk env (s\<lparr>device := dev\<rparr>) bid es) \<and>
    (\<forall>j. j \<noteq> bid \<longrightarrow> bh_view disk (s\<lparr>device := dev\<rparr>) j = bh_view disk s j)"
proof -
  let ?off = "getBucketOffset s bid"
  define b' where "b' = b\<lparr>b_checksum := computeChecksum (env_checksum env) (bucket_bytes b)\<rparr>"
  have ok: "dev_ok good disk (device s)" and al: "dev_aligned (device s) ?off" and bs: "kBucketOverhead \<le> bucketSize s"
    using geo bid by (auto simp: bh_geometry_def)
  have r: "storage_rep (b_storage b) (map ebytes es)" and cap: "capacity (b_storage b) = bucketSize s - kBucketOverhead"
    and gen: "b_generationTime b = generationTime s"
    using b by (auto simp: bucket_holds_def bucket_rep_def)
  note rd = storage_repD [OF r]
  have "length (map ebytes es) \<le> length (slots (map ebytes es))" by (induction es) auto
  then have small: "capacity (b_storage b) < 2 ^ 32" "numAllocations (b_storage b) < 2 ^ 32" "endOffset (b_storage b) < 2 ^ 32"
    using rd by simp_all
  have "b_storage b' = b_storage b" by (simp add: b'_def)
  note bb = bucket_of_bytes [of b', unfolded this, OF small]
  have len: "length (bucket_bytes b') = bucketSize s" using bb(2) cap rd(2) bs by simp
  have dec: "bh_decode env (generationTime s) (bucket_bytes b') = b'"
    using bb(1) bucket_of_bytes(3) [OF small] gen by (simp add: bh_decode_def b'_def)
  have fit: "?off + length (bucket_bytes b') \<le> dev_size (device s)"
    using bucket_on_device [OF geo bid] len by simp
  obtain r dev where w: "write_buffer impl ?off (bucket_bytes b') (placementHandle s) (device s) = Some (r, dev)"
    using bd.wr_runs [OF ok al] by blast
  note l = write_buffer_law [OF ok fit w] and v = bd.wr_done [OF ok fit w]
  have "bh_geometry good disk (s\<lparr>device := dev\<rparr>)"
    using geo l v by (simp add: bh_geometry_def getIOAlignedSize_def getBucketOffset_def)
  moreover have "bh_view disk (s\<lparr>device := dev\<rparr>) j = bh_view disk s j" if "j \<noteq> bid" for j
    using v buckets_apart [of bid j s] that len by (simp add: bh_view_def getBucketOffset_def)
  moreover have "bh_holds disk env (s\<lparr>device := dev\<rparr>) bid es" if r
  proof -
    have "bh_view disk (s\<lparr>device := dev\<rparr>) bid = Some (bucket_bytes b')"
      using v that len by (simp add: bh_view_def getBucketOffset_def)
    then show ?thesis using dec b by (simp add: bh_holds_def bucket_holds_def b'_def)
  qed
  moreover have "writeBucket env bid b s = Some (r, s\<lparr>device := dev\<rparr>)"
    using w env by (simp add: writeBucket_def b'_def Let_def)
  ultimately show ?thesis by blast
qed

end

section \<open>The filters after each kind of update\<close>

lemma rebuildLoop_fold:
  assumes rep: "bucket_rep st es"
  shows "rebuildLoop combine bid st (itr_at es k) f = fold (bf_set combine bid) (map (hk_hash \<circ> fst) (drop k es)) f"
proof (induction "length es - k" arbitrary: k f)
  case 0
  then show ?case by (simp add: rebuildLoop.simps)
next
  case (Suc n)
  then have k: "k < length es" by simp
  have "e_keyHash (sdata st) (a_off (itr_at es k)) = hk_hash (fst (es ! k))"
    using arg_cong [OF read_entry(2) [OF rep k], of hk_hash] by (simp add: hashedKey_def)
  with Suc k getNext_itr [OF rep k] drop_nth [OF k] show ?case by (subst rebuildLoop.simps) simp
qed

definition filter_covers :: "'d bh_env \<Rightarrow> BloomFilter \<Rightarrow> nat \<Rightarrow> entry list \<Rightarrow> bool" where
  "filter_covers env f bid es \<longleftrightarrow> (\<forall>e \<in> set es. couldExist (env_combine env) bid (hk_hash (fst e)) f)"

lemma bh_filter_ok_alt:
  "bh_filter_ok env s M \<longleftrightarrow> (\<forall>f. bloomFilter s = Some f \<longrightarrow> bf_wf f \<and> numFilters f = bh_numBuckets s \<and>
     (\<forall>bid < bh_numBuckets s. filter_covers env f bid (M bid)))"
  by (simp add: bh_filter_ok_def filter_covers_def)

lemma bfRebuild_ok:
  assumes f: "bh_filter_ok env s M" and bid: "bid < bh_numBuckets s" and b: "bucket_rep (b_storage b) es"
  shows "bh_filter_ok env (bfRebuild env bid b s) (M(bid := es))"
proof (cases "bloomFilter s")
  case None
  then show ?thesis by (simp add: bh_filter_ok_def bfRebuild_def)
next
  case (Some g)
  let ?ks = "map (hk_hash \<circ> fst) es" and ?c = "env_combine env"
  let ?g = "fold (bf_set ?c bid) ?ks (bf_clear bid g)"
  have g: "bf_wf g" "bid < numFilters g" "numFilters g = bh_numBuckets s" using f Some bid by (auto simp: bh_filter_ok_def)
  note r = bf.rebuild [OF g(1,2), where combine = ?c and ks = ?ks]
  have "bloomFilter (bfRebuild env bid b s) = Some ?g"
    using Some rebuildLoop_fold [OF b, of ?c bid 0] getFirst_itr [OF b] by (simp add: bfRebuild_def)
  moreover have "filter_covers env ?g j ((M(bid := es)) j)" if "j < bh_numBuckets s" for j
    using r(3) r(5) [of j] f Some that g(3) by (cases "j = bid") (auto simp: filter_covers_def bh_filter_ok_def)
  moreover have "bh_numBuckets (bfRebuild env bid b s) = bh_numBuckets s" by (simp add: bfRebuild_def Some)
  ultimately show ?thesis using r(1,2) g(3) by (simp add: bh_filter_ok_alt)
qed

lemma bfSet_ok:
  assumes f: "bh_filter_ok env s M" and bid: "bid < bh_numBuckets s"
  shows "bh_filter_ok env (bfSet env bid (hk_hash hk) s) (M(bid := M bid @ [(hk, v)]))"
proof -
  have "filter_covers env (bf_set (env_combine env) bid (hk_hash hk) g) j ((M(bid := M bid @ [(hk, v)])) j)"
    if g: "bloomFilter s = Some g" and j: "j < bh_numBuckets s" for g j
  proof -
    have w: "bf_wf g" "bid < numFilters g" using f g bid by (auto simp: bh_filter_ok_def)
    note add = bf.add_maybe [OF w, of "env_combine env"] bf.add_keeps [OF w, of "env_combine env"]
    show ?thesis using add f g j by (auto simp: filter_covers_def bh_filter_ok_def)
  qed
  with f bf_set_wf show ?thesis unfolding bh_filter_ok_alt bfSet_def by (cases "bloomFilter s") simp_all
qed

lemma bfClear_ok:
  assumes f: "bh_filter_ok env s M" and bid: "bid < bh_numBuckets s"
  shows "bh_filter_ok env (bfClear bid s) (M(bid := []))"
    "bloomFilter s \<noteq> None \<Longrightarrow> fst (bfReject env bid h (bfClear bid s))"
proof -
  have "filter_covers env (bf_clear bid g) j ((M(bid := [])) j)"
    if g: "bloomFilter s = Some g" and j: "j < bh_numBuckets s" for g j
  proof -
    have w: "bf_wf g" "bid < numFilters g" "j < numFilters g" using f g bid j by (auto simp: bh_filter_ok_def)
    show ?thesis using bf.clear_other [OF w, of "env_combine env"] f g j
      by (cases "j = bid") (auto simp: filter_covers_def bh_filter_ok_def)
  qed
  with f bid bf_clear_wf show "bh_filter_ok env (bfClear bid s) (M(bid := []))"
    unfolding bh_filter_ok_alt bfClear_def by (cases "bloomFilter s") simp_all
  show "fst (bfReject env bid h (bfClear bid s))" if n: "bloomFilter s \<noteq> None"
  proof -
    obtain g where g: "bloomFilter s = Some g" using n by auto
    then have "bf_wf g" "bid < numFilters g" using f bid by (auto simp: bh_filter_ok_def)
    from bf.clear_this [OF this, of "env_combine env" h] g show ?thesis
      by (simp add: bfReject_def bfClear_def Let_def)
  qed
qed

section \<open>The operations on what the cache holds\<close>

text \<open>
  After a failed write nothing is known of the bytes of that bucket; the others are as before, and the
  filters, where there are any, reject every key of that bucket.
\<close>

definition bh_torn :: "('d \<Rightarrow> bool) \<Rightarrow> ('d \<Rightarrow> bytes) \<Rightarrow> 'd bh_env \<Rightarrow> nat \<Rightarrow> 'd BigHash \<Rightarrow> (nat \<Rightarrow> entry list) \<Rightarrow> bool" where
  "bh_torn good disk env bid s M \<longleftrightarrow> bh_geometry good disk s \<and> bh_filter_ok env s (M(bid := [])) \<and>
     (\<forall>j < bh_numBuckets s. j \<noteq> bid \<longrightarrow> bh_holds disk env s j (M j) \<and> bh_entries_ok s j (M j)) \<and>
     (bloomFilter s \<noteq> None \<longrightarrow> (\<forall>h. fst (bfReject env bid h s)))"

lemma bh_torn_same:
  assumes "bucketSize s' = bucketSize s" "cacheBaseOffset s' = cacheBaseOffset s" "bh_numBuckets s' = bh_numBuckets s"
    "generationTime s' = generationTime s" "device s' = device s" "bloomFilter s' = bloomFilter s"
  shows "bh_torn good disk env bid s' M = bh_torn good disk env bid s M"
proof -
  have "fst (bfReject env bid h s') = fst (bfReject env bid h s)" for h
    using assms by (simp add: bfReject_def Let_def split: option.splits)
  with bh_same [OF assms(1-5)] assms show ?thesis by (simp add: bh_torn_def)
qed

lemma bh_holds_view:
  "bh_view disk s' j = bh_view disk s j \<Longrightarrow> bucketSize s' = bucketSize s \<Longrightarrow> generationTime s' = generationTime s \<Longrightarrow>
    bh_holds disk env s' j = bh_holds disk env s j"
  by (simp add: bh_holds_def bucket_holds_def fun_eq_iff)

context raw_io
begin

lemma bh_store_ok:
  assumes env: "env_io env = impl" and geo: "bh_geometry good disk s" and bid: "bid < bh_numBuckets s"
    and hold: "\<And>j. j < bh_numBuckets s \<Longrightarrow> bh_holds disk env s j (M j) \<and> bh_entries_ok s j (M j)"
    and b: "bucket_holds s b es" and es: "bh_entries_ok s bid es" and f: "bh_filter_ok env s (M(bid := es))"
  shows "\<exists>r dev. writeBucket env bid b s = Some (r, s\<lparr>device := dev\<rparr>) \<and>
    (r \<longrightarrow> bh_rep good disk env (s\<lparr>device := dev\<rparr>) (M(bid := es))) \<and>
    (\<not> r \<longrightarrow> bh_torn good disk env bid (bfClear bid (s\<lparr>device := dev\<rparr>)) M)"
proof -
  obtain r dev where w: "writeBucket env bid b s = Some (r, s\<lparr>device := dev\<rparr>)"
    and geo': "bh_geometry good disk (s\<lparr>device := dev\<rparr>)"
    and new: "r \<longrightarrow> bh_holds disk env (s\<lparr>device := dev\<rparr>) bid es"
    and old: "\<And>j. j \<noteq> bid \<Longrightarrow> bh_view disk (s\<lparr>device := dev\<rparr>) j = bh_view disk s j"
    using writeBucket_ok [OF env geo bid b] by blast
  let ?s = "s\<lparr>device := dev\<rparr>"
  have others: "bh_holds disk env ?s j (M j) \<and> bh_entries_ok ?s j (M j)" if "j \<noteq> bid" "j < bh_numBuckets s" for j
    using bh_holds_view [OF old [OF that(1)]] hold [OF that(2)] by (simp add: bh_entries_ok_def getBucketId_def)
  have ff: "bh_filter_ok env ?s (M(bid := es))" using f by (simp add: bh_filter_ok_def)
  have "bh_rep good disk env ?s (M(bid := es))" if r
    using geo' ff others new es that by (simp add: bh_rep_def bh_entries_ok_def getBucketId_def)
  moreover have "bh_torn good disk env bid (bfClear bid ?s) M"
  proof -
    have sm: "bh_geometry good disk (bfClear bid ?s) = bh_geometry good disk ?s"
      "bh_holds disk env (bfClear bid ?s) = bh_holds disk env ?s" "bh_entries_ok (bfClear bid ?s) = bh_entries_ok ?s"
      by (rule bh_same; simp add: bfClear_def)+
    have b': "bid < bh_numBuckets ?s" using bid by simp
    note c = bfClear_ok [OF ff b']
    show ?thesis using geo' others c unfolding bh_torn_def sm by (auto simp: bfClear_def)
  qed
  ultimately show ?thesis using w by blast
qed

text \<open>Reading a bucket keeps what the cache holds and gives the entries.\<close>

lemma bh_load_ok:
  assumes env: "env_io env = impl" and rep: "bh_rep good disk env s M" and bid: "bid < bh_numBuckets s"
  shows "\<exists>res dev. readBucket env bid s = Some (res, s\<lparr>device := dev\<rparr>) \<and> bh_rep good disk env (s\<lparr>device := dev\<rparr>) M \<and>
    (\<forall>b. res = Some b \<longrightarrow> bucket_holds s b (M bid))"
proof -
  have geo: "bh_geometry good disk s" using rep by (simp add: bh_rep_def)
  obtain res dev where r: "readBucket env bid s = Some (res, s\<lparr>device := dev\<rparr>)"
    "bh_geometry good disk (s\<lparr>device := dev\<rparr>)" "bh_view disk (s\<lparr>device := dev\<rparr>) = bh_view disk s"
    "\<And>b. res = Some b \<Longrightarrow> \<exists>buffer. bh_view disk s bid = Some buffer \<and> b = bh_decode env (generationTime s) buffer"
    using readBucket_ok [OF env geo bid] by blast
  have "bh_rep good disk env (s\<lparr>device := dev\<rparr>) M"
    using rep r(2) bh_holds_view [of disk "s\<lparr>device := dev\<rparr>" _ s env] r(3)
    by (simp add: bh_rep_def bh_filter_ok_def bh_entries_ok_def getBucketId_def)
  moreover have "bucket_holds s b (M bid)" if "res = Some b" for b
    using r(4) [OF that] rep bid by (auto simp: bh_rep_def bh_holds_def)
  ultimately show ?thesis using r(1) by blast
qed

end

text \<open>
  What an insertion leaves in its bucket, and the callbacks: the old entry of the key leaves, room is
  made, the new entry comes last.
\<close>

definition bh_room :: "expired_check \<Rightarrow> nat \<Rightarrow> HashedKey \<Rightarrow> bytes \<Rightarrow> entry list \<Rightarrow> entry list \<times> entry list \<times> entry list" where
  "bh_room check cap hk v es = make_room check (esize (hk, v)) cap (filter (\<lambda>e. fst e \<noteq> hk) es)"

definition bh_inserted :: "expired_check \<Rightarrow> nat \<Rightarrow> HashedKey \<Rightarrow> bytes \<Rightarrow> entry list \<Rightarrow> entry list" where
  "bh_inserted check cap hk v es = snd (snd (bh_room check cap hk v es)) @ [(hk, v)]"

definition bh_calls :: "expired_check \<Rightarrow> nat \<Rightarrow> HashedKey \<Rightarrow> bytes \<Rightarrow> entry list \<Rightarrow> destructor_call list" where
  "bh_calls check cap hk v es =
     (case lookup_entry hk es of None \<Rightarrow> [] | Some w \<Rightarrow> [(hk, w, Removed)]) @
     map recycled (fst (bh_room check cap hk v es) @ fst (snd (bh_room check cap hk v es)))"

lemma bh_inserted_ok:
  assumes "bh_entries_ok s bid es" and "getBucketId s hk = bid"
  shows "bh_entries_ok s bid (bh_inserted check cap hk v es)"
proof -
  let ?rest = "filter (\<lambda>e. fst e \<noteq> hk) es" and ?room = "bh_room check cap hk v es"
  have d: "distinct (map fst ?rest)" using assms(1) by (simp add: bh_entries_ok_def distinct_map_filter)
  have "set (snd (snd ?room)) \<subseteq> set ?rest" "distinct (map fst (snd (snd ?room)))"
    using make_room_set(1) [of check "esize (hk, v)" cap ?rest] make_room_set(2) [OF d] by (auto simp: bh_room_def)
  then show ?thesis using assms by (auto simp: bh_entries_ok_def bh_inserted_def)
qed

text \<open>The two steps on the bucket in memory.\<close>

lemma bucket_update_ok:
  fixes check :: expired_check
  assumes b: "bucket_holds s b es" and d: "distinct (map fst es)" and fit: "esize (hk, v) \<le> bucketSize s - kBucketOverhead"
  defines "room \<equiv> bh_room check (bucketSize s - kBucketOverhead) hk v es"
  shows "\<exists>st1 st2. bucket_remove hk (b_storage b) =
      (if lookup_entry hk es = None then 0 else 1,
       case lookup_entry hk es of None \<Rightarrow> [] | Some w \<Rightarrow> [(hk, w, Removed)], st1) \<and>
    bucket_insert hk v check st1 =
      Some ((length (fst room) + length (fst (snd room)), length (fst room)),
        map recycled (fst room @ fst (snd room)), st2) \<and>
    bucket_holds s (b\<lparr>b_storage := st2\<rparr>) (bh_inserted check (bucketSize s - kBucketOverhead) hk v es)"
proof -
  have rep: "bucket_rep (b_storage b) es" and cap: "capacity (b_storage b) = bucketSize s - kBucketOverhead"
    and gen: "b_generationTime b = generationTime s" using b by (auto simp: bucket_holds_def)
  obtain st1 where st1: "bucket_remove hk (b_storage b) =
      (if bucket_find hk (b_storage b) = None then 0 else 1,
       case bucket_find hk (b_storage b) of None \<Rightarrow> [] | Some w \<Rightarrow> [(hk, w, Removed)], st1)"
    "bucket_rep st1 (filter (\<lambda>e. fst e \<noteq> hk) es)" "capacity st1 = bucketSize s - kBucketOverhead"
    using bucket_remove_then [OF rep d] cap by metis
  have "esize (hk, v) \<le> capacity st1" using fit st1(3) by simp
  from bucket_insert_ok [OF st1(2) this, of check] st1(3) obtain st2 where
    "bucket_insert hk v check st1 = Some ((length (fst room) + length (fst (snd room)), length (fst room)),
        map recycled (fst room @ fst (snd room)), st2)"
    "bucket_rep st2 (snd (snd room) @ [(hk, v)])" "capacity st2 = bucketSize s - kBucketOverhead"
    by (auto simp: room_def bh_room_def)
  with st1(1) gen show ?thesis
    unfolding bucket_find_ok [OF rep] by (auto simp: bucket_holds_def bh_inserted_def room_def)
qed

text \<open>When nothing left the bucket, the new entry is the only change.\<close>

lemma bh_inserted_plain:
  assumes "lookup_entry hk es = None" and "fst (bh_room check cap hk v es) = []" and "fst (snd (bh_room check cap hk v es)) = []"
  shows "bh_inserted check cap hk v es = es @ [(hk, v)]"
proof -
  have rest: "filter (\<lambda>e. fst e \<noteq> hk) es = es"
    using assms(1) by (subst (asm) lookup_entry_None) (force simp: filter_id_conv)
  have "snd (snd (make_room check (esize (hk, v)) cap es)) = es"
    using assms(2,3) evict_append [of "esize (hk, v)" "cap - used es" es] unfolding bh_room_def rest
    by (auto simp: make_room_def Let_def filter_empty_conv filter_id_conv split: option.splits if_splits)
  then show ?thesis by (simp add: bh_inserted_def bh_room_def rest)
qed

text \<open>The counters do not matter, and are moved out of the way.\<close>

lemma bh_rep_count [simp]: "bh_rep good disk env (s\<lparr>counters := c\<rparr>) M = bh_rep good disk env s M"
  by (rule fun_cong [OF bh_same(6)]) simp_all

lemma bh_torn_count [simp]: "bh_torn good disk env bid (s\<lparr>counters := c\<rparr>) M = bh_torn good disk env bid s M"
  by (rule bh_torn_same) simp_all

lemma bh_commute:
  "s\<lparr>counters := c, device := d\<rparr> = s\<lparr>device := d, counters := c\<rparr>"
  "s\<lparr>counters := c, bloomFilter := f\<rparr> = s\<lparr>bloomFilter := f, counters := c\<rparr>"
  "s\<lparr>bloomFilter := f, device := d\<rparr> = s\<lparr>device := d, bloomFilter := f\<rparr>"
  by simp_all

lemma bf_updates_fields [simp]:
  "bucketSize (bfSet env bid h s) = bucketSize s" "cacheBaseOffset (bfSet env bid h s) = cacheBaseOffset s"
  "bh_numBuckets (bfSet env bid h s) = bh_numBuckets s" "generationTime (bfSet env bid h s) = generationTime s"
  "device (bfSet env bid h s) = device s"
  "bucketSize (bfRebuild env bid b s) = bucketSize s" "cacheBaseOffset (bfRebuild env bid b s) = cacheBaseOffset s"
  "bh_numBuckets (bfRebuild env bid b s) = bh_numBuckets s" "generationTime (bfRebuild env bid b s) = generationTime s"
  "device (bfRebuild env bid b s) = device s"
  by (simp_all add: bfSet_def bfRebuild_def split: option.splits)

text \<open>An insertion once its steps are known.\<close>

lemma bh_insert_steps:
  assumes "readBucket env (getBucketId s hk) (count (\<lambda>c. c\<lparr>insertCount := insertCount c + 1\<rparr>) s) = Some (Some b, s2)"
    and "bucket_remove hk (b_storage b) = (n, calls1, st1)"
    and "bucket_insert hk v (checkExpired s2) st1 = Some ((ev, ex), calls2, st2)"
    and "writeBucket env (getBucketId s hk) (b\<lparr>b_storage := st2\<rparr>)
      (if n + ev = 0 then bfSet env (getBucketId s hk) (hk_hash hk) s2
       else bfRebuild env (getBucketId s hk) (b\<lparr>b_storage := st2\<rparr>) s2) = Some (r, s4)"
  shows "bh_insert env hk v s = (if r
    then Some (Ok, rehashed env (calls1 @ calls2),
      count (insert_stats (remainingCapacity (b_storage b)) (remainingCapacity st2) n ev ex
        (length (hk_key hk) + length v) (bucketSize s4)) s4)
    else Some (DeviceError, [], count (\<lambda>c. c\<lparr>ioErrorCount := ioErrorCount c + 1\<rparr>) (bfClear (getBucketId s hk) s4)))"
  using assms by (simp add: bh_insert_def Let_def)

text \<open>A new filter state, then the write of the bucket.\<close>

lemma bh_repD:
  assumes "bh_rep good disk env s M" and "bid < bh_numBuckets s"
  shows "bh_geometry good disk s" "bh_filter_ok env s M" "bh_holds disk env s bid (M bid)" "bh_entries_ok s bid (M bid)"
  using assms by (auto simp: bh_rep_def)

context raw_io
begin

lemma bh_refilter_store:
  assumes env: "env_io env = impl" and rep: "bh_rep good disk env s M" and bid: "bid < bh_numBuckets s"
    and same: "bucketSize s' = bucketSize s" "cacheBaseOffset s' = cacheBaseOffset s" "bh_numBuckets s' = bh_numBuckets s"
      "generationTime s' = generationTime s" "device s' = device s"
    and b: "bucket_holds s b es" and es: "bh_entries_ok s bid es" and f: "bh_filter_ok env s' (M(bid := es))"
  shows "\<exists>r dev. writeBucket env bid b s' = Some (r, s'\<lparr>device := dev\<rparr>) \<and>
    (r \<longrightarrow> bh_rep good disk env (s'\<lparr>device := dev\<rparr>) (M(bid := es))) \<and>
    (\<not> r \<longrightarrow> bh_torn good disk env bid (bfClear bid (s'\<lparr>device := dev\<rparr>)) M)"
proof -
  note sm = bh_same [OF same]
  show ?thesis
  proof (rule bh_store_ok [OF env])
    show "bh_geometry good disk s'" "bid < bh_numBuckets s'" using rep bid same by (simp_all add: sm bh_rep_def)
    show "bh_holds disk env s' j (M j) \<and> bh_entries_ok s' j (M j)" if "j < bh_numBuckets s'" for j
      using rep that same by (simp add: sm bh_rep_def)
    show "bucket_holds s' b es" using b same by (simp add: bucket_holds_def)
    show "bh_entries_ok s' bid es" using es by (simp add: sm)
    show "bh_filter_ok env s' (M(bid := es))" by (rule f)
  qed
qed

lemma bh_insert_ok:
  assumes env: "env_io env = impl" and rep: "bh_rep good disk env s M"
    and fit: "esize (hk, v) \<le> bucketSize s - kBucketOverhead"
  defines "bid \<equiv> getBucketId s hk" and "cap \<equiv> bucketSize s - kBucketOverhead"
  shows "\<exists>st calls s'. bh_insert env hk v s = Some (st, calls, s') \<and>
    (st = Ok \<and> calls = rehashed env (bh_calls (checkExpired s) cap hk v (M bid)) \<and>
       bh_rep good disk env s' (M(bid := bh_inserted (checkExpired s) cap hk v (M bid))) \<or>
     st = DeviceError \<and> calls = [] \<and> (bh_rep good disk env s' M \<or> bh_torn good disk env bid s' M))"
proof -
  let ?s = "count (\<lambda>c. c\<lparr>insertCount := insertCount c + 1\<rparr>) s" and ?new = "bh_inserted (checkExpired s) cap hk v (M bid)"
  have bid: "bid < bh_numBuckets s" using rep getBucketId_less by (auto simp: bid_def bh_rep_def)
  have rep1: "bh_rep good disk env ?s M" using rep by simp
  have bid1: "bid < bh_numBuckets ?s" using bid by simp
  obtain res dev where rd: "readBucket env bid ?s = Some (res, ?s\<lparr>device := dev\<rparr>)"
    and rep2: "bh_rep good disk env (?s\<lparr>device := dev\<rparr>) M" and b: "\<And>b. res = Some b \<Longrightarrow> bucket_holds ?s b (M bid)"
    using bh_load_ok [OF env rep1 bid1] by blast
  let ?s2 = "?s\<lparr>device := dev\<rparr>"
  show ?thesis
  proof (cases res)
    case None
    with rd rep2 show ?thesis by (simp add: bh_insert_def Let_def bid_def bh_commute)
  next
    case (Some b0)
    have b0: "bucket_holds ?s2 b0 (M bid)" using b [OF Some] by (simp add: bucket_holds_def)
    have ents: "bh_entries_ok ?s2 bid (M bid)" using bh_repD(4) [OF rep2] bid by simp
    have fit2: "esize (hk, v) \<le> bucketSize ?s2 - kBucketOverhead" using fit by simp
    obtain st1 st2 where u: "bucket_remove hk (b_storage b0) =
        (if lookup_entry hk (M bid) = None then 0 else 1,
         case lookup_entry hk (M bid) of None \<Rightarrow> [] | Some w \<Rightarrow> [(hk, w, Removed)], st1)"
      "bucket_insert hk v (checkExpired s) st1 =
        Some ((length (fst (bh_room (checkExpired s) cap hk v (M bid))) + length (fst (snd (bh_room (checkExpired s) cap hk v (M bid)))),
          length (fst (bh_room (checkExpired s) cap hk v (M bid)))),
          map recycled (fst (bh_room (checkExpired s) cap hk v (M bid)) @ fst (snd (bh_room (checkExpired s) cap hk v (M bid)))), st2)"
      "bucket_holds ?s2 (b0\<lparr>b_storage := st2\<rparr>) ?new"
      using bucket_update_ok [OF b0 _ fit2, of "checkExpired s"] ents by (auto simp: bh_entries_ok_def cap_def)
    let ?b = "b0\<lparr>b_storage := st2\<rparr>" and ?room = "bh_room (checkExpired s) cap hk v (M bid)"
    let ?plain = "lookup_entry hk (M bid) = None \<and> fst ?room = [] \<and> fst (snd ?room) = []"
    let ?s3 = "if ?plain then bfSet env bid (hk_hash hk) ?s2 else bfRebuild env bid ?b ?s2"
    have "bh_filter_ok env ?s3 (M(bid := ?new))"
      using bfSet_ok [OF bh_repD(2) [OF rep2], of bid bid hk v] bh_inserted_plain [of hk "M bid" "checkExpired s" cap v]
        bfRebuild_ok [OF bh_repD(2) [OF rep2], of bid bid ?b ?new] bid u(3) by (auto simp: bucket_holds_def)
    moreover have "bh_entries_ok ?s2 bid ?new"
      by (rule bh_inserted_ok [OF ents]) (simp add: bid_def getBucketId_def)
    moreover have "bid < bh_numBuckets ?s2" using bid by simp
    ultimately obtain r dev' where w: "writeBucket env bid ?b ?s3 = Some (r, ?s3\<lparr>device := dev'\<rparr>)"
      "r \<longrightarrow> bh_rep good disk env (?s3\<lparr>device := dev'\<rparr>) (M(bid := ?new))"
      "\<not> r \<longrightarrow> bh_torn good disk env bid (bfClear bid (?s3\<lparr>device := dev'\<rparr>)) M"
      using bh_refilter_store [OF env rep2 _ _ _ _ _ _ u(3), of bid ?s3] by (auto split: if_splits)
    have c: "(if lookup_entry hk (M bid) = None then 0 else 1) + (length (fst ?room) + length (fst (snd ?room))) = 0 \<longleftrightarrow> ?plain"
      by auto
    have "checkExpired ?s2 = checkExpired s" by simp
    note steps = bh_insert_steps [OF rd [unfolded bid_def Some] u(1), folded bid_def, unfolded this, OF u(2), unfolded c, OF w(1)]
    show ?thesis
    proof (cases r)
      case True
      with steps w(2) show ?thesis by (simp add: bh_calls_def)
    next
      case False
      with steps w(3) show ?thesis by simp
    qed
  qed
qed

end

lemma bfReject_cases:
  "\<exists>c. snd (bfReject env bid h s) = s\<lparr>counters := c\<rparr>"
proof (cases "bloomFilter s")
  case None
  then show ?thesis by (intro exI [of _ "counters s"]) (simp add: bfReject_def)
qed (auto simp: bfReject_def Let_def)

text \<open>The filters reject no key that is there.\<close>

lemma bfReject_absent:
  assumes rep: "bh_rep good disk env s M" and bid: "bid = getBucketId s hk" "bid < bh_numBuckets s"
    and rej: "fst (bfReject env bid (hk_hash hk) s)"
  shows "lookup_entry hk (M bid) = None"
proof -
  obtain f where f: "bloomFilter s = Some f" "\<not> couldExist (env_combine env) bid (hk_hash hk) f"
    using rej by (auto simp: bfReject_def Let_def split: option.splits if_splits)
  then have "hk \<notin> fst ` set (M bid)" using rep bid(2) by (auto simp: bh_rep_def bh_filter_ok_def)
  then show ?thesis by (subst lookup_entry_None)
qed

text \<open>A removal once its steps are known.\<close>

lemma bh_remove_steps:
  assumes "bfReject env (getBucketId s hk) (hk_hash hk) (count (\<lambda>c. c\<lparr>removeCount := removeCount c + 1\<rparr>) s) = (False, s1)"
    and "readBucket env (getBucketId s hk) s1 = Some (Some b, s2)"
    and "bucket_remove hk (b_storage b) = (n, calls, st)" and "n \<noteq> 0"
    and "writeBucket env (getBucketId s hk) (b\<lparr>b_storage := st\<rparr>)
      (bfRebuild env (getBucketId s hk) (b\<lparr>b_storage := st\<rparr>) s2) = Some (r, s4)"
  shows "bh_remove env hk s = (if r
    then Some (Ok, map (\<lambda>(_, v, _). (hk, v, Removed)) calls,
      count (remove_stats (remainingCapacity (b_storage b)) (remainingCapacity st) (bucketSize s4)) s4)
    else Some (DeviceError, [], count (\<lambda>c. c\<lparr>ioErrorCount := ioErrorCount c + 1\<rparr>) (bfClear (getBucketId s hk) s4)))"
  using assms by (simp add: bh_remove_def Let_def)

context raw_io
begin

lemma bh_lookup_ok:
  fixes hk :: HashedKey
  assumes env: "env_io env = impl" and rep: "bh_rep good disk env s M"
  defines "bid \<equiv> getBucketId s hk"
  shows "\<exists>st val s'. bh_lookup env hk s = Some ((st, val), s') \<and> bh_rep good disk env s' M \<and>
    (st = DeviceError \<and> val = None \<or>
     val = lookup_entry hk (M bid) \<and> st = (if val = None then NotFound else Ok))"
proof -
  let ?s = "count (\<lambda>c. c\<lparr>lookupCount := lookupCount c + 1\<rparr>) s"
  have bid: "bid < bh_numBuckets s" using rep getBucketId_less by (auto simp: bid_def bh_rep_def)
  obtain rej c where rj: "bfReject env bid (hk_hash hk) ?s = (rej, ?s\<lparr>counters := c\<rparr>)"
    using bfReject_cases [of env bid "hk_hash hk" ?s] by (metis prod.collapse)
  let ?s1 = "s\<lparr>counters := c\<rparr>"
  have rep1: "bh_rep good disk env ?s1 M" and bid1: "bid < bh_numBuckets ?s1" using rep bid by simp_all
  show ?thesis
  proof (cases rej)
    case True
    have "lookup_entry hk (M bid) = None"
      using bfReject_absent [of good disk env ?s M bid hk] rep bid rj True by (simp add: bid_def getBucketId_def)
    with rj True rep show ?thesis by (simp add: bh_lookup_def Let_def flip: bid_def)
  next
    case False
    obtain res dev where rd: "readBucket env bid ?s1 = Some (res, ?s1\<lparr>device := dev\<rparr>)"
      and rep2: "bh_rep good disk env (?s1\<lparr>device := dev\<rparr>) M" and b: "\<And>b. res = Some b \<Longrightarrow> bucket_holds ?s1 b (M bid)"
      using bh_load_ok [OF env rep1 bid1] by blast
    show ?thesis
    proof (cases res)
      case None
      with rj False rd rep2 show ?thesis by (simp add: bh_lookup_def Let_def bh_commute flip: bid_def)
    next
      case (Some b0)
      then have "bucket_rep (b_storage b0) (M bid)" using b by (simp add: bucket_holds_def)
      note f = bucket_find_ok [OF this, of hk]
      show ?thesis
      proof (cases "lookup_entry hk (M bid)")
        case None
        with f have "bucket_find hk (b_storage b0) = None" by simp
        with None rj False rd Some rep2 show ?thesis by (simp add: bh_lookup_def Let_def bh_commute flip: bid_def)
      next
        case (Some v)
        with f have "bucket_find hk (b_storage b0) = Some v" by simp
        with Some rj False rd \<open>res = Some b0\<close> rep2 show ?thesis
          by (auto simp: bh_lookup_def Let_def bh_commute simp flip: bid_def)
      qed
    qed
  qed
qed

lemma bh_couldExist_ok:
  assumes "bh_rep good disk env s M"
  shows "bh_rep good disk env (snd (bh_couldExist env hk s)) M \<and>
    (\<not> fst (bh_couldExist env hk s) \<longrightarrow> lookup_entry hk (M (getBucketId s hk)) = None)"
proof -
  let ?bid = "getBucketId s hk"
  have bid: "?bid < bh_numBuckets s" using assms getBucketId_less by (auto simp: bh_rep_def)
  obtain rej c where rj: "bfReject env ?bid (hk_hash hk) s = (rej, s\<lparr>counters := c\<rparr>)"
    using bfReject_cases [of env ?bid "hk_hash hk" s] by (metis prod.collapse)
  with bfReject_absent [OF assms refl bid] assms show ?thesis by (simp add: bh_couldExist_def)
qed

text \<open>Taking a key out of a bucket that was read, and writing the bucket.\<close>

lemma bh_take_out:
  fixes hk :: HashedKey
  assumes env: "env_io env = impl" and rep: "bh_rep good disk env s M" and bid: "bid < bh_numBuckets s"
    and b: "bucket_holds s b (M bid)"
  defines "new \<equiv> filter (\<lambda>e. fst e \<noteq> hk) (M bid)"
  shows "\<exists>st r dev. bucket_remove hk (b_storage b) = (if lookup_entry hk (M bid) = None then 0 else 1,
      case lookup_entry hk (M bid) of None \<Rightarrow> [] | Some w \<Rightarrow> [(hk, w, Removed)], st) \<and>
    writeBucket env bid (b\<lparr>b_storage := st\<rparr>) (bfRebuild env bid (b\<lparr>b_storage := st\<rparr>) s) =
      Some (r, (bfRebuild env bid (b\<lparr>b_storage := st\<rparr>) s)\<lparr>device := dev\<rparr>) \<and>
    (r \<longrightarrow> bh_rep good disk env ((bfRebuild env bid (b\<lparr>b_storage := st\<rparr>) s)\<lparr>device := dev\<rparr>) (M(bid := new))) \<and>
    (\<not> r \<longrightarrow> bh_torn good disk env bid (bfClear bid ((bfRebuild env bid (b\<lparr>b_storage := st\<rparr>) s)\<lparr>device := dev\<rparr>)) M)"
proof -
  have h: "bucket_rep (b_storage b) (M bid)" "capacity (b_storage b) = bucketSize s - kBucketOverhead"
    "b_generationTime b = generationTime s" using b by (simp_all add: bucket_holds_def)
  have ents: "bh_entries_ok s bid (M bid)" using bh_repD(4) [OF rep bid] .
  then obtain st where st: "bucket_remove hk (b_storage b) = (if lookup_entry hk (M bid) = None then 0 else 1,
      case lookup_entry hk (M bid) of None \<Rightarrow> [] | Some w \<Rightarrow> [(hk, w, Removed)], st)"
    "bucket_rep st new" "capacity st = capacity (b_storage b)"
    using bucket_remove_then [OF h(1), of hk] unfolding bucket_find_ok [OF h(1)] bh_entries_ok_def new_def by blast
  let ?b = "b\<lparr>b_storage := st\<rparr>"
  have bh: "bucket_holds s ?b new" using st h by (simp add: bucket_holds_def)
  have f: "bh_filter_ok env (bfRebuild env bid ?b s) (M(bid := new))"
    using bfRebuild_ok [OF bh_repD(2) [OF rep bid] bid, of ?b new] st by simp
  have e: "bh_entries_ok s bid new" using ents by (auto simp: bh_entries_ok_def distinct_map_filter new_def)
  from bh_refilter_store [OF env rep bid _ _ _ _ _ bh e f] st(1) show ?thesis by auto
qed

lemma bh_remove_ok:
  fixes hk :: HashedKey
  assumes env: "env_io env = impl" and rep: "bh_rep good disk env s M"
  defines "bid \<equiv> getBucketId s hk"
  shows "\<exists>st calls s'. bh_remove env hk s = Some (st, calls, s') \<and>
    (st = NotFound \<and> lookup_entry hk (M bid) = None \<and> calls = [] \<and> bh_rep good disk env s' M \<or>
     st = Ok \<and> (\<exists>w. lookup_entry hk (M bid) = Some w \<and> calls = [(hk, w, Removed)]) \<and>
       bh_rep good disk env s' (M(bid := filter (\<lambda>e. fst e \<noteq> hk) (M bid))) \<or>
     st = DeviceError \<and> calls = [] \<and> (bh_rep good disk env s' M \<or> bh_torn good disk env bid s' M))"
proof -
  let ?s = "count (\<lambda>c. c\<lparr>removeCount := removeCount c + 1\<rparr>) s" and ?new = "filter (\<lambda>e. fst e \<noteq> hk) (M bid)"
  have bid: "bid < bh_numBuckets s" using rep getBucketId_less by (auto simp: bid_def bh_rep_def)
  obtain rej c where rj: "bfReject env bid (hk_hash hk) ?s = (rej, ?s\<lparr>counters := c\<rparr>)"
    using bfReject_cases [of env bid "hk_hash hk" ?s] by (metis prod.collapse)
  let ?s1 = "s\<lparr>counters := c\<rparr>"
  have rep1: "bh_rep good disk env ?s1 M" and bid1: "bid < bh_numBuckets ?s1" using rep bid by simp_all
  show ?thesis
  proof (cases rej)
    case True
    have "lookup_entry hk (M bid) = None"
      using bfReject_absent [of good disk env ?s M bid hk] rep bid rj True by (simp add: bid_def getBucketId_def)
    with rj True rep show ?thesis by (simp add: bh_remove_def Let_def flip: bid_def)
  next
    case False
    obtain res dev where rd: "readBucket env bid ?s1 = Some (res, ?s1\<lparr>device := dev\<rparr>)"
      and rep2: "bh_rep good disk env (?s1\<lparr>device := dev\<rparr>) M" and b: "\<And>b. res = Some b \<Longrightarrow> bucket_holds ?s1 b (M bid)"
      using bh_load_ok [OF env rep1 bid1] by blast
    let ?s2 = "?s1\<lparr>device := dev\<rparr>"
    show ?thesis
    proof (cases res)
      case None
      with rj False rd rep2 show ?thesis by (simp add: bh_remove_def Let_def bh_commute flip: bid_def)
    next
      case (Some b0)
      have "bucket_holds ?s2 b0 (M bid)" "bid < bh_numBuckets ?s2"
        using b [OF Some] bid by (simp_all add: bucket_holds_def)
      then obtain st r dev' where st: "bucket_remove hk (b_storage b0) = (if lookup_entry hk (M bid) = None then 0 else 1,
          case lookup_entry hk (M bid) of None \<Rightarrow> [] | Some w \<Rightarrow> [(hk, w, Removed)], st)"
        and wr: "writeBucket env bid (b0\<lparr>b_storage := st\<rparr>) (bfRebuild env bid (b0\<lparr>b_storage := st\<rparr>) ?s2) =
          Some (r, (bfRebuild env bid (b0\<lparr>b_storage := st\<rparr>) ?s2)\<lparr>device := dev'\<rparr>)"
          "r \<longrightarrow> bh_rep good disk env ((bfRebuild env bid (b0\<lparr>b_storage := st\<rparr>) ?s2)\<lparr>device := dev'\<rparr>) (M(bid := ?new))"
          "\<not> r \<longrightarrow> bh_torn good disk env bid (bfClear bid ((bfRebuild env bid (b0\<lparr>b_storage := st\<rparr>) ?s2)\<lparr>device := dev'\<rparr>)) M"
        using bh_take_out [OF env rep2, of bid b0 hk] by blast
      show ?thesis
      proof (cases "lookup_entry hk (M bid)")
        case None
        with st rj False rd Some rep2 show ?thesis by (simp add: bh_remove_def Let_def bh_commute flip: bid_def)
      next
        case w: (Some w)
        have rj': "bfReject env bid (hk_hash hk) ?s = (False, ?s1)" using rj False by simp
        have "bucket_remove hk (b_storage b0) = (1, [(hk, w, Removed)], st)" using st w by simp
        note steps = bh_remove_steps [of env s hk, folded bid_def, OF rj' rd [unfolded Some] this _ wr(1)]
        with wr(2,3) w show ?thesis by (cases r) simp_all
      qed
    qed
  qed
qed

end

section \<open>Runs on a reliable device\<close>

text \<open>The memory device without an encryptor: no read and no write fails.\<close>

lemma readLoop_memory:
  "0 < mx \<or> n = 0 \<Longrightarrow> \<exists>d dev'. readLoop MemoryDevice mx off n acc dev = (Some d, dev') \<and> encryptor dev' = encryptor dev"
proof (induction n arbitrary: off acc dev rule: less_induct)
  case (less n)
  show ?case
  proof (cases "n = 0")
    case True
    then show ?thesis by (simp add: readLoop.simps)
  next
    case False
    with less.prems have "n - min mx n < n" "0 < mx \<or> n - min mx n = 0" by auto
    from less.IH [OF this] False less.prems show ?thesis
      by (subst readLoop.simps) (fastforce simp: MemoryDevice_def Let_def)
  qed
qed

lemma writeLoop_memory:
  "0 < mx \<or> b = [] \<Longrightarrow> \<exists>dev'. writeLoop MemoryDevice mx h off b dev = (True, dev') \<and> encryptor dev' = encryptor dev"
proof (induction b arbitrary: off dev rule: length_induct)
  case (1 b)
  show ?case
  proof (cases "b = []")
    case True
    then show ?thesis by (simp add: writeLoop.simps)
  next
    case False
    with 1(2) have "length (drop (min mx (length b)) b) < length b" "0 < mx" by auto
    with 1(1) False show ?thesis
      by (subst writeLoop.simps) (fastforce simp: MemoryDevice_def Let_def)
  qed
qed

lemma readBucket_memory:
  assumes "env_io env = MemoryDevice" and "encryptor (device s) = None"
  shows "\<exists>b s'. readBucket env bid s = Some (Some b, s') \<and> encryptor (device s') = None"
proof -
  let ?n = "getIOAlignedSize (device s) (bucketSize s)"
  have "0 < (if maxIOSize (device s) = 0 then ?n else maxIOSize (device s)) \<or> ?n = 0" by auto
  from readLoop_memory [OF this, of "getBucketOffset s bid" "[]" "device s"] assms show ?thesis
    by (auto simp: readBucket_def read_into_def readInternal_def Let_def)
qed

lemma writeBucket_memory:
  assumes "env_io env = MemoryDevice" and "encryptor (device s) = None"
  shows "\<exists>s'. writeBucket env bid b s = Some (True, s') \<and> encryptor (device s') = None"
proof -
  define d where "d = bucket_bytes (b\<lparr>b_checksum := computeChecksum (env_checksum env) (bucket_bytes b)\<rparr>)"
  have "0 < (if maxWriteSize (device s) = 0 then length d else maxWriteSize (device s)) \<or> d = []" by auto
  from writeLoop_memory [OF this, of "placementHandle s" "getBucketOffset s bid" "device s"] assms show ?thesis
    by (auto simp: writeBucket_def write_buffer_def writeInternal_def Let_def simp flip: d_def)
qed

text \<open>What no operation changes.\<close>

definition bh_config :: "'d BigHash \<Rightarrow> nat \<times> nat \<times> expired_check" where
  "bh_config s = (bh_numBuckets s, bucketSize s, checkExpired s)"

lemma bh_config_simps [simp]:
  "bh_config (s\<lparr>counters := c\<rparr>) = bh_config s" "bh_config (s\<lparr>device := d\<rparr>) = bh_config s"
  "bh_config (bfSet env bid h s) = bh_config s" "bh_config (bfRebuild env bid b s) = bh_config s"
  "bh_config (bfClear bid s) = bh_config s" "bh_config (snd (bfReject env bid h s)) = bh_config s"
  by (auto simp: bh_config_def bfSet_def bfRebuild_def bfClear_def bfReject_def Let_def split: option.splits)

lemma readBucket_config: "readBucket env bid s = Some (r, s') \<Longrightarrow> bh_config s' = bh_config s"
  by (auto simp: readBucket_def Let_def split: bind_splits option.splits if_splits)

lemma writeBucket_config: "writeBucket env bid b s = Some (r, s') \<Longrightarrow> bh_config s' = bh_config s"
  by (auto simp: writeBucket_def Let_def split: bind_splits)

lemma bf_device [simp]:
  "device (snd (bfReject env bid h s)) = device s" "device (bfClear bid s) = device s"
  by (auto simp: bfReject_def bfClear_def Let_def split: option.splits)

lemma bh_insert_memory:
  assumes "env_io env = MemoryDevice" and "encryptor (device s) = None" and "bh_insert env hk v s = Some (st, calls, s')"
  shows "st \<noteq> DeviceError \<and> encryptor (device s') = None \<and> bh_config s' = bh_config s"
proof -
  let ?s = "count (\<lambda>c. c\<lparr>insertCount := insertCount c + 1\<rparr>) s" and ?bid = "getBucketId s hk"
  obtain b s2 where rd: "readBucket env ?bid ?s = Some (Some b, s2)" "encryptor (device s2) = None"
    using readBucket_memory [OF assms(1), of ?s ?bid] assms(2) by auto
  obtain n c1 st1 where rm: "bucket_remove hk (b_storage b) = (n, c1, st1)" by (metis prod.exhaust)
  obtain ev ex c2 st2 where ins: "bucket_insert hk v (checkExpired s2) st1 = Some ((ev, ex), c2, st2)"
    using assms(3) rd(1) rm by (auto simp: bh_insert_def Let_def split: bind_splits)
  let ?s3 = "if n + ev = 0 then bfSet env ?bid (hk_hash hk) s2 else bfRebuild env ?bid (b\<lparr>b_storage := st2\<rparr>) s2"
  have "encryptor (device ?s3) = None" using rd(2) by simp
  then obtain s4 where w: "writeBucket env ?bid (b\<lparr>b_storage := st2\<rparr>) ?s3 = Some (True, s4)" "encryptor (device s4) = None"
    using writeBucket_memory [OF assms(1)] by blast
  have "bh_config s4 = bh_config s"
    using writeBucket_config [OF w(1)] readBucket_config [OF rd(1)] by (simp split: if_splits)
  with bh_insert_steps [OF rd(1) rm ins w(1)] assms(3) w(2) show ?thesis by auto
qed

lemma bh_lookup_memory:
  assumes "env_io env = MemoryDevice" and "encryptor (device s) = None" and "bh_lookup env hk s = Some (out, s')"
  shows "fst out \<noteq> DeviceError \<and> encryptor (device s') = None \<and> bh_config s' = bh_config s"
proof -
  let ?s = "count (\<lambda>c. c\<lparr>lookupCount := lookupCount c + 1\<rparr>) s" and ?bid = "getBucketId s hk"
  obtain rej s1 where rj: "bfReject env ?bid (hk_hash hk) ?s = (rej, s1)" by fastforce
  then have s1: "encryptor (device s1) = None" "bh_config s1 = bh_config s"
    using bf_device(1) [of env ?bid "hk_hash hk" ?s] bh_config_simps(6) [of env ?bid "hk_hash hk" ?s] assms(2) by simp_all
  obtain b s2 where rd: "readBucket env ?bid s1 = Some (Some b, s2)" "encryptor (device s2) = None"
    using readBucket_memory [OF assms(1) s1(1)] by blast
  show ?thesis using assms(3) rj s1 rd readBucket_config [OF rd(1)]
    by (auto simp: bh_lookup_def Let_def split: if_splits option.splits)
qed

lemma bh_remove_memory:
  assumes "env_io env = MemoryDevice" and "encryptor (device s) = None" and "bh_remove env hk s = Some (st, calls, s')"
  shows "st \<noteq> DeviceError \<and> encryptor (device s') = None \<and> bh_config s' = bh_config s"
proof -
  let ?s = "count (\<lambda>c. c\<lparr>removeCount := removeCount c + 1\<rparr>) s" and ?bid = "getBucketId s hk"
  obtain rej s1 where rj: "bfReject env ?bid (hk_hash hk) ?s = (rej, s1)" by fastforce
  then have s1: "encryptor (device s1) = None" "bh_config s1 = bh_config s"
    using bf_device(1) [of env ?bid "hk_hash hk" ?s] bh_config_simps(6) [of env ?bid "hk_hash hk" ?s] assms(2) by simp_all
  obtain b s2 where rd: "readBucket env ?bid s1 = Some (Some b, s2)" "encryptor (device s2) = None"
    using readBucket_memory [OF assms(1) s1(1)] by blast
  obtain n c1 st1 where rm: "bucket_remove hk (b_storage b) = (n, c1, st1)" by (metis prod.exhaust)
  have "encryptor (device (bfRebuild env ?bid (b\<lparr>b_storage := st1\<rparr>) s2)) = None" using rd(2) by simp
  then obtain s4 where w: "writeBucket env ?bid (b\<lparr>b_storage := st1\<rparr>) (bfRebuild env ?bid (b\<lparr>b_storage := st1\<rparr>) s2) = Some (True, s4)"
      "encryptor (device s4) = None"
    using writeBucket_memory [OF assms(1)] by blast
  show ?thesis using assms(3) rj s1 rd rm w readBucket_config [OF rd(1)] writeBucket_config [OF w(1)]
    by (auto simp: bh_remove_def Let_def split: if_splits)
qed

text \<open>
  Operations and their outputs, on the cache and on the entry lists of the buckets. The abstract state
  has the number of buckets, the space of one and the expiry check.
\<close>

datatype bh_op = Bh_insert HashedKey bytes | Bh_lookup HashedKey | Bh_remove HashedKey

type_synonym bh_out = "(Status \<times> bytes option \<times> destructor_call list) option"

primrec bh_step :: "'d bh_env \<Rightarrow> bh_op \<Rightarrow> 'd BigHash \<Rightarrow> bh_out \<times> 'd BigHash" where
  "bh_step env (Bh_insert hk v) s =
     (case bh_insert env hk v s of None \<Rightarrow> (None, s) | Some (st, calls, s') \<Rightarrow> (Some (st, None, calls), s'))"
| "bh_step env (Bh_lookup hk) s =
     (case bh_lookup env hk s of None \<Rightarrow> (None, s) | Some ((st, val), s') \<Rightarrow> (Some (st, val, []), s'))"
| "bh_step env (Bh_remove hk) s =
     (case bh_remove env hk s of None \<Rightarrow> (None, s) | Some (st, calls, s') \<Rightarrow> (Some (st, None, calls), s'))"

type_synonym bh_spec_state = "(nat \<times> nat \<times> expired_check) \<times> (nat \<Rightarrow> entry list)"

definition spec_bid :: "bh_spec_state \<Rightarrow> HashedKey \<Rightarrow> nat" where
  "spec_bid a hk = unat (hk_hash hk) mod fst (fst a) mod 2 ^ 32"

definition spec_cap :: "bh_spec_state \<Rightarrow> nat" where
  "spec_cap a = fst (snd (fst a)) - kBucketOverhead"

primrec bh_spec :: "'d bh_env \<Rightarrow> bh_op \<Rightarrow> bh_spec_state \<Rightarrow> bh_out \<times> bh_spec_state" where
  "bh_spec env (Bh_insert hk v) a =
     (let bid = spec_bid a hk; check = snd (snd (fst a)); es = snd a bid
      in (Some (Ok, None, rehashed env (bh_calls check (spec_cap a) hk v es)),
          (fst a, (snd a)(bid := bh_inserted check (spec_cap a) hk v es))))"
| "bh_spec env (Bh_lookup hk) a =
     (let val = lookup_entry hk (snd a (spec_bid a hk))
      in (Some (if val = None then NotFound else Ok, val, []), a))"
| "bh_spec env (Bh_remove hk) a =
     (let bid = spec_bid a hk; es = snd a bid
      in case lookup_entry hk es of
           None \<Rightarrow> (Some (NotFound, None, []), a)
         | Some w \<Rightarrow> (Some (Ok, None, [(hk, w, Removed)]), (fst a, (snd a)(bid := filter (\<lambda>e. fst e \<noteq> hk) es))))"

text \<open>The caller inserts only what fits into a bucket.\<close>

primrec bh_pre :: "bh_op \<Rightarrow> bh_spec_state \<Rightarrow> bool" where
  "bh_pre (Bh_insert hk v) a \<longleftrightarrow> esize (hk, v) \<le> spec_cap a"
| "bh_pre (Bh_lookup hk) a \<longleftrightarrow> True"
| "bh_pre (Bh_remove hk) a \<longleftrightarrow> True"

definition bh_mem_rep :: "bytes bh_env \<Rightarrow> bytes BigHash \<Rightarrow> bh_spec_state \<Rightarrow> bool" where
  "bh_mem_rep env s a \<longleftrightarrow> bh_rep (\<lambda>_. True) (\<lambda>b. b) env s (snd a) \<and> encryptor (device s) = None \<and> bh_config s = fst a"

definition mem_env :: "(bytes \<Rightarrow> u32) \<Rightarrow> (u64 \<Rightarrow> u64 \<Rightarrow> u64) \<Rightarrow> (bytes \<Rightarrow> u64) \<Rightarrow> bytes bh_env" where
  "mem_env crc combine hash = \<lparr>env_io = MemoryDevice, env_checksum = crc, env_combine = combine, env_hash = hash\<rparr>"

lemma mem_env_io [simp]: "env_io (mem_env crc combine hash) = MemoryDevice" by (simp add: mem_env_def)

lemma bh_spec_config: "bh_config s = fst a \<Longrightarrow> getBucketId s hk = spec_bid a hk \<and> bucketSize s - kBucketOverhead = spec_cap a \<and> checkExpired s = snd (snd (fst a))"
  by (auto simp: bh_config_def getBucketId_def spec_bid_def spec_cap_def) (metis fst_conv snd_conv)+

lemma bh_step_simulates:
  assumes env: "env_io env = MemoryDevice" and rep: "bh_mem_rep env s a" and pre: "bh_pre x a"
  shows "bh_mem_rep env (snd (bh_step env x s)) (snd (bh_spec env x a)) \<and> fst (bh_step env x s) = fst (bh_spec env x a)"
proof -
  have r: "bh_rep (\<lambda>_. True) (\<lambda>b. b) env s (snd a)" and e: "encryptor (device s) = None" and c: "bh_config s = fst a"
    using rep by (auto simp: bh_mem_rep_def)
  note cf = bh_spec_config [OF c]
  show ?thesis
  proof (cases x)
    case (Bh_insert hk v)
    obtain st calls s' where i: "bh_insert env hk v s = Some (st, calls, s')"
      and o: "st = Ok \<and> calls = rehashed env (bh_calls (checkExpired s) (bucketSize s - kBucketOverhead) hk v (snd a (getBucketId s hk))) \<and>
          bh_rep (\<lambda>_. True) (\<lambda>b. b) env s' ((snd a)(getBucketId s hk := bh_inserted (checkExpired s) (bucketSize s - kBucketOverhead) hk v (snd a (getBucketId s hk)))) \<or> st = DeviceError"
      using memory.bh_insert_ok [OF env r, of hk v] pre Bh_insert cf by auto
    with bh_insert_memory [OF env e i] cf c Bh_insert show ?thesis by (auto simp: bh_mem_rep_def Let_def)
  next
    case (Bh_lookup hk)
    obtain st val s' where i: "bh_lookup env hk s = Some ((st, val), s')" "bh_rep (\<lambda>_. True) (\<lambda>b. b) env s' (snd a)"
      and o: "st = DeviceError \<or> val = lookup_entry hk (snd a (getBucketId s hk)) \<and> st = (if val = None then NotFound else Ok)"
      using memory.bh_lookup_ok [OF env r, of hk] by blast
    with bh_lookup_memory [OF env e i(1)] cf c Bh_lookup show ?thesis by (auto simp: bh_mem_rep_def Let_def)
  next
    case (Bh_remove hk)
    obtain st calls s' where i: "bh_remove env hk s = Some (st, calls, s')"
      and o: "st = NotFound \<and> lookup_entry hk (snd a (getBucketId s hk)) = None \<and> calls = [] \<and> bh_rep (\<lambda>_. True) (\<lambda>b. b) env s' (snd a) \<or>
          st = Ok \<and> (\<exists>w. lookup_entry hk (snd a (getBucketId s hk)) = Some w \<and> calls = [(hk, w, Removed)]) \<and>
            bh_rep (\<lambda>_. True) (\<lambda>b. b) env s' ((snd a)(getBucketId s hk := filter (\<lambda>e. fst e \<noteq> hk) (snd a (getBucketId s hk)))) \<or> st = DeviceError"
      using memory.bh_remove_ok [OF env r, of hk] by blast
    with bh_remove_memory [OF env e i] cf c Bh_remove show ?thesis by (auto simp: bh_mem_rep_def Let_def)
  qed
qed

interpretation bh_mem: simulation "bh_mem_rep (mem_env crc combine hash)" "bh_step (mem_env crc combine hash)"
  "bh_spec (mem_env crc combine hash)" bh_pre for crc combine hash
  by unfold_locales (use bh_step_simulates [OF mem_env_io] in blast)+

section \<open>New, reset and restored caches\<close>

text \<open>No bucket on the device carries the generation.\<close>

definition bh_fresh :: "('d \<Rightarrow> bytes) \<Rightarrow> 'd BigHash \<Rightarrow> u64 \<Rightarrow> bool" where
  "bh_fresh disk s gen \<longleftrightarrow> (\<forall>bid < bh_numBuckets s. \<forall>buffer. bh_view disk s bid = Some buffer \<longrightarrow>
     b_generationTime (bucket_of buffer) \<noteq> gen)"

lemma bh_reset_fields [simp]:
  "bucketSize (bh_reset clock s) = bucketSize s" "cacheBaseOffset (bh_reset clock s) = cacheBaseOffset s"
  "bh_numBuckets (bh_reset clock s) = bh_numBuckets s" "device (bh_reset clock s) = device s"
  "generationTime (bh_reset clock s) = clock" "bloomFilter (bh_reset clock s) = map_option bf_reset (bloomFilter s)"
  "checkExpired (bh_reset clock s) = checkExpired s"
  by (simp_all add: bh_reset_def)

definition bh_filter_fits :: "'d BigHash \<Rightarrow> bool" where
  "bh_filter_fits s \<longleftrightarrow> (\<forall>f. bloomFilter s = Some f \<longrightarrow> bf_wf f \<and> numFilters f = bh_numBuckets s)"

context raw_io
begin

lemma bh_reset_ok:
  assumes geo: "bh_geometry good disk s" and f: "bh_filter_fits s" and new: "bh_fresh disk s clock"
  shows "bh_rep good disk env (bh_reset clock s) (\<lambda>_. [])"
proof -
  let ?s = "bh_reset clock s"
  have g: "bh_geometry good disk ?s" using geo by (simp add: bh_geometry_def getBucketOffset_def)
  have "bh_holds disk env ?s bid []" if bid: "bid < bh_numBuckets s" for bid
  proof -
    have "bucket_holds ?s (bh_decode env clock buffer) []" if v: "bh_view disk ?s bid = Some buffer" for buffer
    proof -
      have v': "bh_view disk s bid = Some buffer" using v by (simp add: bh_view_def getBucketOffset_def)
      have ok: "dev_ok good disk (device s)" using geo by (simp add: bh_geometry_def)
      have "length buffer = bucketSize s"
        using bd.view_size [OF ok bucket_on_device [OF geo bid]] v' by (simp add: bh_view_def)
      moreover have "bh_decode env clock buffer = initNew buffer clock"
        using new bid v' by (auto simp: bh_fresh_def bh_decode_def)
      ultimately show ?thesis using initNew_holds [of ?s buffer] g by (simp add: bh_geometry_def)
    qed
    then show ?thesis by (simp add: bh_holds_def)
  qed
  moreover have "bh_filter_ok env ?s (\<lambda>_. [])" using f bf_reset_wf by (auto simp: bh_filter_ok_def bh_filter_fits_def)
  ultimately show ?thesis using g by (simp add: bh_rep_def bh_entries_ok_def)
qed

text \<open>After a failed write a lookup in that bucket finds nothing, where there are filters.\<close>

lemma bh_torn_lookup:
  assumes "bh_torn good disk env bid s M" and "bloomFilter s \<noteq> None" and "getBucketId s hk = bid"
  shows "\<exists>s'. bh_lookup env hk s = Some ((NotFound, None), s')"
proof -
  let ?s = "count (\<lambda>c. c\<lparr>lookupCount := lookupCount c + 1\<rparr>) s"
  have "bh_torn good disk env bid ?s M" using assms(1) by simp
  then have "fst (bfReject env bid (hk_hash hk) ?s)" using assms(2) by (simp add: bh_torn_def)
  then show ?thesis using assms(3) by (auto simp: bh_lookup_def Let_def split: prod.splits)
qed

end

lemma bh_recover_persist:
  assumes rep: "bh_rep good disk env s M" and enc: "\<And>x. dec (enc x) = Some x" "\<And>x. bf_dec (bf_enc x) = Some x"
    and same: "bucketSize s0 = bucketSize s" "cacheBaseOffset s0 = cacheBaseOffset s" "bh_numBuckets s0 = bh_numBuckets s"
      "device s0 = device s" "cacheBaseOffset s < 2 ^ 64"
    and f: "rel_option (\<lambda>f0 f. bf_wf f0 \<and> bf_same_config f f0 \<and> hashTableBitSize f < 2 ^ 64 \<and> filterByteSize f < 2 ^ 64 \<and> numFilters f < 2 ^ 32)
      (bloomFilter s0) (bloomFilter s)"
  shows "\<exists>s'. bh_recover dec bf_dec clock (bh_persist enc bf_enc s) s0 = Some (True, s') \<and> bh_rep good disk env s' M \<and>
    itemCount (counters s') = itemCount (counters s) \<and> usedSizeBytes (counters s') = usedSizeBytes (counters s)"
proof -
  define c where "c = (counters s0)\<lparr>itemCount := itemCount (counters s), usedSizeBytes := usedSizeBytes (counters s)\<rparr>"
  let ?s = "s0\<lparr>generationTime := generationTime s, counters := c, bloomFilter := bloomFilter s\<rparr>"
  have w: "unat (of_nat n :: u64) = n" if "n < 2 ^ 64" for n using that by (simp add: unat_of_nat take_bit_nat_eq_self)
  have "bucketSize s < 2 ^ 64" "bh_numBuckets s < 2 ^ 64" using rep by (simp_all add: bh_rep_def bh_geometry_def)
  note w = w [OF this(1)] w [OF this(2)] w [OF same(5)]
  have "bh_recover dec bf_dec clock (bh_persist enc bf_enc s) s0 = Some (True, ?s)"
  proof (cases "bloomFilter s")
    case None
    then have "bloomFilter s0 = None" using f by simp
    with None same(1-3) enc w show ?thesis by (simp add: bh_recover_def bh_persist_def c_def)
  next
    case (Some g)
    then obtain g0 where g0: "bloomFilter s0 = Some g0" "bf_wf g0" "bf_same_config g g0" "hashTableBitSize g < 2 ^ 64"
      "filterByteSize g < 2 ^ 64" "numFilters g < 2 ^ 32"
      using f by (cases "bloomFilter s0") auto
    have "bf_wf g" using rep Some by (auto simp: bh_rep_def bh_filter_ok_def)
    from bf_recover_persist [OF this g0(2,3) enc(2) g0(6,4,5), of "[]"]
    have "bf_recover bf_dec (bf_persist bf_enc g) g0 = (None, g, [])" by simp
    with Some g0(1) same(1-3) enc w show ?thesis by (simp add: bh_recover_def bh_persist_def c_def)
  qed
  moreover have "bh_rep good disk env ?s M = bh_rep good disk env s M"
    by (rule fun_cong [OF bh_same(6)]) (simp_all add: same)
  ultimately show ?thesis using rep by (simp add: c_def)
qed

section \<open>Properties\<close>

text \<open>A header encoding with the law that the thrift serializer documents.\<close>

definition bh_header_enc :: "BigHashPersistentData \<Rightarrow> bytes" where
  "bh_header_enc x = le_bytes 4 (unat (bpd_version x)) @ le_bytes 8 (unat (bpd_generationTime x)) @
     le_bytes 8 (unat (bpd_itemCount x)) @ le_bytes 8 (unat (bpd_bucketSize x)) @
     le_bytes 8 (unat (bpd_cacheBaseOffset x)) @ le_bytes 8 (unat (bpd_numBuckets x)) @
     le_bytes 8 (unat (bpd_usedSizeBytes x))"

definition bh_header_dec :: "bytes \<Rightarrow> BigHashPersistentData option" where
  "bh_header_dec d = Some \<lparr>bpd_version = of_nat (from_le (take 4 d)),
     bpd_generationTime = of_nat (from_le (take 8 (drop 4 d))), bpd_itemCount = of_nat (from_le (take 8 (drop 12 d))),
     bpd_bucketSize = of_nat (from_le (take 8 (drop 20 d))), bpd_cacheBaseOffset = of_nat (from_le (take 8 (drop 28 d))),
     bpd_numBuckets = of_nat (from_le (take 8 (drop 36 d))), bpd_usedSizeBytes = of_nat (from_le (take 8 (drop 44 d)))\<rparr>"

lemma bh_header_roundtrip: "bh_header_dec (bh_header_enc x) = Some x"
proof -
  have "unat (v :: u32) < 256 ^ 4" for v using unsigned_less [of v] by simp
  then show ?thesis by (simp add: bh_header_dec_def bh_header_enc_def)
qed

text \<open>A new cache over zeroed storage holds nothing.\<close>

lemma from_le_zeros: "from_le (replicate n 0) = 0"
  by (induction n) simp_all

lemma bh_validate_ok:
  assumes "bh_validate c = None"
  shows "cfg_bucketSize c * cfg_numBuckets c = cfg_cacheSize c" "0 < cfg_numBuckets c" "cfg_numBuckets c \<le> 2 ^ 32"
    "cfg_bloomFilter c = Some f \<Longrightarrow> numFilters f = cfg_numBuckets c" "0 < cfg_bucketSize c"
    "\<exists>dev. cfg_device c = Some dev"
proof -
  have v: "cfg_bucketSize c \<le> cfg_cacheSize c" "cfg_cacheSize c \<le> cfg_bucketSize c * 2 ^ 32"
    "cfg_cacheSize c mod cfg_bucketSize c = 0" "0 < cfg_bucketSize c"
    using assms by (auto simp: bh_validate_def isPowTwo_def split: if_splits)
  show "0 < cfg_bucketSize c" by (rule v(4))
  show "cfg_bucketSize c * cfg_numBuckets c = cfg_cacheSize c"
    using v(3) mult_div_mod_eq [of "cfg_bucketSize c" "cfg_cacheSize c"] by (simp add: cfg_numBuckets_def)
  show "0 < cfg_numBuckets c" using v(1,4) by (simp add: cfg_numBuckets_def div_greater_zero_iff)
  show "cfg_numBuckets c \<le> 2 ^ 32" unfolding cfg_numBuckets_def
    using div_le_mono [OF v(2), of "cfg_bucketSize c"] v(4) by simp
  show "numFilters f = cfg_numBuckets c" if "cfg_bloomFilter c = Some f"
    using assms that by (auto simp: bh_validate_def split: if_splits)
  show "\<exists>dev. cfg_device c = Some dev" using assms by (auto simp: bh_validate_def split: if_splits)
qed

context raw_io
begin

lemma BigHash_init_ok:
  assumes i: "BigHash_init clock h c = Inr s" and dev: "cfg_device c = Some dev" "dev_ok good disk dev"
    and sz: "kBucketOverhead \<le> cfg_bucketSize c" "cfg_bucketSize c < 2 ^ 32" "getIOAlignedSize dev (cfg_bucketSize c) = cfg_bucketSize c"
    and fit: "cfg_cacheBaseOffset c + cfg_cacheSize c \<le> dev_size dev" and plain: "encryptor dev = None"
    and f: "\<And>f. cfg_bloomFilter c = Some f \<Longrightarrow> bf_wf f"
    and zero: "disk (dev_io dev) = replicate (dev_size dev) 0" and clock: "clock \<noteq> 0"
  shows "bh_rep good disk env s (\<lambda>_. [])" "bh_config s = (cfg_numBuckets c, cfg_bucketSize c, cfg_checkExpired c)"
    "device s = dev" "bloomFilter s = map_option bf_reset (cfg_bloomFilter c)"
proof -
  have v: "bh_validate c = None" using i by (auto simp: BigHash_init_def split: option.splits)
  note v' = bh_validate_ok [OF v]
  let ?s0 = "\<lparr>checkExpired = cfg_checkExpired c, bucketSize = cfg_bucketSize c, cacheBaseOffset = cfg_cacheBaseOffset c,
       bh_numBuckets = cfg_numBuckets c, bloomFilter = cfg_bloomFilter c, generationTime = 0,
       device = dev, placementHandle = h, counters = no_counts\<rparr>"
  have s: "s = bh_reset clock ?s0" using i v dev(1) by (simp add: BigHash_init_def)
  have geo: "bh_geometry good disk ?s0"
    using sz fit plain dev(2) v'(1,2,3) by (simp add: bh_geometry_def dev_aligned_def)
  have "bh_filter_fits ?s0" using f v'(4) by (auto simp: bh_filter_fits_def)
  moreover have "bh_fresh disk ?s0 clock"
  proof -
    have "take n (drop k (take m (drop off (replicate l (0::u8))))) = replicate (min n (min m (l - off) - k)) 0" for n k m off l
      by (simp add: min_def)
    then show ?thesis using clock zero plain
      by (auto simp: bh_fresh_def bh_view_def dev_view_def decoded_def bucket_of_def from_le_zeros)
  qed
  ultimately show "bh_rep good disk env s (\<lambda>_. [])" unfolding s by (rule bh_reset_ok [OF geo])
  show "bh_config s = (cfg_numBuckets c, cfg_bucketSize c, cfg_checkExpired c)" "device s = dev"
    "bloomFilter s = map_option bf_reset (cfg_bloomFilter c)"
    by (simp_all add: s bh_config_def)
qed

end

text \<open>A cache of two buckets of 128 bytes on a device.\<close>

definition sample_config :: "'d Device \<Rightarrow> BloomFilter option \<Rightarrow> 'd bh_Config" where
  "sample_config dev f = \<lparr>cfg_bucketSize = 128, cfg_cacheBaseOffset = 0, cfg_cacheSize = 256,
     cfg_device = Some dev, cfg_checkExpired = None, cfg_bloomFilter = f\<rparr>"

lemma sample_config_valid: "(\<And>g. f = Some g \<Longrightarrow> numFilters g = 2) \<Longrightarrow> \<exists>s. BigHash_init 7 0 (sample_config dev f) = Inr s"
  by (auto simp: BigHash_init_def bh_validate_def sample_config_def isPowTwo_def cfg_numBuckets_def split: option.splits)

text \<open>C29. The small object cache over a device that does not fail is, for any sequence of insertions,
  lookups and removals of items that fit, a list of entries per bucket: an insertion replaces the entry of
  the key, evicts from the front as far as needed and appends; every answer and every destructor call is
  the one of these lists. It starts with none when the cache is made over zeroed storage.\<close>

theorem bighash_implements_buckets:
  fixes crc :: "bytes \<Rightarrow> u32" and combine :: "u64 \<Rightarrow> u64 \<Rightarrow> u64" and hash :: "bytes \<Rightarrow> u64"
  assumes "createMemoryDevice sz None a = Inr dev" and "BigHash_init clock h c = Inr s" and "cfg_device c = Some dev"
    and "kBucketOverhead \<le> cfg_bucketSize c" "cfg_bucketSize c < 2 ^ 32" "powTwoAlign (cfg_bucketSize c) a = cfg_bucketSize c"
    and "cfg_cacheBaseOffset c + cfg_cacheSize c \<le> sz" and "clock \<noteq> 0" and "\<And>f. cfg_bloomFilter c = Some f \<Longrightarrow> bf_wf f"
  defines "env \<equiv> mem_env crc combine hash" and "a0 \<equiv> ((cfg_numBuckets c, cfg_bucketSize c, cfg_checkExpired c), \<lambda>_. [])"
  assumes "admissible (bh_spec env) bh_pre ops a0"
  shows "fst (run (bh_step env) ops s) = fst (run (bh_spec env) ops a0) \<and>
    bh_mem_rep env (snd (run (bh_step env) ops s)) (snd (run (bh_spec env) ops a0))"
proof -
  have dev: "dev_size dev = sz" "dev_io dev = replicate sz 0" "encryptor dev = None" "ioAlignmentSize dev = a"
    using assms(1) by (auto simp: createMemoryDevice_def Device_init_def split: if_splits)
  then have "dev_ok (\<lambda>_. True) (\<lambda>b. b) dev" by (simp add: dev_ok_def encryptor_law_def)
  from memory.BigHash_init_ok [OF assms(2,3) this assms(4,5) _ _ dev(3) assms(9) _ assms(8)] assms(6,7) dev
  have "bh_mem_rep env s a0" by (simp add: bh_mem_rep_def a0_def getIOAlignedSize_def)
  from bh_mem.run_simulates [OF this [unfolded env_def] assms(12) [unfolded env_def]] show ?thesis
    by (simp add: env_def)
qed

theorem bighash_implements_buckets_witness:
  "\<exists>dev s. createMemoryDevice 256 None 1 = Inr dev \<and> BigHash_init 7 0 (sample_config dev None) = Inr s \<and>
     fst (run (bh_step (mem_env (\<lambda>_. 0) (+) (\<lambda>_. 0)))
       [Bh_insert (sample_key 3) [5], Bh_lookup (sample_key 3), Bh_remove (sample_key 3), Bh_lookup (sample_key 3)] s) =
     [Some (Ok, None, []), Some (Ok, Some [5], []), Some (Ok, None, [(sample_key 3, [5], Removed)]), Some (NotFound, None, [])]"
proof -
  obtain dev where d: "createMemoryDevice 256 None 1 = Inr dev" by (simp add: createMemoryDevice_def Device_init_def)
  obtain s where s: "BigHash_init 7 0 (sample_config dev None) = Inr s" using sample_config_valid [of None] by auto
  have al: "powTwoAlign 128 1 = 128" by (simp add: powTwoAlign_def)
  show ?thesis using d s al
      bighash_implements_buckets [OF d s, of "\<lambda>_. 0" "(+)" "\<lambda>_. 0"
        "[Bh_insert (sample_key 3) [5], Bh_lookup (sample_key 3), Bh_remove (sample_key 3), Bh_lookup (sample_key 3)]"]
    by (simp add: sample_config_def kBucketOverhead_def cfg_numBuckets_def esize_def length_ebytes spec_cap_def spec_bid_def
        bh_inserted_def bh_calls_def bh_room_def make_room_def rehashed_def Let_def)
qed

text \<open>C30. On every device, errors included: no operation aborts; an insertion either succeeds, with the entry
  appended and the right destructor calls, or reports a device error with no call; a lookup that answers, answers
  with what the bucket holds; a removal takes out exactly that key; and a key that is there is never
  declared impossible.\<close>

theorem bighash_any_device:
  fixes hk :: HashedKey and v :: bytes
  assumes "raw_io (env_io env) good disk" and "bh_rep good disk env s M" and "esize (hk, v) \<le> bucketSize s - kBucketOverhead"
  defines "bid \<equiv> getBucketId s hk" and "cap \<equiv> bucketSize s - kBucketOverhead"
  shows
    "(\<exists>st calls s'. bh_insert env hk v s = Some (st, calls, s') \<and>
      (st = Ok \<and> calls = rehashed env (bh_calls (checkExpired s) cap hk v (M bid)) \<and>
         bh_rep good disk env s' (M(bid := bh_inserted (checkExpired s) cap hk v (M bid))) \<or>
       st = DeviceError \<and> calls = [] \<and> (bh_rep good disk env s' M \<or> bh_torn good disk env bid s' M))) \<and>
    (\<exists>st val s'. bh_lookup env hk s = Some ((st, val), s') \<and> bh_rep good disk env s' M \<and>
      (st = DeviceError \<and> val = None \<or>
       val = lookup_entry hk (M bid) \<and> st = (if val = None then NotFound else Ok))) \<and>
    (\<exists>st calls s'. bh_remove env hk s = Some (st, calls, s') \<and>
      (st = NotFound \<and> lookup_entry hk (M bid) = None \<and> calls = [] \<and> bh_rep good disk env s' M \<or>
       st = Ok \<and> (\<exists>w. lookup_entry hk (M bid) = Some w \<and> calls = [(hk, w, Removed)]) \<and>
         bh_rep good disk env s' (M(bid := filter (\<lambda>e. fst e \<noteq> hk) (M bid))) \<or>
       st = DeviceError \<and> calls = [] \<and> (bh_rep good disk env s' M \<or> bh_torn good disk env bid s' M))) \<and>
    (lookup_entry hk (M bid) \<noteq> None \<longrightarrow> fst (bh_couldExist env hk s))"
  unfolding bid_def cap_def
  by (intro conjI impI raw_io.bh_insert_ok [OF assms(1) refl assms(2,3)] raw_io.bh_lookup_ok [OF assms(1) refl assms(2)]
      raw_io.bh_remove_ok [OF assms(1) refl assms(2)])
    (rule ccontr, use raw_io.bh_couldExist_ok [OF assms(1,2), of hk] in simp)

theorem bighash_any_device_witness:
  "\<exists>dev s s'. createMemoryDevice 256 None 1 = Inr dev \<and> BigHash_init 7 0 (sample_config dev None) = Inr s \<and>
     bh_lookup (mem_env (\<lambda>_. 0) (+) (\<lambda>_. 0)) (sample_key 3) s = Some ((NotFound, None), s')"
proof -
  obtain dev where d: "createMemoryDevice 256 None 1 = Inr dev" by (simp add: createMemoryDevice_def Device_init_def)
  then have dev: "dev_size dev = 256" "dev_io dev = replicate 256 0" "encryptor dev = None" "ioAlignmentSize dev = 1"
    by (auto simp: createMemoryDevice_def Device_init_def split: if_splits)
  then have ok: "dev_ok (\<lambda>_. True) (\<lambda>b. b) dev" by (simp add: dev_ok_def encryptor_law_def)
  obtain s where s: "BigHash_init 7 0 (sample_config dev None) = Inr s" using sample_config_valid [of None] by auto
  let ?env = "mem_env (\<lambda>_. 0) (+) (\<lambda>_. 0)"
  have r: "bh_rep (\<lambda>_. True) (\<lambda>b. b) ?env s (\<lambda>_. [])" "bucketSize s = 128" "device s = dev"
    using memory.BigHash_init_ok(1) [OF s _ ok, where env = ?env] memory.BigHash_init_ok(2,3) [OF s _ ok] dev
    by (simp_all add: sample_config_def kBucketOverhead_def getIOAlignedSize_def powTwoAlign_def bh_config_def)
  have m: "raw_io (env_io ?env) (\<lambda>_. True) (\<lambda>b. b)" using memory.raw_io_axioms by simp
  have fits: "esize (sample_key 3, [5]) \<le> bucketSize s - kBucketOverhead" using r(2) by (simp add: esize_def length_ebytes kBucketOverhead_def)
  from bighash_any_device [OF m r(1) fits] obtain st val s' where
    "bh_lookup ?env (sample_key 3) s = Some ((st, val), s')" "st = DeviceError \<or> val = None \<and> st = NotFound" by auto
  with bh_lookup_memory [of ?env s "sample_key 3" "(st, val)" s'] r(3) dev d s show ?thesis by auto
qed

text \<open>What an insertion leaves alone.\<close>

definition bh_shape :: "'d BigHash \<Rightarrow> nat \<times> bool" where
  "bh_shape s = (bh_numBuckets s, bloomFilter s = None)"

lemma bh_shape_simps [simp]:
  "bh_shape (s\<lparr>counters := c\<rparr>) = bh_shape s" "bh_shape (s\<lparr>device := d\<rparr>) = bh_shape s"
  "bh_shape (bfSet env bid h s) = bh_shape s" "bh_shape (bfRebuild env bid b s) = bh_shape s"
  "bh_shape (bfClear bid s) = bh_shape s"
  by (auto simp: bh_shape_def bfSet_def bfRebuild_def bfClear_def split: option.splits)

lemma readBucket_shape: "readBucket env bid s = Some (r, s') \<Longrightarrow> bh_shape s' = bh_shape s"
  by (auto simp: readBucket_def Let_def split: bind_splits option.splits if_splits)

lemma writeBucket_shape: "writeBucket env bid b s = Some (r, s') \<Longrightarrow> bh_shape s' = bh_shape s"
  by (auto simp: writeBucket_def Let_def split: bind_splits)

lemma bh_insert_shape:
  assumes "bh_insert env hk v s = Some (st, calls, s')"
  shows "bh_shape s' = bh_shape s"
proof -
  let ?s = "count (\<lambda>c. c\<lparr>insertCount := insertCount c + 1\<rparr>) s" and ?bid = "getBucketId s hk"
  obtain res s2 where rd: "readBucket env ?bid ?s = Some (res, s2)" using assms by (auto simp: bh_insert_def Let_def split: bind_splits)
  show ?thesis
  proof (cases res)
    case None
    with assms rd readBucket_shape [OF rd] show ?thesis by (auto simp: bh_insert_def Let_def)
  next
    case (Some b)
    obtain n c1 st1 where rm: "bucket_remove hk (b_storage b) = (n, c1, st1)" by (metis prod.exhaust)
    obtain ev ex c2 st2 where ins: "bucket_insert hk v (checkExpired s2) st1 = Some ((ev, ex), c2, st2)"
      using assms rd Some rm by (auto simp: bh_insert_def Let_def split: bind_splits)
    let ?s3 = "if n + ev = 0 then bfSet env ?bid (hk_hash hk) s2 else bfRebuild env ?bid (b\<lparr>b_storage := st2\<rparr>) s2"
    obtain r s4 where w: "writeBucket env ?bid (b\<lparr>b_storage := st2\<rparr>) ?s3 = Some (r, s4)"
      using assms rd Some rm ins by (auto simp: bh_insert_def Let_def split: bind_splits)
    have "bh_shape s4 = bh_shape s" using writeBucket_shape [OF w] readBucket_shape [OF rd] by (simp split: if_splits)
    with bh_insert_steps [OF rd [unfolded Some] rm ins w] assms show ?thesis by (auto split: if_splits)
  qed
qed

text \<open>C31. A failed write with filters: after an insertion that reports a device error the cache holds
  what it held before, or every lookup of a key of that bucket reports that it is not found: neither the
  old nor a torn value is returned.\<close>

theorem bighash_failed_write:
  assumes "raw_io (env_io env) good disk" and "bh_rep good disk env s M" and "esize (hk, v) \<le> bucketSize s - kBucketOverhead"
    and "bloomFilter s \<noteq> None" and "bh_insert env hk v s = Some (DeviceError, calls, s')"
  shows "calls = [] \<and> (bh_rep good disk env s' M \<or>
    (\<forall>k. getBucketId s k = getBucketId s hk \<longrightarrow> (\<exists>s2. bh_lookup env k s' = Some ((NotFound, None), s2))))"
proof -
  have sh: "bloomFilter s' \<noteq> None" "getBucketId s' = getBucketId s"
    using bh_insert_shape [OF assms(5)] assms(4) by (auto simp: bh_shape_def getBucketId_def fun_eq_iff)
  have t: "calls = []" "bh_rep good disk env s' M \<or> bh_torn good disk env (getBucketId s hk) s' M"
    using raw_io.bh_insert_ok [OF assms(1) refl assms(2,3)] assms(5) by auto
  have "\<exists>s2. bh_lookup env k s' = Some ((NotFound, None), s2)"
    if "bh_torn good disk env (getBucketId s hk) s' M" "getBucketId s k = getBucketId s hk" for k
    using raw_io.bh_torn_lookup [OF assms(1) that(1) sh(1)] that(2) sh(2) by simp
  with t show ?thesis by blast
qed

text \<open>A file that cannot be read.\<close>

definition broken_files :: "bytes list posix" where
  "broken_files = list_files\<lparr>pread := (\<lambda>fd n off fs. ((-1, []), fs))\<rparr>"

lemma broken_files_law: "posix_law broken_files (\<lambda>fs. fs)"
  using list_files_law by (auto simp: posix_law_def broken_files_def list_files_def)

theorem bighash_failed_write_witness:
  "\<exists>dev f s s' (env :: bytes list bh_env). FileDevice_init 1 256 1 0 0 0 None [replicate 256 0] = Inr dev \<and>
     BloomFilter_init id 2 1 8 = Some f \<and> BigHash_init 7 0 (sample_config dev (Some f)) = Inr s \<and>
     bh_insert env (sample_key 3) [5] s = Some (DeviceError, [], s')"
proof -
  let ?env = "\<lparr>env_io = FileDevice broken_files 1 0, env_checksum = \<lambda>_. 0, env_combine = (+), env_hash = \<lambda>_. 0\<rparr>"
  let ?good = "\<lambda>os. file_good 1 0 os" and ?disk = "\<lambda>os. file_image 1 0 os"
  have io: "raw_io (FileDevice broken_files 1 0) ?good ?disk" using file_device_raw_io [OF broken_files_law] .
  obtain dev where d: "FileDevice_init 1 256 1 0 0 0 None [replicate 256 (0::u8)] = Inr dev"
    by (simp add: FileDevice_init_def Device_init_def)
  then have dev: "dev_size dev = 256" "dev_io dev = [replicate 256 0]" "encryptor dev = None" "ioAlignmentSize dev = 1" "maxIOSize dev = 0"
    by (auto simp: FileDevice_init_def Device_init_def)
  obtain f where f: "BloomFilter_init id 2 1 8 = Some f" by (simp add: BloomFilter_init_def Let_def)
  have bf: "bf_wf f" "numFilters f = 2" using BloomFilter_init_tracks [OF f] by (simp_all add: bf_tracks_def)
  have ok: "dev_ok ?good ?disk dev" using dev by (simp add: dev_ok_def encryptor_law_def file_good_def file_image_def)
  obtain s where s: "BigHash_init 7 0 (sample_config dev (Some f)) = Inr s" using sample_config_valid [of "Some f"] bf by auto
  have r: "bh_rep ?good ?disk ?env s (\<lambda>_. [])" "bucketSize s = 128" "device s = dev" "bloomFilter s = Some (bf_reset f)"
    using raw_io.BigHash_init_ok(1) [OF io s _ ok, where env = ?env] raw_io.BigHash_init_ok(2,3,4) [OF io s _ ok] dev bf
    by (simp_all add: sample_config_def kBucketOverhead_def getIOAlignedSize_def powTwoAlign_def bh_config_def file_image_def)
  let ?t = "count (\<lambda>c. c\<lparr>insertCount := insertCount c + 1\<rparr>) s"
  have t: "device ?t = dev" "bucketSize ?t = 128" using r by simp_all
  have "\<exists>t'. readBucket ?env (getBucketId s (sample_key 3)) ?t = Some (None, t')"
    using t dev by (simp add: readBucket_def read_into_def readInternal_def readLoop.simps [of _ _ _ 128] Let_def FileDevice_def
        IOReq_ops_def broken_files_def getIOAlignedSize_def powTwoAlign_def)
  then obtain s' where i: "bh_insert ?env (sample_key 3) [5] s = Some (DeviceError, [], s')"
    by (auto simp: bh_insert_def Let_def)
  have "esize (sample_key 3, [5]) \<le> bucketSize s - kBucketOverhead" using r(2) by (simp add: esize_def length_ebytes kBucketOverhead_def)
  from bighash_failed_write [OF _ r(1) this _ i] io r(4) d f s i show ?thesis by auto
qed

text \<open>C32. Restarting: a cache saved and restored over the same device with the same configuration holds the
  same entries and item counts; a reset, which every failed restore ends in, empties the cache, whatever is
  on the device, as long as no bucket there carries the new generation.\<close>

theorem bighash_restart:
  assumes "raw_io (env_io env) good disk" and "bh_rep good disk env s M"
    and "\<And>x. dec (enc x) = Some x" and "\<And>x. bf_dec (bf_enc x) = Some x"
    and "bucketSize s0 = bucketSize s" "cacheBaseOffset s0 = cacheBaseOffset s" "bh_numBuckets s0 = bh_numBuckets s"
      "device s0 = device s" "cacheBaseOffset s < 2 ^ 64"
    and "rel_option (\<lambda>f0 f. bf_wf f0 \<and> bf_same_config f f0 \<and> hashTableBitSize f < 2 ^ 64 \<and> filterByteSize f < 2 ^ 64 \<and> numFilters f < 2 ^ 32)
      (bloomFilter s0) (bloomFilter s)"
  shows "(\<exists>s'. bh_recover dec bf_dec clock (bh_persist enc bf_enc s) s0 = Some (True, s') \<and> bh_rep good disk env s' M \<and>
      itemCount (counters s') = itemCount (counters s) \<and> usedSizeBytes (counters s') = usedSizeBytes (counters s)) \<and>
    bh_recover dec bf_dec clock [] s0 = Some (False, bh_reset clock s0) \<and>
    (bh_fresh disk s clock \<longrightarrow> bh_rep good disk env (bh_reset clock s) (\<lambda>_. []))"
proof (intro conjI impI)
  show "\<exists>s'. bh_recover dec bf_dec clock (bh_persist enc bf_enc s) s0 = Some (True, s') \<and> bh_rep good disk env s' M \<and>
      itemCount (counters s') = itemCount (counters s) \<and> usedSizeBytes (counters s') = usedSizeBytes (counters s)"
    by (rule bh_recover_persist [OF assms(2-10)])
  show "bh_recover dec bf_dec clock [] s0 = Some (False, bh_reset clock s0)" by (simp add: bh_recover_def)
  have "bh_geometry good disk s" "bh_filter_fits s" using assms(2) by (auto simp: bh_rep_def bh_filter_ok_def bh_filter_fits_def)
  then show "bh_rep good disk env (bh_reset clock s) (\<lambda>_. [])" if "bh_fresh disk s clock"
    by (rule raw_io.bh_reset_ok [OF assms(1) _ _ that])
qed

theorem bighash_restart_witness:
  "\<exists>dev s s'. createMemoryDevice 256 None 1 = Inr dev \<and> BigHash_init 7 0 (sample_config dev None) = Inr s \<and>
     bh_recover bh_header_dec bf_header_dec 9 (bh_persist bh_header_enc bf_header_enc s) (s\<lparr>generationTime := 8\<rparr>) = Some (True, s') \<and>
     generationTime s' = 7"
proof -
  obtain dev where d: "createMemoryDevice 256 None 1 = Inr dev" by (simp add: createMemoryDevice_def Device_init_def)
  then have dev: "dev_size dev = 256" "dev_io dev = replicate 256 0" "encryptor dev = None" "ioAlignmentSize dev = 1"
    by (auto simp: createMemoryDevice_def Device_init_def split: if_splits)
  then have ok: "dev_ok (\<lambda>_. True) (\<lambda>b. b) dev" by (simp add: dev_ok_def encryptor_law_def)
  obtain s where s: "BigHash_init 7 0 (sample_config dev None) = Inr s" using sample_config_valid [of None] by auto
  let ?env = "mem_env (\<lambda>_. 0) (+) (\<lambda>_. 0)" and ?s0 = "s\<lparr>generationTime := 8\<rparr>"
  have r: "bh_rep (\<lambda>_. True) (\<lambda>b. b) ?env s (\<lambda>_. [])" "bloomFilter s = None" "cacheBaseOffset s = 0" "generationTime s = 7"
    using memory.BigHash_init_ok(1) [OF s _ ok, where env = ?env] memory.BigHash_init_ok(4) [OF s _ ok] dev s
    by (auto simp: sample_config_def kBucketOverhead_def getIOAlignedSize_def powTwoAlign_def BigHash_init_def split: option.splits)
  have m: "raw_io (env_io ?env) (\<lambda>_. True) (\<lambda>b. b)" using memory.raw_io_axioms by simp
  from bighash_restart [OF m r(1) bh_header_roundtrip bf_header_roundtrip, of ?s0 9] r(2,3) obtain s' where
    "bh_recover bh_header_dec bf_header_dec 9 (bh_persist bh_header_enc bf_header_enc s) ?s0 = Some (True, s')" by auto
  moreover from this have "generationTime s' = 7" using r
    by (auto simp: bh_recover_def bh_persist_def bh_header_roundtrip split: if_splits)
  ultimately show ?thesis using d s by blast
qed

end
