(* ===== verification/SlabAllocator.thy ===== *)
theory SlabAllocator
  imports Prelude
begin

text \<open>
  Slabs, their headers, pointer compression and the slab allocator: \<^verbatim>\<open>cachelib/allocator/memory/Slab.h\<close>,
  \<^verbatim>\<open>CompressedPtr.h\<close>, \<^verbatim>\<open>SlabAllocator.h\<close> and \<^verbatim>\<open>SlabAllocator.cpp\<close>. Addresses are natural numbers; a
  \<^verbatim>\<open>Slab*\<close> is the address of its first byte, so that the arithmetic of \<^verbatim>\<open>Slab*\<close> counts in units of the
  slab size. The headers, which the program keeps in the first slabs of the memory, are a map from slab
  indices. The result of \<^verbatim>\<open>madvise\<close> and the random numbers are arguments. Shown: the layout and the
  well-formedness of the allocator, that a slab has one owner at a time, what the per-pool sizes count,
  and that compressed pointers decode to the pointer they were made from.
\<close>

section \<open>Slabs and headers\<close>

definition kNumSlabBits :: nat where "kNumSlabBits = 22"
definition kMinAllocPower :: nat where "kMinAllocPower = 6"
definition kMinAllocSize :: nat where "kMinAllocSize = 2 ^ kMinAllocPower"
definition kSize :: nat where "kSize = 2 ^ kNumSlabBits"
definition kInvalidClassId :: int where "kInvalidClassId = -1"
definition kInvalidPoolId :: int where "kInvalidPoolId = -1"

record SlabHeader =
  sh_poolId :: int
  sh_classId :: int
  sh_flags :: u8
  sh_allocSize :: nat

definition SlabHeader_init :: "int \<Rightarrow> SlabHeader" where
  "SlabHeader_init pid = \<lparr>sh_poolId = pid, sh_classId = kInvalidClassId, sh_flags = 0, sh_allocSize = 0\<rparr>"

datatype SlabHeaderFlag = IS_MARKED_FOR_RELEASE | IS_ADVISED

primrec sh_bit :: "SlabHeaderFlag \<Rightarrow> nat" where
  "sh_bit IS_MARKED_FOR_RELEASE = 0"
| "sh_bit IS_ADVISED = 1"

definition sh_setFlag :: "SlabHeaderFlag \<Rightarrow> SlabHeader \<Rightarrow> SlabHeader" where
  "sh_setFlag f h = h\<lparr>sh_flags := sh_flags h OR push_bit (sh_bit f) 1\<rparr>"
definition sh_unSetFlag :: "SlabHeaderFlag \<Rightarrow> SlabHeader \<Rightarrow> SlabHeader" where
  "sh_unSetFlag f h = h\<lparr>sh_flags := sh_flags h AND (255 - push_bit (sh_bit f) 1)\<rparr>"
definition sh_isFlagSet :: "SlabHeaderFlag \<Rightarrow> SlabHeader \<Rightarrow> bool" where
  "sh_isFlagSet f h \<longleftrightarrow> sh_flags h AND push_bit (sh_bit f) 1 \<noteq> 0"

definition resetAllocInfo :: "SlabHeader \<Rightarrow> SlabHeader" where
  "resetAllocInfo h = h\<lparr>sh_poolId := kInvalidPoolId, sh_classId := kInvalidClassId, sh_allocSize := 0\<rparr>"
definition isAdvised :: "SlabHeader \<Rightarrow> bool" where
  "isAdvised h = sh_isFlagSet IS_ADVISED h"
definition setAdvised :: "bool \<Rightarrow> SlabHeader \<Rightarrow> SlabHeader" where
  "setAdvised v h = (if v then sh_setFlag IS_ADVISED h else sh_unSetFlag IS_ADVISED h)"
definition isMarkedForRelease :: "SlabHeader \<Rightarrow> bool" where
  "isMarkedForRelease h = sh_isFlagSet IS_MARKED_FOR_RELEASE h"
definition setMarkedForRelease :: "bool \<Rightarrow> SlabHeader \<Rightarrow> SlabHeader" where
  "setMarkedForRelease v h = (if v then sh_setFlag IS_MARKED_FOR_RELEASE h else sh_unSetFlag IS_MARKED_FOR_RELEASE h)"

section \<open>The allocator of slabs\<close>

record SlabAllocator =
  sa_headers :: "nat \<Rightarrow> SlabHeader"
  memoryPoolSize :: "int \<Rightarrow> u64"
  sa_freeSlabs :: "addr list"
  advisedSlabs :: "addr list"
  memoryStart :: addr
  memorySize :: nat
  slabMemoryStart :: addr
  nextSlabAllocation :: addr
  sa_canAllocate :: bool
  ownsMemory :: bool
  pretendMadvise :: bool

datatype sa_error = InvalidMemory | NotEnoughMemory | InvalidMemoryStart | InvalidNext | InvalidFreeSlab
  | SlabSizeMismatch | MinAllocMismatch | MemorySizeMismatch | InvalidPoolIndex | InvalidSlab | NotRestorable
  | InvalidPointer

definition roundDownToSlabSize :: "nat \<Rightarrow> nat" where
  "roundDownToSlabSize n = n - n mod kSize"

definition numSlabs :: "nat \<Rightarrow> nat" where
  "numSlabs n = (n div kSize) mod 2 ^ 32"

text \<open>\<^verbatim>\<open>sizeof(SlabHeader)\<close> is 7.\<close>

definition numSlabsForHeaders :: "nat \<Rightarrow> nat" where
  "numSlabsForHeaders n = ((7 * numSlabs n + kSize - 1) div kSize) mod 2 ^ 32"

definition getNumUsableSlabs_of :: "nat \<Rightarrow> nat" where
  "getNumUsableSlabs_of n = numSlabs n - numSlabsForHeaders n"

definition computeSlabMemoryStart :: "addr \<Rightarrow> nat \<Rightarrow> sa_error + addr" where
  "computeSlabMemoryStart start n =
     (if numSlabs n \<le> numSlabsForHeaders n then Inl NotEnoughMemory
      else if start = 0 \<or> start mod kSize \<noteq> 0 then Inl InvalidMemoryStart
      else Inr (start + numSlabsForHeaders n * kSize))"

definition getSlabMemoryEnd :: "SlabAllocator \<Rightarrow> addr" where
  "getSlabMemoryEnd sa = memoryStart sa + memorySize sa"

definition allMemorySlabbed :: "SlabAllocator \<Rightarrow> bool" where
  "allMemorySlabbed sa \<longleftrightarrow> nextSlabAllocation sa = getSlabMemoryEnd sa"

definition allSlabsAllocated :: "SlabAllocator \<Rightarrow> bool" where
  "allSlabsAllocated sa \<longleftrightarrow> allMemorySlabbed sa \<and> sa_freeSlabs sa = []"

definition getNumUsableAndAdvisedSlabs :: "SlabAllocator \<Rightarrow> nat" where
  "getNumUsableAndAdvisedSlabs sa = (getSlabMemoryEnd sa - slabMemoryStart sa) div kSize mod 2 ^ 32"

definition numSlabsReclaimable :: "SlabAllocator \<Rightarrow> nat" where
  "numSlabsReclaimable sa = length (advisedSlabs sa)"

definition getNumUsableSlabs :: "SlabAllocator \<Rightarrow> nat" where
  "getNumUsableSlabs sa = getNumUsableAndAdvisedSlabs sa - numSlabsReclaimable sa"

definition kAddressMask :: u64 where
  "kAddressMask = -1 - push_bit kNumSlabBits 1 + 1"

definition getSlabForMemory :: "addr \<Rightarrow> addr" where
  "getSlabForMemory m = unat (word_of_nat m AND kAddressMask)"

definition isValidSlab :: "SlabAllocator \<Rightarrow> addr \<Rightarrow> bool" where
  "isValidSlab sa slab \<longleftrightarrow> slab \<ge> slabMemoryStart sa \<and> slab < nextSlabAllocation sa \<and> getSlabForMemory slab = slab"

definition kNullSlabIdx :: nat where "kNullSlabIdx = 2 ^ 32 - 1"

definition slabIdx :: "SlabAllocator \<Rightarrow> ptr \<Rightarrow> nat" where
  "slabIdx sa p = (case p of None \<Rightarrow> kNullSlabIdx
                   | Some slab \<Rightarrow> (slab - slabMemoryStart sa) div kSize mod 2 ^ 32)"

definition getSlabForIdx :: "SlabAllocator \<Rightarrow> nat \<Rightarrow> ptr" where
  "getSlabForIdx sa idx = (if idx = kNullSlabIdx then None else Some (slabMemoryStart sa + idx * kSize))"

text \<open>The header of a slab, or \<^const>\<open>None\<close> for the null pointer of an invalid slab, and a write through
  that pointer.\<close>

definition getSlabHeader :: "SlabAllocator \<Rightarrow> addr \<Rightarrow> SlabHeader option" where
  "getSlabHeader sa slab = (if isValidSlab sa slab then Some (sa_headers sa (slabIdx sa (Some slab))) else None)"

definition upd_header :: "addr \<Rightarrow> (SlabHeader \<Rightarrow> SlabHeader) \<Rightarrow> SlabAllocator \<Rightarrow> SlabAllocator" where
  "upd_header slab f sa =
     (let i = slabIdx sa (Some slab) in sa\<lparr>sa_headers := (sa_headers sa)(i := f (sa_headers sa i))\<rparr>)"

definition getSlabHeader_mem :: "SlabAllocator \<Rightarrow> addr \<Rightarrow> SlabHeader option" where
  "getSlabHeader_mem sa m = getSlabHeader sa (getSlabForMemory m)"

definition isMemoryInSlab :: "SlabAllocator \<Rightarrow> addr \<Rightarrow> addr \<Rightarrow> bool" where
  "isMemoryInSlab sa p slab \<longleftrightarrow> isValidSlab sa slab \<and> getSlabForMemory p = slab"

definition sa_checkState :: "SlabAllocator \<Rightarrow> sa_error option" where
  "sa_checkState sa =
     (if memoryStart sa = 0 \<or> memorySize sa \<le> kSize then Some InvalidMemory
      else if slabMemoryStart sa = 0 \<or> nextSlabAllocation sa = 0 then Some InvalidMemory
      else if nextSlabAllocation sa > getSlabMemoryEnd sa then Some InvalidNext
      else if list_ex (\<lambda>s. \<not> isValidSlab sa s) (sa_freeSlabs sa) then Some InvalidFreeSlab else None)"

definition SlabAllocator_init :: "addr \<Rightarrow> nat \<Rightarrow> bool \<Rightarrow> sa_error + SlabAllocator" where
  "SlabAllocator_init start n owns =
     (let n = roundDownToSlabSize n in
      case computeSlabMemoryStart start n of
        Inl e \<Rightarrow> Inl e
      | Inr s0 \<Rightarrow>
          let sa = \<lparr>sa_headers = \<lambda>_. SlabHeader_init kInvalidPoolId, memoryPoolSize = \<lambda>_. 0, sa_freeSlabs = [],
                    advisedSlabs = [], memoryStart = start, memorySize = n, slabMemoryStart = s0,
                    nextSlabAllocation = s0, sa_canAllocate = True, ownsMemory = owns, pretendMadvise = False\<rparr>
          in case sa_checkState sa of Some e \<Rightarrow> Inl e | None \<Rightarrow> Inr sa)"

section \<open>Making, freeing, advising and reclaiming slabs\<close>

definition makeNewSlabImpl :: "SlabAllocator \<Rightarrow> ptr \<times> SlabAllocator" where
  "makeNewSlabImpl sa =
     (if \<not> sa_canAllocate sa then (None, sa)
      else if sa_freeSlabs sa \<noteq> []
      then (Some (last (sa_freeSlabs sa)), sa\<lparr>sa_freeSlabs := butlast (sa_freeSlabs sa)\<rparr>)
      else if allMemorySlabbed sa then (None, sa\<lparr>sa_canAllocate := False\<rparr>)
      else (Some (nextSlabAllocation sa), sa\<lparr>nextSlabAllocation := nextSlabAllocation sa + kSize\<rparr>))"

definition initializeHeader :: "addr \<Rightarrow> int \<Rightarrow> SlabAllocator \<Rightarrow> SlabAllocator" where
  "initializeHeader slab pid sa = upd_header slab (\<lambda>_. SlabHeader_init pid) sa"

definition makeNewSlab :: "int \<Rightarrow> SlabAllocator \<Rightarrow> ptr \<times> SlabAllocator" where
  "makeNewSlab pid sa =
     (case makeNewSlabImpl sa of
        (None, sa) \<Rightarrow> (None, sa)
      | (Some slab, sa) \<Rightarrow>
          let sa = sa\<lparr>memoryPoolSize := (memoryPoolSize sa)(pid := memoryPoolSize sa pid + word_of_nat kSize)\<rparr>
          in (Some slab, initializeHeader slab pid sa))"

definition freeSlab :: "addr \<Rightarrow> SlabAllocator \<Rightarrow> sa_error + SlabAllocator" where
  "freeSlab slab sa =
     (case getSlabHeader sa slab of
        None \<Rightarrow> Inl InvalidSlab
      | Some header \<Rightarrow>
          let pid = sh_poolId header;
              sa = sa\<lparr>memoryPoolSize := (memoryPoolSize sa)(pid := memoryPoolSize sa pid - word_of_nat kSize)\<rparr>;
              sa = sa\<lparr>sa_freeSlabs := sa_freeSlabs sa @ [slab], sa_canAllocate := True\<rparr>
          in Inr (upd_header slab resetAllocInfo sa))"

text \<open>\<open>madviseOk\<close> is whether \<^verbatim>\<open>madvise\<close> returned 0.\<close>

definition adviseSlab :: "bool \<Rightarrow> addr \<Rightarrow> SlabAllocator \<Rightarrow> sa_error + bool \<times> SlabAllocator" where
  "adviseSlab madviseOk slab sa =
     (case getSlabHeader sa slab of
        None \<Rightarrow> Inl InvalidSlab
      | Some _ \<Rightarrow>
          let sa = upd_header slab (setAdvised True) sa in
          if madviseOk \<or> pretendMadvise sa
          then Inr (True, upd_header slab resetAllocInfo (sa\<lparr>advisedSlabs := advisedSlabs sa @ [slab]\<rparr>))
          else Inr (False, upd_header slab (setAdvised False) sa))"

definition reclaimSlab :: "int \<Rightarrow> SlabAllocator \<Rightarrow> ptr \<times> SlabAllocator" where
  "reclaimSlab pid sa =
     (case advisedSlabs sa of
        [] \<Rightarrow> (None, sa)
      | slab # rest \<Rightarrow>
          let sa = sa\<lparr>advisedSlabs := rest\<rparr>;
              sa = sa\<lparr>memoryPoolSize := (memoryPoolSize sa)(pid := memoryPoolSize sa pid + word_of_nat kSize)\<rparr>
          in (Some slab, initializeHeader slab pid sa))"

text \<open>\<open>r\<close> is the random offset, below the size of the slab memory.\<close>

definition sa_getRandomAlloc :: "nat \<Rightarrow> SlabAllocator \<Rightarrow> ptr" where
  "sa_getRandomAlloc r sa =
     (let memory = slabMemoryStart sa + r;
          slab = getSlabForMemory memory
      in case getSlabHeader sa slab of
           None \<Rightarrow> None
         | Some header \<Rightarrow>
             let allocSize = sh_allocSize header in
             if allocSize = 0 then None
             else let maxAllocIdx = kSize div allocSize - 1;
                      allocIdx = (memory - slab) div allocSize;
                      allocIdx = (if allocIdx > maxAllocIdx then maxAllocIdx else allocIdx)
                  in Some (slab + allocSize * allocIdx))"

section \<open>Saved state\<close>

record SlabAllocatorObject =
  sao_memorySize :: nat
  sao_nextSlabIdx :: nat
  sao_canAllocate :: bool
  sao_memoryPoolSize :: "(int \<times> u64) list"
  sao_freeSlabIdxs :: "nat list"
  sao_advisedSlabIdxs :: "nat list"
  sao_slabSize :: nat
  sao_minAllocSize :: nat

text \<open>The array of pool sizes has \<^verbatim>\<open>std::numeric_limits<PoolId>::max()\<close> entries.\<close>

definition kNumPoolSizes :: nat where "kNumPoolSizes = 127"

definition sa_saveState :: "SlabAllocator \<Rightarrow> sa_error + SlabAllocatorObject" where
  "sa_saveState sa =
     (if ownsMemory sa then Inl NotRestorable
      else Inr \<lparr>sao_memorySize = memorySize sa, sao_nextSlabIdx = slabIdx sa (Some (nextSlabAllocation sa)),
        sao_canAllocate = sa_canAllocate sa,
        sao_memoryPoolSize = map (\<lambda>i. (int i, memoryPoolSize sa (int i))) [0..<kNumPoolSizes],
        sao_freeSlabIdxs = map (\<lambda>s. slabIdx sa (Some s)) (sa_freeSlabs sa),
        sao_advisedSlabIdxs = map (\<lambda>s. slabIdx sa (Some s)) (advisedSlabs sa),
        sao_slabSize = kSize, sao_minAllocSize = kMinAllocSize\<rparr>)"

text \<open>Restoring over the memory \<open>headers\<close> was left in.\<close>

definition SlabAllocator_restore ::
  "SlabAllocatorObject \<Rightarrow> (nat \<Rightarrow> SlabHeader) \<Rightarrow> addr \<Rightarrow> nat \<Rightarrow> sa_error + SlabAllocator" where
  "SlabAllocator_restore ob headers start memSize =
     (case computeSlabMemoryStart start (sao_memorySize ob) of
        Inl e \<Rightarrow> Inl e
      | Inr s0 \<Rightarrow>
          if kSize \<noteq> sao_slabSize ob then Inl SlabSizeMismatch
          else if kMinAllocSize \<noteq> sao_minAllocSize ob then Inl MinAllocMismatch
          else if sao_memorySize ob \<noteq> roundDownToSlabSize memSize then Inl MemorySizeMismatch
          else if list_ex (\<lambda>(i, _). i \<ge> int kNumPoolSizes) (sao_memoryPoolSize ob) then Inl InvalidPoolIndex
          else
            let slab = (\<lambda>i. if i = kNullSlabIdx then 0 else s0 + i * kSize);
                sa = \<lparr>sa_headers = fold (\<lambda>i h. h(i := setAdvised True (h i))) (sao_advisedSlabIdxs ob) headers,
                      memoryPoolSize = fold (\<lambda>(i, n) f. f(i := n)) (sao_memoryPoolSize ob) (\<lambda>_. 0),
                      sa_freeSlabs = map slab (sao_freeSlabIdxs ob), advisedSlabs = map slab (sao_advisedSlabIdxs ob),
                      memoryStart = start, memorySize = sao_memorySize ob, slabMemoryStart = s0,
                      nextSlabAllocation = slab (sao_nextSlabIdx ob), sa_canAllocate = sao_canAllocate ob,
                      ownsMemory = False, pretendMadvise = False\<rparr>
            in case sa_checkState sa of Some e \<Rightarrow> Inl e | None \<Rightarrow> Inr sa)"

section \<open>Compressed pointers\<close>

definition kNull :: u32 where "kNull = 0xffffffff"
definition kNumAllocIdxBits :: nat where "kNumAllocIdxBits = kNumSlabBits - kMinAllocPower"
definition kNumTierIdxOffset :: nat where "kNumTierIdxOffset = 31"
definition kAllocIdxMask :: u32 where "kAllocIdxMask = push_bit kNumAllocIdxBits 1 - 1"
definition kTierIdxMask :: u32 where "kTierIdxMask = push_bit kNumTierIdxOffset 1"
definition numSlabIdxBits :: "bool \<Rightarrow> nat" where
  "numSlabIdxBits isMultiTiered = kNumTierIdxOffset - kNumAllocIdxBits + (if isMultiTiered then 0 else 1)"

definition cp_compress :: "u32 \<Rightarrow> u32 \<Rightarrow> bool \<Rightarrow> u32 \<Rightarrow> u32" where
  "cp_compress slabI allocI isMultiTiered tid =
     (if \<not> isMultiTiered then push_bit kNumAllocIdxBits slabI + allocI
      else push_bit kNumTierIdxOffset tid + push_bit kNumAllocIdxBits slabI + allocI)"

definition getSlabIdx :: "bool \<Rightarrow> u32 \<Rightarrow> u32" where
  "getSlabIdx isMultiTiered p =
     drop_bit kNumAllocIdxBits (if isMultiTiered then p AND NOT kTierIdxMask else p)"

definition getAllocIdx_cp :: "u32 \<Rightarrow> u32" where
  "getAllocIdx_cp p = p AND kAllocIdxMask"

definition getTierId :: "bool \<Rightarrow> u32 \<Rightarrow> u32" where
  "getTierId isMultiTiered p = (if isMultiTiered then drop_bit kNumTierIdxOffset p else 0)"

definition setTierId :: "u32 \<Rightarrow> u32 \<Rightarrow> u32" where
  "setTierId tid p = p + push_bit kNumTierIdxOffset tid"

definition compress :: "bool \<Rightarrow> SlabAllocator \<Rightarrow> ptr \<Rightarrow> sa_error + u32" where
  "compress isMultiTiered sa p =
     (case p of
        None \<Rightarrow> Inr kNull
      | Some m \<Rightarrow>
          let slab = getSlabForMemory m in
          if \<not> isValidSlab sa slab then Inl InvalidPointer
          else let slabI = (slab - slabMemoryStart sa) div kSize;
                   allocI = (m - slab) div sh_allocSize (sa_headers sa slabI)
               in Inr (cp_compress (word_of_nat slabI) (word_of_nat allocI) isMultiTiered 0))"

definition unCompress :: "bool \<Rightarrow> SlabAllocator \<Rightarrow> u32 \<Rightarrow> ptr" where
  "unCompress isMultiTiered sa p =
     (if p = kNull then None
      else let slabI = unat (getSlabIdx isMultiTiered p);
               allocI = getAllocIdx_cp p;
               slab = slabMemoryStart sa + slabI * kSize;
               off = word_of_nat (sh_allocSize (sa_headers sa slabI)) * allocI
           in Some (slab + unat off))"

definition kMarkerBits :: nat where "kMarkerBits = 6"

definition compressAlt :: "SlabAllocator \<Rightarrow> ptr \<Rightarrow> u32" where
  "compressAlt sa p =
     (case p of None \<Rightarrow> kNull | Some m \<Rightarrow> word_of_nat (drop_bit kMarkerBits (m - slabMemoryStart sa)))"

text \<open>The marker offset is computed in 32 bits.\<close>

definition unCompressAlt :: "SlabAllocator \<Rightarrow> u32 \<Rightarrow> ptr option" where
  "unCompressAlt sa p =
     (if p = kNull then Some None
      else let markerPtr = slabMemoryStart sa + unat (push_bit kMarkerBits p)
           in case getSlabHeader_mem sa markerPtr of
                None \<Rightarrow> None
              | Some header \<Rightarrow>
                  let allocSize = sh_allocSize header;
                      slab = getSlabForMemory markerPtr;
                      slabOffset = markerPtr - slab;
                      delta = slabOffset mod allocSize
                  in Some (Some (slab + (if delta \<noteq> 0 then slabOffset + (allocSize - delta) else slabOffset))))"

section \<open>Layout\<close>

lemma kSize_pos [simp]: "0 < kSize" by (simp add: kSize_def)

lemma unat_and_not_mask: "unat (w AND NOT (mask n)) = unat w - unat w mod 2 ^ n" for w :: "'a::len word"
proof -
  have "w AND NOT w AND mask n = 0" by (simp flip: and.assoc)
  then have "w AND NOT (mask n) = w - take_bit n w"
    using disjunctive_diff_eq_and_not [of w "w AND mask n"] by (simp add: take_bit_eq_mask and.left_commute bit.conj_disj_distrib)
  moreover have "unat (take_bit n w) \<le> unat w" by (simp add: unat_take_bit)
  ultimately show ?thesis by (simp add: unat_sub word_le_nat_alt unat_take_bit)
qed

lemma getSlabForMemory_eq: "m < 2 ^ 64 \<Longrightarrow> getSlabForMemory m = m - m mod kSize"
proof -
  assume m: "m < 2 ^ 64"
  have k: "kAddressMask = NOT (mask kNumSlabBits)"
    by (simp add: kAddressMask_def mask_eq_exp_minus_1 kNumSlabBits_def)
  have "unat (word_of_nat m :: u64) = m" using m by (simp add: unsigned_of_nat take_bit_nat_eq_self)
  then show ?thesis unfolding getSlabForMemory_def k unat_and_not_mask kSize_def by simp
qed

lemma getSlabForMemory_in_slab:
  assumes "slab mod kSize = 0" and "off < kSize" and "slab + off < 2 ^ 64"
  shows "getSlabForMemory (slab + off) = slab"
proof -
  have "(slab + off) mod kSize = off" using assms(1,2) by (simp add: mod_add_left_eq [symmetric])
  then show ?thesis using getSlabForMemory_eq [OF assms(3)] by simp
qed

text \<open>What the constructor establishes and no operation changes.\<close>

definition sa_layout :: "SlabAllocator \<Rightarrow> bool" where
  "sa_layout sa \<longleftrightarrow> 0 < memoryStart sa \<and> memoryStart sa mod kSize = 0 \<and> memorySize sa mod kSize = 0 \<and>
     memoryStart sa + memorySize sa < 2 ^ 64 \<and> memorySize sa div kSize < 2 ^ 29 \<and>
     slabMemoryStart sa = memoryStart sa + numSlabsForHeaders (memorySize sa) * kSize \<and>
     numSlabsForHeaders (memorySize sa) < numSlabs (memorySize sa)"

lemma sa_layoutD:
  assumes "sa_layout sa"
  shows "slabMemoryStart sa mod kSize = 0" "getSlabMemoryEnd sa mod kSize = 0" "slabMemoryStart sa < getSlabMemoryEnd sa"
    "getSlabMemoryEnd sa < 2 ^ 64" "0 < slabMemoryStart sa" "(getSlabMemoryEnd sa - slabMemoryStart sa) div kSize < 2 ^ 29"
proof -
  let ?m = "memorySize sa" and ?h = "numSlabsForHeaders (memorySize sa)"
  have m: "?m = ?m div kSize * kSize" using assms div_mult_mod_eq [of ?m kSize] by (simp add: sa_layout_def)
  have "numSlabs ?m = ?m div kSize" using assms by (simp add: sa_layout_def numSlabs_def)
  then have h: "?h < ?m div kSize" using assms by (simp add: sa_layout_def)
  then have "?h * kSize < ?m" using m by (metis kSize_pos mult_less_cancel2)
  then show "slabMemoryStart sa < getSlabMemoryEnd sa" using assms by (simp add: sa_layout_def getSlabMemoryEnd_def)
  show "slabMemoryStart sa mod kSize = 0" "getSlabMemoryEnd sa mod kSize = 0" "getSlabMemoryEnd sa < 2 ^ 64" "0 < slabMemoryStart sa"
    using assms mod_add_eq [of "memoryStart sa" kSize ?m] by (auto simp: sa_layout_def getSlabMemoryEnd_def)
  have "getSlabMemoryEnd sa - slabMemoryStart sa \<le> ?m" using assms by (simp add: sa_layout_def getSlabMemoryEnd_def)
  then have "(getSlabMemoryEnd sa - slabMemoryStart sa) div kSize \<le> ?m div kSize" by (rule div_le_mono)
  then show "(getSlabMemoryEnd sa - slabMemoryStart sa) div kSize < 2 ^ 29" using assms by (simp add: sa_layout_def)
qed

text \<open>The headers of all slabs lie in front of the first slab that is given out.\<close>

lemma headers_in_front:
  assumes "sa_layout sa" and "i < memorySize sa div kSize"
  shows "memoryStart sa + 7 * i + 7 \<le> slabMemoryStart sa"
proof -
  let ?n = "memorySize sa div kSize"
  have n: "numSlabs (memorySize sa) = ?n" "?n < 2 ^ 29" using assms(1) by (auto simp: sa_layout_def numSlabs_def)
  have "(7 * ?n + kSize - 1) div kSize \<le> 7 * ?n + kSize - 1" by (rule div_le_dividend)
  then have "(7 * ?n + kSize - 1) div kSize < 2 ^ 32" using n(2) by (simp add: kSize_def kNumSlabBits_def)
  then have h: "numSlabsForHeaders (memorySize sa) = (7 * ?n + kSize - 1) div kSize" by (simp add: numSlabsForHeaders_def n)
  have "7 * ?n \<le> (7 * ?n + kSize - 1) div kSize * kSize"
    using div_mult_mod_eq [of "7 * ?n + kSize - 1" kSize] mod_less_divisor [OF kSize_pos, of "7 * ?n + kSize - 1"] kSize_pos
    by linarith
  then show ?thesis using assms h by (simp add: sa_layout_def)
qed

section \<open>Well-formed allocators\<close>

definition sa_wf :: "SlabAllocator \<Rightarrow> bool" where
  "sa_wf sa \<longleftrightarrow> sa_layout sa \<and> slabMemoryStart sa \<le> nextSlabAllocation sa \<and> nextSlabAllocation sa \<le> getSlabMemoryEnd sa \<and>
     nextSlabAllocation sa mod kSize = 0 \<and> distinct (sa_freeSlabs sa @ advisedSlabs sa) \<and>
     (\<forall>s \<in> set (sa_freeSlabs sa @ advisedSlabs sa). isValidSlab sa s) \<and>
     (\<not> sa_canAllocate sa \<longrightarrow> sa_freeSlabs sa = [] \<and> allMemorySlabbed sa)"

lemma isValidSlab_iff:
  assumes "sa_wf sa"
  shows "isValidSlab sa s \<longleftrightarrow> slabMemoryStart sa \<le> s \<and> s < nextSlabAllocation sa \<and> s mod kSize = 0"
proof -
  have n: "nextSlabAllocation sa < 2 ^ 64" using assms sa_layoutD(4) [of sa] by (auto simp: sa_wf_def)
  have "getSlabForMemory s = s \<longleftrightarrow> s mod kSize = 0" if "s < nextSlabAllocation sa"
    using getSlabForMemory_eq [OF less_trans [OF that n]] mod_less_eq_dividend [of s kSize] by linarith
  then show ?thesis by (auto simp: isValidSlab_def)
qed

text \<open>The slab before an aligned bound ends before it.\<close>

lemma aligned_below: "a mod n = 0 \<Longrightarrow> b mod n = 0 \<Longrightarrow> a < b \<Longrightarrow> a + n \<le> b" for a b n :: nat
  by (metis dvd_eq_mod_eq_0 dvd_minus_self le_diff_conv2 nat_dvd_not_less not_less dvd_diff_nat less_or_eq_imp_le add.commute zero_less_diff)

lemma aligned_disjoint: "a mod n = 0 \<Longrightarrow> b mod n = 0 \<Longrightarrow> a \<noteq> b \<Longrightarrow> {a..<a + n} \<inter> {b..<b + n} = {}" for a b n :: nat
  using aligned_below [of a n b] aligned_below [of b n a] by (cases "a < b") auto

lemma isValidSlab_mono:
  assumes "isValidSlab sa s" and "slabMemoryStart sa' = slabMemoryStart sa" and "nextSlabAllocation sa \<le> nextSlabAllocation sa'"
  shows "isValidSlab sa' s"
  using assms by (auto simp: isValidSlab_def)

lemma slab_range:
  assumes "sa_wf sa" and "isValidSlab sa s"
  shows "s + kSize \<le> nextSlabAllocation sa" "s + kSize < 2 ^ 64" "s mod kSize = 0" "slabMemoryStart sa \<le> s"
proof -
  show "s mod kSize = 0" "slabMemoryStart sa \<le> s" using assms isValidSlab_iff by auto
  then show *: "s + kSize \<le> nextSlabAllocation sa" using assms isValidSlab_iff aligned_below [of s kSize] by (auto simp: sa_wf_def)
  show "s + kSize < 2 ^ 64" using * assms(1) sa_layoutD(4) [of sa] by (auto simp: sa_wf_def)
qed

lemma getSlabForMemory_valid:
  assumes "sa_wf sa" and "isValidSlab sa s" and "off < kSize"
  shows "getSlabForMemory (s + off) = s"
  using getSlabForMemory_in_slab [of s off] slab_range [OF assms(1,2)] assms(3) by simp

lemma slabIdx_valid:
  assumes "sa_wf sa" and "isValidSlab sa s"
  shows "slabIdx sa (Some s) = (s - slabMemoryStart sa) div kSize" "slabMemoryStart sa + slabIdx sa (Some s) * kSize = s"
    "slabIdx sa (Some s) < 2 ^ 29"
proof -
  have l: "sa_layout sa" "nextSlabAllocation sa \<le> getSlabMemoryEnd sa" using assms(1) by (auto simp: sa_wf_def)
  have "(s - slabMemoryStart sa) div kSize \<le> (getSlabMemoryEnd sa - slabMemoryStart sa) div kSize"
    using slab_range [OF assms] l(2) by (intro div_le_mono) simp
  also have "\<dots> < 2 ^ 29" using sa_layoutD(6) [OF l(1)] .
  finally have b: "(s - slabMemoryStart sa) div kSize < 2 ^ 29" .
  then show i: "slabIdx sa (Some s) = (s - slabMemoryStart sa) div kSize" by (simp add: slabIdx_def)
  with b show "slabIdx sa (Some s) < 2 ^ 29" by simp
  have "kSize dvd s" "kSize dvd slabMemoryStart sa" "slabMemoryStart sa \<le> s"
    using slab_range(3,4) [OF assms] sa_layoutD(1) [OF l(1)] by (auto simp: dvd_eq_mod_eq_0)
  then have "kSize dvd (s - slabMemoryStart sa)" by (intro dvd_diff_nat)
  then show "slabMemoryStart sa + slabIdx sa (Some s) * kSize = s" using i \<open>slabMemoryStart sa \<le> s\<close> by simp
qed

lemma slabIdx_inj:
  assumes "sa_wf sa" "isValidSlab sa s" "isValidSlab sa t"
  shows "slabIdx sa (Some s) = slabIdx sa (Some t) \<longleftrightarrow> s = t"
  using slabIdx_valid(2) [OF assms(1,2)] slabIdx_valid(2) [OF assms(1,3)] by metis

text \<open>Writing the header of one slab.\<close>

lemma upd_header_fields [simp]:
  "memoryPoolSize (upd_header s f sa) = memoryPoolSize sa" "sa_freeSlabs (upd_header s f sa) = sa_freeSlabs sa"
  "advisedSlabs (upd_header s f sa) = advisedSlabs sa" "memoryStart (upd_header s f sa) = memoryStart sa"
  "memorySize (upd_header s f sa) = memorySize sa" "slabMemoryStart (upd_header s f sa) = slabMemoryStart sa"
  "nextSlabAllocation (upd_header s f sa) = nextSlabAllocation sa" "sa_canAllocate (upd_header s f sa) = sa_canAllocate sa"
  "ownsMemory (upd_header s f sa) = ownsMemory sa" "pretendMadvise (upd_header s f sa) = pretendMadvise sa"
  "isValidSlab (upd_header s f sa) t = isValidSlab sa t" "slabIdx (upd_header s f sa) p = slabIdx sa p"
  by (simp_all add: upd_header_def Let_def isValidSlab_def slabIdx_def split: option.splits)

lemma upd_header_wf [simp]: "sa_wf (upd_header s f sa) = sa_wf sa"
  by (simp add: sa_wf_def sa_layout_def getSlabMemoryEnd_def allMemorySlabbed_def)

lemma getSlabHeader_upd:
  assumes "sa_wf sa" "isValidSlab sa s"
  shows "getSlabHeader (upd_header s f sa) t = (if t = s then map_option f (getSlabHeader sa s) else getSlabHeader sa t)"
proof -
  have h: "sa_headers (upd_header s f sa) =
      (sa_headers sa)(slabIdx sa (Some s) := f (sa_headers sa (slabIdx sa (Some s))))" by (simp add: upd_header_def Let_def)
  show ?thesis using assms slabIdx_inj [OF assms, of t] by (auto simp: getSlabHeader_def h)
qed

lemma header_flags [simp]:
  "sh_poolId (setAdvised v h) = sh_poolId h" "sh_classId (setAdvised v h) = sh_classId h" "sh_allocSize (setAdvised v h) = sh_allocSize h"
  "sh_poolId (setMarkedForRelease v h) = sh_poolId h" "sh_classId (setMarkedForRelease v h) = sh_classId h"
  "sh_allocSize (setMarkedForRelease v h) = sh_allocSize h"
  by (simp_all add: setAdvised_def setMarkedForRelease_def sh_setFlag_def sh_unSetFlag_def)

lemma header_bits:
  "isMarkedForRelease (setMarkedForRelease v h) = v" "isAdvised (setAdvised v h) = v"
  "isMarkedForRelease (setAdvised v h) = isMarkedForRelease h" "isAdvised (setMarkedForRelease v h) = isAdvised h"
  "\<not> isMarkedForRelease (SlabHeader_init pid)" "\<not> isAdvised (SlabHeader_init pid)"
  "isMarkedForRelease (h\<lparr>sh_poolId := p\<rparr>) = isMarkedForRelease h" "isMarkedForRelease (h\<lparr>sh_classId := c\<rparr>) = isMarkedForRelease h"
  "isMarkedForRelease (h\<lparr>sh_allocSize := n\<rparr>) = isMarkedForRelease h" "isMarkedForRelease (resetAllocInfo h) = isMarkedForRelease h"
  "isAdvised (resetAllocInfo h) = isAdvised h"
proof -
  have a: "(255::u8) - 1 = NOT 1" "(255::u8) - 2 = NOT 2" by simp_all
  have t: "w AND 1 \<noteq> 0 \<longleftrightarrow> bit w 0" "w AND 2 \<noteq> 0 \<longleftrightarrow> bit w 1" for w :: u8
    using bit_mask_test [of w 0] bit_mask_test [of w 1] by simp_all
  have b: "bit (1::u8) 0" "bit (2::u8) (Suc 0)" "\<not> bit (2::u8) 0" "\<not> bit (1::u8) (Suc 0)" by (simp_all add: bit_simps)
  show "isMarkedForRelease (setMarkedForRelease v h) = v" "isAdvised (setAdvised v h) = v"
    "isMarkedForRelease (setAdvised v h) = isMarkedForRelease h" "isAdvised (setMarkedForRelease v h) = isAdvised h"
    unfolding isMarkedForRelease_def isAdvised_def setMarkedForRelease_def setAdvised_def sh_isFlagSet_def sh_setFlag_def sh_unSetFlag_def
    by (simp_all add: t bit_and_iff bit_or_iff bit_not_iff b a [simplified])
qed (simp_all add: isMarkedForRelease_def isAdvised_def sh_isFlagSet_def SlabHeader_init_def resetAllocInfo_def)

section \<open>Each slab has one owner\<close>

text \<open>
  Histories of the allocator: \<open>own\<close> records which pool holds a slab it was given and has not returned,
  \<open>adv\<close> how many slabs of each pool were advised away so far.
\<close>

type_synonym sa_hist = "SlabAllocator \<times> (addr \<rightharpoonup> int) \<times> (int \<Rightarrow> nat)"

datatype sa_op = Sa_make int | Sa_free addr | Sa_advise bool addr | Sa_reclaim int
datatype sa_out = Sa_got ptr | Sa_done bool | Sa_failed sa_error

primrec sa_step :: "sa_op \<Rightarrow> sa_hist \<Rightarrow> sa_out \<times> sa_hist" where
  "sa_step (Sa_make pid) = (\<lambda>(sa, own, adv). case makeNewSlab pid sa of
     (None, sa) \<Rightarrow> (Sa_got None, sa, own, adv) | (Some s, sa) \<Rightarrow> (Sa_got (Some s), sa, own(s \<mapsto> pid), adv))"
| "sa_step (Sa_free s) = (\<lambda>(sa, own, adv). case freeSlab s sa of
     Inl e \<Rightarrow> (Sa_failed e, sa, own, adv) | Inr sa \<Rightarrow> (Sa_done True, sa, own(s := None), adv))"
| "sa_step (Sa_advise ok s) = (\<lambda>(sa, own, adv). case adviseSlab ok s sa of
     Inl e \<Rightarrow> (Sa_failed e, sa, own, adv)
   | Inr (True, sa) \<Rightarrow> (Sa_done True, sa, own(s := None), adv(the (own s) := adv (the (own s)) + 1))
   | Inr (False, sa) \<Rightarrow> (Sa_done False, sa, own, adv))"
| "sa_step (Sa_reclaim pid) = (\<lambda>(sa, own, adv). case reclaimSlab pid sa of
     (None, sa) \<Rightarrow> (Sa_got None, sa, own, adv) | (Some s, sa) \<Rightarrow> (Sa_got (Some s), sa, own(s \<mapsto> pid), adv))"

text \<open>Pools ask with their identifier and return only slabs they hold.\<close>

primrec sa_pre :: "sa_op \<Rightarrow> sa_hist \<Rightarrow> bool" where
  "sa_pre (Sa_make pid) = (\<lambda>_. 0 \<le> pid \<and> pid < 127)"
| "sa_pre (Sa_free s) = (\<lambda>(sa, own, adv). s \<in> dom own)"
| "sa_pre (Sa_advise ok s) = (\<lambda>(sa, own, adv). s \<in> dom own)"
| "sa_pre (Sa_reclaim pid) = (\<lambda>_. 0 \<le> pid \<and> pid < 127)"

definition validSlabs :: "SlabAllocator \<Rightarrow> addr set" where
  "validSlabs sa = {s. isValidSlab sa s}"

definition sa_owned :: "SlabAllocator \<Rightarrow> (addr \<rightharpoonup> int) \<Rightarrow> bool" where
  "sa_owned sa own \<longleftrightarrow> sa_wf sa \<and> dom own = validSlabs sa - set (sa_freeSlabs sa) - set (advisedSlabs sa) \<and>
     (\<forall>s p. own s = Some p \<longrightarrow> 0 \<le> p \<and> p < 127 \<and> map_option sh_poolId (getSlabHeader sa s) = Some p)"

definition sa_sizes :: "SlabAllocator \<Rightarrow> (addr \<rightharpoonup> int) \<Rightarrow> (int \<Rightarrow> nat) \<Rightarrow> bool" where
  "sa_sizes sa own adv \<longleftrightarrow> (\<forall>p. memoryPoolSize sa p = word_of_nat (kSize * (card {s. own s = Some p} + adv p)))"

lemma finite_validSlabs: "finite (validSlabs sa)"
  by (rule finite_subset [of _ "{..<nextSlabAllocation sa}"]) (auto simp: validSlabs_def isValidSlab_def)

lemma sa_owned_finite: "sa_owned sa own \<Longrightarrow> finite {s. own s = Some p}"
  by (rule finite_subset [OF _ finite_validSlabs [of sa]]) (auto simp: sa_owned_def)

lemma sa_ownedD:
  assumes "sa_owned sa own" and "own s = Some p"
  shows "0 \<le> p" "p < 127" "map_option sh_poolId (getSlabHeader sa s) = Some p" "isValidSlab sa s"
    "s \<notin> set (sa_freeSlabs sa)" "s \<notin> set (advisedSlabs sa)"
proof -
  have "s \<in> dom own" using assms(2) by (rule domI)
  then show "0 \<le> p" "p < 127" "map_option sh_poolId (getSlabHeader sa s) = Some p" "isValidSlab sa s"
    "s \<notin> set (sa_freeSlabs sa)" "s \<notin> set (advisedSlabs sa)"
    using assms unfolding sa_owned_def validSlabs_def by blast+
qed

text \<open>Handing out and taking back a slab, on the level of owners and sizes.\<close>

lemma sa_give:
  assumes "sa_owned sa own" "sa_sizes sa own adv" and "sa_wf sa'" and "0 \<le> pid" "pid < 127"
    and "validSlabs sa' - set (sa_freeSlabs sa') - set (advisedSlabs sa') = insert s (dom own)" "s \<notin> dom own"
    and "map_option sh_poolId (getSlabHeader sa' s) = Some pid" and "\<And>t. t \<in> dom own \<Longrightarrow> getSlabHeader sa' t = getSlabHeader sa t"
    and "memoryPoolSize sa' = (memoryPoolSize sa)(pid := memoryPoolSize sa pid + word_of_nat kSize)"
  shows "sa_owned sa' (own(s \<mapsto> pid)) \<and> sa_sizes sa' (own(s \<mapsto> pid)) adv"
proof -
  have "map_option sh_poolId (getSlabHeader sa' t) = Some p" if "own t = Some p" for t p
    using assms(9) [OF domI [of own, OF that]] sa_ownedD [OF assms(1) that] by simp
  then have "sa_owned sa' (own(s \<mapsto> pid))" using assms by (auto simp: sa_owned_def)
  moreover have "{t. (own(s \<mapsto> pid)) t = Some p} = (if p = pid then insert s {t. own t = Some p} else {t. own t = Some p})" for p
    using assms(7) by auto
  then have "card {t. (own(s \<mapsto> pid)) t = Some p} = card {t. own t = Some p} + (if p = pid then 1 else 0)" for p
    using sa_owned_finite [OF assms(1)] assms(7) by (auto simp: domIff)
  then have "sa_sizes sa' (own(s \<mapsto> pid)) adv" using assms(2,10) by (auto simp: sa_sizes_def algebra_simps)
  ultimately show ?thesis by blast
qed

lemma sa_take:
  assumes "sa_owned sa own" and "sa_wf sa'" and "own s = Some pid"
    and "validSlabs sa' - set (sa_freeSlabs sa') - set (advisedSlabs sa') = dom own - {s}"
    and "\<And>t. t \<in> dom own \<Longrightarrow> t \<noteq> s \<Longrightarrow> getSlabHeader sa' t = getSlabHeader sa t"
  shows "sa_owned sa' (own(s := None))" "card {t. own t = Some pid} = Suc (card {t. (own(s := None)) t = Some pid})"
    "p \<noteq> pid \<Longrightarrow> {t. (own(s := None)) t = Some p} = {t. own t = Some p}"
proof -
  have "map_option sh_poolId (getSlabHeader sa' t) = Some p" if "own t = Some p" "t \<noteq> s" for t p
    using assms(5) [OF domI [of own, OF that(1)] that(2)] sa_ownedD [OF assms(1) that(1)] by simp
  then show "sa_owned sa' (own(s := None))" using assms by (auto simp: sa_owned_def)
  have "{t. (own(s := None)) t = Some pid} = {t. own t = Some pid} - {s}" by auto
  moreover have "finite {t. own t = Some pid}" by (rule sa_owned_finite [OF assms(1)])
  ultimately show "card {t. own t = Some pid} = Suc (card {t. (own(s := None)) t = Some pid})"
    using assms(3) card.remove [of "{t. own t = Some pid}" s] by simp
  show "{t. (own(s := None)) t = Some p} = {t. own t = Some p}" if "p \<noteq> pid" using that assms(3) by auto
qed

lemma validSlabs_next:
  assumes "sa_wf sa" and "\<not> allMemorySlabbed sa"
  shows "sa_wf (sa\<lparr>nextSlabAllocation := nextSlabAllocation sa + kSize\<rparr>)"
    "validSlabs (sa\<lparr>nextSlabAllocation := nextSlabAllocation sa + kSize\<rparr>) = insert (nextSlabAllocation sa) (validSlabs sa)"
    "nextSlabAllocation sa \<notin> validSlabs sa"
proof -
  let ?sa = "sa\<lparr>nextSlabAllocation := nextSlabAllocation sa + kSize\<rparr>" and ?n = "nextSlabAllocation sa"
  have n: "?n mod kSize = 0" "?n < getSlabMemoryEnd sa" "sa_layout sa" "slabMemoryStart sa \<le> ?n"
    using assms by (auto simp: sa_wf_def allMemorySlabbed_def)
  then have e: "?n + kSize \<le> getSlabMemoryEnd sa" using aligned_below [OF n(1) sa_layoutD(2) [OF n(3)] n(2)] by simp
  have "isValidSlab ?sa s" if "isValidSlab sa s" for s using that by (rule isValidSlab_mono) simp_all
  then show w: "sa_wf ?sa" using assms n e
    by (auto simp: sa_wf_def sa_layout_def getSlabMemoryEnd_def allMemorySlabbed_def)
  have "s < ?n + kSize \<longleftrightarrow> s < ?n \<or> s = ?n" if "s mod kSize = 0" for s
    using aligned_below [OF n(1) that] kSize_pos by linarith
  then show "validSlabs ?sa = insert ?n (validSlabs sa)" "?n \<notin> validSlabs sa"
    using n by (auto simp: validSlabs_def isValidSlab_iff [OF w] isValidSlab_iff [OF assms(1)])
qed

lemma sa_updates [simp]:
  "isValidSlab (sa\<lparr>memoryPoolSize := f\<rparr>) s = isValidSlab sa s" "isValidSlab (sa\<lparr>sa_freeSlabs := xs\<rparr>) s = isValidSlab sa s"
  "isValidSlab (sa\<lparr>advisedSlabs := xs\<rparr>) s = isValidSlab sa s" "isValidSlab (sa\<lparr>sa_canAllocate := b\<rparr>) s = isValidSlab sa s"
  "slabIdx (sa\<lparr>memoryPoolSize := f\<rparr>) p = slabIdx sa p" "slabIdx (sa\<lparr>sa_freeSlabs := xs\<rparr>) p = slabIdx sa p"
  "slabIdx (sa\<lparr>advisedSlabs := xs\<rparr>) p = slabIdx sa p" "slabIdx (sa\<lparr>sa_canAllocate := b\<rparr>) p = slabIdx sa p"
  "slabIdx (sa\<lparr>nextSlabAllocation := n\<rparr>) p = slabIdx sa p"
  "getSlabHeader (sa\<lparr>memoryPoolSize := f\<rparr>) s = getSlabHeader sa s" "getSlabHeader (sa\<lparr>sa_freeSlabs := xs\<rparr>) s = getSlabHeader sa s"
  "getSlabHeader (sa\<lparr>advisedSlabs := xs\<rparr>) s = getSlabHeader sa s" "getSlabHeader (sa\<lparr>sa_canAllocate := b\<rparr>) s = getSlabHeader sa s"
  "sa_layout (sa\<lparr>memoryPoolSize := f\<rparr>) = sa_layout sa" "sa_layout (sa\<lparr>sa_freeSlabs := xs\<rparr>) = sa_layout sa"
  "sa_layout (sa\<lparr>advisedSlabs := xs\<rparr>) = sa_layout sa" "sa_layout (sa\<lparr>sa_canAllocate := b\<rparr>) = sa_layout sa"
  "getSlabMemoryEnd (sa\<lparr>memoryPoolSize := f\<rparr>) = getSlabMemoryEnd sa" "getSlabMemoryEnd (sa\<lparr>sa_freeSlabs := xs\<rparr>) = getSlabMemoryEnd sa"
  "getSlabMemoryEnd (sa\<lparr>advisedSlabs := xs\<rparr>) = getSlabMemoryEnd sa" "getSlabMemoryEnd (sa\<lparr>sa_canAllocate := b\<rparr>) = getSlabMemoryEnd sa"
  "allMemorySlabbed (sa\<lparr>memoryPoolSize := f\<rparr>) = allMemorySlabbed sa" "allMemorySlabbed (sa\<lparr>sa_freeSlabs := xs\<rparr>) = allMemorySlabbed sa"
  "allMemorySlabbed (sa\<lparr>advisedSlabs := xs\<rparr>) = allMemorySlabbed sa" "allMemorySlabbed (sa\<lparr>sa_canAllocate := b\<rparr>) = allMemorySlabbed sa"
  "validSlabs (sa\<lparr>memoryPoolSize := f\<rparr>) = validSlabs sa" "validSlabs (sa\<lparr>sa_freeSlabs := xs\<rparr>) = validSlabs sa"
  "validSlabs (sa\<lparr>advisedSlabs := xs\<rparr>) = validSlabs sa" "validSlabs (sa\<lparr>sa_canAllocate := b\<rparr>) = validSlabs sa"
  "validSlabs (upd_header s g sa) = validSlabs sa"
  by (simp_all add: isValidSlab_def slabIdx_def getSlabHeader_def sa_layout_def getSlabMemoryEnd_def allMemorySlabbed_def validSlabs_def
      split: option.splits)

lemma sa_wf_sizes [simp]: "sa_wf (sa\<lparr>memoryPoolSize := f\<rparr>) = sa_wf sa"
  by (simp add: sa_wf_def)

text \<open>The slab \<open>s\<close> goes to the pool after it was taken out of \<open>sa\<close>, giving \<open>sa1\<close>.\<close>

lemma sa_give_init:
  assumes "sa_owned sa own" "sa_sizes sa own adv" and "sa_wf sa1" "isValidSlab sa1 s" and "0 \<le> pid" "pid < 127"
    and "validSlabs sa1 - set (sa_freeSlabs sa1) - set (advisedSlabs sa1) = insert s (dom own)" "s \<notin> dom own"
    and "\<And>t. t \<in> dom own \<Longrightarrow> getSlabHeader sa1 t = getSlabHeader sa t" and "memoryPoolSize sa1 = memoryPoolSize sa"
    and "sa' = initializeHeader s pid (sa1\<lparr>memoryPoolSize := (memoryPoolSize sa1)(pid := memoryPoolSize sa1 pid + word_of_nat kSize)\<rparr>)"
  shows "s \<notin> dom own \<and> sa_owned sa' (own(s \<mapsto> pid)) \<and> sa_sizes sa' (own(s \<mapsto> pid)) adv"
proof -
  let ?sa = "sa1\<lparr>memoryPoolSize := (memoryPoolSize sa1)(pid := memoryPoolSize sa1 pid + word_of_nat kSize)\<rparr>"
  have w: "sa_wf ?sa" "isValidSlab ?sa s" using assms(3,4) by simp_all
  have h: "getSlabHeader sa' t = (if t = s then map_option (\<lambda>_. SlabHeader_init pid) (getSlabHeader sa1 s) else getSlabHeader sa1 t)" for t
    using getSlabHeader_upd [OF w, of _ t] by (simp add: assms(11) initializeHeader_def)
  have "getSlabHeader sa1 s \<noteq> None" using assms(4) by (simp add: getSlabHeader_def)
  then have "map_option sh_poolId (getSlabHeader sa' s) = Some pid" by (auto simp: h SlabHeader_init_def)
  moreover have "getSlabHeader sa' t = getSlabHeader sa t" if "t \<in> dom own" for t
    using that assms(8,9) by (auto simp: h)
  ultimately have "sa_owned sa' (own(s \<mapsto> pid)) \<and> sa_sizes sa' (own(s \<mapsto> pid)) adv"
    using assms by (intro sa_give [OF assms(1,2) _ assms(5,6) _ assms(8)]) (simp_all add: initializeHeader_def)
  with assms(8) show ?thesis by blast
qed

lemma makeNewSlab_ok:
  assumes "sa_owned sa own" "sa_sizes sa own adv" "0 \<le> pid" "pid < 127" and "makeNewSlab pid sa = (r, sa')"
  shows "case r of None \<Rightarrow> sa_owned sa' own \<and> sa_sizes sa' own adv \<and> sa_freeSlabs sa = [] \<and> allMemorySlabbed sa
    | Some s \<Rightarrow> s \<notin> dom own \<and> sa_owned sa' (own(s \<mapsto> pid)) \<and> sa_sizes sa' (own(s \<mapsto> pid)) adv"
proof -
  have wf: "sa_wf sa" and own: "dom own = validSlabs sa - set (sa_freeSlabs sa) - set (advisedSlabs sa)"
    using assms(1) by (auto simp: sa_owned_def)
  have fr: "set (sa_freeSlabs sa) \<subseteq> validSlabs sa" "set (advisedSlabs sa) \<subseteq> validSlabs sa" "distinct (sa_freeSlabs sa)"
    "set (sa_freeSlabs sa) \<inter> set (advisedSlabs sa) = {}" using wf by (auto simp: sa_wf_def validSlabs_def)
  consider "\<not> sa_canAllocate sa" | "sa_canAllocate sa" "sa_freeSlabs sa \<noteq> []"
    | "sa_canAllocate sa" "sa_freeSlabs sa = []" "allMemorySlabbed sa" | "sa_canAllocate sa" "sa_freeSlabs sa = []" "\<not> allMemorySlabbed sa"
    by blast
  then show ?thesis
  proof cases
    case 1
    with assms wf show ?thesis by (auto simp: makeNewSlab_def makeNewSlabImpl_def sa_wf_def)
  next
    case 2
    let ?s = "last (sa_freeSlabs sa)" and ?sa = "sa\<lparr>sa_freeSlabs := butlast (sa_freeSlabs sa)\<rparr>"
    have s: "?s \<in> set (sa_freeSlabs sa)" "set (butlast (sa_freeSlabs sa)) = set (sa_freeSlabs sa) - {?s}"
      using 2 set_butlast_distinct [OF fr(3)] by simp_all
    have "sa_wf ?sa" using wf 2 s(2) by (auto simp: sa_wf_def distinct_butlast dest: in_set_butlastD)
    moreover have "validSlabs ?sa - set (sa_freeSlabs ?sa) - set (advisedSlabs ?sa) = insert ?s (dom own)"
      using s fr own by auto
    moreover have "r = Some ?s" "sa' = initializeHeader ?s pid (?sa\<lparr>memoryPoolSize := (memoryPoolSize ?sa)(pid := memoryPoolSize ?sa pid + word_of_nat kSize)\<rparr>)"
      using assms(5) 2 by (auto simp: makeNewSlab_def makeNewSlabImpl_def)
    moreover have "isValidSlab sa ?s" "?s \<notin> dom own" using s(1) fr own by (auto simp: validSlabs_def)
    ultimately show ?thesis using sa_give_init [OF assms(1,2) _ _ assms(3,4), of ?sa ?s sa'] by simp
  next
    case 3
    then have "r = None" "sa' = sa\<lparr>sa_canAllocate := False\<rparr>" using assms(5) by (auto simp: makeNewSlab_def makeNewSlabImpl_def)
    moreover have "sa_wf (sa\<lparr>sa_canAllocate := False\<rparr>)" using wf 3 by (simp add: sa_wf_def)
    ultimately show ?thesis using assms(1,2) 3 by (simp add: sa_owned_def sa_sizes_def)
  next
    case 4
    let ?s = "nextSlabAllocation sa" and ?sa = "sa\<lparr>nextSlabAllocation := nextSlabAllocation sa + kSize\<rparr>"
    note n = validSlabs_next [OF wf 4(3)]
    have "validSlabs ?sa - set (sa_freeSlabs ?sa) - set (advisedSlabs ?sa) = insert ?s (dom own)" "?s \<notin> dom own"
      using n fr own by auto
    moreover have "r = Some ?s" "sa' = initializeHeader ?s pid (?sa\<lparr>memoryPoolSize := (memoryPoolSize ?sa)(pid := memoryPoolSize ?sa pid + word_of_nat kSize)\<rparr>)"
      using assms(5) 4 by (auto simp: makeNewSlab_def makeNewSlabImpl_def)
    moreover have "getSlabHeader ?sa t = getSlabHeader sa t" if "t \<in> dom own" for t
      using that own n(2) by (auto simp: getSlabHeader_def validSlabs_def)
    moreover have "isValidSlab ?sa ?s" using n(2) by (auto simp: validSlabs_def)
    ultimately show ?thesis using sa_give_init [OF assms(1,2) n(1) _ assms(3,4), of ?s sa'] by simp
  qed
qed

lemma word_pool_size_less: "word_of_nat (kSize * (Suc n + m)) - word_of_nat kSize = (word_of_nat (kSize * (n + m)) :: u64)"
  by (simp add: algebra_simps)

lemma freeSlab_ok:
  assumes "sa_owned sa own" "sa_sizes sa own adv" and "own s = Some pid"
  shows "\<exists>sa'. freeSlab s sa = Inr sa' \<and> sa_owned sa' (own(s := None)) \<and> sa_sizes sa' (own(s := None)) adv"
proof -
  note o = sa_ownedD [OF assms(1,3)]
  have wf: "sa_wf sa" using assms(1) by (simp add: sa_owned_def)
  obtain h where h: "getSlabHeader sa s = Some h" "sh_poolId h = pid" using o(3) by auto
  define sa1 where "sa1 = sa\<lparr>memoryPoolSize := (memoryPoolSize sa)(pid := memoryPoolSize sa pid - word_of_nat kSize),
    sa_freeSlabs := sa_freeSlabs sa @ [s], sa_canAllocate := True\<rparr>"
  have f: "freeSlab s sa = Inr (upd_header s resetAllocInfo sa1)" by (simp add: freeSlab_def h Let_def sa1_def)
  have w: "sa_wf sa1" "isValidSlab sa1 s" using wf o by (auto simp: sa1_def sa_wf_def)
  have d: "validSlabs sa1 - set (sa_freeSlabs sa1) - set (advisedSlabs sa1) = dom own - {s}"
    using assms(1) by (auto simp: sa1_def sa_owned_def)
  have hd: "getSlabHeader (upd_header s resetAllocInfo sa1) t = getSlabHeader sa t" if "t \<noteq> s" for t
    using that getSlabHeader_upd [OF w] by (simp add: sa1_def)
  have t: "sa_owned (upd_header s resetAllocInfo sa1) (own(s := None))" "card {t. own t = Some pid} = Suc (card {t. (own(s := None)) t = Some pid})"
    "\<And>p. p \<noteq> pid \<Longrightarrow> {t. (own(s := None)) t = Some p} = {t. own t = Some p}"
    using sa_take [OF assms(1), of "upd_header s resetAllocInfo sa1" s pid, OF _ assms(3)] w d hd by (simp_all del: fun_upd_apply)
  have m: "memoryPoolSize sa1 p = (if p = pid then memoryPoolSize sa p - word_of_nat kSize else memoryPoolSize sa p)" for p
    by (simp add: sa1_def)
  have "sa_sizes (upd_header s resetAllocInfo sa1) (own(s := None)) adv"
    unfolding sa_sizes_def
  proof
    fix p show "memoryPoolSize (upd_header s resetAllocInfo sa1) p = word_of_nat (kSize * (card {t. (own(s := None)) t = Some p} + adv p))"
    proof (cases "p = pid")
      case True
      then show ?thesis using assms(2) m t(2) word_pool_size_less by (simp add: sa_sizes_def del: fun_upd_apply of_nat_add of_nat_mult of_nat_Suc add_Suc)
    next
      case False
      then show ?thesis using assms(2) m t(3) [OF False] by (simp add: sa_sizes_def del: fun_upd_apply)
    qed
  qed
  with f t(1) show ?thesis by blast
qed

lemma adviseSlab_ok:
  assumes "sa_owned sa own" "sa_sizes sa own adv" and "own s = Some pid"
  shows "\<exists>r sa'. adviseSlab ok s sa = Inr (r, sa') \<and> (if r
    then sa_owned sa' (own(s := None)) \<and> sa_sizes sa' (own(s := None)) (adv(pid := adv pid + 1))
    else sa_owned sa' own \<and> sa_sizes sa' own adv)"
proof -
  note o = sa_ownedD [OF assms(1,3)]
  have wf: "sa_wf sa" using assms(1) by (simp add: sa_owned_def)
  obtain h where h: "getSlabHeader sa s = Some h" "sh_poolId h = pid" using o(3) by auto
  let ?sa1 = "upd_header s (setAdvised True) sa"
  show ?thesis
  proof (cases "ok \<or> pretendMadvise sa")
    case True
    define sa2 where "sa2 = ?sa1\<lparr>advisedSlabs := advisedSlabs sa @ [s]\<rparr>"
    have a: "adviseSlab ok s sa = Inr (True, upd_header s resetAllocInfo sa2)" using True by (simp add: adviseSlab_def h Let_def sa2_def)
    have w: "sa_wf sa2" "isValidSlab sa2 s" using wf o by (auto simp: sa2_def sa_wf_def sa_layout_def getSlabMemoryEnd_def allMemorySlabbed_def)
    have d: "validSlabs sa2 - set (sa_freeSlabs sa2) - set (advisedSlabs sa2) = dom own - {s}"
      using assms(1) by (auto simp: sa2_def sa_owned_def)
    have hd: "getSlabHeader (upd_header s resetAllocInfo sa2) t = getSlabHeader sa t" if "t \<noteq> s" for t
      using that getSlabHeader_upd [OF w] getSlabHeader_upd [OF wf o(4)] by (simp add: sa2_def)
    have t: "sa_owned (upd_header s resetAllocInfo sa2) (own(s := None))" "card {t. own t = Some pid} = Suc (card {t. (own(s := None)) t = Some pid})"
      "\<And>p. p \<noteq> pid \<Longrightarrow> {t. (own(s := None)) t = Some p} = {t. own t = Some p}"
      using sa_take [OF assms(1), of "upd_header s resetAllocInfo sa2" s pid, OF _ assms(3)] w d hd by (simp_all del: fun_upd_apply)
    have m: "memoryPoolSize sa2 = memoryPoolSize sa" by (simp add: sa2_def)
    have "sa_sizes (upd_header s resetAllocInfo sa2) (own(s := None)) (adv(pid := adv pid + 1))"
      unfolding sa_sizes_def
    proof
      fix p show "memoryPoolSize (upd_header s resetAllocInfo sa2) p =
          word_of_nat (kSize * (card {t. (own(s := None)) t = Some p} + (adv(pid := adv pid + 1)) p))"
      proof (cases "p = pid")
        case True
        then have "(adv(pid := adv pid + 1)) p = Suc (adv pid)" by simp
        then show ?thesis using assms(2) m t(2) True by (simp add: sa_sizes_def del: fun_upd_apply of_nat_add of_nat_mult of_nat_Suc)
      next
        case False
        then have "(adv(pid := adv pid + 1)) p = adv p" by simp
        then show ?thesis using assms(2) m t(3) [OF False] by (simp add: sa_sizes_def del: fun_upd_apply of_nat_add of_nat_mult)
      qed
    qed
    with a t(1) show ?thesis by auto
  next
    case False
    let ?sa2 = "upd_header s (setAdvised False) ?sa1"
    have "adviseSlab ok s sa = Inr (False, ?sa2)" using False by (simp add: adviseSlab_def h Let_def)
    moreover have "map_option sh_poolId (getSlabHeader ?sa2 t) = map_option sh_poolId (getSlabHeader sa t)" for t
      using getSlabHeader_upd [of ?sa1 s "setAdvised False" t] getSlabHeader_upd [OF wf o(4)] wf o(4) h by simp
    ultimately show ?thesis using assms(1,2) by (intro exI [of _ False]) (simp add: sa_owned_def sa_sizes_def del: map_option_eq_Some)
  qed
qed

lemma reclaimSlab_ok:
  assumes "sa_owned sa own" "sa_sizes sa own adv" "0 \<le> pid" "pid < 127" and "reclaimSlab pid sa = (r, sa')"
  shows "case r of None \<Rightarrow> sa' = sa \<and> advisedSlabs sa = []
    | Some s \<Rightarrow> s \<notin> dom own \<and> sa_owned sa' (own(s \<mapsto> pid)) \<and> sa_sizes sa' (own(s \<mapsto> pid)) adv"
proof (cases "advisedSlabs sa")
  case Nil
  with assms(5) show ?thesis by (auto simp: reclaimSlab_def)
next
  case (Cons s rest)
  have wf: "sa_wf sa" and own: "dom own = validSlabs sa - set (sa_freeSlabs sa) - set (advisedSlabs sa)"
    using assms(1) by (auto simp: sa_owned_def)
  let ?sa = "sa\<lparr>advisedSlabs := rest\<rparr>"
  have "sa_wf ?sa" using wf Cons by (auto simp: sa_wf_def)
  moreover have "validSlabs ?sa - set (sa_freeSlabs ?sa) - set (advisedSlabs ?sa) = insert s (dom own)" "isValidSlab ?sa s" "s \<notin> dom own"
    using wf own Cons by (auto simp: sa_wf_def validSlabs_def)
  moreover have "r = Some s" "sa' = initializeHeader s pid (?sa\<lparr>memoryPoolSize := (memoryPoolSize ?sa)(pid := memoryPoolSize ?sa pid + word_of_nat kSize)\<rparr>)"
    using assms(5) Cons by (auto simp: reclaimSlab_def Let_def)
  ultimately show ?thesis using sa_give_init [OF assms(1,2) _ _ assms(3,4), of ?sa s sa'] by simp
qed

definition sa_inv :: "sa_hist \<Rightarrow> bool" where
  "sa_inv = (\<lambda>(sa, own, adv). sa_owned sa own \<and> sa_sizes sa own adv)"

lemma sa_step_inv:
  assumes "sa_inv hist" and "sa_pre x hist"
  shows "sa_inv (snd (sa_step x hist))"
proof -
  obtain sa own adv where hist: "hist = (sa, own, adv)" by (cases hist)
  with assms have i: "sa_owned sa own" "sa_sizes sa own adv" by (simp_all add: sa_inv_def)
  show ?thesis
  proof (cases x)
    case (Sa_make pid)
    obtain r sa' where m: "makeNewSlab pid sa = (r, sa')" by fastforce
    with Sa_make assms(2) hist makeNewSlab_ok [OF i _ _ m] show ?thesis by (cases r) (auto simp: sa_inv_def)
  next
    case (Sa_free s)
    with assms(2) hist obtain pid where "own s = Some pid" by auto
    with freeSlab_ok [OF i] Sa_free hist show ?thesis by (fastforce simp: sa_inv_def)
  next
    case (Sa_advise ok s)
    with assms(2) hist obtain pid where "own s = Some pid" by auto
    with adviseSlab_ok [OF i this, of ok] Sa_advise hist show ?thesis by (fastforce simp: sa_inv_def split: if_splits)
  next
    case (Sa_reclaim pid)
    obtain r sa' where m: "reclaimSlab pid sa = (r, sa')" by fastforce
    with Sa_reclaim assms(2) hist reclaimSlab_ok [OF i _ _ m] i show ?thesis by (cases r) (auto simp: sa_inv_def)
  qed
qed

lemma SlabAllocator_init_ok:
  assumes "SlabAllocator_init start n owns = Inr sa" and "start + n < 2 ^ 64" and "n div kSize < 2 ^ 29"
  shows "sa_wf sa" "sa_freeSlabs sa = []" "advisedSlabs sa = []" "validSlabs sa = {}" "memoryPoolSize sa = (\<lambda>_. 0)"
    "memoryStart sa = start" "memorySize sa = roundDownToSlabSize n" "sa_canAllocate sa"
    "sa_headers sa = (\<lambda>_. SlabHeader_init kInvalidPoolId)" "pretendMadvise sa = False" "nextSlabAllocation sa = slabMemoryStart sa"
proof -
  let ?n = "roundDownToSlabSize n"
  have m: "?n mod kSize = 0" "?n \<le> n"
    using dvd_minus_mod [of kSize n] by (simp_all add: roundDownToSlabSize_def dvd_eq_mod_eq_0)
  have c: "numSlabs ?n > numSlabsForHeaders ?n" "start \<noteq> 0" "start mod kSize = 0"
    and s: "memoryStart sa = start" "memorySize sa = ?n" "slabMemoryStart sa = start + numSlabsForHeaders ?n * kSize"
      "nextSlabAllocation sa = slabMemoryStart sa" "sa_freeSlabs sa = []" "advisedSlabs sa = []" "sa_canAllocate sa"
      "memoryPoolSize sa = (\<lambda>_. 0)" "sa_headers sa = (\<lambda>_. SlabHeader_init kInvalidPoolId)" "pretendMadvise sa = False"
    using assms(1) by (auto simp: SlabAllocator_init_def Let_def computeSlabMemoryStart_def split: if_splits option.splits)
  then show "sa_freeSlabs sa = []" "advisedSlabs sa = []" "memoryPoolSize sa = (\<lambda>_. 0)" "memoryStart sa = start"
    "memorySize sa = ?n" "sa_canAllocate sa" "sa_headers sa = (\<lambda>_. SlabHeader_init kInvalidPoolId)" "pretendMadvise sa = False"
    "nextSlabAllocation sa = slabMemoryStart sa" by simp_all
  have "?n div kSize < 2 ^ 29" using div_le_mono [OF m(2), of kSize] assms(3) by linarith
  then have l: "sa_layout sa" using c s m assms(2) by (simp add: sa_layout_def)
  show "sa_wf sa" using l sa_layoutD [OF l] s by (simp add: sa_wf_def)
  show "validSlabs sa = {}" using s(4) by (auto simp: validSlabs_def isValidSlab_def)
qed

lemma card_validSlabs:
  assumes "sa_wf sa"
  shows "card (validSlabs sa) = (nextSlabAllocation sa - slabMemoryStart sa) div kSize"
proof -
  let ?k = "(nextSlabAllocation sa - slabMemoryStart sa) div kSize" and ?f = "\<lambda>i. slabMemoryStart sa + i * kSize"
  have w: "slabMemoryStart sa mod kSize = 0" "slabMemoryStart sa \<le> nextSlabAllocation sa" "nextSlabAllocation sa mod kSize = 0"
    using assms sa_layoutD(1) by (auto simp: sa_wf_def)
  have "kSize dvd (nextSlabAllocation sa - slabMemoryStart sa)" using w by (intro dvd_diff_nat) (auto simp: dvd_eq_mod_eq_0)
  then have k: "nextSlabAllocation sa = ?f ?k" using w(2) by simp
  have "validSlabs sa = ?f ` {..<?k}"
  proof
    show "validSlabs sa \<subseteq> ?f ` {..<?k}"
    proof
      fix s assume "s \<in> validSlabs sa"
      then have v: "isValidSlab sa s" by (simp add: validSlabs_def)
      have "?f (slabIdx sa (Some s)) = s" using slabIdx_valid(2) [OF assms v] .
      moreover have "slabIdx sa (Some s) < ?k" using calculation v k by (metis isValidSlab_def kSize_pos mult_less_cancel2 nat_add_left_cancel_less)
      ultimately show "s \<in> ?f ` {..<?k}" by (metis imageI lessThan_iff)
    qed
    show "?f ` {..<?k} \<subseteq> validSlabs sa"
    proof
      fix s assume "s \<in> ?f ` {..<?k}"
      then obtain i where i: "i < ?k" "s = ?f i" by auto
      then have "s < nextSlabAllocation sa" using k by (metis kSize_pos mult_less_cancel2 nat_add_left_cancel_less)
      then show "s \<in> validSlabs sa" using i w(1) by (simp add: validSlabs_def isValidSlab_iff [OF assms])
    qed
  qed
  moreover have "inj_on ?f {..<?k}" by (auto simp: inj_on_def)
  ultimately show ?thesis by (simp add: card_image)
qed

lemma slab_conservation:
  assumes "sa_owned sa own"
  shows "card (dom own) + length (sa_freeSlabs sa) + length (advisedSlabs sa) + (getSlabMemoryEnd sa - nextSlabAllocation sa) div kSize =
    getNumUsableAndAdvisedSlabs sa"
proof -
  have wf: "sa_wf sa" and d: "dom own = validSlabs sa - set (sa_freeSlabs sa @ advisedSlabs sa)" using assms by (auto simp: sa_owned_def)
  have sub: "set (sa_freeSlabs sa @ advisedSlabs sa) \<subseteq> validSlabs sa" "distinct (sa_freeSlabs sa @ advisedSlabs sa)"
    using wf by (auto simp: sa_wf_def validSlabs_def)
  have "card (dom own) + length (sa_freeSlabs sa @ advisedSlabs sa) = card (validSlabs sa)"
    unfolding d distinct_card [OF sub(2), symmetric]
    using card_Diff_subset [OF _ sub(1)] card_mono [OF finite_validSlabs sub(1)] by (simp del: set_append)
  moreover have n: "slabMemoryStart sa \<le> nextSlabAllocation sa" "nextSlabAllocation sa \<le> getSlabMemoryEnd sa" "sa_layout sa"
    "nextSlabAllocation sa mod kSize = 0" using wf by (auto simp: sa_wf_def)
  have "kSize dvd (nextSlabAllocation sa - slabMemoryStart sa)"
    using n sa_layoutD(1) [OF n(3)] by (intro dvd_diff_nat) (auto simp: dvd_eq_mod_eq_0)
  then have "(getSlabMemoryEnd sa - slabMemoryStart sa) div kSize =
      (nextSlabAllocation sa - slabMemoryStart sa) div kSize + (getSlabMemoryEnd sa - nextSlabAllocation sa) div kSize"
    using n div_plus_div_distrib_dvd_left [of kSize "nextSlabAllocation sa - slabMemoryStart sa" "getSlabMemoryEnd sa - nextSlabAllocation sa"] by simp
  moreover have "getNumUsableAndAdvisedSlabs sa = (getSlabMemoryEnd sa - slabMemoryStart sa) div kSize"
    using sa_layoutD(6) [OF n(3)] by (simp add: getNumUsableAndAdvisedSlabs_def)
  ultimately show ?thesis using card_validSlabs [OF wf] by simp
qed

lemma sa_init_inv:
  assumes "SlabAllocator_init start n owns = Inr sa" and "start + n < 2 ^ 64" and "n div kSize < 2 ^ 29"
  shows "sa_inv (sa, Map.empty, \<lambda>_. 0)"
  using SlabAllocator_init_ok [OF assms] by (simp add: sa_inv_def sa_owned_def sa_sizes_def)

text \<open>C20. Ownership of slabs: after any sequence of calls by pools that return only slabs they hold, the allocator
  is well formed, every slab that is held lies inside the memory and behind the headers, two of them never overlap,
  its header names its pool, and each usable slab is held, free, advised away or not yet touched. A new slab is
  never one that is held, and a request fails only when no slab is free or untouched.\<close>

theorem slab_ownership:
  assumes "SlabAllocator_init start n owns = Inr sa0" and "start + n < 2 ^ 64" and "n div kSize < 2 ^ 29"
    and "admissible sa_step sa_pre ops (sa0, Map.empty, \<lambda>_. 0)"
    and "snd (run sa_step ops (sa0, Map.empty, \<lambda>_. 0)) = (sa, own, adv)"
  shows "sa_wf sa \<and>
    (\<forall>s p. own s = Some p \<longrightarrow> map_option sh_poolId (getSlabHeader sa s) = Some p \<and>
       slabMemoryStart sa \<le> s \<and> s + kSize \<le> getSlabMemoryEnd sa) \<and>
    (\<forall>s t. s \<in> dom own \<longrightarrow> t \<in> dom own \<longrightarrow> s \<noteq> t \<longrightarrow> {s..<s + kSize} \<inter> {t..<t + kSize} = {}) \<and>
    card (dom own) + length (sa_freeSlabs sa) + length (advisedSlabs sa) + (getSlabMemoryEnd sa - nextSlabAllocation sa) div kSize =
      getNumUsableAndAdvisedSlabs sa \<and>
    (\<forall>pid. 0 \<le> pid \<and> pid < 127 \<longrightarrow> (case fst (makeNewSlab pid sa) of None \<Rightarrow> allSlabsAllocated sa | Some s \<Rightarrow> s \<notin> dom own))"
proof -
  have "sa_inv (sa, own, adv)"
    using run_invariant [of sa_inv, OF sa_init_inv [OF assms(1-3)] assms(4) sa_step_inv] by (simp add: assms(5))
  then have o: "sa_owned sa own" "sa_sizes sa own adv" by (simp_all add: sa_inv_def)
  have wf: "sa_wf sa" using o(1) by (simp add: sa_owned_def)
  have v: "isValidSlab sa s" if "s \<in> dom own" for s using that sa_ownedD(4) [OF o(1)] by auto
  have e: "nextSlabAllocation sa \<le> getSlabMemoryEnd sa" using wf by (simp add: sa_wf_def)
  have "case fst (makeNewSlab pid sa) of None \<Rightarrow> allSlabsAllocated sa | Some s \<Rightarrow> s \<notin> dom own" if "0 \<le> pid" "pid < 127" for pid
    using makeNewSlab_ok [OF o that, of "fst (makeNewSlab pid sa)" "snd (makeNewSlab pid sa)"]
    by (auto simp: allSlabsAllocated_def split: option.splits)
  moreover have "{s..<s + kSize} \<inter> {t..<t + kSize} = {}" if "s \<in> dom own" "t \<in> dom own" "s \<noteq> t" for s t
    using aligned_disjoint [OF slab_range(3) [OF wf v [OF that(1)]] slab_range(3) [OF wf v [OF that(2)]] that(3)] .
  moreover have "slabMemoryStart sa \<le> s \<and> s + kSize \<le> getSlabMemoryEnd sa" if "own s = Some p" for s p
    using slab_range(1,4) [OF wf sa_ownedD(4) [OF o(1) that]] e by simp
  ultimately show ?thesis using wf sa_ownedD(3) [OF o(1)] slab_conservation [OF o(1)] by blast
qed

definition sample_sa :: SlabAllocator where
  "sample_sa = \<lparr>sa_headers = \<lambda>_. SlabHeader_init kInvalidPoolId, memoryPoolSize = \<lambda>_. 0, sa_freeSlabs = [], advisedSlabs = [],
     memoryStart = kSize, memorySize = 4 * kSize, slabMemoryStart = 2 * kSize, nextSlabAllocation = 2 * kSize,
     sa_canAllocate = True, ownsMemory = False, pretendMadvise = False\<rparr>"

lemma sample_sa_init: "SlabAllocator_init kSize (4 * kSize) False = Inr sample_sa"
  by (simp add: SlabAllocator_init_def Let_def roundDownToSlabSize_def computeSlabMemoryStart_def numSlabs_def numSlabsForHeaders_def
      sa_checkState_def sample_sa_def getSlabMemoryEnd_def kSize_def kNumSlabBits_def)

lemma sample_sa_bounds: "kSize + 4 * kSize < 2 ^ 64" "4 * kSize div kSize < 2 ^ 29"
  by (simp_all add: kSize_def kNumSlabBits_def)

theorem slab_ownership_witness:
  "\<exists>sa own adv. snd (run sa_step [Sa_make 3, Sa_make 5, Sa_free (2 * kSize), Sa_make 7] (sample_sa, Map.empty, \<lambda>_. 0)) = (sa, own, adv) \<and>
    own (2 * kSize) = Some 7 \<and> own (3 * kSize) = Some 5 \<and> sa_wf sa"
proof -
  let ?ops = "[Sa_make 3, Sa_make 5, Sa_free (2 * kSize), Sa_make 7]"
  have v: "getSlabForMemory 8388608 = 8388608" using getSlabForMemory_eq [of 8388608] by (simp add: kSize_def kNumSlabBits_def)
  note ev = run_Cons_split makeNewSlab_def makeNewSlabImpl_def initializeHeader_def upd_header_def slabIdx_def sample_sa_def allMemorySlabbed_def
    getSlabMemoryEnd_def freeSlab_def getSlabHeader_def isValidSlab_def v kSize_def kNumSlabBits_def SlabHeader_init_def
  obtain sa own adv where r: "snd (run sa_step ?ops (sample_sa, Map.empty, \<lambda>_. 0)) = (sa, own, adv)" by (metis prod_cases3)
  have a: "admissible sa_step sa_pre ?ops (sample_sa, Map.empty, \<lambda>_. 0)" by (simp add: ev Let_def)
  have "own (2 * kSize) = Some 7" "own (3 * kSize) = Some 5" using r by (simp_all add: ev Let_def, auto)
  with slab_ownership [OF sample_sa_init sample_sa_bounds a r] r show ?thesis by blast
qed

text \<open>The size the slab allocator keeps for a pool counts the slabs the pool holds and, in addition, every slab
  the pool ever advised away: advising a slab does not take it off the size, while reclaiming one adds it again.\<close>

lemma memory_pool_size_counts_advised:
  assumes "SlabAllocator_init start n owns = Inr sa0" and "start + n < 2 ^ 64" and "n div kSize < 2 ^ 29"
    and "admissible sa_step sa_pre ops (sa0, Map.empty, \<lambda>_. 0)"
    and "snd (run sa_step ops (sa0, Map.empty, \<lambda>_. 0)) = (sa, own, adv)"
  shows "memoryPoolSize sa p = word_of_nat (kSize * (card {s. own s = Some p} + adv p))"
  using run_invariant [of sa_inv, OF sa_init_inv [OF assms(1-3)] assms(4) sa_step_inv] assms(5)
  by (simp add: sa_inv_def sa_sizes_def)

section \<open>Compressed pointers decode\<close>

lemma unat_word32: "x < 2 ^ 32 \<Longrightarrow> unat (word_of_nat x :: u32) = x"
  by (simp add: unsigned_of_nat take_bit_nat_eq_self)

lemma cp_value:
  assumes "si < 2 ^ numSlabIdxBits mt" and "ai < 2 ^ 16" and "tid < (if mt then 2 else 1)"
  shows "cp_compress (word_of_nat si) (word_of_nat ai) mt (word_of_nat tid) = word_of_nat (tid * 2 ^ 31 + si * 2 ^ 16 + ai)"
    "tid * 2 ^ 31 + si * 2 ^ 16 + ai < 2 ^ 32"
proof -
  have p: "push_bit n (word_of_nat x) = (word_of_nat (x * 2 ^ n) :: u32)" for n x
    by (simp add: push_bit_eq_mult of_nat_mult)
  show "cp_compress (word_of_nat si) (word_of_nat ai) mt (word_of_nat tid) = word_of_nat (tid * 2 ^ 31 + si * 2 ^ 16 + ai)"
    using assms(3) by (simp add: cp_compress_def kNumAllocIdxBits_def kNumSlabBits_def kMinAllocPower_def kNumTierIdxOffset_def p split: if_splits)
  show "tid * 2 ^ 31 + si * 2 ^ 16 + ai < 2 ^ 32"
    using assms by (auto simp: numSlabIdxBits_def kNumAllocIdxBits_def kNumSlabBits_def kMinAllocPower_def kNumTierIdxOffset_def split: if_splits)
qed

lemma cp_decode:
  assumes "si < 2 ^ numSlabIdxBits mt" and "ai < 2 ^ 16" and "tid < (if mt then 2 else 1)"
  defines "c \<equiv> cp_compress (word_of_nat si) (word_of_nat ai) mt (word_of_nat tid)"
  shows "unat (getSlabIdx mt c) = si" "unat (getAllocIdx_cp c) = ai" "unat (getTierId mt c) = tid"
    "si < 2 ^ numSlabIdxBits mt - 1 \<Longrightarrow> c \<noteq> kNull"
proof -
  have c: "c = word_of_nat (tid * 2 ^ 31 + si * 2 ^ 16 + ai)" and b: "tid * 2 ^ 31 + si * 2 ^ 16 + ai < 2 ^ 32"
    unfolding c_def using cp_value [OF assms(1-3)] by auto
  have u: "unat c = tid * 2 ^ 31 + si * 2 ^ 16 + ai" unfolding c by (rule unat_word32 [OF b])
  have n: "kNumAllocIdxBits = 16" by (simp add: kNumAllocIdxBits_def kNumSlabBits_def kMinAllocPower_def)
  have sb: "si < (if mt then 2 ^ 15 else 2 ^ 16)"
    using assms(1) by (auto simp: numSlabIdxBits_def n kNumTierIdxOffset_def split: if_splits)
  have t: "bit kTierIdxMask k \<longleftrightarrow> k = 31" for k
    unfolding kTierIdxMask_def kNumTierIdxOffset_def bit_push_bit_iff bit_1_iff by auto
  have "c AND NOT kTierIdxMask = take_bit 31 c" if mt
  proof (rule bit_word_eqI)
    fix k assume "k < LENGTH(32)"
    then show "bit (c AND NOT kTierIdxMask) k = bit (take_bit 31 c) k"
      by (auto simp: bit_and_iff bit_not_iff bit_take_bit_iff t)
  qed
  moreover have "unat (take_bit 31 c) = si * 2 ^ 16 + ai" if mt
    unfolding unat_take_bit u add.assoc using that sb assms(2) by (subst mod_mult_self3) (auto intro!: mod_less)
  ultimately have s: "unat (if mt then c AND NOT kTierIdxMask else c) = si * 2 ^ 16 + ai"
    using u assms(3) by (simp split: if_splits)
  show "unat (getSlabIdx mt c) = si"
    unfolding getSlabIdx_def n unsigned_drop_bit_eq s using assms(2) b by (simp add: drop_bit_eq_div take_bit_nat_eq_self)
  have m: "kAllocIdxMask = mask 16" by (simp add: kAllocIdxMask_def n mask_eq_exp_minus_1)
  have "unat (getAllocIdx_cp c) = unat c mod 2 ^ 16" unfolding getAllocIdx_cp_def m take_bit_eq_mask [symmetric] unat_take_bit ..
  also have "\<dots> = ai" unfolding u using assms(2) mod_mult_self3 [of "tid * 2 ^ 15 + si" "2 ^ 16" ai] by (simp add: algebra_simps)
  finally show "unat (getAllocIdx_cp c) = ai" .
  have "unat (drop_bit 31 c) = (tid * 2 ^ 31 + si * 2 ^ 16 + ai) div 2 ^ 31"
    unfolding unsigned_drop_bit_eq u using b by (simp add: drop_bit_eq_div take_bit_nat_eq_self)
  also have "\<dots> = tid" if mt using that sb assms(2) by simp
  finally show "unat (getTierId mt c) = tid"
    using assms(3) by (simp add: getTierId_def kNumTierIdxOffset_def del: drop_bit_numeral_minus_bit1 split: if_splits)
  show "c \<noteq> kNull" if "si < 2 ^ numSlabIdxBits mt - 1"
  proof
    assume "c = kNull"
    then have "unat (getSlabIdx mt c) = (if mt then 2 ^ 15 - 1 else 2 ^ 16 - 1)"
      by (simp add: getSlabIdx_def kNull_def n kTierIdxMask_def kNumTierIdxOffset_def)
    with \<open>unat (getSlabIdx mt c) = si\<close> that show False by (auto simp: numSlabIdxBits_def n kNumTierIdxOffset_def split: if_splits)
  qed
qed

text \<open>The marker scheme: \<open>x\<close> is the offset of an allocation in its slab, a multiple of the allocation size \<open>A\<close>; the
  multiple of 64 below it leads back to it.\<close>

lemma marker_round_up:
  fixes A i :: nat
  assumes "64 \<le> A"
  defines "y \<equiv> i * A - i * A mod 64"
  shows "(if y mod A \<noteq> 0 then y + (A - y mod A) else y) = i * A"
proof (cases "i * A mod 64 = 0")
  case True
  then show ?thesis by (simp add: y_def)
next
  case False
  then obtain j where i: "i = Suc j" by (cases i) auto
  define r where "r = i * A mod 64"
  have r: "0 < r" "r < 64" using False by (simp_all add: r_def)
  have "y = i * A - r" by (simp add: y_def r_def)
  then have y: "y = j * A + (A - r)" using r assms(1) by (simp add: i)
  have "y mod A = A - r" unfolding y mod_mult_self3 using r assms(1) by simp
  then show ?thesis using r assms(1) y by (simp add: i)
qed

lemma unCompressAlt_below:
  assumes "sa_wf sa" "isValidSlab sa slab" "getSlabHeader sa slab = Some h" "sh_allocSize h = A" "64 \<le> A" "i * A < kSize"
    and "slab + i * A < slabMemoryStart sa + 2 ^ 32"
  shows "unCompressAlt sa (compressAlt sa (Some (slab + i * A))) = Some (Some (slab + i * A))"
proof -
  define y where "y = i * A - i * A mod 64"
  let ?x = "i * A"
  let ?off = "slab + ?x - slabMemoryStart sa" and ?so = "slab - slabMemoryStart sa"
  note r = slab_range [OF assms(1,2)]
  have "slabMemoryStart sa mod kSize = 0" using assms(1) sa_layoutD(1) by (simp add: sa_wf_def)
  then have "kSize dvd ?so" using r by (intro dvd_diff_nat) (auto simp: dvd_eq_mod_eq_0)
  moreover have "64 dvd kSize" by (simp add: kSize_def kNumSlabBits_def)
  ultimately have so: "?so mod 64 = 0" using dvd_trans dvd_eq_mod_eq_0 by metis
  have off: "?off = ?so + ?x" using r(4) by simp
  then have om: "?off mod 64 = ?x mod 64" using so by (metis add_0 mod_add_left_eq)
  have off32: "?off < 2 ^ 32" using assms(7) r(4) by simp
  let ?c = "compressAlt sa (Some (slab + ?x))"
  have m: "?off div 64 < 2 ^ 32" using off32 by simp
  have c: "?c = word_of_nat (?off div 64)" by (simp add: compressAlt_def kMarkerBits_def drop_bit_eq_div)
  have "unat ?c = ?off div 64" unfolding c by (rule unat_word32 [OF m])
  moreover have "?off div 64 < 2 ^ 26" using off32 by simp
  ultimately have "?c \<noteq> kNull" by (auto simp: kNull_def)
  have "push_bit kMarkerBits ?c = word_of_nat (?off div 64 * 64)" unfolding c kMarkerBits_def by (simp add: push_bit_eq_mult)
  moreover have d: "?off div 64 * 64 = ?off - ?off mod 64" by (simp add: minus_mod_eq_div_mult [symmetric])
  ultimately have p: "unat (push_bit kMarkerBits ?c) = ?off - ?off mod 64"
    using unat_word32 [of "?off - ?off mod 64"] off32 by simp
  have "slabMemoryStart sa + unat (push_bit kMarkerBits ?c) = slab + y"
    unfolding p om y_def using off r(4) by simp
  moreover have "y < kSize" using assms(6) by (simp add: y_def)
  ultimately have mk: "slabMemoryStart sa + unat (push_bit kMarkerBits ?c) = slab + y" "getSlabForMemory (slab + y) = slab"
    using getSlabForMemory_valid [OF assms(1,2), of y] by blast+
  then have "getSlabHeader_mem sa (slabMemoryStart sa + unat (push_bit kMarkerBits ?c)) = Some h"
    using assms(3) by (simp add: getSlabHeader_mem_def)
  then show ?thesis using \<open>?c \<noteq> kNull\<close> mk marker_round_up [OF assms(5), of i, folded y_def] assms(4) unfolding unCompressAlt_def Let_def by (simp split: if_splits)
qed

lemma unCompressAlt_above:
  assumes "slabMemoryStart sa \<le> p" "p \<ge> slabMemoryStart sa + 2 ^ 32" and "\<And>j. sh_allocSize (sa_headers sa j) \<le> kSize"
    and "sa_wf sa"
  shows "unCompressAlt sa (compressAlt sa (Some p)) \<noteq> Some (Some p)"
proof
  assume eq: "unCompressAlt sa (compressAlt sa (Some p)) = Some (Some p)"
  let ?c = "compressAlt sa (Some p)" let ?m = "slabMemoryStart sa + unat (push_bit kMarkerBits ?c)"
  let ?off = "p - slabMemoryStart sa" and ?slab = "getSlabForMemory ?m"
  obtain h where h: "getSlabHeader_mem sa ?m = Some h"
    and p: "p = ?slab + (let d = (?m - ?slab) mod sh_allocSize h in if d \<noteq> 0 then (?m - ?slab) + (sh_allocSize h - d) else ?m - ?slab)"
    using eq by (auto simp: unCompressAlt_def Let_def split: if_splits option.splits)
  have A: "sh_allocSize h \<le> kSize" using h assms(3) by (auto simp: getSlabHeader_mem_def getSlabHeader_def split: if_splits)
  have v: "isValidSlab sa ?slab" using h by (auto simp: getSlabHeader_mem_def getSlabHeader_def split: if_splits)
  have "push_bit kMarkerBits ?c = (word_of_nat (?off div 64 * 64) :: u32)"
    by (simp add: compressAlt_def kMarkerBits_def drop_bit_eq_div push_bit_eq_mult)
  then have "unat (push_bit kMarkerBits ?c) = (?off div 64 * 64) mod 2 ^ 32" by (simp add: unsigned_of_nat take_bit_eq_mod del: of_nat_mult)
  moreover have "(?off div 64 * 64) mod 2 ^ 32 + 2 ^ 32 \<le> ?off"
  proof -
    have "2 ^ 32 \<le> ?off div 64 * 64" using assms(2) div_le_mono [of "2 ^ 32" ?off 64] by simp
    moreover have "?off div 64 * 64 \<le> ?off" by simp
    ultimately show ?thesis using mod_le_divisor div_mult_mod_eq [of "?off div 64 * 64" "2 ^ 32"]
      by (smt (verit) add.commute add_le_mono1 div_le_mono div_self le_trans less_numeral_extra(3) mult_le_mono1 nat_mult_1 zero_less_numeral zero_less_power)
  qed
  ultimately have m: "?m + 2 ^ 32 \<le> p" using assms(1) by linarith
  have "?slab \<le> ?m"
  proof (cases "?m < 2 ^ 64")
    case True then show ?thesis using getSlabForMemory_eq by simp
  next
    case False
    have "?slab < 2 ^ 64" using slab_range(2) [OF assms(4) v] by simp
    with False show ?thesis by simp
  qed
  then have "p \<le> ?m + kSize" using p A by (auto simp: Let_def split: if_splits)
  with m show False by (simp add: kSize_def kNumSlabBits_def)
qed

text \<open>C21. Pointer compression: every allocation of a slab whose index fits decodes to itself, also with tiers, and never
  looks like the null pointer. The alternative scheme, which stores the offset from the start of the slab memory in units
  of 64 bytes, agrees with it exactly for the first 4 GiB: beyond, its decoder shifts in 32 bits and returns
  another address.\<close>

theorem pointer_compression:
  assumes "sa_wf sa" "isValidSlab sa slab" "getSlabHeader sa slab = Some h" "kMinAllocSize \<le> sh_allocSize h" "i < kSize div sh_allocSize h"
    and "slabIdx sa (Some slab) < 2 ^ numSlabIdxBits mt - 1" and "\<And>j. sh_allocSize (sa_headers sa j) \<le> kSize"
  defines "p \<equiv> slab + i * sh_allocSize h"
  shows "(\<exists>c. compress mt sa (Some p) = Inr c \<and> c \<noteq> kNull \<and> unCompress mt sa c = Some p) \<and>
    compress mt sa None = Inr kNull \<and> unCompress mt sa kNull = None \<and>
    (unCompressAlt sa (compressAlt sa (Some p)) = Some (unCompress mt sa (projr (compress mt sa (Some p)))) \<longleftrightarrow>
       p < slabMemoryStart sa + 2 ^ 32)"
proof -
  let ?A = "sh_allocSize h" let ?si = "(slab - slabMemoryStart sa) div kSize"
  have A: "64 \<le> ?A" using assms(4) by (simp add: kMinAllocSize_def kMinAllocPower_def)
  have "Suc i * ?A \<le> kSize div ?A * ?A" using assms(5) by (intro mult_le_mono1) simp
  also have "\<dots> \<le> kSize" by simp
  finally have iA: "i * ?A < kSize" using A by simp
  have "kSize div ?A \<le> kSize div 64" using A by (intro div_le_mono2) simp_all
  then have i: "i < 2 ^ 16" using assms(5) by (simp add: kSize_def kNumSlabBits_def)
  have si: "slabIdx sa (Some slab) = ?si" "slabMemoryStart sa + ?si * kSize = slab" using slabIdx_valid [OF assms(1,2)] by auto
  have hd: "sa_headers sa ?si = h" using assms(2,3) si(1) by (simp add: getSlabHeader_def)
  have ps: "getSlabForMemory p = slab" unfolding p_def by (rule getSlabForMemory_valid [OF assms(1,2) iA])
  have b: "?si < 2 ^ numSlabIdxBits mt" using assms(6) si(1) by simp
  define c where "c = cp_compress (word_of_nat ?si) (word_of_nat i) mt (word_of_nat 0)"
  have d: "unat (getSlabIdx mt c) = ?si" "unat (getAllocIdx_cp c) = i" "c \<noteq> kNull"
    using cp_decode [OF b i, of 0] assms(6) si(1) by (simp_all add: c_def)
  have "p - slab = i * ?A" by (simp add: p_def)
  then have cc: "compress mt sa (Some p) = Inr c" using assms(2) A by (simp add: compress_def ps hd c_def Let_def)
  have "getAllocIdx_cp c = word_of_nat i" using d(2) by (metis of_nat_unat ucast_id)
  then have "word_of_nat ?A * getAllocIdx_cp c = (word_of_nat (i * ?A) :: u32)" by (simp add: mult.commute)
  moreover have "i * ?A < 2 ^ 32" using iA by (simp add: kSize_def kNumSlabBits_def)
  ultimately have "unat (word_of_nat ?A * getAllocIdx_cp c :: u32) = i * ?A" by (simp only: unat_word32)
  then have uc: "unCompress mt sa c = Some p" using d si(2) by (simp add: unCompress_def Let_def hd p_def)
  have "unCompressAlt sa (compressAlt sa (Some p)) = Some (Some p) \<longleftrightarrow> p < slabMemoryStart sa + 2 ^ 32"
  proof
    assume "unCompressAlt sa (compressAlt sa (Some p)) = Some (Some p)"
    then show "p < slabMemoryStart sa + 2 ^ 32"
      using unCompressAlt_above [OF _ _ assms(7,1), of p] slab_range(4) [OF assms(1,2)] by (fastforce simp: p_def not_less)
  next
    assume "p < slabMemoryStart sa + 2 ^ 32"
    then show "unCompressAlt sa (compressAlt sa (Some p)) = Some (Some p)"
      using unCompressAlt_below [OF assms(1-3) refl A iA] by (simp add: p_def)
  qed
  with cc uc d(3) show ?thesis by (simp add: compress_def unCompress_def)
qed

theorem pointer_compression_witness:
  "\<exists>sa c. compress False sa (Some (2 * kSize + 7 * 100)) = Inr c \<and> unCompress False sa c = Some (2 * kSize + 7 * 100) \<and>
     unCompressAlt sa (compressAlt sa (Some (2 * kSize + 7 * 100))) = Some (Some (2 * kSize + 7 * 100))"
proof -
  let ?h = "\<lparr>sh_poolId = 3, sh_classId = 0, sh_flags = 0, sh_allocSize = 100\<rparr>"
  let ?sa = "sample_sa\<lparr>nextSlabAllocation := 3 * kSize, sa_headers := \<lambda>_. ?h\<rparr>"
  have wf: "sa_wf ?sa"
    by (simp add: sa_wf_def sa_layout_def sample_sa_def getSlabMemoryEnd_def numSlabs_def numSlabsForHeaders_def kSize_def kNumSlabBits_def)
  have v: "isValidSlab ?sa (2 * kSize)" by (simp add: isValidSlab_iff [OF wf]) (simp add: sample_sa_def)
  have "slabIdx ?sa (Some (2 * kSize)) = 0" by (simp add: slabIdx_def sample_sa_def)
  moreover have "7 < kSize div 100" "100 \<le> kSize" by (simp_all add: kSize_def kNumSlabBits_def)
  moreover have "2 * kSize + 700 < slabMemoryStart ?sa + 2 ^ 32" by (simp add: sample_sa_def)
  moreover have "(1::nat) < 2 ^ numSlabIdxBits False"
    by (simp add: numSlabIdxBits_def kNumAllocIdxBits_def kNumSlabBits_def kMinAllocPower_def kNumTierIdxOffset_def)
  ultimately show ?thesis using pointer_compression [of ?sa "2 * kSize" ?h 7 False, OF wf v] v
    by (intro exI [of _ ?sa]) (auto simp: getSlabHeader_def kMinAllocSize_def kMinAllocPower_def)
qed

section \<open>Saving and restoring\<close>

definition sa_flags_ok :: "sa_hist \<Rightarrow> bool" where
  "sa_flags_ok = (\<lambda>(sa, own, adv). \<not> ownsMemory sa \<and> \<not> pretendMadvise sa \<and> (\<forall>p. \<not> (0 \<le> p \<and> p < 127) \<longrightarrow> adv p = 0) \<and>
     (\<forall>s \<in> set (advisedSlabs sa). map_option isAdvised (getSlabHeader sa s) = Some True))"

text \<open>What a step changes of the advised slabs: only headers of slabs that are not, or not yet, on that list.\<close>

lemma flags_frame:
  assumes "\<And>s. s \<in> set (advisedSlabs sa') \<Longrightarrow> s \<in> set (advisedSlabs sa) \<and> getSlabHeader sa' s = getSlabHeader sa s"
    and "ownsMemory sa' = ownsMemory sa" "pretendMadvise sa' = pretendMadvise sa" and "sa_flags_ok (sa, own, adv)"
  shows "sa_flags_ok (sa', own', adv)"
  using assms by (auto simp: sa_flags_ok_def)

lemma make_frame:
  assumes "sa_owned sa own" "sa_sizes sa own adv" "0 \<le> pid" "pid < 127" and "makeNewSlab pid sa = (r, sa')"
  shows "advisedSlabs sa' = advisedSlabs sa" "ownsMemory sa' = ownsMemory sa" "pretendMadvise sa' = pretendMadvise sa"
    "s \<in> set (advisedSlabs sa) \<Longrightarrow> getSlabHeader sa' s = getSlabHeader sa s"
proof -
  have f: "advisedSlabs (snd (makeNewSlabImpl sa)) = advisedSlabs sa" "ownsMemory (snd (makeNewSlabImpl sa)) = ownsMemory sa"
    "pretendMadvise (snd (makeNewSlabImpl sa)) = pretendMadvise sa" "sa_headers (snd (makeNewSlabImpl sa)) = sa_headers sa"
    "slabMemoryStart (snd (makeNewSlabImpl sa)) = slabMemoryStart sa" "nextSlabAllocation sa \<le> nextSlabAllocation (snd (makeNewSlabImpl sa))"
    by (simp_all add: makeNewSlabImpl_def)
  then show "advisedSlabs sa' = advisedSlabs sa" "ownsMemory sa' = ownsMemory sa" "pretendMadvise sa' = pretendMadvise sa"
    using assms(5) by (auto simp: makeNewSlab_def initializeHeader_def Let_def split: prod.splits option.splits)
  have fs: "slabMemoryStart sa' = slabMemoryStart sa" "nextSlabAllocation sa \<le> nextSlabAllocation sa'"
    using assms(5) f by (auto simp: makeNewSlab_def initializeHeader_def Let_def split: prod.splits option.splits)
  assume s: "s \<in> set (advisedSlabs sa)"
  have wf: "sa_wf sa" using assms(1) by (simp add: sa_owned_def)
  have v: "isValidSlab sa s" using s wf by (auto simp: sa_wf_def)
  then have v': "isValidSlab sa' s" using isValidSlab_mono fs by blast
  have i: "slabIdx sa' (Some s) = slabIdx sa (Some s)" using fs by (simp add: slabIdx_def)
  have "sa_headers sa' (slabIdx sa (Some s)) = sa_headers sa (slabIdx sa (Some s))"
  proof (cases r)
    case None
    then show ?thesis using assms(5) f by (auto simp: makeNewSlab_def split: prod.splits option.splits)
  next
    case (Some t)
    then have o: "sa_owned sa' (own(t \<mapsto> pid))" using makeNewSlab_ok [OF assms] by simp
    then have "isValidSlab sa' t" "t \<notin> set (advisedSlabs sa')" using sa_ownedD [OF o, of t pid] by auto
    then have "slabIdx sa' (Some t) \<noteq> slabIdx sa' (Some s)" using slabIdx_inj [of sa' t s] v' o s \<open>advisedSlabs sa' = advisedSlabs sa\<close>
      by (auto simp: sa_owned_def)
    moreover have "sa' = initializeHeader t pid ((snd (makeNewSlabImpl sa))\<lparr>memoryPoolSize :=
        (memoryPoolSize (snd (makeNewSlabImpl sa)))(pid := memoryPoolSize (snd (makeNewSlabImpl sa)) pid + word_of_nat kSize)\<rparr>)"
      using assms(5) Some by (auto simp: makeNewSlab_def Let_def split: prod.splits option.splits)
    moreover have "slabIdx sa' (Some t) = slabIdx (snd (makeNewSlabImpl sa)) (Some t)" using f fs by (simp add: slabIdx_def)
    ultimately have "sa_headers sa' = (sa_headers sa)(slabIdx sa' (Some t) := SlabHeader_init pid)" "slabIdx sa' (Some t) \<noteq> slabIdx sa (Some s)"
      using i f(4) by (simp_all add: initializeHeader_def upd_header_def Let_def)
    then show ?thesis by simp
  qed
  with v v' i show "getSlabHeader sa' s = getSlabHeader sa s" by (simp add: getSlabHeader_def)
qed

lemma sa_step_flags:
  assumes "sa_inv hist" "sa_flags_ok hist" and "sa_pre x hist"
  shows "sa_flags_ok (snd (sa_step x hist))"
proof -
  obtain sa own adv where hist: "hist = (sa, own, adv)" by (cases hist)
  with assms have i: "sa_owned sa own" "sa_sizes sa own adv" by (simp_all add: sa_inv_def)
  have wf: "sa_wf sa" using i(1) by (simp add: sa_owned_def)
  note fl = assms(2) [unfolded hist]
  show ?thesis
  proof (cases x)
    case (Sa_make pid)
    obtain r sa' where m: "makeNewSlab pid sa = (r, sa')" by fastforce
    with assms(3) Sa_make have "\<And>own'. sa_flags_ok (sa', own', adv)" using flags_frame [OF _ _ _ fl, of sa'] make_frame [OF i _ _ m] by auto
    with Sa_make hist m show ?thesis by (cases r) auto
  next
    case (Sa_free s)
    with assms(3) hist obtain pid where own: "own s = Some pid" by auto
    note o = sa_ownedD [OF i(1) own]
    obtain h where h: "getSlabHeader sa s = Some h" using o(3) by auto
    let ?sa1 = "sa\<lparr>memoryPoolSize := (memoryPoolSize sa)(sh_poolId h := memoryPoolSize sa (sh_poolId h) - word_of_nat kSize),
      sa_freeSlabs := sa_freeSlabs sa @ [s], sa_canAllocate := True\<rparr>"
    have w: "sa_wf ?sa1" "isValidSlab ?sa1 s" using wf o by (auto simp: sa_wf_def)
    have "sa_flags_ok (upd_header s resetAllocInfo ?sa1, own(s := None), adv)"
      using getSlabHeader_upd [OF w] o(6) by (intro flags_frame [OF _ _ _ fl]) auto
    with Sa_free hist h show ?thesis by (simp add: freeSlab_def Let_def)
  next
    case (Sa_advise ok s)
    with assms(3) hist obtain pid where own: "own s = Some pid" by auto
    note o = sa_ownedD [OF i(1) own]
    obtain h where h: "getSlabHeader sa s = Some h" using o(3) by auto
    let ?sa1 = "upd_header s (setAdvised True) sa"
    have w1: "sa_wf ?sa1" "isValidSlab ?sa1 s" using wf o by simp_all
    note u = getSlabHeader_upd [OF wf o(4)] getSlabHeader_upd [OF w1]
    show ?thesis
    proof (cases "ok \<or> pretendMadvise sa")
      case True
      let ?sa2 = "?sa1\<lparr>advisedSlabs := advisedSlabs sa @ [s]\<rparr>"
      have w2: "sa_wf ?sa2" "isValidSlab ?sa2 s" using wf o by (auto simp: sa_wf_def sa_layout_def getSlabMemoryEnd_def allMemorySlabbed_def)
      have "map_option isAdvised (getSlabHeader (upd_header s resetAllocInfo ?sa2) t) =
          (if t = s then Some True else map_option isAdvised (getSlabHeader sa t))" for t
        using getSlabHeader_upd [OF w2] u h by (simp add: header_bits option.map_comp comp_def)
      then have "sa_flags_ok (upd_header s resetAllocInfo ?sa2, own(s := None), adv(pid := adv pid + 1))"
        using fl o by (simp add: sa_flags_ok_def del: map_option_eq_Some)
      with Sa_advise hist h True own show ?thesis by (simp add: adviseSlab_def Let_def)
    next
      case False
      have "sa_flags_ok (upd_header s (setAdvised False) ?sa1, own, adv)"
        using u o(6) by (intro flags_frame [OF _ _ _ fl]) auto
      with Sa_advise hist h False show ?thesis by (simp add: adviseSlab_def Let_def)
    qed
  next
    case (Sa_reclaim pid)
    show ?thesis
    proof (cases "advisedSlabs sa")
      case Nil
      with Sa_reclaim hist assms(2) show ?thesis by (simp add: reclaimSlab_def)
    next
      case (Cons s rest)
      let ?sa = "sa\<lparr>advisedSlabs := rest, memoryPoolSize := (memoryPoolSize sa)(pid := memoryPoolSize sa pid + word_of_nat kSize)\<rparr>"
      have w: "sa_wf ?sa" "isValidSlab ?sa s" "s \<notin> set rest" using wf Cons by (auto simp: sa_wf_def)
      have "sa_flags_ok (initializeHeader s pid ?sa, own(s \<mapsto> pid), adv)"
        unfolding initializeHeader_def using getSlabHeader_upd [OF w(1,2)] w(3) Cons by (intro flags_frame [OF _ _ _ fl]) auto
      with Sa_reclaim hist Cons show ?thesis by (simp add: reclaimSlab_def Let_def)
    qed
  qed
qed

lemma setAdvised_id: "isAdvised h \<Longrightarrow> setAdvised True h = h"
proof -
  assume "isAdvised h"
  then have b: "bit (sh_flags h) 1" using bit_mask_test [of "sh_flags h" 1] by (simp add: isAdvised_def sh_isFlagSet_def)
  have "sh_flags h OR 2 = sh_flags h"
  proof (rule bit_word_eqI)
    fix n assume "n < LENGTH(8)"
    show "bit (sh_flags h OR 2) n = bit (sh_flags h) n" using b bit_exp_iff [of 1 n, where 'a = u8] by (auto simp: bit_or_iff)
  qed
  then show ?thesis by (simp add: setAdvised_def sh_setFlag_def)
qed

lemma fold_upd_self: "(\<And>i. i \<in> set is \<Longrightarrow> g (h i) = h i) \<Longrightarrow> fold (\<lambda>i h. h(i := g (h i))) is h = h"
  by (induction "is" arbitrary: h) (simp_all add: fun_upd_idem)

lemma fold_upd_upt: "fold (\<lambda>(i, n) f. f(i := n)) (map (\<lambda>i. (int i, m (int i))) [0..<k]) (\<lambda>_. 0) = (\<lambda>p. if 0 \<le> p \<and> p < int k then m p else 0)"
proof (induction k)
  case (Suc k)
  then show ?case by (auto simp: fun_eq_iff)
qed (auto simp: fun_eq_iff)

lemma sa_wf_checkState:
  assumes "sa_wf sa"
  shows "sa_checkState sa = None"
proof -
  have l: "sa_layout sa" using assms by (simp add: sa_wf_def)
  have n: "numSlabs (memorySize sa) = memorySize sa div kSize" using l by (simp add: sa_layout_def numSlabs_def)
  have "0 < memorySize sa div kSize" using l n by (simp add: sa_layout_def)
  then have h: "memoryStart sa + 7 * 0 + 7 \<le> slabMemoryStart sa" using headers_in_front [OF l, of 0] by simp
  then have "0 < numSlabsForHeaders (memorySize sa)" using l by (cases "numSlabsForHeaders (memorySize sa)") (auto simp: sa_layout_def)
  then have "1 < memorySize sa div kSize" using l n by (simp add: sa_layout_def)
  then have "kSize < memorySize sa" using div_mult_mod_eq [of "memorySize sa" kSize]
    by (metis kSize_pos div_by_Suc_0 div_le_mono div_self leD leI less_not_refl2)
  then show ?thesis using assms l sa_layoutD(5) [OF l] by (auto simp: sa_checkState_def sa_wf_def sa_layout_def list_ex_iff)
qed

lemma sa_restore_ok:
  assumes "sa_inv (sa, own, adv)" "sa_flags_ok (sa, own, adv)" and "memorySize sa = roundDownToSlabSize n"
  shows "\<exists>ob. sa_saveState sa = Inr ob \<and> SlabAllocator_restore ob (sa_headers sa) (memoryStart sa) n = Inr sa"
proof -
  have o: "sa_owned sa own" "sa_sizes sa own adv" using assms(1) by (simp_all add: sa_inv_def)
  have wf: "sa_wf sa" using o(1) by (simp add: sa_owned_def)
  have l: "sa_layout sa" using wf by (simp add: sa_wf_def)
  have idx: "slabMemoryStart sa + slabIdx sa (Some s) * kSize = s" "slabIdx sa (Some s) \<noteq> kNullSlabIdx"
    if "s \<in> set (sa_freeSlabs sa @ advisedSlabs sa)" for s
    using slabIdx_valid [OF wf, of s] wf that by (auto simp: sa_wf_def kNullSlabIdx_def)
  have nx: "slabMemoryStart sa + slabIdx sa (Some (nextSlabAllocation sa)) * kSize = nextSlabAllocation sa"
    "slabIdx sa (Some (nextSlabAllocation sa)) \<noteq> kNullSlabIdx"
  proof -
    let ?n = "nextSlabAllocation sa"
    have "(?n - slabMemoryStart sa) div kSize \<le> (getSlabMemoryEnd sa - slabMemoryStart sa) div kSize"
      using wf by (intro div_le_mono diff_le_mono) (simp add: sa_wf_def)
    then have b: "(?n - slabMemoryStart sa) div kSize < 2 ^ 29" using sa_layoutD(6) [OF l] by simp
    have "kSize dvd (?n - slabMemoryStart sa)" using wf sa_layoutD(1) [OF l] by (intro dvd_diff_nat) (auto simp: dvd_eq_mod_eq_0 sa_wf_def)
    then show "slabMemoryStart sa + slabIdx sa (Some ?n) * kSize = ?n" "slabIdx sa (Some ?n) \<noteq> kNullSlabIdx"
      using b wf by (simp_all add: slabIdx_def sa_wf_def kNullSlabIdx_def)
  qed
  have fl: "\<not> ownsMemory sa" "\<not> pretendMadvise sa" "\<And>p. \<not> (0 \<le> p \<and> p < 127) \<Longrightarrow> adv p = 0"
    "\<And>s. s \<in> set (advisedSlabs sa) \<Longrightarrow> map_option isAdvised (getSlabHeader sa s) = Some True" using assms(2) by (auto simp: sa_flags_ok_def)
  have hd: "fold (\<lambda>i h. h(i := setAdvised True (h i))) (map (\<lambda>s. slabIdx sa (Some s)) (advisedSlabs sa)) (sa_headers sa) = sa_headers sa"
  proof (rule fold_upd_self)
    fix i assume "i \<in> set (map (\<lambda>s. slabIdx sa (Some s)) (advisedSlabs sa))"
    then obtain s where s: "s \<in> set (advisedSlabs sa)" "i = slabIdx sa (Some s)" by auto
    then show "setAdvised True (sa_headers sa i) = sa_headers sa i" using fl(4) [OF s(1)]
      by (auto simp: getSlabHeader_def intro!: setAdvised_id split: if_splits)
  qed
  have "memoryPoolSize sa p = 0" if "\<not> (0 \<le> p \<and> p < 127)" for p
  proof -
    have "{s. own s = Some p} = {}" using sa_ownedD(1,2) [OF o(1), of _ p] that by auto
    then show ?thesis using o(2) fl(3) [OF that] by (simp add: sa_sizes_def)
  qed
  then have mp: "(\<lambda>p. if 0 \<le> p \<and> p < int kNumPoolSizes then memoryPoolSize sa p else 0) = memoryPoolSize sa"
    by (auto simp: fun_eq_iff kNumPoolSizes_def)
  have c: "computeSlabMemoryStart (memoryStart sa) (memorySize sa) = Inr (slabMemoryStart sa)"
    using l by (auto simp: computeSlabMemoryStart_def sa_layout_def)
  have id: "map (\<lambda>i. if i = kNullSlabIdx then 0 else slabMemoryStart sa + i * kSize) (map (\<lambda>s. slabIdx sa (Some s)) xs) = xs"
    if "set xs \<subseteq> set (sa_freeSlabs sa @ advisedSlabs sa)" for xs
    using that idx by (induction xs) auto
  have lx: "\<not> list_ex (\<lambda>(i, _). int kNumPoolSizes \<le> i) (map (\<lambda>i. (int i, memoryPoolSize sa (int i))) [0..<kNumPoolSizes])"
    by (auto simp: list_ex_iff)
  define ob where "ob = \<lparr>sao_memorySize = memorySize sa, sao_nextSlabIdx = slabIdx sa (Some (nextSlabAllocation sa)),
        sao_canAllocate = sa_canAllocate sa,
        sao_memoryPoolSize = map (\<lambda>i. (int i, memoryPoolSize sa (int i))) [0..<kNumPoolSizes],
        sao_freeSlabIdxs = map (\<lambda>s. slabIdx sa (Some s)) (sa_freeSlabs sa),
        sao_advisedSlabIdxs = map (\<lambda>s. slabIdx sa (Some s)) (advisedSlabs sa),
        sao_slabSize = kSize, sao_minAllocSize = kMinAllocSize\<rparr>"
  have ob: "sa_saveState sa = Inr ob" using fl(1) by (simp add: ob_def sa_saveState_def)
  have eta: "\<lparr>sa_headers = sa_headers sa, memoryPoolSize = memoryPoolSize sa, sa_freeSlabs = sa_freeSlabs sa, advisedSlabs = advisedSlabs sa,
      memoryStart = memoryStart sa, memorySize = memorySize sa, slabMemoryStart = slabMemoryStart sa, nextSlabAllocation = nextSlabAllocation sa,
      sa_canAllocate = sa_canAllocate sa, ownsMemory = False, pretendMadvise = False\<rparr> = sa" using fl(1,2) by (cases sa) simp
  have "SlabAllocator_restore ob (sa_headers sa) (memoryStart sa) n = (case sa_checkState sa of Some e \<Rightarrow> Inl e | None \<Rightarrow> Inr sa)"
    unfolding SlabAllocator_restore_def ob_def
    using c lx id [of "sa_freeSlabs sa"] id [of "advisedSlabs sa"] nx
    by (simp add: hd fold_upd_upt mp assms(3) [symmetric] eta Let_def sa_wf_checkState [OF wf] del: map_map)
  with ob sa_wf_checkState [OF wf] show ?thesis by simp
qed



end
