(* ===== verification/SList.thy ===== *)
theory SList
  imports DList "HOL-Library.Monad_Syntax"
begin

text \<open>
  The intrusive singly linked list of free allocations, \<^verbatim>\<open>cachelib/allocator/datastruct/SList.h\<close> and
  \<^verbatim>\<open>SList-inl.h\<close>. A hook is one pointer, so the hooks of all nodes form a map from addresses to
  pointers that every list of the same node type shares; compressed pointers are represented by the
  pointer they decode to. Any number of such lists is shown to implement as many plain lists of
  addresses, splicing and moving between them included.
\<close>

section \<open>The list object and its operations\<close>

type_synonym links = "addr \<Rightarrow> ptr"

record SList =
  sl_size :: nat
  sl_head :: ptr
  sl_tail :: ptr

definition SList_empty :: SList where
  "SList_empty = \<lparr>sl_size = 0, sl_head = None, sl_tail = None\<rparr>"

datatype sl_error = PopEmpty | CorruptHead | CorruptTail | WrongList | RemoveEnd | NullNode

definition sl_checkStateOrThrow :: "SList \<Rightarrow> sl_error option" where
  "sl_checkStateOrThrow l =
     (if (sl_size l = 0 \<and> sl_head l \<noteq> None) \<or> (sl_head l = None \<and> sl_size l \<noteq> 0) then Some CorruptHead
      else if (sl_head l = None) \<noteq> (sl_tail l = None) then Some CorruptTail else None)"

definition sl_getHead :: "SList \<Rightarrow> ptr" where
  "sl_getHead l = (if sl_size l = 0 then None else sl_head l)"

definition sl_insert :: "addr \<Rightarrow> links \<times> SList \<Rightarrow> links \<times> SList" where
  "sl_insert node = (\<lambda>(h, l).
     let h = h(node := sl_head l);
         l = l\<lparr>sl_head := Some node, sl_size := sl_size l + 1\<rparr>
     in (h, if sl_tail l = None then l\<lparr>sl_tail := sl_head l\<rparr> else l))"

definition sl_pop :: "links \<times> SList \<Rightarrow> sl_error + links \<times> SList" where
  "sl_pop = (\<lambda>(h, l).
     if sl_size l = 0 then Inl PopEmpty
     else case sl_head l of
       None \<Rightarrow> Inl NullNode
     | Some node \<Rightarrow>
         let l = l\<lparr>sl_head := h node, sl_size := sl_size l - 1\<rparr>;
             l = (if sl_head l = None then l\<lparr>sl_tail := None\<rparr> else l)
         in case sl_checkStateOrThrow l of
              Some e \<Rightarrow> Inl e
            | None \<Rightarrow> Inr (h(node := None), l))"

text \<open>\<open>splice\<close> empties its argument; so does move assignment.\<close>

definition sl_splice :: "links \<times> SList \<times> SList \<Rightarrow> sl_error + links \<times> SList \<times> SList" where
  "sl_splice = (\<lambda>(h, l, other).
     if sl_size other = 0 then Inr (h, l, other)
     else case sl_tail other of
       None \<Rightarrow> Inl NullNode
     | Some t \<Rightarrow>
         let h = h(t := sl_head l);
             l = l\<lparr>sl_head := sl_head other, sl_size := sl_size l + sl_size other\<rparr>;
             l = (if sl_tail l = None then l\<lparr>sl_tail := sl_tail other\<rparr> else l)
         in Inr (h, l, SList_empty))"

definition sl_move :: "SList \<Rightarrow> SList \<times> SList" where
  "sl_move rhs = (\<lparr>sl_size = sl_size rhs, sl_head = sl_head rhs, sl_tail = sl_tail rhs\<rparr>, SList_empty)"

record SListIterator =
  si_curr :: ptr
  si_prev :: ptr

definition sl_begin :: "SList \<Rightarrow> SListIterator" where
  "sl_begin l = \<lparr>si_curr = sl_head l, si_prev = None\<rparr>"

definition sl_goForward :: "links \<Rightarrow> addr \<Rightarrow> SListIterator \<Rightarrow> SListIterator" where
  "sl_goForward h c it = \<lparr>si_curr = h c, si_prev = si_curr it\<rparr>"

definition sl_inc :: "links \<Rightarrow> SListIterator \<Rightarrow> SListIterator" where
  "sl_inc h it = (case si_curr it of None \<Rightarrow> it | Some c \<Rightarrow> sl_goForward h c it)"

definition sl_remove :: "SListIterator \<Rightarrow> links \<times> SList \<Rightarrow> sl_error + SListIterator \<times> links \<times> SList" where
  "sl_remove it = (\<lambda>(h, l).
     case si_curr it of
       None \<Rightarrow> Inl RemoveEnd
     | Some cur \<Rightarrow>
         let nxt = h cur in
         (case si_prev it of
            None \<Rightarrow> (case sl_pop (h, l) of Inl e \<Rightarrow> Inl e
                     | Inr s \<Rightarrow> Inr (\<lparr>si_curr = nxt, si_prev = None\<rparr>, s))
          | Some prev \<Rightarrow>
              let h = h(prev := nxt);
                  l = l\<lparr>sl_size := sl_size l - 1\<rparr>;
                  l = (if sl_tail l = Some cur then l\<lparr>sl_tail := Some prev\<rparr> else l)
              in case sl_checkStateOrThrow l of
                   Some e \<Rightarrow> Inl e
                 | None \<Rightarrow> Inr (\<lparr>si_curr = nxt, si_prev = Some prev\<rparr>, h(cur := None), l)))"

text \<open>Saved state. Older states have no tail; it is then found by walking the list.\<close>

record SListObject =
  so_head :: ptr
  so_tail :: "ptr option"
  so_size :: nat

definition sl_saveState :: "SList \<Rightarrow> SListObject" where
  "sl_saveState l = \<lparr>so_head = sl_head l, so_tail = Some (sl_tail l), so_size = sl_size l\<rparr>"

partial_function (option) lastLoop :: "links \<Rightarrow> addr \<Rightarrow> addr option" where
  "lastLoop h t = (case h t of None \<Rightarrow> Some t | Some n \<Rightarrow> lastLoop h n)"

definition sl_restore :: "links \<Rightarrow> SListObject \<Rightarrow> (sl_error + SList) option" where
  "sl_restore h ob = do {
     t \<leftarrow> (case so_tail ob of
              Some t \<Rightarrow> Some t
            | None \<Rightarrow> (case so_head ob of None \<Rightarrow> Some None | Some a \<Rightarrow> map_option Some (lastLoop h a)));
     let l = \<lparr>sl_size = so_size ob, sl_head = so_head ob, sl_tail = t\<rparr>
     in Some (case sl_checkStateOrThrow l of Some e \<Rightarrow> Inl e | None \<Rightarrow> Inr l) }"

section \<open>Representation\<close>

primrec schain :: "links \<Rightarrow> addr list \<Rightarrow> ptr \<Rightarrow> bool" where
  "schain h [] n = True"
| "schain h (x # xs) n = (h x = first_of xs n \<and> schain h xs n)"

lemma schain_append: "schain h (xs @ ys) n \<longleftrightarrow> schain h xs (first_of ys n) \<and> schain h ys n"
  by (induction xs) auto

lemma schain_frame: "a \<notin> set xs \<Longrightarrow> schain (h(a := v)) xs n = schain h xs n"
  by (induction xs) auto

lemma schain_last:
  assumes "schain h xs n" "distinct xs" "xs \<noteq> []"
  shows "schain (h(last xs := m)) xs m"
proof -
  obtain ys a where xs: "xs = ys @ [a]" using assms(3) by (cases xs rule: rev_cases) auto
  with assms show ?thesis by (auto simp: schain_append schain_frame)
qed

definition slist_rep :: "links \<Rightarrow> SList \<Rightarrow> addr list \<Rightarrow> bool" where
  "slist_rep h l xs \<longleftrightarrow> schain h xs None \<and> distinct xs \<and> sl_size l = length xs \<and>
     sl_head l = first_of xs None \<and> sl_tail l = last_of None xs"

lemma slist_rep_frame: "a \<notin> set xs \<Longrightarrow> slist_rep (h(a := v)) l xs = slist_rep h l xs"
  by (simp add: slist_rep_def schain_frame)

lemma slist_rep_empty: "slist_rep h SList_empty []"
  by (simp add: slist_rep_def SList_empty_def)

lemma slist_rep_empty_iff: "slist_rep h l xs \<Longrightarrow> sl_size l = 0 \<longleftrightarrow> xs = []"
  by (auto simp: slist_rep_def)

lemma sl_getHead_rep: "slist_rep h l xs \<Longrightarrow> sl_getHead l = first_of xs None"
  by (auto simp: slist_rep_def sl_getHead_def)

lemma sl_check_rep: "slist_rep h l xs \<Longrightarrow> sl_checkStateOrThrow l = None"
  by (auto simp: slist_rep_def sl_checkStateOrThrow_def)

lemma sl_insert_rep:
  assumes "slist_rep h l xs" and "node \<notin> set xs"
  shows "\<exists>l'. sl_insert node (h, l) = (h(node := sl_head l), l') \<and> slist_rep (h(node := sl_head l)) l' (node # xs)"
  using assms by (cases xs) (auto simp: sl_insert_def slist_rep_def Let_def schain_frame last_of_def)

lemma sl_pop_rep:
  assumes "slist_rep h l (x # xs)"
  shows "\<exists>l'. sl_pop (h, l) = Inr (h(x := None), l') \<and> slist_rep (h(x := None)) l' xs"
proof -
  let ?l = "\<lparr>sl_size = length xs, sl_head = first_of xs None, sl_tail = last_of None xs\<rparr>"
  have l: "sl_size l = Suc (length xs)" "sl_head l = Some x" "h x = first_of xs None" "x \<notin> set xs"
    "sl_tail l = last_of (Some x) xs" using assms by (auto simp: slist_rep_def)
  have leq: "l = \<lparr>sl_size = Suc (length xs), sl_head = Some x, sl_tail = last_of (Some x) xs\<rparr>" using l by (cases l) simp
  have r: "slist_rep h ?l xs" using assms by (simp add: slist_rep_def)
  have "sl_pop (h, l) = Inr (h(x := None), ?l)" using l sl_check_rep [OF r]
    by (cases "xs = []") (simp_all add: leq sl_pop_def Let_def last_of_def)
  with r l(4) show ?thesis by (simp add: slist_rep_frame)
qed

lemma sl_splice_rep:
  assumes "slist_rep h l xs" "slist_rep h other ys" "set xs \<inter> set ys = {}"
  shows "\<exists>h' l' other'. sl_splice (h, l, other) = Inr (h', l', other') \<and> slist_rep h' l' (ys @ xs) \<and>
    slist_rep h' other' [] \<and> (\<forall>a. a \<notin> set ys \<longrightarrow> h' a = h a)"
proof (cases "ys = []")
  case True
  then have "sl_splice (h, l, other) = Inr (h, l, other)" using assms(2) by (simp add: sl_splice_def slist_rep_def)
  then show ?thesis using assms True by simp
next
  case False
  let ?h = "h(last ys := sl_head l)"
  let ?l = "\<lparr>sl_size = sl_size l + sl_size other, sl_head = sl_head other, sl_tail = if xs = [] then sl_tail other else sl_tail l\<rparr>"
  have o: "sl_tail other = Some (last ys)" "sl_size other = length ys" "sl_head other = first_of ys None"
    and l: "sl_size l = length xs" "sl_tail l = last_of None xs" "sl_head l = first_of xs None"
    and d: "distinct (ys @ xs)" "last ys \<notin> set xs"
    using assms False by (auto simp: slist_rep_def last_of_def)
  have "schain ?h ys (first_of xs None)" using schain_last [of h ys None "sl_head l"] assms(2) False l(3) by (simp add: slist_rep_def)
  moreover have "schain ?h xs None" using assms(1) d(2) by (simp add: slist_rep_def schain_frame)
  ultimately have "schain ?h (ys @ xs) None" by (simp add: schain_append)
  moreover have "first_of (ys @ xs) None = first_of ys None" using False by (cases ys) simp_all
  moreover have "last_of None (ys @ xs) = (if xs = [] then Some (last ys) else last_of None xs)" using False by (simp add: last_of_def)
  ultimately have "slist_rep ?h ?l (ys @ xs)" using d o l by (simp del: first_of_simps last_of_simps add: slist_rep_def)
  moreover have "sl_splice (h, l, other) = Inr (?h, ?l, SList_empty)" using o l False
    by (cases l) (simp add: sl_splice_def Let_def)
  moreover have "\<forall>a. a \<notin> set ys \<longrightarrow> ?h a = h a" using False by auto
  ultimately show ?thesis using slist_rep_empty by blast
qed

text \<open>The iterator after \<open>k\<close> steps stands on the node at position \<open>k\<close>; removing there removes that node.\<close>

lemma sl_inc_steps:
  assumes "slist_rep h l (xs @ ys)"
  shows "(sl_inc h ^^ length xs) (sl_begin l) = \<lparr>si_curr = first_of ys None, si_prev = last_of None xs\<rparr>"
  using assms
proof (induction xs arbitrary: ys rule: rev_induct)
  case Nil
  then show ?case by (simp add: sl_begin_def slist_rep_def)
next
  case (snoc x xs)
  then have "(sl_inc h ^^ length xs) (sl_begin l) = \<lparr>si_curr = Some x, si_prev = last_of None xs\<rparr>" by simp
  moreover have "h x = first_of ys None" using snoc.prems by (simp add: slist_rep_def schain_append)
  ultimately show ?case by (simp add: sl_inc_def [of h "\<lparr>si_curr = Some x, si_prev = last_of None xs\<rparr>"] sl_goForward_def)
qed

lemma sl_remove_rep:
  assumes "slist_rep h l (xs @ x # ys)"
  shows "\<exists>it h' l'. sl_remove \<lparr>si_curr = Some x, si_prev = last_of None xs\<rparr> (h, l) = Inr (it, h', l') \<and>
    it = \<lparr>si_curr = first_of ys None, si_prev = last_of None xs\<rparr> \<and> slist_rep h' l' (xs @ ys) \<and>
    (\<forall>a. a \<notin> set (xs @ x # ys) \<longrightarrow> h' a = h a)"
proof (cases xs rule: rev_cases)
  case Nil
  with assms sl_pop_rep [of h l x ys] show ?thesis
    by (auto simp: sl_remove_def slist_rep_def)
next
  case (snoc zs p)
  let ?h = "h(p := h x)"
  let ?l = "\<lparr>sl_size = length (xs @ ys), sl_head = first_of (xs @ ys) None, sl_tail = last_of None (xs @ ys)\<rparr>"
  have h: "h x = first_of ys None" "schain h ys None" "schain h zs (Some p)" "distinct (xs @ x # ys)"
    using assms snoc by (auto simp: slist_rep_def schain_append)
  have leq: "l = \<lparr>sl_size = Suc (length (xs @ ys)), sl_head = first_of (xs @ ys) None, sl_tail = last_of (Some x) ys\<rparr>"
    using assms snoc by (cases l) (simp add: slist_rep_def)
  have "schain ?h (xs @ ys) None" using h snoc by (auto simp: schain_append schain_frame)
  then have r: "slist_rep ?h ?l (xs @ ys)" using h(4) by (simp add: slist_rep_def)
  have c: "sl_checkStateOrThrow ?l = None" using sl_check_rep [OF r] .
  have "last_of (Some x) ys = Some x \<longleftrightarrow> ys = []" using h(4) by (auto simp: last_of_def)
  then have "sl_remove \<lparr>si_curr = Some x, si_prev = last_of None xs\<rparr> (h, l) =
      Inr (\<lparr>si_curr = first_of ys None, si_prev = last_of None xs\<rparr>, ?h(x := None), ?l)"
    using snoc h(1) c by (cases "ys = []") (simp_all add: sl_remove_def leq Let_def last_of_def)
  moreover have "slist_rep (?h(x := None)) ?l (xs @ ys)" using r h(4) by (subst slist_rep_frame) auto
  ultimately show ?thesis using snoc by auto
qed

lemma lastLoop_schain: "schain h (x # xs) None \<Longrightarrow> lastLoop h x = Some (last (x # xs))"
  by (induction xs arbitrary: x) (auto simp: lastLoop.simps)

lemma sl_restore_rep:
  assumes "slist_rep h l xs"
  shows "sl_restore h (sl_saveState l) = Some (Inr l)"
    and "sl_restore h ((sl_saveState l)\<lparr>so_tail := None\<rparr>) = Some (Inr l)"
proof -
  have l: "\<lparr>sl_size = sl_size l, sl_head = sl_head l, sl_tail = sl_tail l\<rparr> = l" by (cases l) simp
  show "sl_restore h (sl_saveState l) = Some (Inr l)"
    using sl_check_rep [OF assms] by (simp add: sl_restore_def sl_saveState_def Let_def l)
  have "(case sl_head l of None \<Rightarrow> Some None | Some a \<Rightarrow> map_option Some (lastLoop h a)) = Some (sl_tail l)"
    using assms lastLoop_schain by (cases xs) (auto simp: slist_rep_def last_of_def)
  then show "sl_restore h ((sl_saveState l)\<lparr>so_tail := None\<rparr>) = Some (Inr l)"
    using sl_check_rep [OF assms] by (simp add: sl_restore_def sl_saveState_def Let_def l)
qed

section \<open>Many lists on one heap\<close>

datatype sl_op = SL_insert nat addr | SL_pop nat | SL_splice nat nat | SL_move nat nat | SL_remove nat nat | SL_restore nat bool

type_synonym sl_out = "sl_error + ptr"
type_synonym sl_state = "links \<times> (nat \<Rightarrow> SList)"

text \<open>The calls on the lists \<open>L i\<close>. A removal advances an iterator \<open>k\<close> times and removes there; a restart
  saves the list and restores it, from a state with or without a tail.\<close>

primrec sl_step :: "sl_op \<Rightarrow> sl_state \<Rightarrow> sl_out \<times> sl_state" where
  "sl_step (SL_insert i node) s = (case sl_insert node (fst s, snd s i) of (h, l) \<Rightarrow> (Inr None, h, (snd s)(i := l)))"
| "sl_step (SL_pop i) s = (case sl_pop (fst s, snd s i) of
     Inl e \<Rightarrow> (Inl e, s) | Inr (h, l) \<Rightarrow> (Inr (sl_getHead (snd s i)), h, (snd s)(i := l)))"
| "sl_step (SL_splice i j) s = (case sl_splice (fst s, snd s i, snd s j) of
     Inl e \<Rightarrow> (Inl e, s) | Inr (h, l, l') \<Rightarrow> (Inr (sl_getHead l), h, (snd s)(i := l, j := l')))"
| "sl_step (SL_move i j) s = (case sl_move (snd s j) of (l, l') \<Rightarrow> (Inr (sl_getHead l), fst s, (snd s)(i := l, j := l')))"
| "sl_step (SL_remove i k) s = (case sl_remove ((sl_inc (fst s) ^^ k) (sl_begin (snd s i))) (fst s, snd s i) of
     Inl e \<Rightarrow> (Inl e, s) | Inr (it, h, l) \<Rightarrow> (Inr (si_curr it), h, (snd s)(i := l)))"
| "sl_step (SL_restore i t) s = (case sl_restore (fst s) (if t then sl_saveState (snd s i) else (sl_saveState (snd s i))\<lparr>so_tail := None\<rparr>) of
     None \<Rightarrow> (Inl NullNode, s) | Some (Inl e) \<Rightarrow> (Inl e, s) | Some (Inr l) \<Rightarrow> (Inr (sl_getHead l), fst s, (snd s)(i := l)))"

text \<open>The same calls on plain lists.\<close>

primrec sl_spec :: "sl_op \<Rightarrow> (nat \<Rightarrow> addr list) \<Rightarrow> sl_out \<times> (nat \<Rightarrow> addr list)" where
  "sl_spec (SL_insert i node) A = (Inr None, A(i := node # A i))"
| "sl_spec (SL_pop i) A = (case A i of [] \<Rightarrow> (Inl PopEmpty, A) | x # xs \<Rightarrow> (Inr (Some x), A(i := xs)))"
| "sl_spec (SL_splice i j) A = (Inr (first_of (A j @ A i) None), A(i := A j @ A i, j := []))"
| "sl_spec (SL_move i j) A = (Inr (first_of (A j) None), A(i := A j, j := []))"
| "sl_spec (SL_remove i k) A = (if k < length (A i)
     then (Inr (first_of (drop (Suc k) (A i)) None), A(i := take k (A i) @ drop (Suc k) (A i))) else (Inl RemoveEnd, A))"
| "sl_spec (SL_restore i t) A = (Inr (first_of (A i) None), A)"

primrec sl_pre :: "sl_op \<Rightarrow> (nat \<Rightarrow> addr list) \<Rightarrow> bool" where
  "sl_pre (SL_insert i node) A = (\<forall>j. node \<notin> set (A j))"
| "sl_pre (SL_pop i) A = True"
| "sl_pre (SL_splice i j) A = (i \<noteq> j)"
| "sl_pre (SL_move i j) A = (i \<noteq> j)"
| "sl_pre (SL_remove i k) A = (k \<le> length (A i))"
| "sl_pre (SL_restore i t) A = True"

definition slists_rep :: "sl_state \<Rightarrow> (nat \<Rightarrow> addr list) \<Rightarrow> bool" where
  "slists_rep s A \<longleftrightarrow> (\<forall>i. slist_rep (fst s) (snd s i) (A i)) \<and> (\<forall>i j. i \<noteq> j \<longrightarrow> set (A i) \<inter> set (A j) = {})"

lemma slists_rep_upd:
  assumes "slists_rep (h, L) A" and "slist_rep h' l (xs)" and "\<And>a j. j \<noteq> i \<Longrightarrow> a \<in> set (A j) \<Longrightarrow> h' a = h a"
    and "\<And>j. j \<noteq> i \<Longrightarrow> set xs \<inter> set (A j) = {}"
  shows "slists_rep (h', L(i := l)) (A(i := xs))"
proof -
  have "schain h' (A j) None = schain h (A j) None" if "j \<noteq> i" for j
  proof -
    have "schain h' ys n = schain h ys n" if "set ys \<subseteq> set (A j)" for ys n
      using that assms(3) [OF \<open>j \<noteq> i\<close>] by (induction ys) auto
    then show ?thesis by simp
  qed
  then have "slist_rep h' (L j) (A j)" if "j \<noteq> i" for j
    using that assms(1) by (simp add: slists_rep_def slist_rep_def)
  with assms show ?thesis by (auto simp: slists_rep_def Int_commute)
qed

lemma slists_rep_clear:
  assumes "slists_rep (h, L) A" and "slist_rep h l []"
  shows "slists_rep (h, L(j := l)) (A(j := []))"
  by (rule slists_rep_upd [OF assms]) auto

lemma sl_step_simulates:
  assumes "slists_rep s A" and "sl_pre x A"
  shows "slists_rep (snd (sl_step x s)) (snd (sl_spec x A)) \<and> fst (sl_step x s) = fst (sl_spec x A)"
proof -
  obtain h L where s: "s = (h, L)" by fastforce
  have r: "slist_rep h (L i) (A i)" and dj: "i \<noteq> j \<Longrightarrow> set (A i) \<inter> set (A j) = {}" for i j
    using assms(1) by (auto simp: s slists_rep_def)
  then have dj2: "i \<noteq> j \<Longrightarrow> a \<in> set (A i) \<Longrightarrow> a \<notin> set (A j)" for i j a by blast
  note rs = assms(1) [unfolded s]
  show ?thesis
  proof (cases x)
    case (SL_insert i node)
    with assms(2) have n: "node \<notin> set (A j)" for j by simp
    obtain l' where "sl_insert node (h, L i) = (h(node := sl_head (L i)), l')" "slist_rep (h(node := sl_head (L i))) l' (node # A i)"
      using sl_insert_rep [OF r n] by blast
    then show ?thesis using SL_insert n dj2 [of _ i] by (auto simp: s intro!: slists_rep_upd [OF rs])
  next
    case (SL_pop i)
    show ?thesis
    proof (cases "A i")
      case Nil
      with r [of i] have "sl_pop (h, L i) = Inl PopEmpty" by (simp add: sl_pop_def slist_rep_def)
      with SL_pop Nil rs show ?thesis by (simp add: s)
    next
      case (Cons y ys)
      with r [of i] obtain l' where "sl_pop (h, L i) = Inr (h(y := None), l')" "slist_rep (h(y := None)) l' ys"
        using sl_pop_rep [of h "L i" y ys] by auto
      moreover have "sl_getHead (L i) = Some y" using sl_getHead_rep [OF r [of i]] Cons by simp
      ultimately show ?thesis using SL_pop Cons dj2 [of _ i] by (fastforce simp: s intro!: slists_rep_upd [OF rs])
    qed
  next
    case (SL_splice i j)
    with assms(2) have ij: "i \<noteq> j" by simp
    obtain h' l1 l2 where p: "sl_splice (h, L i, L j) = Inr (h', l1, l2)" "slist_rep h' l1 (A j @ A i)" "slist_rep h' l2 []"
      "\<And>a. a \<notin> set (A j) \<Longrightarrow> h' a = h a" using sl_splice_rep [OF r r dj [OF ij]] by blast
    have c: "slists_rep (h, L(j := SList_empty)) (A(j := []))" using slists_rep_clear [OF rs slist_rep_empty] .
    have "slists_rep (h', (L(j := SList_empty))(i := l1)) ((A(j := []))(i := A j @ A i))"
      using dj2 [of _ j] dj2 [of _ i] ij by (rule_tac slists_rep_upd [OF c p(2)]) (auto intro!: p(4) split: if_splits)
    then have "slists_rep (h', (L(j := SList_empty))(i := l1, j := l2)) ((A(j := []))(i := A j @ A i, j := []))"
      using slists_rep_clear [OF _ p(3)] by blast
    moreover have "sl_getHead l1 = first_of (A j @ A i) None" using sl_getHead_rep [OF p(2)] .
    ultimately show ?thesis using SL_splice p(1) ij by (simp add: s fun_upd_twist)
  next
    case (SL_move i j)
    with assms(2) have ij: "i \<noteq> j" by simp
    have c: "slists_rep (h, L(j := SList_empty)) (A(j := []))" using slists_rep_clear [OF rs slist_rep_empty] .
    have "slists_rep (h, (L(j := SList_empty))(i := L j)) ((A(j := []))(i := A j))"
      using dj2 [of _ j] ij by (rule_tac slists_rep_upd [OF c r]) (auto split: if_splits)
    then show ?thesis using SL_move ij sl_getHead_rep [OF r [of j]]
      by (cases "L j") (simp add: s sl_move_def fun_upd_twist)
  next
    case (SL_remove i k)
    show ?thesis
    proof (cases "k < length (A i)")
      case True
      let ?xs = "take k (A i)" and ?ys = "drop (Suc k) (A i)"
      have A: "A i = ?xs @ A i ! k # ?ys" using True by (rule id_take_nth_drop)
      have r': "slist_rep h (L i) (?xs @ A i ! k # ?ys)" using r A by simp
      have it: "(sl_inc h ^^ k) (sl_begin (L i)) = \<lparr>si_curr = Some (A i ! k), si_prev = last_of None ?xs\<rparr>"
        using sl_inc_steps [OF r'] True by simp
      from sl_remove_rep [OF r'] obtain h' l' where
        p: "sl_remove \<lparr>si_curr = Some (A i ! k), si_prev = last_of None ?xs\<rparr> (h, L i) =
            Inr (\<lparr>si_curr = first_of ?ys None, si_prev = last_of None ?xs\<rparr>, h', l')"
          "slist_rep h' l' (?xs @ ?ys)" "\<And>a. a \<notin> set (A i) \<Longrightarrow> h' a = h a"
        using A by auto
      have "set (?xs @ ?ys) \<subseteq> set (A i)" by (auto dest: in_set_takeD in_set_dropD)
      then have "slists_rep (h', L(i := l')) (A(i := ?xs @ ?ys))"
        by (intro slists_rep_upd [OF rs p(2)]) (use dj2 p(3) in blast)+
      with SL_remove True it p(1) show ?thesis by (simp add: s)
    next
      case False
      with assms(2) SL_remove have "(sl_inc h ^^ k) (sl_begin (L i)) = \<lparr>si_curr = None, si_prev = last_of None (A i)\<rparr>"
        using sl_inc_steps [of h "L i" "A i" "[]"] r by simp
      with SL_remove False rs show ?thesis by (simp add: s sl_remove_def)
    qed
  next
    case (SL_restore i t)
    with sl_restore_rep [OF r [of i]] sl_getHead_rep [OF r [of i]] rs show ?thesis by (simp add: s)
  qed
qed

interpretation slists: simulation slists_rep sl_step sl_spec sl_pre
  by unfold_locales (auto dest: sl_step_simulates)

text \<open>C23. Any sequence of insertions, removals, splices, moves and restarts of any number of free lists that
  share their hooks behaves as the same calls on plain lists: no call reports corruption or follows a null
  pointer, popping returns the most recent node, and the search for the tail of an old saved state ends.\<close>

theorem slists_implement_lists:
  assumes "admissible sl_spec sl_pre ops (\<lambda>_. [])"
  shows "fst (run sl_step ops (h, \<lambda>_. SList_empty)) = fst (run sl_spec ops (\<lambda>_. [])) \<and>
    slists_rep (snd (run sl_step ops (h, \<lambda>_. SList_empty))) (snd (run sl_spec ops (\<lambda>_. [])))"
proof (rule slists.run_simulates [OF _ assms])
  show "slists_rep (h, \<lambda>_. SList_empty) (\<lambda>_. [])" by (simp add: slists_rep_def slist_rep_empty)
qed

theorem slists_implement_lists_witness:
  "fst (run sl_step [SL_insert 0 8, SL_insert 0 16, SL_insert 1 24, SL_splice 1 0, SL_restore 1 False, SL_pop 1, SL_remove 1 1, SL_pop 0]
      (\<lambda>_. None, \<lambda>_. SList_empty)) =
    [Inr None, Inr None, Inr None, Inr (Some 16), Inr (Some 16), Inr (Some 16), Inr None, Inl PopEmpty]"
  using slists_implement_lists [of "[SL_insert 0 8, SL_insert 0 16, SL_insert 1 24, SL_splice 1 0, SL_restore 1 False, SL_pop 1, SL_remove 1 1, SL_pop 0]"]
  by (simp add: run_Cons_split)

end
