(* ===== verification/AllocationClass.thy ===== *)
theory AllocationClass
  imports SlabAllocator SList "HOL-Library.Multiset"
begin

text \<open>
  An allocation class hands out equal chunks of the slabs it was given and gives slabs back:
  \<^verbatim>\<open>cachelib/allocator/memory/AllocationClass.h\<close> and \<^verbatim>\<open>AllocationClass.cpp\<close>, with the release contexts of
  \<^verbatim>\<open>Slab.h\<close>. The free lists, which theory SList shows to be plain lists, appear as lists of addresses with the
  head first. Every critical section of the code is one function; the public operations compose them. The
  release of a slab takes several critical sections, between which other threads allocate and free: the
  interleavings are the runs of an inductive step relation, over which safety and completion are shown.
  An operation that throws returns the error together with the state it leaves.
\<close>

section \<open>Release contexts\<close>

datatype SlabReleaseMode = kResize | kRebalance | kAdvise

record SlabReleaseContext =
  ctx_slab :: addr
  ctx_pid :: int
  ctx_victim :: int
  ctx_active :: "addr list"
  ctx_receiver :: int
  ctx_mode :: SlabReleaseMode
  ctx_zero :: bool

definition mkContext :: "addr \<Rightarrow> int \<Rightarrow> int \<Rightarrow> addr list \<Rightarrow> SlabReleaseMode \<Rightarrow> SlabReleaseContext" where
  "mkContext slab pid cid allocs m = \<lparr>ctx_slab = slab, ctx_pid = pid, ctx_victim = cid, ctx_active = allocs,
     ctx_receiver = kInvalidClassId, ctx_mode = m, ctx_zero = False\<rparr>"

definition isReleased :: "SlabReleaseContext \<Rightarrow> bool" where
  "isReleased ctx \<longleftrightarrow> ctx_active ctx = []"

section \<open>The allocation class\<close>

record AllocationClass =
  ac_classId :: int
  ac_poolId :: int
  allocationSize :: nat
  currOffset :: nat
  currSlab :: ptr
  allocatedSlabs :: "addr list"
  ac_freeSlabs :: "addr list"
  freedAllocations :: "addr list"
  ac_canAllocate :: bool
  activeReleases :: int
  slabReleaseAllocMap :: "addr \<rightharpoonup> bool list"

datatype ac_error = InvalidClassId | InvalidAllocSize | NoHeader | ClassMismatch | CurrNotAllocated | InvalidHint
  | NoSlabForRelease | InvalidHeaderState | MapExists | NotInLists | SlabReleaseAborted | NotInMap | AlreadyReleased
  | InvalidSlabHeader | NotOurMemory | NotMarked | WrongContext | AlreadyFree | InvalidIndex | NotRestorable_ac
  | ReleasesActive

type_synonym acs = "SlabAllocator \<times> AllocationClass"

definition getAllocsPerSlab :: "AllocationClass \<Rightarrow> nat" where
  "getAllocsPerSlab ac = kSize div allocationSize ac"

definition ac_isFull :: "AllocationClass \<Rightarrow> bool" where
  "ac_isFull ac \<longleftrightarrow> \<not> ac_canAllocate ac"

text \<open>\<^verbatim>\<open>sizeof(FreeAlloc)\<close>, one compressed pointer.\<close>

definition sizeofFreeAlloc :: nat where "sizeofFreeAlloc = 4"

definition ac_checkState :: "SlabAllocator \<Rightarrow> AllocationClass \<Rightarrow> ac_error option" where
  "ac_checkState sa ac =
     (if ac_classId ac < 0 then Some InvalidClassId
      else if allocationSize ac < sizeofFreeAlloc \<or> allocationSize ac > kSize then Some InvalidAllocSize
      else case currSlab ac of
        None \<Rightarrow> None
      | Some slab \<Rightarrow>
          (case getSlabHeader sa slab of
             None \<Rightarrow> Some NoHeader
           | Some header \<Rightarrow>
               if sh_classId header \<noteq> ac_classId ac then Some ClassMismatch
               else if slab \<notin> set (allocatedSlabs ac) then Some CurrNotAllocated else None))"

definition AllocationClass_init :: "int \<Rightarrow> int \<Rightarrow> nat \<Rightarrow> SlabAllocator \<Rightarrow> ac_error + AllocationClass" where
  "AllocationClass_init cid pid allocSize sa =
     (let ac = \<lparr>ac_classId = cid, ac_poolId = pid, allocationSize = allocSize, currOffset = 0, currSlab = None,
                allocatedSlabs = [], ac_freeSlabs = [], freedAllocations = [], ac_canAllocate = True,
                activeReleases = 0, slabReleaseAllocMap = Map.empty\<rparr>
      in case ac_checkState sa ac of Some e \<Rightarrow> Inl e | None \<Rightarrow> Inr ac)"

definition addSlabLocked :: "addr \<Rightarrow> acs \<Rightarrow> acs" where
  "addSlabLocked slab = (\<lambda>(sa, ac).
     (upd_header slab (\<lambda>h. h\<lparr>sh_classId := ac_classId ac, sh_allocSize := allocationSize ac\<rparr>) sa,
      ac\<lparr>ac_canAllocate := True, ac_freeSlabs := ac_freeSlabs ac @ [slab]\<rparr>))"

definition canAllocateFromCurrentSlabLocked :: "AllocationClass \<Rightarrow> bool" where
  "canAllocateFromCurrentSlabLocked ac \<longleftrightarrow> currSlab ac \<noteq> None \<and> currOffset ac + allocationSize ac \<le> kSize"

definition allocateFromCurrentSlabLocked :: "AllocationClass \<Rightarrow> ptr \<times> AllocationClass" where
  "allocateFromCurrentSlabLocked ac =
     (map_option (\<lambda>slab. slab + currOffset ac) (currSlab ac), ac\<lparr>currOffset := currOffset ac + allocationSize ac\<rparr>)"

definition setupCurrentSlabLocked :: "AllocationClass \<Rightarrow> AllocationClass" where
  "setupCurrentSlabLocked ac =
     (let slab = last (ac_freeSlabs ac)
      in ac\<lparr>ac_freeSlabs := butlast (ac_freeSlabs ac), currSlab := Some slab, currOffset := 0,
            allocatedSlabs := allocatedSlabs ac @ [slab]\<rparr>)"

definition allocateLocked :: "AllocationClass \<Rightarrow> ptr \<times> AllocationClass" where
  "allocateLocked ac =
     (if freedAllocations ac = [] \<and> ac_freeSlabs ac = [] \<and> \<not> canAllocateFromCurrentSlabLocked ac
      then (None, ac\<lparr>ac_canAllocate := False\<rparr>)
      else case freedAllocations ac of
        ret # rest \<Rightarrow> (Some ret, ac\<lparr>freedAllocations := rest\<rparr>)
      | [] \<Rightarrow> if canAllocateFromCurrentSlabLocked ac then allocateFromCurrentSlabLocked ac
              else allocateFromCurrentSlabLocked (setupCurrentSlabLocked ac))"

text \<open>Undisturbed, \<open>allocate\<close> reads the flag and enters the critical section at once.\<close>

definition ac_allocate :: "AllocationClass \<Rightarrow> ptr \<times> AllocationClass" where
  "ac_allocate ac = (if \<not> ac_canAllocate ac then (None, ac) else allocateLocked ac)"

definition addSlab :: "addr \<Rightarrow> acs \<Rightarrow> acs" where
  "addSlab slab s = addSlabLocked slab s"

definition addSlabAndAllocate :: "addr \<Rightarrow> acs \<Rightarrow> ptr \<times> acs" where
  "addSlabAndAllocate slab s =
     (case addSlabLocked slab s of (sa, ac) \<Rightarrow> (case allocateLocked ac of (p, ac) \<Rightarrow> (p, sa, ac)))"

section \<open>Chunks of a slab\<close>

definition getAllocForIdx :: "AllocationClass \<Rightarrow> addr \<Rightarrow> nat \<Rightarrow> ac_error + addr" where
  "getAllocForIdx ac slab idx = (if idx \<ge> getAllocsPerSlab ac then Inl InvalidIndex else Inr (slab + idx * allocationSize ac))"

definition getAllocIdx :: "AllocationClass \<Rightarrow> addr \<Rightarrow> addr \<Rightarrow> nat" where
  "getAllocIdx ac slab alloc = (alloc - slab) div allocationSize ac"

section \<open>Freeing\<close>

definition ac_free :: "addr \<Rightarrow> acs \<Rightarrow> (ac_error + unit) \<times> acs" where
  "ac_free memory = (\<lambda>(sa, ac).
     case getSlabHeader_mem sa memory of
       None \<Rightarrow> (Inl NotOurMemory, sa, ac)
     | Some header \<Rightarrow>
         if sh_classId header \<noteq> ac_classId ac then (Inl NotOurMemory, sa, ac)
         else
           let slab = getSlabForMemory memory in
           if isMarkedForRelease header then
             (case slabReleaseAllocMap ac slab of
                None \<Rightarrow> (Inl NotInMap, sa, ac)
              | Some allocState \<Rightarrow>
                  let idx = getAllocIdx ac slab memory in
                  if allocState ! idx then (Inl AlreadyFree, sa, ac)
                  else (Inr (), sa, ac\<lparr>slabReleaseAllocMap := (slabReleaseAllocMap ac)(slab \<mapsto> allocState[idx := True])\<rparr>))
           else (Inr (), sa, ac\<lparr>freedAllocations := memory # freedAllocations ac, ac_canAllocate := True\<rparr>))"

section \<open>Releasing a slab\<close>

text \<open>\<open>r\<close> is the random number, below the number of allocated slabs.\<close>

definition getSlabForReleaseLocked :: "nat \<Rightarrow> AllocationClass \<Rightarrow> ptr" where
  "getSlabForReleaseLocked r ac =
     (if ac_freeSlabs ac \<noteq> [] then Some (hd (ac_freeSlabs ac))
      else if allocatedSlabs ac \<noteq> [] then Some (allocatedSlabs ac ! r) else None)"

text \<open>Overwriting the element found with the last one and dropping the last.\<close>

primrec replace_first :: "'a \<Rightarrow> 'a \<Rightarrow> 'a list \<Rightarrow> 'a list" where
  "replace_first x y [] = []"
| "replace_first x y (z # zs) = (if z = x then y # zs else z # replace_first x y zs)"

definition swap_remove :: "'a \<Rightarrow> 'a list \<Rightarrow> 'a list" where
  "swap_remove x xs = butlast (replace_first x (last xs) xs)"

definition createSlabReleaseAllocMapLocked :: "addr \<Rightarrow> AllocationClass \<Rightarrow> AllocationClass option" where
  "createSlabReleaseAllocMapLocked slab ac =
     (if slabReleaseAllocMap ac slab \<noteq> None then None
      else Some (ac\<lparr>slabReleaseAllocMap := (slabReleaseAllocMap ac)(slab \<mapsto> replicate (getAllocsPerSlab ac) False)\<rparr>))"

datatype release_start = Released SlabReleaseContext | Prune addr

text \<open>The first critical section of \<open>startSlabRelease\<close>, after the check of the hint.\<close>

definition startRelease_choose :: "SlabReleaseMode \<Rightarrow> ptr \<Rightarrow> nat \<Rightarrow> acs \<Rightarrow> (ac_error + release_start) \<times> acs" where
  "startRelease_choose mode hint r = (\<lambda>(sa, ac).
     case (case hint of None \<Rightarrow> getSlabForReleaseLocked r ac | Some m \<Rightarrow> Some (getSlabForMemory m)) of
       None \<Rightarrow> (Inl NoSlabForRelease, sa, ac)
     | Some slab \<Rightarrow>
         (case getSlabHeader sa slab of
            None \<Rightarrow> (Inl InvalidHeaderState, sa, ac)
          | Some header \<Rightarrow>
              if sh_classId header \<noteq> ac_classId ac \<or> sh_poolId header \<noteq> ac_poolId ac \<or> isMarkedForRelease header
              then (Inl InvalidHeaderState, sa, ac)
              else if slab \<in> set (ac_freeSlabs ac)
              then (Inr (Released (mkContext slab (sh_poolId header) kInvalidClassId [] mode)),
                    upd_header slab (\<lambda>h. h\<lparr>sh_classId := kInvalidClassId, sh_allocSize := 0\<rparr>) sa,
                    ac\<lparr>ac_freeSlabs := swap_remove slab (ac_freeSlabs ac)\<rparr>)
              else
                let sa = upd_header slab (setMarkedForRelease True) sa in
                case createSlabReleaseAllocMapLocked slab ac of
                  None \<Rightarrow> (Inl MapExists, sa, ac)
                | Some ac \<Rightarrow>
                    if slab \<notin> set (allocatedSlabs ac) then (Inl NotInLists, sa, ac)
                    else
                      let ac = ac\<lparr>allocatedSlabs := swap_remove slab (allocatedSlabs ac)\<rparr>;
                          ac = (if currSlab ac = Some slab
                                then ac\<lparr>slabReleaseAllocMap := (slabReleaseAllocMap ac)(slab \<mapsto>
                                          map (\<lambda>i. i \<ge> currOffset ac div allocationSize ac) [0..<getAllocsPerSlab ac]),
                                        currSlab := None, currOffset := 0\<rparr>
                                else ac)
                      in (Inr (Prune slab), sa, ac)))"

definition kFreeAllocsPruneLimit :: nat where "kFreeAllocsPruneLimit = 4 * 1024"

text \<open>The lists \<open>freeAllocs\<close>, \<open>inSlab\<close> and \<open>notInSlab\<close> of the releasing thread.\<close>

primrec partitionLoop :: "SlabAllocator \<Rightarrow> addr \<Rightarrow> nat \<Rightarrow> addr list \<times> addr list \<times> addr list \<Rightarrow> addr list \<times> addr list \<times> addr list" where
  "partitionLoop sa slab 0 l = l"
| "partitionLoop sa slab (Suc n) l =
     (case l of
        ([], inSlab, notInSlab) \<Rightarrow> l
      | (alloc # freeAllocs, inSlab, notInSlab) \<Rightarrow>
          partitionLoop sa slab n
            (if isMemoryInSlab sa alloc slab then (freeAllocs, alloc # inSlab, notInSlab)
             else (freeAllocs, inSlab, alloc # notInSlab)))"

definition partitionFreeAllocs :: "SlabAllocator \<Rightarrow> addr \<Rightarrow> addr list \<times> addr list \<times> addr list \<Rightarrow> addr list \<times> addr list \<times> addr list" where
  "partitionFreeAllocs sa slab l = partitionLoop sa slab kFreeAllocsPruneLimit l"

definition prune_begin :: "addr \<Rightarrow> acs \<Rightarrow> (addr list \<times> addr list \<times> addr list) \<times> acs" where
  "prune_begin slab = (\<lambda>(sa, ac).
     (partitionFreeAllocs sa slab (freedAllocations ac, [], []), sa, ac\<lparr>freedAllocations := []\<rparr>))"

text \<open>The critical section of each round; the lists of the last scan are emptied.\<close>

definition prune_putback :: "addr \<Rightarrow> addr list \<Rightarrow> addr list \<Rightarrow> AllocationClass \<Rightarrow> AllocationClass option" where
  "prune_putback slab inSlab notInSlab ac =
     (let ac = (if notInSlab \<noteq> []
                then ac\<lparr>freedAllocations := notInSlab @ freedAllocations ac, ac_canAllocate := True\<rparr> else ac)
      in case slabReleaseAllocMap ac slab of
           None \<Rightarrow> None
         | Some allocState \<Rightarrow>
             Some (ac\<lparr>slabReleaseAllocMap := (slabReleaseAllocMap ac)(slab \<mapsto>
               fold (\<lambda>alloc st. st[getAllocIdx ac slab alloc := True]) inSlab allocState)\<rparr>))"

definition prune_abort :: "addr list \<times> addr list \<times> addr list \<Rightarrow> AllocationClass \<Rightarrow> AllocationClass" where
  "prune_abort = (\<lambda>(freeAllocs, inSlab, notInSlab) ac.
     ac\<lparr>freedAllocations := (inSlab @ notInSlab @ freeAllocs) @ freedAllocations ac\<rparr>)"

definition prune_collect :: "addr \<Rightarrow> AllocationClass \<Rightarrow> addr list option" where
  "prune_collect slab ac =
     map_option (\<lambda>allocState. map (\<lambda>i. slab + i * allocationSize ac) (filter (\<lambda>i. \<not> allocState ! i) [0..<length allocState]))
       (slabReleaseAllocMap ac slab)"

text \<open>The last critical sections of \<open>startSlabRelease\<close>: giving up, and deciding on the active allocations.\<close>

definition startRelease_abort :: "addr \<Rightarrow> acs \<Rightarrow> acs" where
  "startRelease_abort slab = (\<lambda>(sa, ac).
     (upd_header slab (setMarkedForRelease False) sa, ac\<lparr>slabReleaseAllocMap := (slabReleaseAllocMap ac)(slab := None)\<rparr>))"

definition startRelease_finish :: "SlabReleaseMode \<Rightarrow> addr \<Rightarrow> addr list \<Rightarrow> acs \<Rightarrow> SlabReleaseContext \<times> acs" where
  "startRelease_finish mode slab activeAllocations = (\<lambda>(sa, ac).
     if activeAllocations = []
     then let sa = upd_header slab (\<lambda>h. setMarkedForRelease False (h\<lparr>sh_classId := kInvalidClassId, sh_allocSize := 0\<rparr>)) sa;
              h = sa_headers sa (slabIdx sa (Some slab))
          in (mkContext slab (sh_poolId h) (sh_classId h) [] mode, sa, ac\<lparr>slabReleaseAllocMap := (slabReleaseAllocMap ac)(slab := None)\<rparr>)
     else let h = sa_headers sa (slabIdx sa (Some slab))
          in (mkContext slab (sh_poolId h) (sh_classId h) activeAllocations mode, sa, ac\<lparr>activeReleases := activeReleases ac + 1\<rparr>))"

section \<open>The whole release, undisturbed\<close>

text \<open>\<open>abort k\<close> is what \<open>shouldAbortFn\<close> answers when it is called for the \<open>k\<close>-th time.\<close>

lemma partitionLoop_shrinks: "length (fst (partitionLoop sa slab n l)) = length (fst l) - n"
proof (induction n arbitrary: l)
  case (Suc n)
  obtain fa i j where "l = (fa, i, j)" by (cases l)
  with Suc show ?case by (cases fa) (auto split: if_splits)
qed simp

function pruneLoop :: "(nat \<Rightarrow> bool) \<Rightarrow> nat \<Rightarrow> SlabAllocator \<Rightarrow> addr \<Rightarrow> addr list \<times> addr list \<times> addr list \<Rightarrow> AllocationClass \<Rightarrow>
    (bool \<times> AllocationClass) option" where
  "pruneLoop abort k sa slab l ac =
     (if abort k then Some (True, prune_abort l ac)
      else case prune_putback slab (fst (snd l)) (snd (snd l)) ac of
        None \<Rightarrow> None
      | Some ac \<Rightarrow>
          if fst l = [] then Some (False, ac)
          else pruneLoop abort (Suc k) sa slab (partitionFreeAllocs sa slab (fst l, [], [])) ac)"
  by pat_completeness auto
termination
  by (relation "measure (\<lambda>(_, _, _, _, l, _). length (fst l))")
    (auto simp: partitionFreeAllocs_def partitionLoop_shrinks kFreeAllocsPruneLimit_def)

definition pruneFreeAllocs :: "(nat \<Rightarrow> bool) \<Rightarrow> addr \<Rightarrow> acs \<Rightarrow> ((bool \<times> addr list) \<times> acs) option" where
  "pruneFreeAllocs abort slab s =
     (case prune_begin slab s of (l, sa, ac) \<Rightarrow>
        do { (shouldAbort, ac) \<leftarrow> pruneLoop abort 0 sa slab l ac;
             if shouldAbort then Some ((True, []), sa, ac)
             else do { active \<leftarrow> prune_collect slab ac; Some ((False, active), sa, ac) } })"

definition ac_startSlabRelease ::
  "SlabReleaseMode \<Rightarrow> ptr \<Rightarrow> nat \<Rightarrow> (nat \<Rightarrow> bool) \<Rightarrow> acs \<Rightarrow> (ac_error + SlabReleaseContext) \<times> acs" where
  "ac_startSlabRelease mode hint r abort s =
     (if (case hint of None \<Rightarrow> False | Some m \<Rightarrow> \<not> isValidSlab (fst s) (getSlabForMemory m)) then (Inl InvalidHint, s)
      else case startRelease_choose mode hint r s of
        (Inl e, s) \<Rightarrow> (Inl e, s)
      | (Inr (Released ctx), s) \<Rightarrow> (Inr ctx, s)
      | (Inr (Prune slab), s) \<Rightarrow>
          (case pruneFreeAllocs abort slab s of
             None \<Rightarrow> (Inl NotInMap, s)
           | Some ((True, _), s) \<Rightarrow> (Inl SlabReleaseAborted, startRelease_abort slab s)
           | Some ((False, active), s) \<Rightarrow> (case startRelease_finish mode slab active s of (ctx, s) \<Rightarrow> (Inr ctx, s))))"

definition allFreed :: "addr \<Rightarrow> AllocationClass \<Rightarrow> ac_error + bool" where
  "allFreed slab ac = (case slabReleaseAllocMap ac slab of
     None \<Rightarrow> Inl NotInMap | Some allocState \<Rightarrow> Inr (list_all (\<lambda>freed. freed) allocState))"

definition ac_abortSlabRelease :: "SlabReleaseContext \<Rightarrow> acs \<Rightarrow> (ac_error + unit) \<times> acs" where
  "ac_abortSlabRelease ctx = (\<lambda>(sa, ac).
     if isReleased ctx then (Inl AlreadyReleased, sa, ac)
     else
       let slab = ctx_slab ctx;
           freed = (case slabReleaseAllocMap ac slab of
                      None \<Rightarrow> []
                    | Some allocState \<Rightarrow> map (\<lambda>i. slab + i * allocationSize ac) (filter (\<lambda>i. allocState ! i) [0..<length allocState]))
       in (Inr (),
           upd_header slab (\<lambda>h. setMarkedForRelease False (h\<lparr>sh_classId := ac_classId ac, sh_allocSize := allocationSize ac\<rparr>)) sa,
           ac\<lparr>freedAllocations := rev freed @ freedAllocations ac,
              ac_canAllocate := (if freed \<noteq> [] then True else ac_canAllocate ac),
              slabReleaseAllocMap := (slabReleaseAllocMap ac)(slab := None),
              allocatedSlabs := allocatedSlabs ac @ [slab],
              activeReleases := activeReleases ac - 1\<rparr>))"

text \<open>Completing a release: the check of the header, the wait, the last critical section. The wait polls \<open>allFreed\<close>
  until it holds; \<^const>\<open>None\<close> says that it does not hold yet.\<close>

definition completeRelease_check :: "SlabReleaseContext \<Rightarrow> acs \<Rightarrow> bool" where
  "completeRelease_check ctx = (\<lambda>(sa, ac).
     case getSlabHeader sa (ctx_slab ctx) of
       None \<Rightarrow> False
     | Some header \<Rightarrow> sh_classId header = ac_classId ac \<and> isMarkedForRelease header)"

definition completeRelease_done :: "addr \<Rightarrow> acs \<Rightarrow> acs" where
  "completeRelease_done slab = (\<lambda>(sa, ac).
     (upd_header slab (\<lambda>h. setMarkedForRelease False (h\<lparr>sh_classId := kInvalidClassId, sh_allocSize := 0\<rparr>)) sa,
      ac\<lparr>slabReleaseAllocMap := (slabReleaseAllocMap ac)(slab := None), activeReleases := activeReleases ac - 1\<rparr>))"

definition ac_completeSlabRelease :: "SlabReleaseContext \<Rightarrow> acs \<Rightarrow> ((ac_error + unit) \<times> acs) option" where
  "ac_completeSlabRelease ctx s =
     (if isReleased ctx then Some (Inr (), s)
      else if \<not> completeRelease_check ctx s then Some (Inl InvalidSlabHeader, s)
      else case allFreed (ctx_slab ctx) (snd s) of
        Inl e \<Rightarrow> Some (Inl e, s)
      | Inr False \<Rightarrow> None
      | Inr True \<Rightarrow> Some (Inr (), completeRelease_done (ctx_slab ctx) s))"

section \<open>Allocations during a release\<close>

definition checkSlabInRelease :: "SlabReleaseContext \<Rightarrow> addr \<Rightarrow> acs \<Rightarrow> ac_error option" where
  "checkSlabInRelease ctx memory = (\<lambda>(sa, ac).
     case getSlabHeader_mem sa memory of
       None \<Rightarrow> Some NotOurMemory
     | Some header \<Rightarrow>
         if sh_classId header \<noteq> ac_classId ac then Some NotOurMemory
         else if \<not> isMarkedForRelease header then Some NotMarked
         else if getSlabForMemory memory \<noteq> ctx_slab ctx then Some WrongContext else None)"

definition isAllocFreedLocked :: "addr \<Rightarrow> AllocationClass \<Rightarrow> ac_error + bool" where
  "isAllocFreedLocked memory ac =
     (let slab = getSlabForMemory memory in
      case slabReleaseAllocMap ac slab of
        None \<Rightarrow> Inl NotInMap | Some allocState \<Rightarrow> Inr (allocState ! getAllocIdx ac slab memory))"

definition isAllocFreed :: "SlabReleaseContext \<Rightarrow> addr \<Rightarrow> acs \<Rightarrow> ac_error + bool" where
  "isAllocFreed ctx memory s =
     (case checkSlabInRelease ctx memory s of Some e \<Rightarrow> Inl e | None \<Rightarrow> isAllocFreedLocked memory (snd s))"

text \<open>The callback is what the caller does with an allocation that is not free; here, whether it is called.\<close>

definition processAllocForRelease :: "SlabReleaseContext \<Rightarrow> addr \<Rightarrow> (addr \<Rightarrow> 'c \<Rightarrow> 'c) \<Rightarrow> 'c \<Rightarrow> acs \<Rightarrow> ac_error + 'c" where
  "processAllocForRelease ctx memory callback c s =
     (case checkSlabInRelease ctx memory s of
        Some e \<Rightarrow> Inl e
      | None \<Rightarrow> (case isAllocFreedLocked memory (snd s) of Inl e \<Rightarrow> Inl e | Inr b \<Rightarrow> Inr (if b then c else callback memory c)))"

datatype SlabIterationStatus = kFinishedCurrentSlabAndContinue | kSkippedCurrentSlabAndContinue | kAbortIteration

text \<open>\<open>locked\<close> is whether the lock on releases was obtained; the callback returns whether to go on.\<close>

primrec forEachLoop_ac :: "(addr \<Rightarrow> 'c \<Rightarrow> bool \<times> 'c) \<Rightarrow> nat \<Rightarrow> nat \<Rightarrow> addr \<Rightarrow> 'c \<Rightarrow> SlabIterationStatus \<times> 'c" where
  "forEachLoop_ac callback step 0 p c = (kFinishedCurrentSlabAndContinue, c)"
| "forEachLoop_ac callback step (Suc n) p c =
     (case callback p c of (False, c) \<Rightarrow> (kAbortIteration, c) | (True, c) \<Rightarrow> forEachLoop_ac callback step n (p + step) c)"

definition forEachAllocation :: "bool \<Rightarrow> addr \<Rightarrow> (addr \<Rightarrow> 'c \<Rightarrow> bool \<times> 'c) \<Rightarrow> 'c \<Rightarrow> acs \<Rightarrow> SlabIterationStatus \<times> 'c" where
  "forEachAllocation locked slab callback c = (\<lambda>(sa, ac).
     if \<not> locked then (kSkippedCurrentSlabAndContinue, c)
     else case getSlabHeader sa slab of
       None \<Rightarrow> (kSkippedCurrentSlabAndContinue, c)
     | Some h \<Rightarrow>
         if sh_classId h \<noteq> ac_classId ac \<or> sh_poolId h \<noteq> ac_poolId ac \<or> isAdvised h \<or> isMarkedForRelease h
         then (kSkippedCurrentSlabAndContinue, c)
         else forEachLoop_ac callback (allocationSize ac) (getAllocsPerSlab ac) slab c)"

section \<open>Statistics and saved state\<close>

record ACStats =
  acs_allocSize :: nat
  acs_allocsPerSlab :: nat
  acs_usedSlabs :: nat
  acs_freeSlabs :: nat
  acs_freeAllocs :: nat
  acs_activeAllocs :: u64
  acs_full :: bool

definition ac_getStats :: "AllocationClass \<Rightarrow> ACStats" where
  "ac_getStats ac =
     (let freeAllocsInCurrSlab = (if canAllocateFromCurrentSlabLocked ac then (kSize - currOffset ac) div allocationSize ac else 0);
          perSlab = getAllocsPerSlab ac;
          nSlabsAllocated = length (allocatedSlabs ac);
          nFreedAllocs = length (freedAllocations ac);
          nActiveAllocs = word_of_nat (nSlabsAllocated * perSlab) - word_of_nat nFreedAllocs - word_of_nat freeAllocsInCurrSlab
      in \<lparr>acs_allocSize = allocationSize ac, acs_allocsPerSlab = perSlab, acs_usedSlabs = nSlabsAllocated,
          acs_freeSlabs = length (ac_freeSlabs ac), acs_freeAllocs = nFreedAllocs, acs_activeAllocs = nActiveAllocs,
          acs_full = ac_isFull ac\<rparr>)"

record AllocationClassObject =
  aco_classId :: int
  aco_allocationSize :: nat
  aco_currOffset :: nat
  aco_canAllocate :: bool
  aco_freedAllocations :: "addr list"
  aco_currSlabIdx :: nat
  aco_allocatedSlabIdxs :: "nat list"
  aco_freeSlabIdxs :: "nat list"

definition ac_saveState :: "acs \<Rightarrow> ac_error + AllocationClassObject" where
  "ac_saveState = (\<lambda>(sa, ac).
     if ownsMemory sa then Inl NotRestorable_ac
     else if activeReleases ac > 0 then Inl ReleasesActive
     else Inr \<lparr>aco_classId = ac_classId ac, aco_allocationSize = allocationSize ac, aco_currOffset = currOffset ac,
       aco_canAllocate = ac_canAllocate ac, aco_freedAllocations = freedAllocations ac, aco_currSlabIdx = slabIdx sa (currSlab ac),
       aco_allocatedSlabIdxs = map (\<lambda>s. slabIdx sa (Some s)) (allocatedSlabs ac),
       aco_freeSlabIdxs = map (\<lambda>s. slabIdx sa (Some s)) (ac_freeSlabs ac)\<rparr>)"

text \<open>The indices of slabs on the lists are never the null index.\<close>

definition AllocationClass_restore :: "AllocationClassObject \<Rightarrow> int \<Rightarrow> SlabAllocator \<Rightarrow> ac_error + AllocationClass" where
  "AllocationClass_restore ob pid sa =
     (let ac = \<lparr>ac_classId = aco_classId ob, ac_poolId = pid, allocationSize = aco_allocationSize ob, currOffset = aco_currOffset ob,
                currSlab = getSlabForIdx sa (aco_currSlabIdx ob),
                allocatedSlabs = map (\<lambda>i. slabMemoryStart sa + i * kSize) (aco_allocatedSlabIdxs ob),
                ac_freeSlabs = map (\<lambda>i. slabMemoryStart sa + i * kSize) (aco_freeSlabIdxs ob),
                freedAllocations = aco_freedAllocations ob, ac_canAllocate = aco_canAllocate ob,
                activeReleases = 0, slabReleaseAllocMap = Map.empty\<rparr>
      in if ownsMemory sa then Inl NotRestorable_ac
         else case ac_checkState sa ac of Some e \<Rightarrow> Inl e | None \<Rightarrow> Inr ac)"

section \<open>Chunks\<close>

definition ours :: "AllocationClass \<Rightarrow> SlabAllocator \<Rightarrow> addr \<Rightarrow> bool" where
  "ours ac sa s \<longleftrightarrow> (case getSlabHeader sa s of None \<Rightarrow> False
     | Some h \<Rightarrow> sh_classId h = ac_classId ac \<and> sh_poolId h = ac_poolId ac)"

definition marked :: "SlabAllocator \<Rightarrow> addr \<Rightarrow> bool" where
  "marked sa s \<longleftrightarrow> (case getSlabHeader sa s of None \<Rightarrow> False | Some h \<Rightarrow> isMarkedForRelease h)"

abbreviation chunk :: "AllocationClass \<Rightarrow> addr \<Rightarrow> nat \<Rightarrow> addr" where
  "chunk ac s i \<equiv> s + i * allocationSize ac"

text \<open>What the class owns at \<open>a\<close>: a chunk of one of its slabs that is carved, not marked as freed for a release, and
  not in a slab that counts as entirely free.\<close>

definition carved :: "AllocationClass \<Rightarrow> SlabAllocator \<Rightarrow> addr \<Rightarrow> bool" where
  "carved ac sa a \<longleftrightarrow> (\<exists>s i. a = chunk ac s i \<and> i < getAllocsPerSlab ac \<and> ours ac sa s \<and> s \<notin> set (ac_freeSlabs ac) \<and>
     (currSlab ac = Some s \<longrightarrow> i * allocationSize ac < currOffset ac) \<and>
     (\<forall>st. slabReleaseAllocMap ac s = Some st \<longrightarrow> \<not> st ! i))"

lemma ours_upd [simp]:
  "ours (ac\<lparr>ac_canAllocate := x0\<rparr>) = ours ac"
  "ours (ac\<lparr>activeReleases := x1\<rparr>) = ours ac"
  "ours (ac\<lparr>freedAllocations := x2\<rparr>) = ours ac"
  "ours (ac\<lparr>allocatedSlabs := x3\<rparr>) = ours ac"
  "ours (ac\<lparr>ac_freeSlabs := x4\<rparr>) = ours ac"
  "ours (ac\<lparr>currSlab := x5\<rparr>) = ours ac"
  "ours (ac\<lparr>currOffset := x6\<rparr>) = ours ac"
  "ours (ac\<lparr>slabReleaseAllocMap := x7\<rparr>) = ours ac"
  by (auto simp: ours_def fun_eq_iff split: option.splits)

lemma getAllocsPerSlab_upd [simp]:
  "getAllocsPerSlab (ac\<lparr>ac_canAllocate := x0\<rparr>) = getAllocsPerSlab ac"
  "getAllocsPerSlab (ac\<lparr>activeReleases := x1\<rparr>) = getAllocsPerSlab ac"
  "getAllocsPerSlab (ac\<lparr>freedAllocations := x2\<rparr>) = getAllocsPerSlab ac"
  "getAllocsPerSlab (ac\<lparr>allocatedSlabs := x3\<rparr>) = getAllocsPerSlab ac"
  "getAllocsPerSlab (ac\<lparr>ac_freeSlabs := x4\<rparr>) = getAllocsPerSlab ac"
  "getAllocsPerSlab (ac\<lparr>currSlab := x5\<rparr>) = getAllocsPerSlab ac"
  "getAllocsPerSlab (ac\<lparr>currOffset := x6\<rparr>) = getAllocsPerSlab ac"
  "getAllocsPerSlab (ac\<lparr>slabReleaseAllocMap := x7\<rparr>) = getAllocsPerSlab ac"
  by (simp_all add: getAllocsPerSlab_def)

lemma carved_upd [simp]:
  "carved (ac\<lparr>ac_canAllocate := x0\<rparr>) = carved ac"
  "carved (ac\<lparr>activeReleases := x1\<rparr>) = carved ac"
  "carved (ac\<lparr>freedAllocations := x2\<rparr>) = carved ac"
  "carved (ac\<lparr>allocatedSlabs := x3\<rparr>) = carved ac"
  by (simp_all add: carved_def fun_eq_iff)

text \<open>\<open>L\<close> are the free chunks that are on no list of the class for the moment, \<open>live\<close> the chunks that clients hold.\<close>

definition ac_inv :: "SlabAllocator \<Rightarrow> AllocationClass \<Rightarrow> addr list \<Rightarrow> addr set \<Rightarrow> bool" where
  "ac_inv sa ac L live \<longleftrightarrow> sa_wf sa \<and> 0 \<le> ac_classId ac \<and> 0 < allocationSize ac \<and> allocationSize ac \<le> kSize \<and>
     distinct (freedAllocations ac @ L) \<and> live \<inter> set (freedAllocations ac @ L) = {} \<and>
     (\<forall>a \<in> live \<union> set (freedAllocations ac @ L). carved ac sa a) \<and>
     (\<forall>s. currSlab ac = Some s \<longrightarrow> s \<in> set (allocatedSlabs ac) \<and>
        (\<exists>k \<le> getAllocsPerSlab ac. currOffset ac = k * allocationSize ac)) \<and>
     distinct (ac_freeSlabs ac @ allocatedSlabs ac) \<and>
     (\<forall>s \<in> set (ac_freeSlabs ac @ allocatedSlabs ac). ours ac sa s \<and> \<not> marked sa s) \<and>
     (\<forall>s st. slabReleaseAllocMap ac s = Some st \<longrightarrow> ours ac sa s \<and> marked sa s \<and> length st = getAllocsPerSlab ac) \<and>
     (\<forall>s. ours ac sa s \<longrightarrow> marked sa s \<longrightarrow> slabReleaseAllocMap ac s \<noteq> None)"

lemma ac_invD:
  assumes "ac_inv sa ac L live"
  shows "sa_wf sa" "0 \<le> ac_classId ac" "0 < allocationSize ac" "allocationSize ac \<le> kSize"
    "distinct (freedAllocations ac @ L)" "live \<inter> set (freedAllocations ac @ L) = {}"
    "a \<in> live \<union> set (freedAllocations ac @ L) \<Longrightarrow> carved ac sa a"
    "currSlab ac = Some s \<Longrightarrow> s \<in> set (allocatedSlabs ac)"
    "currSlab ac = Some s \<Longrightarrow> \<exists>k \<le> getAllocsPerSlab ac. currOffset ac = k * allocationSize ac"
    "distinct (ac_freeSlabs ac @ allocatedSlabs ac)"
    "s \<in> set (ac_freeSlabs ac @ allocatedSlabs ac) \<Longrightarrow> ours ac sa s" "s \<in> set (ac_freeSlabs ac @ allocatedSlabs ac) \<Longrightarrow> \<not> marked sa s"
    "slabReleaseAllocMap ac s = Some st \<Longrightarrow> ours ac sa s" "slabReleaseAllocMap ac s = Some st \<Longrightarrow> marked sa s"
    "slabReleaseAllocMap ac s = Some st \<Longrightarrow> length st = getAllocsPerSlab ac"
    "ours ac sa s \<Longrightarrow> marked sa s \<Longrightarrow> slabReleaseAllocMap ac s \<noteq> None"
  using assms unfolding ac_inv_def by blast+

lemma ours_valid: "ours ac sa s \<Longrightarrow> isValidSlab sa s"
  by (auto simp: ours_def getSlabHeader_def split: if_splits)

lemma chunk_end: "i < getAllocsPerSlab ac \<Longrightarrow> i * allocationSize ac + allocationSize ac \<le> kSize"
proof -
  assume "i < getAllocsPerSlab ac"
  then have "Suc i * allocationSize ac \<le> kSize div allocationSize ac * allocationSize ac"
    by (intro mult_le_mono1) (simp add: getAllocsPerSlab_def)
  also have "\<dots> \<le> kSize" by simp
  finally show ?thesis by simp
qed

lemma chunk_in_slab: "i < getAllocsPerSlab ac \<Longrightarrow> 0 < allocationSize ac \<Longrightarrow> i * allocationSize ac < kSize"
  using chunk_end [of i ac] by simp

lemma chunk_slab:
  assumes "sa_wf sa" "isValidSlab sa s" "i < getAllocsPerSlab ac" "0 < allocationSize ac"
  shows "getSlabForMemory (chunk ac s i) = s"
  using getSlabForMemory_valid [OF assms(1,2)] chunk_in_slab [OF assms(3,4)] by auto

lemma chunk_inj:
  assumes "sa_wf sa" "isValidSlab sa s" "isValidSlab sa t" "i < getAllocsPerSlab ac" "j < getAllocsPerSlab ac" "0 < allocationSize ac"
    and "chunk ac s i = chunk ac t j"
  shows "s = t \<and> i = j"
proof -
  have "s = t" using chunk_slab [OF assms(1,2,4,6)] chunk_slab [OF assms(1,3,5,6)] assms(7) by simp
  with assms(6,7) show ?thesis by simp
qed

lemma getAllocIdx_chunk: "0 < allocationSize ac \<Longrightarrow> getAllocIdx ac s (chunk ac s i) = i"
  by (simp add: getAllocIdx_def)

text \<open>Chunks do not overlap.\<close>

lemma chunk_disjoint:
  assumes "sa_wf sa" "isValidSlab sa s" "isValidSlab sa t" "i < getAllocsPerSlab ac" "j < getAllocsPerSlab ac" "chunk ac s i \<noteq> chunk ac t j"
  shows "{chunk ac s i..<chunk ac s i + allocationSize ac} \<inter> {chunk ac t j..<chunk ac t j + allocationSize ac} = {}"
proof (cases "s = t")
  case True
  then have "i < j \<or> j < i" using assms(6) by auto
  then show ?thesis
  proof
    assume "i < j"
    then have "Suc i * allocationSize ac \<le> j * allocationSize ac" by (intro mult_le_mono1) simp
    then show ?thesis using True by auto
  next
    assume "j < i"
    then have "Suc j * allocationSize ac \<le> i * allocationSize ac" by (intro mult_le_mono1) simp
    then show ?thesis using True by auto
  qed
next
  case False
  have "{s..<s + kSize} \<inter> {t..<t + kSize} = {}"
    by (rule aligned_disjoint [OF slab_range(3) [OF assms(1,2)] slab_range(3) [OF assms(1,3)] False])
  moreover have "{chunk ac s i..<chunk ac s i + allocationSize ac} \<subseteq> {s..<s + kSize}"
    "{chunk ac t j..<chunk ac t j + allocationSize ac} \<subseteq> {t..<t + kSize}"
    using chunk_end [OF assms(4)] chunk_end [OF assms(5)] by auto
  ultimately show ?thesis by blast
qed

lemma carvedE:
  assumes "carved ac sa a" and "sa_wf sa" and "0 < allocationSize ac"
  obtains i where "a = chunk ac (getSlabForMemory a) i" "i < getAllocsPerSlab ac" "ours ac sa (getSlabForMemory a)"
    "getSlabForMemory a \<notin> set (ac_freeSlabs ac)" "currSlab ac = Some (getSlabForMemory a) \<Longrightarrow> i * allocationSize ac < currOffset ac"
    "\<And>st. slabReleaseAllocMap ac (getSlabForMemory a) = Some st \<Longrightarrow> \<not> st ! i"
proof -
  from assms(1) obtain s i where a: "a = chunk ac s i" "i < getAllocsPerSlab ac" "ours ac sa s" "s \<notin> set (ac_freeSlabs ac)"
    "currSlab ac = Some s \<longrightarrow> i * allocationSize ac < currOffset ac" "\<And>st. slabReleaseAllocMap ac s = Some st \<Longrightarrow> \<not> st ! i"
    by (auto simp: carved_def)
  have s: "getSlabForMemory a = s" using chunk_slab [OF assms(2) ours_valid [OF a(3)] a(2) assms(3)] a(1) by simp
  show ?thesis by (rule that [of i]) (use a s in auto)
qed

lemma carved_chunk:
  assumes "sa_wf sa" "0 < allocationSize ac" "i < getAllocsPerSlab ac" "isValidSlab sa s"
  shows "carved ac sa (chunk ac s i) \<longleftrightarrow> ours ac sa s \<and> s \<notin> set (ac_freeSlabs ac) \<and>
    (currSlab ac = Some s \<longrightarrow> i * allocationSize ac < currOffset ac) \<and> (\<forall>st. slabReleaseAllocMap ac s = Some st \<longrightarrow> \<not> st ! i)"
proof
  assume "carved ac sa (chunk ac s i)"
  then obtain t j where "chunk ac s i = chunk ac t j" "j < getAllocsPerSlab ac" "ours ac sa t" "t \<notin> set (ac_freeSlabs ac)"
     "(currSlab ac = Some t \<longrightarrow> j * allocationSize ac < currOffset ac)" "(\<forall>st. slabReleaseAllocMap ac t = Some st \<longrightarrow> \<not> st ! j)"
    by (auto simp: carved_def)
  moreover then have "s = t \<and> i = j" using chunk_inj [OF assms(1) assms(4) ours_valid] assms by blast
  ultimately show "ours ac sa s \<and> s \<notin> set (ac_freeSlabs ac) \<and>
    (currSlab ac = Some s \<longrightarrow> i * allocationSize ac < currOffset ac) \<and> (\<forall>st. slabReleaseAllocMap ac s = Some st \<longrightarrow> \<not> st ! i)" by auto
qed (use assms in \<open>auto simp: carved_def\<close>)

section \<open>Allocating, freeing and adding slabs\<close>

lemma ac_inv_transfer:
  assumes "ac_inv sa ac L live" and "ac' = ac\<lparr>ac_canAllocate := b, activeReleases := n\<rparr>"
  shows "ac_inv sa ac' L live"
  using assms(1) unfolding assms(2) ac_inv_def by simp

lemma currOffset_room:
  assumes "ac_inv sa ac L live" "currSlab ac = Some s" "currOffset ac + allocationSize ac \<le> kSize"
  obtains k where "k < getAllocsPerSlab ac" "currOffset ac = k * allocationSize ac"
proof -
  from ac_invD(9) [OF assms(1,2)] obtain k where k: "currOffset ac = k * allocationSize ac" by blast
  have "Suc k * allocationSize ac \<le> kSize" using assms(3) k by simp
  then have "Suc k \<le> kSize div allocationSize ac" using ac_invD(3) [OF assms(1)] by (simp only: less_eq_div_iff_mult_less_eq)
  then show ?thesis using that [of k] k by (simp add: getAllocsPerSlab_def)
qed

lemma carve_inv:
  assumes inv: "ac_inv sa ac L live" and c: "canAllocateFromCurrentSlabLocked ac"
  shows "\<exists>a. allocateFromCurrentSlabLocked ac = (Some a, snd (allocateFromCurrentSlabLocked ac)) \<and>
    a \<notin> live \<union> set (freedAllocations ac @ L) \<and> ac_inv sa (snd (allocateFromCurrentSlabLocked ac)) L (insert a live)"
proof -
  from c obtain s where s: "currSlab ac = Some s" and room: "currOffset ac + allocationSize ac \<le> kSize"
    by (auto simp: canAllocateFromCurrentSlabLocked_def)
  obtain k where k: "k < getAllocsPerSlab ac" "currOffset ac = k * allocationSize ac" by (rule currOffset_room [OF inv s room])
  define ac' where "ac' = ac\<lparr>currOffset := currOffset ac + allocationSize ac\<rparr>"
  have eq: "allocateFromCurrentSlabLocked ac = (Some (chunk ac s k), ac')"
    by (simp add: allocateFromCurrentSlabLocked_def s k ac'_def)
  note D = ac_invD [OF inv]
  have sa: "s \<in> set (allocatedSlabs ac)" using D(8) [OF s] .
  then have o: "ours ac sa s" and nm: "\<not> marked sa s" and nf: "s \<notin> set (ac_freeSlabs ac)" using D(10,11,12) by auto
  have v: "isValidSlab sa s" using ours_valid [OF o] .
  have fresh: "chunk ac s k \<notin> live \<union> set (freedAllocations ac @ L)"
    using D(7) [of "chunk ac s k"] carved_chunk [OF D(1,3) k(1) v] s k(2) by fastforce
  have M: "slabReleaseAllocMap ac s = None" using D(14) nm by (cases "slabReleaseAllocMap ac s") auto
  have mono: "carved ac' sa a" if "carved ac sa a" for a
    using that unfolding carved_def ac'_def by fastforce
  have "carved ac' sa (chunk ac s k)"
    unfolding carved_def using k o nf M D(3) by (intro exI [of _ s] exI [of _ k]) (auto simp: ac'_def)
  then have c: "\<forall>a \<in> insert (chunk ac s k) live \<union> set (freedAllocations ac @ L). carved ac' sa a" using D(7) mono by blast
  have k': "\<exists>j\<le>getAllocsPerSlab ac. currOffset ac + allocationSize ac = j * allocationSize ac"
    using k by (intro exI [of _ "Suc k"]) auto
  have "ac_inv sa ac' L (insert (chunk ac s k) live)"
    using inv fresh c k' s unfolding ac_inv_def
    by (simp add: ac'_def)
  then show ?thesis using fresh by (simp add: eq)
qed

lemma setup_inv:
  assumes inv: "ac_inv sa ac L live" and ne: "ac_freeSlabs ac \<noteq> []"
  shows "ac_inv sa (setupCurrentSlabLocked ac) L live" "canAllocateFromCurrentSlabLocked (setupCurrentSlabLocked ac)"
    "freedAllocations (setupCurrentSlabLocked ac) = freedAllocations ac"
proof -
  define ac' where "ac' = setupCurrentSlabLocked ac"
  note D = ac_invD [OF inv]
  obtain fs s where f: "ac_freeSlabs ac = fs @ [s]" using ne by (metis append_butlast_last_id)
  have ac': "ac' = ac\<lparr>ac_freeSlabs := fs, currSlab := Some s, currOffset := 0, allocatedSlabs := allocatedSlabs ac @ [s]\<rparr>"
    by (simp add: ac'_def setupCurrentSlabLocked_def f Let_def)
  have "carved ac' sa a" if "carved ac sa a" for a
    using that unfolding carved_def ac' by (fastforce simp: f)
  then have c: "\<forall>a \<in> live \<union> set (freedAllocations ac @ L). carved ac' sa a" using D(7) by blast
  have d: "distinct (fs @ allocatedSlabs ac @ [s])" using D(10) by (auto simp: f)
  have set: "set (fs @ allocatedSlabs ac @ [s]) = set (ac_freeSlabs ac @ allocatedSlabs ac)" by (auto simp: f)
  have e: "\<forall>t \<in> set (fs @ allocatedSlabs ac @ [s]). ours ac sa t \<and> \<not> marked sa t" unfolding set using D(11,12) by blast
  have eqs: "ours ac' = ours ac" "getAllocsPerSlab ac' = getAllocsPerSlab ac" by (simp_all add: ac')
  show "ac_inv sa (setupCurrentSlabLocked ac) L live"
    unfolding ac'_def [symmetric] ac_inv_def eqs using inv c d e unfolding ac_inv_def by (simp add: ac')
  show "canAllocateFromCurrentSlabLocked (setupCurrentSlabLocked ac)" "freedAllocations (setupCurrentSlabLocked ac) = freedAllocations ac"
    unfolding ac'_def [symmetric] using D(4) by (simp_all add: ac' canAllocateFromCurrentSlabLocked_def)
qed

lemma pop_inv:
  assumes inv: "ac_inv sa ac L live" and f: "freedAllocations ac = a # rest"
  shows "ac_inv sa (ac\<lparr>freedAllocations := rest\<rparr>) L (insert a live)"
  using inv unfolding ac_inv_def by (auto simp: f)

lemma allocateLocked_inv:
  assumes inv: "ac_inv sa ac L live"
  shows "case allocateLocked ac of (r, ac') \<Rightarrow> ac_inv sa ac' L (set_option r \<union> live) \<and>
    (\<forall>a. r = Some a \<longrightarrow> a \<notin> live \<union> set L)"
proof (cases "freedAllocations ac = [] \<and> ac_freeSlabs ac = [] \<and> \<not> canAllocateFromCurrentSlabLocked ac")
  case True
  then show ?thesis using ac_inv_transfer [OF inv refl, where b = False and n = "activeReleases ac"]
    by (simp add: allocateLocked_def)
next
  case False
  show ?thesis
  proof (cases "freedAllocations ac")
    case (Cons a rest)
    then show ?thesis using pop_inv [OF inv Cons] ac_invD(5,6) [OF inv] by (auto simp: allocateLocked_def)
  next
    case Nil
    show ?thesis
    proof (cases "canAllocateFromCurrentSlabLocked ac")
      case True
      from carve_inv [OF inv True] obtain a ac' where
        "allocateFromCurrentSlabLocked ac = (Some a, ac')" "a \<notin> live \<union> set (freedAllocations ac @ L)" "ac_inv sa ac' L (insert a live)"
        by (metis snd_conv)
      then show ?thesis using True Nil by (simp add: allocateLocked_def)
    next
      case c: False
      then have ne: "ac_freeSlabs ac \<noteq> []" using False Nil by blast
      note S = setup_inv [OF inv ne]
      from carve_inv [OF S(1,2)] obtain a ac' where
        "allocateFromCurrentSlabLocked (setupCurrentSlabLocked ac) = (Some a, ac')"
        "a \<notin> live \<union> set (freedAllocations (setupCurrentSlabLocked ac) @ L)" "ac_inv sa ac' L (insert a live)"
        by (metis snd_conv)
      then show ?thesis using c ne Nil by (simp add: allocateLocked_def)
    qed
  qed
qed

text \<open>A step that touches the header, the lists and the map at one slab only.\<close>

lemma ac_inv_change:
  assumes inv: "ac_inv sa ac L live"
    and same: "ac_classId ac' = ac_classId ac" "ac_poolId ac' = ac_poolId ac" "allocationSize ac' = allocationSize ac" "sa_wf sa'"
    and others: "\<And>t. t \<noteq> s \<Longrightarrow> getSlabHeader sa' t = getSlabHeader sa t" "\<And>t. t \<noteq> s \<Longrightarrow> slabReleaseAllocMap ac' t = slabReleaseAllocMap ac t"
      "\<And>t. t \<noteq> s \<Longrightarrow> t \<in> set (ac_freeSlabs ac') \<longleftrightarrow> t \<in> set (ac_freeSlabs ac)"
      "\<And>t. t \<noteq> s \<Longrightarrow> t \<in> set (allocatedSlabs ac') \<longleftrightarrow> t \<in> set (allocatedSlabs ac)"
    and slabs: "distinct (ac_freeSlabs ac' @ allocatedSlabs ac')"
    and cur: "currSlab ac' = None \<or> currSlab ac' = currSlab ac \<and> currOffset ac' = currOffset ac \<and> currSlab ac \<noteq> Some s"
    and s: "s \<in> set (ac_freeSlabs ac' @ allocatedSlabs ac') \<Longrightarrow> ours ac sa' s \<and> \<not> marked sa' s"
      "\<And>st. slabReleaseAllocMap ac' s = Some st \<Longrightarrow> ours ac sa' s \<and> marked sa' s \<and> length st = getAllocsPerSlab ac"
      "ours ac sa' s \<Longrightarrow> marked sa' s \<Longrightarrow> slabReleaseAllocMap ac' s \<noteq> None"
    and F: "distinct (freedAllocations ac' @ L')" "live' \<inter> set (freedAllocations ac' @ L') = {}"
      "\<And>a. a \<in> live' \<union> set (freedAllocations ac' @ L') \<Longrightarrow> getSlabForMemory a \<noteq> s \<Longrightarrow> a \<in> live \<union> set (freedAllocations ac @ L)"
      "\<And>a. a \<in> live' \<union> set (freedAllocations ac' @ L') \<Longrightarrow> getSlabForMemory a = s \<Longrightarrow> carved ac' sa' a"
  shows "ac_inv sa' ac' L' live'"
proof -
  note D = ac_invD [OF inv]
  have o: "ours ac' = ours ac" "getAllocsPerSlab ac' = getAllocsPerSlab ac"
    using same by (auto simp: ours_def getAllocsPerSlab_def fun_eq_iff split: option.splits)
  have os: "ours ac sa' t = ours ac sa t" "marked sa' t = marked sa t" if "t \<noteq> s" for t
    using others(1) [OF that] by (simp_all add: ours_def marked_def)
  have "carved ac' sa' a" if a: "a \<in> live' \<union> set (freedAllocations ac' @ L')" for a
  proof (cases "getSlabForMemory a = s")
    case False
    obtain i where i: "a = chunk ac (getSlabForMemory a) i" "i < getAllocsPerSlab ac" "ours ac sa (getSlabForMemory a)"
      "getSlabForMemory a \<notin> set (ac_freeSlabs ac)" "currSlab ac = Some (getSlabForMemory a) \<Longrightarrow> i * allocationSize ac < currOffset ac"
      "\<And>st. slabReleaseAllocMap ac (getSlabForMemory a) = Some st \<Longrightarrow> \<not> st ! i"
      by (rule carvedE [OF D(7) [OF F(3) [OF a False]] D(1,3)]) blast
    show ?thesis unfolding carved_def o same
      by (rule exI [of _ "getSlabForMemory a"], rule exI [of _ i]) (use i cur others [OF False] os [OF False] in auto)
  qed (use F(4) [OF a] in blast)
  then have c: "\<forall>a \<in> live' \<union> set (freedAllocations ac' @ L'). carved ac' sa' a" by blast
  have k: "\<forall>t. currSlab ac' = Some t \<longrightarrow> t \<in> set (allocatedSlabs ac') \<and> (\<exists>k \<le> getAllocsPerSlab ac. currOffset ac' = k * allocationSize ac)"
  proof (intro allI impI)
    fix t assume "currSlab ac' = Some t"
    then have "currSlab ac = Some t" "currOffset ac' = currOffset ac" "t \<noteq> s" using cur by auto
    then show "t \<in> set (allocatedSlabs ac') \<and> (\<exists>k \<le> getAllocsPerSlab ac. currOffset ac' = k * allocationSize ac)"
      using D(8) [of t] D(9) [of t] others(4) [of t] by simp
  qed
  have u: "\<forall>t \<in> set (ac_freeSlabs ac' @ allocatedSlabs ac'). ours ac sa' t \<and> \<not> marked sa' t"
    using s(1) D(11,12) others(3,4) os by (metis Un_iff set_append)
  have m: "\<forall>t st. slabReleaseAllocMap ac' t = Some st \<longrightarrow> ours ac sa' t \<and> marked sa' t \<and> length st = getAllocsPerSlab ac"
    using s(2) D(13,14,15) others(2) os by metis
  have m': "\<forall>t. ours ac sa' t \<longrightarrow> marked sa' t \<longrightarrow> slabReleaseAllocMap ac' t \<noteq> None"
    using s(3) D(16) others(2) os by metis
  show ?thesis unfolding ac_inv_def o same
    using same(4) D(2,3,4) F(1,2) c k slabs u m m' by blast
qed

lemma replace_first_split: "x \<notin> set us \<Longrightarrow> replace_first x y (us @ x # vs) = us @ y # vs"
  by (induction us) auto

lemma swap_remove_ok:
  assumes "x \<in> set xs" "distinct xs"
  shows "distinct (swap_remove x xs)" "set (swap_remove x xs) = set xs - {x}"
proof -
  obtain us vs where xs: "xs = us @ x # vs" "x \<notin> set us" using split_list_first [OF assms(1)] by blast
  have "distinct (swap_remove x xs) \<and> set (swap_remove x xs) = set xs - {x}"
  proof (cases vs rule: rev_cases)
    case Nil
    then show ?thesis using xs assms(2) by (auto simp: swap_remove_def replace_first_split butlast_append)
  next
    case (snoc ws z)
    then show ?thesis using xs assms(2) by (auto simp: swap_remove_def replace_first_split butlast_append)
  qed
  then show "distinct (swap_remove x xs)" "set (swap_remove x xs) = set xs - {x}" by blast+
qed

text \<open>Headers under updates.\<close>

lemma ours_header:
  assumes "sa_wf sa" "isValidSlab sa s"
  shows "ours ac (upd_header s f sa) t = (if t = s then sh_classId (f (sa_headers sa (slabIdx sa (Some s)))) = ac_classId ac \<and>
      sh_poolId (f (sa_headers sa (slabIdx sa (Some s)))) = ac_poolId ac else ours ac sa t)"
    "marked (upd_header s f sa) t = (if t = s then isMarkedForRelease (f (sa_headers sa (slabIdx sa (Some s)))) else marked sa t)"
  unfolding ours_def marked_def getSlabHeader_upd [OF assms] by (simp_all add: getSlabHeader_def assms(2))

lemma ours_headers: "ours ac sa s \<Longrightarrow> sh_classId (sa_headers sa (slabIdx sa (Some s))) = ac_classId ac \<and>
    sh_poolId (sa_headers sa (slabIdx sa (Some s))) = ac_poolId ac"
  "isValidSlab sa s \<Longrightarrow> isMarkedForRelease (sa_headers sa (slabIdx sa (Some s))) = marked sa s"
  by (auto simp: ours_def marked_def getSlabHeader_def split: if_splits)

text \<open>A chunk that a client holds can be freed, whatever release is in progress.\<close>

lemma ac_free_cases:
  assumes inv: "ac_inv sa ac L live" and a: "a \<in> live"
  defines "s \<equiv> getSlabForMemory a"
  obtains (list) "\<not> marked sa s" "slabReleaseAllocMap ac s = None"
      "ac_free a (sa, ac) = (Inr (), sa, ac\<lparr>freedAllocations := a # freedAllocations ac, ac_canAllocate := True\<rparr>)"
  | (map) st i where "marked sa s" "slabReleaseAllocMap ac s = Some st" "i < getAllocsPerSlab ac" "a = chunk ac s i" "\<not> st ! i"
      "ac_free a (sa, ac) = (Inr (), sa, ac\<lparr>slabReleaseAllocMap := (slabReleaseAllocMap ac)(s \<mapsto> st[i := True])\<rparr>)"
proof -
  note D = ac_invD [OF inv]
  have "carved ac sa a" using D(7) a by blast
  then obtain i where i: "a = chunk ac s i" "i < getAllocsPerSlab ac" "ours ac sa s" "\<And>st. slabReleaseAllocMap ac s = Some st \<Longrightarrow> \<not> st ! i"
    unfolding s_def by (rule carvedE [OF _ D(1,3)]) blast
  obtain h where h: "getSlabHeader sa s = Some h" "sh_classId h = ac_classId ac" using i(3) by (auto simp: ours_def split: option.splits)
  have mk: "isMarkedForRelease h = marked sa s" by (simp add: marked_def h)
  show ?thesis
  proof (cases "marked sa s")
    case True
    then obtain st where st: "slabReleaseAllocMap ac s = Some st" using D(16) [OF i(3)] by blast
    have "ac_free a (sa, ac) = (Inr (), sa, ac\<lparr>slabReleaseAllocMap := (slabReleaseAllocMap ac)(s \<mapsto> st[i := True])\<rparr>)"
      using True i(4) [OF st] st getAllocIdx_chunk [OF D(3), of s i]
      by (simp add: ac_free_def getSlabHeader_mem_def s_def [symmetric] h mk i(1) [symmetric])
    then show ?thesis by (rule map [OF True st i(2) i(1) i(4) [OF st]])
  next
    case False
    then have "slabReleaseAllocMap ac s = None" using D(14) by (cases "slabReleaseAllocMap ac s") auto
    moreover have "ac_free a (sa, ac) = (Inr (), sa, ac\<lparr>freedAllocations := a # freedAllocations ac, ac_canAllocate := True\<rparr>)"
      using False by (simp add: ac_free_def getSlabHeader_mem_def s_def [symmetric] h mk)
    ultimately show ?thesis using list False by blast
  qed
qed

lemma ac_free_inv:
  assumes inv: "ac_inv sa ac L live" and a: "a \<in> live" and f: "ac_free a (sa, ac) = (r, sa', ac')"
  shows "ac_inv sa' ac' L (live - {a})"
  using inv a
proof (cases rule: ac_free_cases)
  case list
  then show ?thesis using inv a f unfolding ac_inv_def by auto
next
  case (map st i)
  note D = ac_invD [OF inv]
  let ?s = "getSlabForMemory a"
  have v: "isValidSlab sa ?s" using ours_valid [OF D(13) [OF map(2)]] .
  have f': "sa' = sa" "ac' = ac\<lparr>slabReleaseAllocMap := (slabReleaseAllocMap ac)(?s \<mapsto> st[i := True])\<rparr>" using f map(6) by simp_all
  have "carved ac' sa b" if b: "b \<in> live \<union> set (freedAllocations ac @ L)" and ne: "b \<noteq> a" for b
  proof -
    obtain j where j: "b = chunk ac (getSlabForMemory b) j" "j < getAllocsPerSlab ac" "ours ac sa (getSlabForMemory b)"
      "getSlabForMemory b \<notin> set (ac_freeSlabs ac)" "currSlab ac = Some (getSlabForMemory b) \<Longrightarrow> j * allocationSize ac < currOffset ac"
      "\<And>st. slabReleaseAllocMap ac (getSlabForMemory b) = Some st \<Longrightarrow> \<not> st ! j"
      by (rule carvedE [OF D(7) [OF b] D(1,3)]) blast
    have "\<forall>st'. slabReleaseAllocMap ac' (getSlabForMemory b) = Some st' \<longrightarrow> \<not> st' ! j"
    proof (cases "getSlabForMemory b = ?s")
      case True
      then have "i \<noteq> j" using j(1) map(4) ne by metis
      then show ?thesis using j(6) map(2) True by (simp add: f'(2))
    qed (use j(6) in \<open>simp add: f'(2)\<close>)
    then show ?thesis unfolding carved_def using j
      by (intro exI [of _ "getSlabForMemory b"] exI [of _ j]) (simp add: f'(2))
  qed
  then have c: "\<forall>b \<in> (live - {a}) \<union> set (freedAllocations ac @ L). carved ac' sa b" using D(6) a by blast
  show ?thesis using inv c map(1,2) D(15) [OF map(2)] D(13) [OF map(2)] unfolding ac_inv_def f' by auto
qed

lemma ac_inv_in_slab:
  assumes "ac_inv sa ac L live" "a \<in> live \<union> set (freedAllocations ac @ L)"
  shows "ours ac sa (getSlabForMemory a)" "getSlabForMemory a \<notin> set (ac_freeSlabs ac)"
  using carvedE [OF ac_invD(7) [OF assms] ac_invD(1,3) [OF assms(1)]] by blast+

lemma addSlab_inv:
  assumes inv: "ac_inv sa ac L live" and s: "getSlabHeader sa s = Some h" "sh_poolId h = ac_poolId ac" "sh_classId h = kInvalidClassId" "\<not> isMarkedForRelease h"
    and eq: "addSlab s (sa, ac) = (sa', ac')"
  shows "ac_inv sa' ac' L live"
proof -
  note D = ac_invD [OF inv]
  have v: "isValidSlab sa s" and h: "sa_headers sa (slabIdx sa (Some s)) = h" using s(1) by (auto simp: getSlabHeader_def split: if_splits)
  have no: "\<not> ours ac sa s" using s(1,3) D(2) by (simp add: ours_def kInvalidClassId_def)
  have sa': "sa' = upd_header s (\<lambda>h. h\<lparr>sh_classId := ac_classId ac, sh_allocSize := allocationSize ac\<rparr>) sa"
    and ac': "ac' = ac\<lparr>ac_canAllocate := True, ac_freeSlabs := ac_freeSlabs ac @ [s]\<rparr>" using eq by (auto simp: addSlab_def addSlabLocked_def)
  note H = ours_header [OF D(1) v]
  show ?thesis
  proof (rule ac_inv_change [OF inv, where s = s])
    show "sa_wf sa'" using D(1) by (simp add: sa')
    show "getSlabHeader sa' t = getSlabHeader sa t" if "t \<noteq> s" for t using that getSlabHeader_upd [OF D(1) v] by (simp add: sa')
    show "distinct (ac_freeSlabs ac' @ allocatedSlabs ac')" using D(10,11) no by (auto simp: ac')
    show "currSlab ac' = None \<or> currSlab ac' = currSlab ac \<and> currOffset ac' = currOffset ac \<and> currSlab ac \<noteq> Some s"
      using D(8) [of s] D(11) [of s] no by (auto simp: ac')
    show "ours ac sa' s \<and> \<not> marked sa' s" using s(2,4) unfolding sa' H by (simp add: h header_bits)
    show "ours ac sa' s \<and> marked sa' s \<and> length st = getAllocsPerSlab ac" if "slabReleaseAllocMap ac' s = Some st" for st
      using that D(13) [of s] no by (simp add: ac')
    show "slabReleaseAllocMap ac' s \<noteq> None" if "marked sa' s" using that s(4) unfolding sa' H by (simp add: h header_bits)
    show "carved ac' sa' a" if "a \<in> live \<union> set (freedAllocations ac' @ L)" "getSlabForMemory a = s" for a
      using that ac_inv_in_slab(1) [OF inv, of a] no by (simp add: ac')
  qed (use D(5,6) in \<open>auto simp: ac'\<close>)
qed

text \<open>The first critical section of a release. Only with a hint can the slab be on neither list.\<close>

lemma choose_cases:
  assumes inv: "ac_inv sa ac L live" and r: "allocatedSlabs ac \<noteq> [] \<longrightarrow> r < length (allocatedSlabs ac)"
    and eq: "startRelease_choose mode hint r (sa, ac) = (res, sa', ac')"
  obtains (refused) e where "res = Inl e" "sa' = sa" "ac' = ac"
  | (free) s h where "s \<in> set (ac_freeSlabs ac)" "getSlabHeader sa s = Some h" "sh_poolId h = ac_poolId ac"
      "res = Inr (Released (mkContext s (sh_poolId h) kInvalidClassId [] mode))"
      "sa' = upd_header s (\<lambda>h. h\<lparr>sh_classId := kInvalidClassId, sh_allocSize := 0\<rparr>) sa"
      "ac' = ac\<lparr>ac_freeSlabs := swap_remove s (ac_freeSlabs ac)\<rparr>"
  | (stray) s where "ours ac sa s" "\<not> marked sa s" "s \<notin> set (ac_freeSlabs ac)" "s \<notin> set (allocatedSlabs ac)" "res = Inl NotInLists"
      "sa' = upd_header s (setMarkedForRelease True) sa" "hint \<noteq> None"
      "ac' = ac\<lparr>slabReleaseAllocMap := (slabReleaseAllocMap ac)(s \<mapsto> replicate (getAllocsPerSlab ac) False)\<rparr>"
  | (prune) s where "s \<in> set (allocatedSlabs ac)" "s \<notin> set (ac_freeSlabs ac)" "res = Inr (Prune s)" "sa' = upd_header s (setMarkedForRelease True) sa"
      "currSlab ac \<noteq> Some s" "ac' = ac\<lparr>slabReleaseAllocMap := (slabReleaseAllocMap ac)(s \<mapsto> replicate (getAllocsPerSlab ac) False),
        allocatedSlabs := swap_remove s (allocatedSlabs ac)\<rparr>"
  | (current) s where "s \<in> set (allocatedSlabs ac)" "s \<notin> set (ac_freeSlabs ac)" "res = Inr (Prune s)" "sa' = upd_header s (setMarkedForRelease True) sa"
      "currSlab ac = Some s" "ac' = ac\<lparr>slabReleaseAllocMap := (slabReleaseAllocMap ac)(s \<mapsto>
          map (\<lambda>i. i \<ge> currOffset ac div allocationSize ac) [0..<getAllocsPerSlab ac]),
        allocatedSlabs := swap_remove s (allocatedSlabs ac), currSlab := None, currOffset := 0\<rparr>"
proof -
  note D = ac_invD [OF inv]
  let ?slab = "case hint of None \<Rightarrow> getSlabForReleaseLocked r ac | Some m \<Rightarrow> Some (getSlabForMemory m)"
  show ?thesis
  proof (cases "\<exists>s h. ?slab = Some s \<and> getSlabHeader sa s = Some h \<and> sh_classId h = ac_classId ac \<and> sh_poolId h = ac_poolId ac \<and> \<not> isMarkedForRelease h")
    case False
    then have "\<exists>e. res = Inl e \<and> sa' = sa \<and> ac' = ac"
      using eq by (auto simp: startRelease_choose_def split: option.splits if_splits)
    then show ?thesis using refused by blast
  next
    case True
    then obtain s h where s: "?slab = Some s" and h: "getSlabHeader sa s = Some h" "sh_classId h = ac_classId ac" "sh_poolId h = ac_poolId ac" "\<not> isMarkedForRelease h"
      by blast
    have o: "ours ac sa s" "\<not> marked sa s" using h by (simp_all add: ours_def marked_def)
    have m: "slabReleaseAllocMap ac s = None" using D(14) o(2) by (cases "slabReleaseAllocMap ac s") auto
    have hint: "hint \<noteq> None" if "s \<notin> set (ac_freeSlabs ac)" "s \<notin> set (allocatedSlabs ac)"
      using s that r by (cases hint) (auto simp: getSlabForReleaseLocked_def split: if_splits)
    note E = eq [unfolded startRelease_choose_def, simplified, unfolded s, simplified, unfolded h(1), simplified, unfolded h createSlabReleaseAllocMapLocked_def m]
    show ?thesis
    proof (cases "s \<in> set (ac_freeSlabs ac)")
      case True
      then show ?thesis using E h by (intro free [OF True h(1,3)]) auto
    next
      case nf: False
      show ?thesis
      proof (cases "s \<in> set (allocatedSlabs ac)")
        case False
        then show ?thesis using E h(4) nf hint by (intro stray [OF o nf False]) (auto simp: Let_def)
      next
        case True
        show ?thesis
        proof (cases "currSlab ac = Some s")
          case False
          then show ?thesis using E h(4) nf True by (intro prune [OF True nf]) (auto simp: Let_def)
        next
          case c: True
          then show ?thesis using E h(4) nf True by (intro current [OF True nf]) (auto simp: Let_def)
        qed
      qed
    qed
  qed
qed


lemma ac_inv_leave:
  assumes inv: "ac_inv sa ac L live" and v: "isValidSlab sa s" and sa': "sa' = upd_header s f sa" and "\<And>h. sh_classId (f h) = kInvalidClassId"
    and ac': "ac_classId ac' = ac_classId ac" "ac_poolId ac' = ac_poolId ac" "allocationSize ac' = allocationSize ac"
      "currSlab ac' = currSlab ac" "currOffset ac' = currOffset ac" "freedAllocations ac' = freedAllocations ac"
      "slabReleaseAllocMap ac' = (slabReleaseAllocMap ac)(s := None)" "allocatedSlabs ac' = allocatedSlabs ac"
      "distinct (ac_freeSlabs ac')" "set (ac_freeSlabs ac') = set (ac_freeSlabs ac) - {s}"
    and s: "s \<notin> set (allocatedSlabs ac)" "\<And>a. a \<in> live \<union> set (freedAllocations ac @ L) \<Longrightarrow> getSlabForMemory a \<noteq> s"
  shows "ac_inv sa' ac' L live"
proof -
  note D = ac_invD [OF inv]
  have no: "\<not> ours ac sa' s" unfolding sa' ours_header [OF D(1) v] using assms(4) D(2) by (simp add: kInvalidClassId_def)
  show ?thesis
  proof (rule ac_inv_change [OF inv ac'(1-3), where s = s])
    show "sa_wf sa'" using D(1) by (simp add: sa')
    show "getSlabHeader sa' t = getSlabHeader sa t" if "t \<noteq> s" for t using that getSlabHeader_upd [OF D(1) v] by (simp add: sa')
    show "distinct (ac_freeSlabs ac' @ allocatedSlabs ac')" using D(10) ac'(8,9,10) by auto
    show "currSlab ac' = None \<or> currSlab ac' = currSlab ac \<and> currOffset ac' = currOffset ac \<and> currSlab ac \<noteq> Some s"
      using D(8) [of s] s(1) ac'(4,5) by auto
  qed (use D(5,6) ac' s no in auto)
qed

lemma choose_inv:
  assumes inv: "ac_inv sa ac L live" and r: "allocatedSlabs ac \<noteq> [] \<longrightarrow> r < length (allocatedSlabs ac)"
    and eq: "startRelease_choose mode hint r (sa, ac) = (res, sa', ac')"
  shows "ac_inv sa' ac' L live"
proof -
  note D = ac_invD [OF inv]
  have start: "ac_inv sa' ac' L live"
    if o: "ours ac sa s" "\<not> marked sa s" "s \<notin> set (ac_freeSlabs ac)" and sa': "sa' = upd_header s (setMarkedForRelease True) sa"
      and ac': "ac_classId ac' = ac_classId ac" "ac_poolId ac' = ac_poolId ac" "allocationSize ac' = allocationSize ac"
        "freedAllocations ac' = freedAllocations ac" "ac_freeSlabs ac' = ac_freeSlabs ac"
        "distinct (allocatedSlabs ac')" "set (allocatedSlabs ac') = set (allocatedSlabs ac) - {s}"
        "slabReleaseAllocMap ac' = (slabReleaseAllocMap ac)(s \<mapsto> st)" "length st = getAllocsPerSlab ac"
        "currSlab ac' = None \<or> currSlab ac' = currSlab ac \<and> currOffset ac' = currOffset ac \<and> currSlab ac \<noteq> Some s"
        "\<And>i. i < getAllocsPerSlab ac \<Longrightarrow> st ! i \<Longrightarrow> currSlab ac = Some s \<and> currOffset ac \<le> i * allocationSize ac"
    for s st
  proof -
    have v: "isValidSlab sa s" using ours_valid [OF o(1)] .
    note H = ours_header [OF D(1) v]
    have o': "ours ac sa' s" "marked sa' s" unfolding sa' H using ours_headers(1) [OF o(1)] by (simp_all add: header_bits)
    show ?thesis
    proof (rule ac_inv_change [OF inv ac'(1-3), where s = s])
      show "sa_wf sa'" using D(1) by (simp add: sa')
      show "getSlabHeader sa' t = getSlabHeader sa t" if "t \<noteq> s" for t using that getSlabHeader_upd [OF D(1) v] by (simp add: sa')
      show "distinct (ac_freeSlabs ac' @ allocatedSlabs ac')" using D(10) ac'(5,6,7) by auto
      show "currSlab ac' = None \<or> currSlab ac' = currSlab ac \<and> currOffset ac' = currOffset ac \<and> currSlab ac \<noteq> Some s" by (rule ac'(10))
      show "carved ac' sa' a" if a: "a \<in> live \<union> set (freedAllocations ac' @ L)" and as: "getSlabForMemory a = s" for a
      proof -
        have "carved ac sa a" using D(7) a by (simp add: ac'(4))
        then obtain i where i: "a = chunk ac s i" "i < getAllocsPerSlab ac" "currSlab ac = Some s \<Longrightarrow> i * allocationSize ac < currOffset ac"
          by (rule carvedE [OF _ D(1,3)]) (use as in blast)
        have "\<not> st ! i" using ac'(11) [OF i(2)] i(3) by fastforce
        moreover have "currSlab ac' \<noteq> Some s" using ac'(10) by auto
        ultimately show ?thesis using i o' o(3) unfolding carved_def
          by (rule_tac exI [of _ s], rule_tac exI [of _ i]) (auto simp: ac'(1,2,3,5,8) ours_def getAllocsPerSlab_def split: option.splits)
      qed
    qed (use D(5,6) ac' o o' in auto)
  qed
  from inv r eq show ?thesis
  proof (cases rule: choose_cases)
    case (free s h)
    have al: "s \<notin> set (allocatedSlabs ac)" using D(10) free(1) by auto
    have o: "ours ac sa s" "\<not> marked sa s" using D(11,12) [of s] free(1) by auto
    have m: "slabReleaseAllocMap ac s = None" using D(14) o(2) by (cases "slabReleaseAllocMap ac s") auto
    show ?thesis
      by (rule ac_inv_leave [OF inv ours_valid [OF o(1)] free(5)])
        (use free(6) m al swap_remove_ok [OF free(1)] D(10) ac_inv_in_slab(2) [OF inv] free(1) in \<open>auto simp: fun_upd_idem\<close>)
  next
    case (stray s)
    show ?thesis by (rule start [OF stray(1,2,3,6)]) (use stray D(10) D(8) [of s] in auto)
  next
    case (prune s)
    have o: "ours ac sa s" "\<not> marked sa s" using D(11,12) [of s] prune(1) by auto
    show ?thesis by (rule start [OF o prune(2,4)]) (use prune D(10) swap_remove_ok [OF prune(1)] in auto)
  next
    case (current s)
    have o: "ours ac sa s" "\<not> marked sa s" using D(11,12) [of s] current(1) by auto
    have "currOffset ac \<le> i * allocationSize ac" if "currOffset ac div allocationSize ac \<le> i" for i
      using D(9) [OF current(5)] D(3) that by auto
    then show ?thesis by (intro start [OF o current(2,4)]) (use current D(10) swap_remove_ok [OF current(1)] in auto)
  qed (use inv in simp)
qed

section \<open>Pruning and the end of a release\<close>

abbreviation lists3 :: "addr list \<times> addr list \<times> addr list \<Rightarrow> addr list" where
  "lists3 l \<equiv> fst l @ fst (snd l) @ snd (snd l)"

definition sorted3 :: "addr \<Rightarrow> addr list \<times> addr list \<times> addr list \<Rightarrow> bool" where
  "sorted3 slab l \<longleftrightarrow> (\<forall>a \<in> set (fst (snd l)). getSlabForMemory a = slab) \<and> (\<forall>a \<in> set (snd (snd l)). getSlabForMemory a \<noteq> slab)"

lemma partitionLoop_mset: "mset (lists3 (partitionLoop sa slab n l)) = mset (lists3 l)"
proof (induction n arbitrary: l)
  case (Suc n)
  obtain fa i j where l: "l = (fa, i, j)" by (cases l)
  show ?case unfolding l using Suc by (cases fa) auto
qed simp

lemma partitionLoop_sorted: "isValidSlab sa slab \<Longrightarrow> sorted3 slab l \<Longrightarrow> sorted3 slab (partitionLoop sa slab n l)"
proof (induction n arbitrary: l)
  case (Suc n)
  obtain fa i j where l: "l = (fa, i, j)" by (cases l)
  show ?case
  proof (cases fa)
    case (Cons a as)
    have "sorted3 slab (if isMemoryInSlab sa a slab then (as, a # i, j) else (as, i, a # j))"
      using Suc.prems by (simp add: l sorted3_def isMemoryInSlab_def)
    from Suc.IH [OF Suc.prems(1) this] show ?thesis by (simp add: l Cons)
  qed (use Suc.prems in \<open>simp add: l\<close>)
qed simp

lemma ac_inv_perm:
  assumes inv: "ac_inv sa ac L live" and "ac' = ac\<lparr>freedAllocations := F, ac_canAllocate := b\<rparr>" and m: "mset (F @ L') = mset (freedAllocations ac @ L)"
  shows "ac_inv sa ac' L' live"
proof -
  have "distinct (F @ L') = distinct (freedAllocations ac @ L)" "set (F @ L') = set (freedAllocations ac @ L)"
    using m by (metis mset_eq_imp_distinct_iff) (metis m set_mset_mset)
  then show ?thesis using inv unfolding assms(2) ac_inv_def by simp
qed

lemma fold_mark:
  "length (fold (\<lambda>a st. st[f a := True]) xs st) = length st"
  "i < length st \<Longrightarrow> fold (\<lambda>a st. st[f a := True]) xs st ! i \<longleftrightarrow> st ! i \<or> i \<in> f ` set xs"
proof (induction xs arbitrary: st)
  case (Cons a xs)
  case 1
  show ?case using Cons by simp
  case 2
  then show ?case using Cons(2) [of "st[f a := True]"] by (cases "f a = i") auto
qed simp_all

lemma in_release:
  assumes "ac_inv sa ac L live" "slabReleaseAllocMap ac s = Some st"
  shows "isValidSlab sa s" "s \<notin> set (ac_freeSlabs ac)" "s \<notin> set (allocatedSlabs ac)" "currSlab ac \<noteq> Some s"
  using ours_valid [OF ac_invD(13) [OF assms]] ac_invD(12) [OF assms(1), of s] ac_invD(14) [OF assms] ac_invD(8) [OF assms(1), of s] by auto

text \<open>The chunks in a slab being released that clients hold or that wait on a list are those not marked as freed.\<close>

lemma in_release_chunk:
  assumes inv: "ac_inv sa ac L live" and m: "slabReleaseAllocMap ac s = Some st" and a: "a \<in> live \<union> set (freedAllocations ac @ L)" "getSlabForMemory a = s"
  obtains i where "i < getAllocsPerSlab ac" "a = chunk ac s i" "\<not> st ! i"
  using carvedE [OF ac_invD(7) [OF inv a(1)] ac_invD(1,3) [OF inv]] m a(2) by metis

lemma prune_putback_inv:
  assumes inv: "ac_inv sa ac (lists3 l) live" and srt: "sorted3 s l" and m: "slabReleaseAllocMap ac s = Some st"
    and eq: "prune_putback s (fst (snd l)) (snd (snd l)) ac = Some ac'"
  shows "ac_inv sa ac' (fst l) live" "freedAllocations ac' = snd (snd l) @ freedAllocations ac"
    "slabReleaseAllocMap ac' = (slabReleaseAllocMap ac)(s \<mapsto> fold (\<lambda>alloc st. st[getAllocIdx ac s alloc := True]) (fst (snd l)) st)"
proof -
  note D = ac_invD [OF inv]
  note R = in_release [OF inv m]
  let ?st = "fold (\<lambda>alloc st. st[getAllocIdx ac s alloc := True]) (fst (snd l)) st"
  have ac': "ac_classId ac' = ac_classId ac" "ac_poolId ac' = ac_poolId ac" "allocationSize ac' = allocationSize ac"
      "currSlab ac' = currSlab ac" "currOffset ac' = currOffset ac" "ac_freeSlabs ac' = ac_freeSlabs ac" "allocatedSlabs ac' = allocatedSlabs ac"
    and F: "freedAllocations ac' = snd (snd l) @ freedAllocations ac" and M: "slabReleaseAllocMap ac' = (slabReleaseAllocMap ac)(s \<mapsto> ?st)"
    using eq by (auto simp: prune_putback_def m Let_def getAllocIdx_def split: if_splits)
  show "freedAllocations ac' = snd (snd l) @ freedAllocations ac" "slabReleaseAllocMap ac' = (slabReleaseAllocMap ac)(s \<mapsto> ?st)" by (fact F M)+
  show "ac_inv sa ac' (fst l) live"
  proof (rule ac_inv_change [OF inv ac'(1-3) D(1), where s = s])
    show "carved ac' sa a" if a: "a \<in> live \<union> set (freedAllocations ac' @ fst l)" and as: "getSlabForMemory a = s" for a
    proof -
      have a': "a \<in> live \<union> set (freedAllocations ac @ lists3 l)" using a F by auto
      obtain i where i: "i < getAllocsPerSlab ac" "a = chunk ac s i" "\<not> st ! i" by (rule in_release_chunk [OF inv m a' as])
      have ni: "a \<notin> set (fst (snd l))" using a D(5,6) F by auto
      have "\<not> ?st ! i"
      proof
        assume "?st ! i"
        then obtain b where b: "b \<in> set (fst (snd l))" "getAllocIdx ac s b = i" using i D(15) [OF m] fold_mark(2) [of i st "getAllocIdx ac s" "fst (snd l)"] by auto
        have "getSlabForMemory b = s" using srt b(1) by (simp add: sorted3_def)
        then obtain j where "b = chunk ac s j" using b(1) in_release_chunk [OF inv m, of b] by auto
        then show False using b ni i(2) getAllocIdx_chunk [OF D(3), of s] by metis
      qed
      then show ?thesis unfolding carved_def using i D(13) [OF m] R
        by (rule_tac exI [of _ s], rule_tac exI [of _ i]) (auto simp: ac' M ours_def getAllocsPerSlab_def split: option.splits)
    qed
  qed (use D(5,6,10) D(13-15) [OF m] R ac' F M fold_mark(1) [of "getAllocIdx ac s" "fst (snd l)" st] in auto)
qed

lemma startRelease_abort_inv:
  assumes inv: "ac_inv sa ac L live" and m: "slabReleaseAllocMap ac s = Some st" and eq: "startRelease_abort s (sa, ac) = (sa', ac')"
  shows "ac_inv sa' ac' L live"
proof -
  note D = ac_invD [OF inv]
  note R = in_release [OF inv m]
  note H = ours_header [OF D(1) R(1)]
  have sa': "sa' = upd_header s (setMarkedForRelease False) sa" and ac': "ac' = ac\<lparr>slabReleaseAllocMap := (slabReleaseAllocMap ac)(s := None)\<rparr>"
    using eq by (auto simp: startRelease_abort_def)
  have o: "ours ac sa' s" "\<not> marked sa' s" unfolding sa' H using ours_headers(1) [OF D(13) [OF m]] by (simp_all add: header_bits)
  show ?thesis
  proof (rule ac_inv_change [OF inv, where s = s])
    show "getSlabHeader sa' t = getSlabHeader sa t" if "t \<noteq> s" for t using that getSlabHeader_upd [OF D(1) R(1)] by (simp add: sa')
    show "carved ac' sa' a" if a: "a \<in> live \<union> set (freedAllocations ac' @ L)" and as: "getSlabForMemory a = s" for a
    proof -
      obtain i where i: "i < getAllocsPerSlab ac" "a = chunk ac s i" by (rule in_release_chunk [OF inv m _ as]) (use a in \<open>auto simp: ac'\<close>)
      show ?thesis unfolding carved_def by (rule exI [of _ s], rule exI [of _ i]) (use i o R in \<open>auto simp: ac'\<close>)
    qed
  qed (use D(1,5,6,10) o R sa' ac' in auto)
qed

text \<open>Once every chunk is marked as freed the slab leaves the class.\<close>

lemma release_done_inv:
  assumes inv: "ac_inv sa ac L live" and m: "slabReleaseAllocMap ac s = Some st" and all: "\<And>i. i < getAllocsPerSlab ac \<Longrightarrow> st ! i"
  shows "ac_inv (upd_header s (\<lambda>h. setMarkedForRelease False (h\<lparr>sh_classId := kInvalidClassId, sh_allocSize := 0\<rparr>)) sa)
     (ac\<lparr>slabReleaseAllocMap := (slabReleaseAllocMap ac)(s := None), activeReleases := n\<rparr>) L live"
proof (rule ac_inv_leave [OF inv in_release(1) [OF inv m] refl])
  show "getSlabForMemory a \<noteq> s" if "a \<in> live \<union> set (freedAllocations ac @ L)" for a
    using in_release_chunk [OF inv m that] all by blast
qed (use ac_invD(10) [OF inv] in_release(2,3) [OF inv m] in simp_all)

lemma ac_abort_inv:
  assumes inv: "ac_inv sa ac L live" and m: "slabReleaseAllocMap ac (ctx_slab ctx) = Some st"
    and eq: "ac_abortSlabRelease ctx (sa, ac) = (Inr (), sa', ac')"
  shows "ac_inv sa' ac' L live"
proof -
  define s where "s = ctx_slab ctx"
  note m = m [folded s_def]
  note D = ac_invD [OF inv]
  note R = in_release [OF inv m]
  note H = ours_header [OF D(1) R(1)]
  define fr where "fr = map (chunk ac s) (filter (\<lambda>i. st ! i) [0..<length st])"
  have sa': "sa' = upd_header s (\<lambda>h. setMarkedForRelease False (h\<lparr>sh_classId := ac_classId ac, sh_allocSize := allocationSize ac\<rparr>)) sa"
    and ac': "ac' = ac\<lparr>freedAllocations := rev fr @ freedAllocations ac, ac_canAllocate := (if fr \<noteq> [] then True else ac_canAllocate ac),
      slabReleaseAllocMap := (slabReleaseAllocMap ac)(s := None), allocatedSlabs := allocatedSlabs ac @ [s], activeReleases := activeReleases ac - 1\<rparr>"
    using eq m by (auto simp: ac_abortSlabRelease_def Let_def s_def fr_def split: if_splits)
  have o: "ours ac sa' s" "\<not> marked sa' s" unfolding sa' H using ours_headers(1) [OF D(13) [OF m]] by (simp_all add: header_bits)
  have fr: "a \<in> set fr \<longleftrightarrow> (\<exists>i < getAllocsPerSlab ac. a = chunk ac s i \<and> st ! i)" for a by (auto simp: fr_def D(15) [OF m])
  have sl: "getSlabForMemory a = s" if "a \<in> set fr" for a using that chunk_slab [OF D(1) R(1) _ D(3)] by (auto simp: fr)
  have dis: "a \<notin> live \<union> set (freedAllocations ac @ L)" if a: "a \<in> set fr" for a
    using in_release_chunk [OF inv m _ sl [OF a]] a chunk_inj [OF D(1) R(1) R(1) _ _ D(3)] by (metis fr)
  have "distinct fr" unfolding fr_def using D(3) by (auto simp: distinct_map inj_on_def)
  then have dd: "distinct (freedAllocations ac' @ L)" "live \<inter> set (freedAllocations ac' @ L) = {}" using D(5,6) dis by (auto simp: ac')
  show ?thesis
  proof (rule ac_inv_change [OF inv, where s = s])
    show "getSlabHeader sa' t = getSlabHeader sa t" if "t \<noteq> s" for t using that getSlabHeader_upd [OF D(1) R(1)] by (simp add: sa')
    show "carved ac' sa' a" if a: "a \<in> live \<union> set (freedAllocations ac' @ L)" and as: "getSlabForMemory a = s" for a
    proof -
      have "\<exists>i < getAllocsPerSlab ac. a = chunk ac s i"
        using a in_release_chunk [OF inv m _ as] fr by (auto simp: ac')
      then obtain i where i: "i < getAllocsPerSlab ac" "a = chunk ac s i" by blast
      show ?thesis unfolding carved_def by (rule exI [of _ s], rule exI [of _ i]) (use i o R in \<open>auto simp: ac'\<close>)
    qed
    show "a \<in> live \<union> set (freedAllocations ac @ L)" if "a \<in> live \<union> set (freedAllocations ac' @ L)" "getSlabForMemory a \<noteq> s" for a
      using that sl by (auto simp: ac')
  qed (use D(1,10) o R dd sa' ac' in auto)
qed

end
