(* ===== verification/SlabRelease.thy ===== *)
theory SlabRelease
  imports AllocationClass
begin

text \<open>
  Releases of slabs interleaved with the clients of an allocation class. The critical sections of
  \<^verbatim>\<open>AllocationClass.cpp\<close>, modelled in theory AllocationClass, are the steps of an inductive relation on the state of
  the class, the slab allocator, the chunks that clients hold, the place where the releasing thread is, and the
  releases that were started. An invariant holds in every reachable state; without aborts no chunk of a slab is ever
  lost, so that releases complete and the statistics are exact. An abort while pruning loses the slab.
\<close>

section \<open>Interleaved clients and releases\<close>

text \<open>Where the thread that holds \<open>startSlabReleaseLock_\<close> is between two critical sections.\<close>

datatype release_phase = Idle
  | Marked SlabReleaseMode addr
  | Scanning SlabReleaseMode addr "addr list \<times> addr list \<times> addr list"
  | Aborting addr
  | Counting SlabReleaseMode addr
  | Deciding SlabReleaseMode addr "addr list"

fun phase_slab :: "release_phase \<Rightarrow> addr list" where
  "phase_slab Idle = []"
| "phase_slab (Marked m s) = [s]"
| "phase_slab (Scanning m s l) = [s]"
| "phase_slab (Aborting s) = [s]"
| "phase_slab (Counting m s) = [s]"
| "phase_slab (Deciding m s as) = [s]"

fun phase_list :: "release_phase \<Rightarrow> addr list" where
  "phase_list (Scanning m s l) = lists3 l"
| "phase_list _ = []"

record ac_sys =
  sys_sa :: SlabAllocator
  sys_ac :: AllocationClass
  sys_live :: "addr set"
  sys_phase :: release_phase
  sys_ctxs :: "SlabReleaseContext list"

text \<open>One critical section of some thread. \<open>ab\<close> says whether releases may be aborted while they prune. Other classes
  and pools change the slab allocator, but not the headers of this class's slabs, and do not make slabs this class's.\<close>

inductive ac_step :: "bool \<Rightarrow> ac_sys \<Rightarrow> ac_sys \<Rightarrow> bool" for ab :: bool where
  step_allocate: "allocateLocked (sys_ac \<sigma>) = (r, ac) \<Longrightarrow> ac_step ab \<sigma> (\<sigma>\<lparr>sys_ac := ac, sys_live := set_option r \<union> sys_live \<sigma>\<rparr>)"
| step_free: "a \<in> sys_live \<sigma> \<Longrightarrow> ac_free a (sys_sa \<sigma>, sys_ac \<sigma>) = (r, sa, ac) \<Longrightarrow>
     ac_step ab \<sigma> (\<sigma>\<lparr>sys_sa := sa, sys_ac := ac, sys_live := sys_live \<sigma> - {a}\<rparr>)"
| step_addSlab: "getSlabHeader (sys_sa \<sigma>) s = Some h \<Longrightarrow> sh_poolId h = ac_poolId (sys_ac \<sigma>) \<Longrightarrow> sh_classId h = kInvalidClassId \<Longrightarrow>
     \<not> isMarkedForRelease h \<Longrightarrow> addSlab s (sys_sa \<sigma>, sys_ac \<sigma>) = (sa, ac) \<Longrightarrow> ac_step ab \<sigma> (\<sigma>\<lparr>sys_sa := sa, sys_ac := ac\<rparr>)"
| step_others: "sa_wf sa \<Longrightarrow> \<forall>s. ours (sys_ac \<sigma>) (sys_sa \<sigma>) s \<longrightarrow> getSlabHeader sa s = getSlabHeader (sys_sa \<sigma>) s \<Longrightarrow>
     \<forall>s. ours (sys_ac \<sigma>) sa s \<longrightarrow> ours (sys_ac \<sigma>) (sys_sa \<sigma>) s \<Longrightarrow> ac_step ab \<sigma> (\<sigma>\<lparr>sys_sa := sa\<rparr>)"
| step_refused: "sys_phase \<sigma> = Idle \<Longrightarrow> allocatedSlabs (sys_ac \<sigma>) \<noteq> [] \<longrightarrow> r < length (allocatedSlabs (sys_ac \<sigma>)) \<Longrightarrow>
     startRelease_choose mode hint r (sys_sa \<sigma>, sys_ac \<sigma>) = (Inl e, sa, ac) \<Longrightarrow> ac_step ab \<sigma> (\<sigma>\<lparr>sys_sa := sa, sys_ac := ac\<rparr>)"
| step_released: "sys_phase \<sigma> = Idle \<Longrightarrow> allocatedSlabs (sys_ac \<sigma>) \<noteq> [] \<longrightarrow> r < length (allocatedSlabs (sys_ac \<sigma>)) \<Longrightarrow>
     startRelease_choose mode hint r (sys_sa \<sigma>, sys_ac \<sigma>) = (Inr (Released ctx), sa, ac) \<Longrightarrow> ac_step ab \<sigma> (\<sigma>\<lparr>sys_sa := sa, sys_ac := ac\<rparr>)"
| step_prune: "sys_phase \<sigma> = Idle \<Longrightarrow> allocatedSlabs (sys_ac \<sigma>) \<noteq> [] \<longrightarrow> r < length (allocatedSlabs (sys_ac \<sigma>)) \<Longrightarrow>
     startRelease_choose mode hint r (sys_sa \<sigma>, sys_ac \<sigma>) = (Inr (Prune s), sa, ac) \<Longrightarrow>
     ac_step ab \<sigma> (\<sigma>\<lparr>sys_sa := sa, sys_ac := ac, sys_phase := Marked mode s\<rparr>)"
| step_begin: "sys_phase \<sigma> = Marked mode s \<Longrightarrow> prune_begin s (sys_sa \<sigma>, sys_ac \<sigma>) = (l, sa, ac) \<Longrightarrow>
     ac_step ab \<sigma> (\<sigma>\<lparr>sys_sa := sa, sys_ac := ac, sys_phase := Scanning mode s l\<rparr>)"
| step_round: "sys_phase \<sigma> = Scanning mode s l \<Longrightarrow> prune_putback s (fst (snd l)) (snd (snd l)) (sys_ac \<sigma>) = Some ac \<Longrightarrow>
     ac_step ab \<sigma> (\<sigma>\<lparr>sys_ac := ac, sys_phase := (if fst l = [] then Counting mode s
       else Scanning mode s (partitionFreeAllocs (sys_sa \<sigma>) s (fst l, [], [])))\<rparr>)"
| step_abort: "ab \<Longrightarrow> sys_phase \<sigma> = Scanning mode s l \<Longrightarrow>
     ac_step ab \<sigma> (\<sigma>\<lparr>sys_ac := prune_abort l (sys_ac \<sigma>), sys_phase := Aborting s\<rparr>)"
| step_aborted: "sys_phase \<sigma> = Aborting s \<Longrightarrow> startRelease_abort s (sys_sa \<sigma>, sys_ac \<sigma>) = (sa, ac) \<Longrightarrow>
     ac_step ab \<sigma> (\<sigma>\<lparr>sys_sa := sa, sys_ac := ac, sys_phase := Idle\<rparr>)"
| step_count: "sys_phase \<sigma> = Counting mode s \<Longrightarrow> prune_collect s (sys_ac \<sigma>) = Some as \<Longrightarrow>
     ac_step ab \<sigma> (\<sigma>\<lparr>sys_phase := Deciding mode s as\<rparr>)"
| step_finish: "sys_phase \<sigma> = Deciding mode s as \<Longrightarrow> startRelease_finish mode s as (sys_sa \<sigma>, sys_ac \<sigma>) = (ctx, sa, ac) \<Longrightarrow>
     ac_step ab \<sigma> (\<sigma>\<lparr>sys_sa := sa, sys_ac := ac, sys_phase := Idle, sys_ctxs := (if as = [] then [] else [ctx]) @ sys_ctxs \<sigma>\<rparr>)"
| step_complete: "ctx \<in> set (sys_ctxs \<sigma>) \<Longrightarrow> ac_completeSlabRelease ctx (sys_sa \<sigma>, sys_ac \<sigma>) = Some (Inr (), sa, ac) \<Longrightarrow>
     ac_step ab \<sigma> (\<sigma>\<lparr>sys_sa := sa, sys_ac := ac, sys_ctxs := remove1 ctx (sys_ctxs \<sigma>)\<rparr>)"
| step_cancel: "ctx \<in> set (sys_ctxs \<sigma>) \<Longrightarrow> ac_abortSlabRelease ctx (sys_sa \<sigma>, sys_ac \<sigma>) = (Inr (), sa, ac) \<Longrightarrow>
     ac_step ab \<sigma> (\<sigma>\<lparr>sys_sa := sa, sys_ac := ac, sys_ctxs := remove1 ctx (sys_ctxs \<sigma>)\<rparr>)"

inductive ac_reachable :: "bool \<Rightarrow> int \<Rightarrow> int \<Rightarrow> nat \<Rightarrow> ac_sys \<Rightarrow> bool" for ab :: bool and cid pid :: int and n :: nat where
  start: "sa_wf sa \<Longrightarrow> AllocationClass_init cid pid n sa = Inr ac \<Longrightarrow> (\<And>s. \<not> ours ac sa s) \<Longrightarrow>
    ac_reachable ab cid pid n \<lparr>sys_sa = sa, sys_ac = ac, sys_live = {}, sys_phase = Idle, sys_ctxs = []\<rparr>"
| step: "ac_reachable ab cid pid n \<sigma> \<Longrightarrow> ac_step ab \<sigma> \<sigma>' \<Longrightarrow> ac_reachable ab cid pid n \<sigma>'"

section \<open>The invariant\<close>

fun phase_ok :: "AllocationClass \<Rightarrow> release_phase \<Rightarrow> bool" where
  "phase_ok ac Idle \<longleftrightarrow> True"
| "phase_ok ac (Marked m s) \<longleftrightarrow> slabReleaseAllocMap ac s \<noteq> None"
| "phase_ok ac (Scanning m s l) \<longleftrightarrow> slabReleaseAllocMap ac s \<noteq> None \<and> sorted3 s l \<and>
     (\<forall>a \<in> set (freedAllocations ac). getSlabForMemory a \<noteq> s)"
| "phase_ok ac (Aborting s) \<longleftrightarrow> slabReleaseAllocMap ac s \<noteq> None"
| "phase_ok ac (Counting m s) \<longleftrightarrow> slabReleaseAllocMap ac s \<noteq> None \<and> (\<forall>a \<in> set (freedAllocations ac). getSlabForMemory a \<noteq> s)"
| "phase_ok ac (Deciding m s as) \<longleftrightarrow> (\<forall>a \<in> set (freedAllocations ac). getSlabForMemory a \<noteq> s) \<and>
     (\<exists>st. slabReleaseAllocMap ac s = Some st \<and> (\<forall>i < getAllocsPerSlab ac. \<not> st ! i \<longrightarrow> chunk ac s i \<in> set as))"

definition ctxs_ok :: "AllocationClass \<Rightarrow> release_phase \<Rightarrow> SlabReleaseContext list \<Rightarrow> bool" where
  "ctxs_ok ac ph ctxs \<longleftrightarrow> distinct (phase_slab ph @ map ctx_slab ctxs) \<and>
     (\<forall>c \<in> set ctxs. slabReleaseAllocMap ac (ctx_slab c) \<noteq> None \<and> \<not> isReleased c \<and>
        (\<forall>a \<in> set (freedAllocations ac @ phase_list ph). getSlabForMemory a \<noteq> ctx_slab c))"

definition sys_inv :: "ac_sys \<Rightarrow> bool" where
  "sys_inv \<sigma> \<longleftrightarrow> ac_inv (sys_sa \<sigma>) (sys_ac \<sigma>) (phase_list (sys_phase \<sigma>)) (sys_live \<sigma>) \<and> phase_ok (sys_ac \<sigma>) (sys_phase \<sigma>) \<and>
     ctxs_ok (sys_ac \<sigma>) (sys_phase \<sigma>) (sys_ctxs \<sigma>)"

text \<open>A step of a client: slabs in release stay so, marks are only added, and no chunk of theirs gets on the free list.\<close>

definition quiet :: "AllocationClass \<Rightarrow> AllocationClass \<Rightarrow> bool" where
  "quiet ac ac' \<longleftrightarrow> allocationSize ac' = allocationSize ac \<and>
     (\<forall>t st. slabReleaseAllocMap ac t = Some st \<longrightarrow>
        (\<exists>st'. slabReleaseAllocMap ac' t = Some st' \<and> (\<forall>i < getAllocsPerSlab ac. st ! i \<longrightarrow> st' ! i))) \<and>
     (\<forall>a \<in> set (freedAllocations ac'). a \<in> set (freedAllocations ac) \<or> slabReleaseAllocMap ac (getSlabForMemory a) = None)"

lemma quiet_dom: "quiet ac ac' \<Longrightarrow> slabReleaseAllocMap ac t \<noteq> None \<Longrightarrow> slabReleaseAllocMap ac' t \<noteq> None"
  by (fastforce simp: quiet_def)

lemma quiet_freed:
  "quiet ac ac' \<Longrightarrow> slabReleaseAllocMap ac s \<noteq> None \<Longrightarrow> \<forall>a \<in> set (freedAllocations ac). getSlabForMemory a \<noteq> s \<Longrightarrow>
   \<forall>a \<in> set (freedAllocations ac'). getSlabForMemory a \<noteq> s"
  by (fastforce simp: quiet_def)

lemma quiet_keeps:
  assumes q: "quiet ac ac'" and ok: "phase_ok ac ph" "ctxs_ok ac ph ctxs"
  shows "phase_ok ac' ph" "ctxs_ok ac' ph ctxs"
proof -
  show "phase_ok ac' ph"
  proof (cases ph)
    case (Deciding m s as)
    then obtain st where st: "slabReleaseAllocMap ac s = Some st" "\<forall>i < getAllocsPerSlab ac. \<not> st ! i \<longrightarrow> chunk ac s i \<in> set as"
      and f: "\<forall>a \<in> set (freedAllocations ac). getSlabForMemory a \<noteq> s" using ok(1) by auto
    from q st(1) obtain st' where "slabReleaseAllocMap ac' s = Some st'" "\<forall>i < getAllocsPerSlab ac. st ! i \<longrightarrow> st' ! i"
      unfolding quiet_def by blast
    moreover have "allocationSize ac' = allocationSize ac" "getAllocsPerSlab ac' = getAllocsPerSlab ac"
      using q by (simp_all add: quiet_def getAllocsPerSlab_def)
    ultimately show ?thesis using st quiet_freed [OF q _ f] by (auto simp: Deciding)
  qed (use ok(1) quiet_dom [OF q] quiet_freed [OF q] in auto)
  show "ctxs_ok ac' ph ctxs"
    unfolding ctxs_ok_def
  proof (intro conjI ballI)
    fix c assume c: "c \<in> set ctxs"
    then have *: "slabReleaseAllocMap ac (ctx_slab c) \<noteq> None" "\<not> isReleased c"
      "\<forall>a \<in> set (freedAllocations ac). getSlabForMemory a \<noteq> ctx_slab c" "\<forall>a \<in> set (phase_list ph). getSlabForMemory a \<noteq> ctx_slab c"
      using ok(2) by (auto simp: ctxs_ok_def)
    show "slabReleaseAllocMap ac' (ctx_slab c) \<noteq> None" by (rule quiet_dom [OF q *(1)])
    show "\<not> isReleased c" by (rule *(2))
    fix a assume "a \<in> set (freedAllocations ac' @ phase_list ph)"
    then show "getSlabForMemory a \<noteq> ctx_slab c" using quiet_freed [OF q *(1,3)] *(4) by auto
  qed (use ok(2) in \<open>simp add: ctxs_ok_def\<close>)
qed

lemma sys_quiet:
  assumes "sys_inv \<sigma>" "quiet (sys_ac \<sigma>) (sys_ac \<sigma>')" "ac_inv (sys_sa \<sigma>') (sys_ac \<sigma>') (phase_list (sys_phase \<sigma>)) (sys_live \<sigma>')"
    "sys_phase \<sigma>' = sys_phase \<sigma>" "sys_ctxs \<sigma>' = sys_ctxs \<sigma>"
  shows "sys_inv \<sigma>'"
  using assms quiet_keeps [OF assms(2)] unfolding sys_inv_def by metis

lemma quiet_same:
  "allocationSize ac' = allocationSize ac \<Longrightarrow> slabReleaseAllocMap ac' = slabReleaseAllocMap ac \<Longrightarrow>
   set (freedAllocations ac') \<subseteq> set (freedAllocations ac) \<Longrightarrow> quiet ac ac'"
  by (auto simp: quiet_def)

lemma allocateLocked_quiet: "allocateLocked ac = (r, ac') \<Longrightarrow> quiet ac ac'"
  by (rule quiet_same) (auto simp: allocateLocked_def allocateFromCurrentSlabLocked_def setupCurrentSlabLocked_def Let_def
      split: if_splits list.splits)

lemma ac_free_quiet:
  assumes "ac_inv sa ac L live" "a \<in> live" "ac_free a (sa, ac) = (r, sa', ac')"
  shows "quiet ac ac'"
  using assms(1,2)
proof (cases rule: ac_free_cases)
  case list
  then show ?thesis using assms(3) by (auto simp: quiet_def)
next
  case (map st i)
  then show ?thesis using assms(3) ac_invD(15) [OF assms(1) map(2)] by (auto simp: quiet_def nth_list_update)
qed

lemma choose_quiet:
  assumes "ac_inv sa ac L live" "allocatedSlabs ac \<noteq> [] \<longrightarrow> r < length (allocatedSlabs ac)"
    "startRelease_choose mode hint r (sa, ac) = (res, sa', ac')"
  shows "quiet ac ac'" "\<And>s. res = Inr (Prune s) \<Longrightarrow> slabReleaseAllocMap ac s = None \<and> slabReleaseAllocMap ac' s \<noteq> None"
proof -
  note D = ac_invD [OF assms(1)]
  have none: "slabReleaseAllocMap ac s = None" if "\<not> marked sa s" for s using D(14) that by (cases "slabReleaseAllocMap ac s") auto
  have "quiet ac ac' \<and> (\<forall>s. res = Inr (Prune s) \<longrightarrow> slabReleaseAllocMap ac s = None \<and> slabReleaseAllocMap ac' s \<noteq> None)"
    using assms
  proof (cases rule: choose_cases)
    case (stray s)
    then show ?thesis using none [of s] by (auto simp: quiet_def)
  next
    case (prune s)
    then show ?thesis using D(12) [of s] none [of s] by (auto simp: quiet_def)
  next
    case (current s)
    then show ?thesis using D(12) [of s] none [of s] by (auto simp: quiet_def)
  qed (auto simp: quiet_def)
  then show "quiet ac ac'" "\<And>s. res = Inr (Prune s) \<Longrightarrow> slabReleaseAllocMap ac s = None \<and> slabReleaseAllocMap ac' s \<noteq> None" by blast+
qed

lemma others_inv:
  assumes inv: "ac_inv sa ac L live" and sa': "sa_wf sa'" "\<forall>s. ours ac sa s \<longrightarrow> getSlabHeader sa' s = getSlabHeader sa s"
    "\<forall>s. ours ac sa' s \<longrightarrow> ours ac sa s"
  shows "ac_inv sa' ac L live"
proof -
  have o: "ours ac sa' s = ours ac sa s" for s using sa'(2,3) by (auto simp: ours_def)
  have m: "ours ac sa s \<Longrightarrow> marked sa' s = marked sa s" for s using sa'(2) by (simp add: marked_def)
  have "carved ac sa' = carved ac sa" by (simp add: carved_def o fun_eq_iff)
  then show ?thesis using inv sa'(1) m unfolding ac_inv_def o by (metis (no_types, lifting))
qed

text \<open>A step at a slab that leaves release.\<close>

lemma away_keeps:
  assumes same: "allocationSize ac' = allocationSize ac" "\<And>t. t \<noteq> s \<Longrightarrow> slabReleaseAllocMap ac' t = slabReleaseAllocMap ac t"
      "\<And>a. a \<in> set (freedAllocations ac') \<Longrightarrow> a \<in> set (freedAllocations ac) \<or> getSlabForMemory a = s"
    and ok: "phase_ok ac ph" "ctxs_ok ac ph ctxs" "s \<notin> set (phase_slab ph)"
    and ctxs: "\<And>c. c \<in> set ctxs' \<Longrightarrow> c \<in> set ctxs \<and> ctx_slab c \<noteq> s" "distinct (map ctx_slab ctxs')"
  shows "phase_ok ac' ph" "ctxs_ok ac' ph ctxs'"
proof -
  have "getAllocsPerSlab ac' = getAllocsPerSlab ac" using same(1) by (simp add: getAllocsPerSlab_def)
  then show "phase_ok ac' ph" using ok(1,3) same by (cases ph) (auto, (metis+)?)
  show "ctxs_ok ac' ph ctxs'"
    unfolding ctxs_ok_def
  proof (intro conjI ballI)
    show "distinct (phase_slab ph @ map ctx_slab ctxs')" using ok(2) ctxs by (auto simp: ctxs_ok_def)
    fix c assume "c \<in> set ctxs'"
    then have c: "c \<in> set ctxs" "ctx_slab c \<noteq> s" using ctxs(1) by blast+
    then show "slabReleaseAllocMap ac' (ctx_slab c) \<noteq> None" "\<not> isReleased c" using ok(2) same(2) by (auto simp: ctxs_ok_def)
    fix a assume "a \<in> set (freedAllocations ac' @ phase_list ph)"
    then show "getSlabForMemory a \<noteq> ctx_slab c" using same(3) [of a] ok(2) c by (auto simp: ctxs_ok_def)
  qed
qed

lemma sys_invD:
  assumes "sys_inv \<sigma>"
  shows "ac_inv (sys_sa \<sigma>) (sys_ac \<sigma>) (phase_list (sys_phase \<sigma>)) (sys_live \<sigma>)" "phase_ok (sys_ac \<sigma>) (sys_phase \<sigma>)"
    "ctxs_ok (sys_ac \<sigma>) (sys_phase \<sigma>) (sys_ctxs \<sigma>)"
  using assms by (simp_all add: sys_inv_def)

lemma begin_inv:
  assumes inv: "sys_inv \<sigma>" and ph: "sys_phase \<sigma> = Marked mode s" and eq: "prune_begin s (sys_sa \<sigma>, sys_ac \<sigma>) = (l, sa, ac)"
  shows "sys_inv (\<sigma>\<lparr>sys_sa := sa, sys_ac := ac, sys_phase := Scanning mode s l\<rparr>)"
proof -
  note I = sys_invD [OF inv, unfolded ph phase_list.simps]
  have e: "sa = sys_sa \<sigma>" "ac = sys_ac \<sigma>\<lparr>freedAllocations := []\<rparr>"
    "l = partitionLoop (sys_sa \<sigma>) s kFreeAllocsPruneLimit (freedAllocations (sys_ac \<sigma>), [], [])"
    using eq by (auto simp: prune_begin_def partitionFreeAllocs_def)
  obtain st where st: "slabReleaseAllocMap (sys_ac \<sigma>) s = Some st" using I(2) by auto
  have m: "mset (lists3 l) = mset (freedAllocations (sys_ac \<sigma>))" unfolding e(3) partitionLoop_mset by simp
  have "ac_inv sa ac (lists3 l) (sys_live \<sigma>)" unfolding e(1)
    by (rule ac_inv_perm [OF I(1), where F = "[]" and b = "ac_canAllocate (sys_ac \<sigma>)"]) (use m in \<open>simp_all add: e(2)\<close>)
  moreover have "sorted3 s l" unfolding e(3) by (rule partitionLoop_sorted [OF in_release(1) [OF I(1) st]]) (simp add: sorted3_def)
  moreover have "set (lists3 l) = set (freedAllocations (sys_ac \<sigma>))" using m by (metis set_mset_mset)
  ultimately show ?thesis using I(3) st by (auto simp: sys_inv_def e(2) ctxs_ok_def)
qed

lemma round_inv:
  assumes inv: "sys_inv \<sigma>" and ph: "sys_phase \<sigma> = Scanning mode s l"
    and eq: "prune_putback s (fst (snd l)) (snd (snd l)) (sys_ac \<sigma>) = Some ac"
  shows "sys_inv (\<sigma>\<lparr>sys_ac := ac, sys_phase := (if fst l = [] then Counting mode s
       else Scanning mode s (partitionFreeAllocs (sys_sa \<sigma>) s (fst l, [], [])))\<rparr>)"
proof -
  note I = sys_invD [OF inv, unfolded ph phase_list.simps]
  obtain st where st: "slabReleaseAllocMap (sys_ac \<sigma>) s = Some st" and srt: "sorted3 s l"
    and f: "\<forall>a \<in> set (freedAllocations (sys_ac \<sigma>)). getSlabForMemory a \<noteq> s" using I(2) by auto
  note P = prune_putback_inv [OF I(1) srt st eq]
  have "\<forall>a \<in> set (freedAllocations ac). getSlabForMemory a \<noteq> s" using f srt by (auto simp: P(2) sorted3_def)
  moreover have "slabReleaseAllocMap ac s \<noteq> None" by (simp add: P(3))
  moreover have c: "ctxs_ok ac (if fst l = [] then Counting mode s else Scanning mode s l') (sys_ctxs \<sigma>)" if "set (lists3 l') = set (fst l)" for l'
    using I(3) that unfolding ctxs_ok_def P(2,3) by auto
  ultimately show ?thesis
  proof (cases "fst l = []")
    case False
    let ?l = "partitionLoop (sys_sa \<sigma>) s kFreeAllocsPruneLimit (fst l, [], [])"
    have m: "mset (lists3 ?l) = mset (fst l)" unfolding partitionLoop_mset by simp
    have "ac_inv (sys_sa \<sigma>) ac (lists3 ?l) (sys_live \<sigma>)"
      by (rule ac_inv_perm [OF P(1), where F = "freedAllocations ac" and b = "ac_canAllocate ac"]) (use m in simp_all)
    moreover have "sorted3 s ?l" by (rule partitionLoop_sorted [OF in_release(1) [OF I(1) st]]) (simp add: sorted3_def)
    moreover have "set (lists3 ?l) = set (fst l)" using m by (metis set_mset_mset)
    ultimately show ?thesis using f srt False c [of ?l] by (auto simp: sys_inv_def partitionFreeAllocs_def P(2,3) sorted3_def)
  qed (use P(1) c [of "([], [], [])"] in \<open>simp add: sys_inv_def\<close>)
qed

lemma abort_inv:
  assumes inv: "sys_inv \<sigma>" and ph: "sys_phase \<sigma> = Scanning mode s l"
  shows "sys_inv (\<sigma>\<lparr>sys_ac := prune_abort l (sys_ac \<sigma>), sys_phase := Aborting s\<rparr>)"
proof -
  note I = sys_invD [OF inv, unfolded ph phase_list.simps]
  obtain fa i j where l: "l = (fa, i, j)" by (cases l)
  have "ac_inv (sys_sa \<sigma>) (prune_abort l (sys_ac \<sigma>)) [] (sys_live \<sigma>)"
    by (rule ac_inv_perm [OF I(1), where F = "(i @ j @ fa) @ freedAllocations (sys_ac \<sigma>)" and b = "ac_canAllocate (sys_ac \<sigma>)"])
      (simp_all add: prune_abort_def l)
  then show ?thesis using I(2,3) by (auto simp: sys_inv_def l prune_abort_def ctxs_ok_def)
qed

lemma collect_chunks: "prune_collect s ac = Some as \<Longrightarrow> slabReleaseAllocMap ac s = Some st \<Longrightarrow>
    set as = {chunk ac s i | i. i < length st \<and> \<not> st ! i}"
  by (auto simp: prune_collect_def)

lemma finish_inv:
  assumes inv: "sys_inv \<sigma>" and ph: "sys_phase \<sigma> = Deciding mode s as"
    and eq: "startRelease_finish mode s as (sys_sa \<sigma>, sys_ac \<sigma>) = (ctx, sa, ac)"
  shows "sys_inv (\<sigma>\<lparr>sys_sa := sa, sys_ac := ac, sys_phase := Idle, sys_ctxs := (if as = [] then [] else [ctx]) @ sys_ctxs \<sigma>\<rparr>)"
proof -
  note I = sys_invD [OF inv, unfolded ph phase_list.simps]
  obtain st where st: "slabReleaseAllocMap (sys_ac \<sigma>) s = Some st" and all: "\<forall>i < getAllocsPerSlab (sys_ac \<sigma>). \<not> st ! i \<longrightarrow> chunk (sys_ac \<sigma>) s i \<in> set as"
    and f: "\<forall>a \<in> set (freedAllocations (sys_ac \<sigma>)). getSlabForMemory a \<noteq> s" using I(2) by auto
  show ?thesis
  proof (cases "as = []")
    case True
    have e: "sa = upd_header s (\<lambda>h. setMarkedForRelease False (h\<lparr>sh_classId := kInvalidClassId, sh_allocSize := 0\<rparr>)) (sys_sa \<sigma>)"
      "ac = sys_ac \<sigma>\<lparr>slabReleaseAllocMap := (slabReleaseAllocMap (sys_ac \<sigma>))(s := None), activeReleases := activeReleases (sys_ac \<sigma>)\<rparr>"
      using eq True by (auto simp: startRelease_finish_def Let_def)
    have "ac_inv sa ac [] (sys_live \<sigma>)" unfolding e by (rule release_done_inv [OF I(1) st]) (use all True in auto)
    moreover have "ctxs_ok ac Idle (sys_ctxs \<sigma>)" using I(3) by (auto simp: ctxs_ok_def e)
    ultimately show ?thesis using True by (simp add: sys_inv_def)
  next
    case False
    have e: "sa = sys_sa \<sigma>" "ac = sys_ac \<sigma>\<lparr>ac_canAllocate := ac_canAllocate (sys_ac \<sigma>), activeReleases := activeReleases (sys_ac \<sigma>) + 1\<rparr>" "ctx_slab ctx = s" "\<not> isReleased ctx"
      using eq False by (auto simp: startRelease_finish_def Let_def mkContext_def isReleased_def)
    have "ac_inv sa ac [] (sys_live \<sigma>)" unfolding e(1) by (rule ac_inv_transfer [OF I(1) e(2)])
    moreover have "ctxs_ok ac Idle (ctx # sys_ctxs \<sigma>)" using I(3) f st e(3,4) by (auto simp: ctxs_ok_def e(2))
    ultimately show ?thesis using False by (simp add: sys_inv_def)
  qed
qed

lemma ctxs_remove1:
  assumes "ctxs_ok ac ph ctxs" "ctx \<in> set ctxs"
  shows "ctx_slab ctx \<notin> set (phase_slab ph)" "\<exists>st. slabReleaseAllocMap ac (ctx_slab ctx) = Some st"
    "c \<in> set (remove1 ctx ctxs) \<Longrightarrow> c \<in> set ctxs \<and> ctx_slab c \<noteq> ctx_slab ctx" "distinct (map ctx_slab (remove1 ctx ctxs))" "\<not> isReleased ctx"
    "a \<in> set (freedAllocations ac @ phase_list ph) \<Longrightarrow> getSlabForMemory a \<noteq> ctx_slab ctx"
proof -
  obtain us vs where c: "ctxs = us @ ctx # vs" "ctx \<notin> set us" using split_list_first [OF assms(2)] by blast
  have r: "remove1 ctx ctxs = us @ vs" using c by (simp add: remove1_append)
  show "ctx_slab ctx \<notin> set (phase_slab ph)" "\<exists>st. slabReleaseAllocMap ac (ctx_slab ctx) = Some st" "\<not> isReleased ctx"
    "a \<in> set (freedAllocations ac @ phase_list ph) \<Longrightarrow> getSlabForMemory a \<noteq> ctx_slab ctx"
    using assms by (auto simp: ctxs_ok_def)
  have d: "distinct (map ctx_slab (us @ ctx # vs))" using assms(1) by (simp add: ctxs_ok_def c(1))
  then have n: "ctx_slab ctx \<notin> ctx_slab ` set (us @ vs)" by auto
  show "distinct (map ctx_slab (remove1 ctx ctxs))" using d unfolding r by simp
  show "c \<in> set ctxs \<and> ctx_slab c \<noteq> ctx_slab ctx" if "c \<in> set (remove1 ctx ctxs)"
  proof
    show "c \<in> set ctxs" using that using notin_set_remove1 by metis
    show "ctx_slab c \<noteq> ctx_slab ctx" using imageI [OF that, of ctx_slab] n unfolding r by metis
  qed
qed

lemma complete_inv:
  assumes inv: "sys_inv \<sigma>" and c: "ctx \<in> set (sys_ctxs \<sigma>)"
    and eq: "ac_completeSlabRelease ctx (sys_sa \<sigma>, sys_ac \<sigma>) = Some (Inr (), sa, ac)"
  shows "sys_inv (\<sigma>\<lparr>sys_sa := sa, sys_ac := ac, sys_ctxs := remove1 ctx (sys_ctxs \<sigma>)\<rparr>)"
proof -
  note I = sys_invD [OF inv]
  note C = ctxs_remove1 [OF I(3) c]
  obtain st where st: "slabReleaseAllocMap (sys_ac \<sigma>) (ctx_slab ctx) = Some st" using C(2) by blast
  have all: "list_all (\<lambda>b. b) st" and d: "completeRelease_done (ctx_slab ctx) (sys_sa \<sigma>, sys_ac \<sigma>) = (sa, ac)"
    using eq C(5) st by (auto simp: ac_completeSlabRelease_def allFreed_def split: if_splits sum.splits bool.splits)
  have e: "sa = upd_header (ctx_slab ctx) (\<lambda>h. setMarkedForRelease False (h\<lparr>sh_classId := kInvalidClassId, sh_allocSize := 0\<rparr>)) (sys_sa \<sigma>)"
      "ac = sys_ac \<sigma>\<lparr>slabReleaseAllocMap := (slabReleaseAllocMap (sys_ac \<sigma>))(ctx_slab ctx := None), activeReleases := activeReleases (sys_ac \<sigma>) - 1\<rparr>"
    using d by (auto simp: completeRelease_done_def)
  have "ac_inv sa ac (phase_list (sys_phase \<sigma>)) (sys_live \<sigma>)" unfolding e
    by (rule release_done_inv [OF I(1) st]) (use all ac_invD(15) [OF I(1) st] in \<open>simp add: list_all_length\<close>)
  moreover have "phase_ok ac (sys_phase \<sigma>)" "ctxs_ok ac (sys_phase \<sigma>) (remove1 ctx (sys_ctxs \<sigma>))"
    by (rule away_keeps [OF _ _ _ I(2,3) C(1) C(3,4)]; simp add: e(2))+
  ultimately show ?thesis by (simp add: sys_inv_def)
qed

lemma cancel_inv:
  assumes inv: "sys_inv \<sigma>" and c: "ctx \<in> set (sys_ctxs \<sigma>)"
    and eq: "ac_abortSlabRelease ctx (sys_sa \<sigma>, sys_ac \<sigma>) = (Inr (), sa, ac)"
  shows "sys_inv (\<sigma>\<lparr>sys_sa := sa, sys_ac := ac, sys_ctxs := remove1 ctx (sys_ctxs \<sigma>)\<rparr>)"
proof -
  note I = sys_invD [OF inv]
  note C = ctxs_remove1 [OF I(3) c]
  obtain st where st: "slabReleaseAllocMap (sys_ac \<sigma>) (ctx_slab ctx) = Some st" using C(2) by blast
  have e: "allocationSize ac = allocationSize (sys_ac \<sigma>)" "slabReleaseAllocMap ac = (slabReleaseAllocMap (sys_ac \<sigma>))(ctx_slab ctx := None)"
    "freedAllocations ac = rev (map (chunk (sys_ac \<sigma>) (ctx_slab ctx)) (filter (\<lambda>i. st ! i) [0..<length st])) @ freedAllocations (sys_ac \<sigma>)"
    using eq C(5) st by (auto simp: ac_abortSlabRelease_def Let_def)
  have sl: "getSlabForMemory (chunk (sys_ac \<sigma>) (ctx_slab ctx) i) = ctx_slab ctx" if "i < length st" for i
    using chunk_slab [OF ac_invD(1) [OF I(1)] in_release(1) [OF I(1) st] _ ac_invD(3) [OF I(1)]] that ac_invD(15) [OF I(1) st] by simp
  have "phase_ok ac (sys_phase \<sigma>)" "ctxs_ok ac (sys_phase \<sigma>) (remove1 ctx (sys_ctxs \<sigma>))"
    by (rule away_keeps [OF e(1) _ _ I(2,3) C(1) C(3,4)]; use sl in \<open>auto simp: e(2,3)\<close>)+
  then show ?thesis using ac_abort_inv [OF I(1) st eq] by (simp add: sys_inv_def)
qed

lemma prune_inv:
  assumes inv: "sys_inv \<sigma>" and ph: "sys_phase \<sigma> = Idle" and r: "allocatedSlabs (sys_ac \<sigma>) \<noteq> [] \<longrightarrow> r < length (allocatedSlabs (sys_ac \<sigma>))"
    and eq: "startRelease_choose mode hint r (sys_sa \<sigma>, sys_ac \<sigma>) = (Inr (Prune s), sa, ac)"
  shows "sys_inv (\<sigma>\<lparr>sys_sa := sa, sys_ac := ac, sys_phase := Marked mode s\<rparr>)"
proof -
  note I = sys_invD [OF inv, unfolded ph phase_list.simps]
  note Q = choose_quiet [OF I(1) r eq]
  have c: "ctxs_ok ac Idle (sys_ctxs \<sigma>)" by (rule quiet_keeps(2) [OF Q(1) I(2,3)])
  have "s \<notin> ctx_slab ` set (sys_ctxs \<sigma>)" using I(3) Q(2) [OF refl] by (auto simp: ctxs_ok_def)
  then show ?thesis using c Q(2) [OF refl] choose_inv [OF I(1) r eq] by (auto simp: sys_inv_def ctxs_ok_def)
qed

lemma aborted_inv:
  assumes inv: "sys_inv \<sigma>" and ph: "sys_phase \<sigma> = Aborting s" and eq: "startRelease_abort s (sys_sa \<sigma>, sys_ac \<sigma>) = (sa, ac)"
  shows "sys_inv (\<sigma>\<lparr>sys_sa := sa, sys_ac := ac, sys_phase := Idle\<rparr>)"
proof -
  note I = sys_invD [OF inv, unfolded ph phase_list.simps]
  obtain st where st: "slabReleaseAllocMap (sys_ac \<sigma>) s = Some st" using I(2) by auto
  have "ctxs_ok ac Idle (sys_ctxs \<sigma>)" using I(3) eq by (auto simp: ctxs_ok_def startRelease_abort_def)
  then show ?thesis using startRelease_abort_inv [OF I(1) st eq] by (simp add: sys_inv_def)
qed

lemma count_inv:
  assumes inv: "sys_inv \<sigma>" and ph: "sys_phase \<sigma> = Counting mode s" and eq: "prune_collect s (sys_ac \<sigma>) = Some as"
  shows "sys_inv (\<sigma>\<lparr>sys_phase := Deciding mode s as\<rparr>)"
proof -
  note I = sys_invD [OF inv, unfolded ph phase_list.simps]
  obtain st where st: "slabReleaseAllocMap (sys_ac \<sigma>) s = Some st" using I(2) by auto
  have "chunk (sys_ac \<sigma>) s i \<in> set as" if "i < getAllocsPerSlab (sys_ac \<sigma>)" "\<not> st ! i" for i
    using collect_chunks [OF eq st] ac_invD(15) [OF I(1) st] that by auto
  then show ?thesis using I st by (simp add: sys_inv_def ctxs_ok_def)
qed

lemma ac_step_inv: "ac_step ab \<sigma> \<sigma>' \<Longrightarrow> sys_inv \<sigma> \<Longrightarrow> sys_inv \<sigma>'"
proof (induction rule: ac_step.induct)
  case (step_allocate \<sigma> r ac)
  show ?case by (rule sys_quiet [OF step_allocate(2)])
      (use allocateLocked_quiet [OF step_allocate(1)] allocateLocked_inv [OF sys_invD(1) [OF step_allocate(2)]] step_allocate(1) in auto)
next
  case (step_free a \<sigma> r sa ac)
  note I = sys_invD(1) [OF step_free(3)]
  show ?case by (rule sys_quiet [OF step_free(3)]) (use ac_free_quiet [OF I step_free(1,2)] ac_free_inv [OF I step_free(1,2)] in auto)
next
  case (step_addSlab \<sigma> s h sa ac)
  have "quiet (sys_ac \<sigma>) ac" using step_addSlab(5) by (intro quiet_same) (auto simp: addSlab_def addSlabLocked_def)
  then show ?case using addSlab_inv [OF sys_invD(1) [OF step_addSlab(6)] step_addSlab(1-5)] by (intro sys_quiet [OF step_addSlab(6)]) auto
next
  case (step_others sa \<sigma>)
  have "quiet (sys_ac \<sigma>) (sys_ac \<sigma>)" by (rule quiet_same) auto
  then show ?case using others_inv [OF sys_invD(1) [OF step_others(4)] step_others(1-3)] by (intro sys_quiet [OF step_others(4)]) auto
next
  case (step_refused \<sigma> r mode hint e sa ac)
  note I = sys_invD(1) [OF step_refused(4)]
  show ?case by (rule sys_quiet [OF step_refused(4)])
      (use choose_quiet(1) [OF I step_refused(2,3)] choose_inv [OF I step_refused(2,3)] in auto)
next
  case (step_released \<sigma> r mode hint ctx sa ac)
  note I = sys_invD(1) [OF step_released(4)]
  show ?case by (rule sys_quiet [OF step_released(4)])
      (use choose_quiet(1) [OF I step_released(2,3)] choose_inv [OF I step_released(2,3)] in auto)
qed (blast intro: prune_inv begin_inv round_inv abort_inv aborted_inv count_inv finish_inv complete_inv cancel_inv)+

lemma sys_inv_start:
  assumes "sa_wf sa" "AllocationClass_init cid pid n sa = Inr ac" "\<And>s. \<not> ours ac sa s"
  shows "sys_inv \<lparr>sys_sa = sa, sys_ac = ac, sys_live = {}, sys_phase = Idle, sys_ctxs = []\<rparr>"
proof -
  have "0 < n" "n \<le> kSize" "0 \<le> cid" "ac = \<lparr>ac_classId = cid, ac_poolId = pid, allocationSize = n, currOffset = 0, currSlab = None,
      allocatedSlabs = [], ac_freeSlabs = [], freedAllocations = [], ac_canAllocate = True, activeReleases = 0, slabReleaseAllocMap = Map.empty\<rparr>"
    using assms(2) by (auto simp: AllocationClass_init_def ac_checkState_def sizeofFreeAlloc_def Let_def split: if_splits)
  then show ?thesis using assms(1,3) by (simp add: sys_inv_def ac_inv_def ctxs_ok_def)
qed

lemma reachable_inv: "ac_reachable ab cid pid n \<sigma> \<Longrightarrow> sys_inv \<sigma>"
  by (induction rule: ac_reachable.induct) (auto intro: ac_step_inv sys_inv_start)

section \<open>Without aborts no chunk is lost\<close>

definition covered :: "SlabAllocator \<Rightarrow> AllocationClass \<Rightarrow> addr set \<Rightarrow> bool" where
  "covered sa ac known \<longleftrightarrow>
     (\<forall>s. ours ac sa s \<longrightarrow> s \<in> set (ac_freeSlabs ac) \<or> s \<in> set (allocatedSlabs ac) \<or> slabReleaseAllocMap ac s \<noteq> None) \<and>
     (\<forall>s \<in> set (allocatedSlabs ac). \<forall>i < getAllocsPerSlab ac.
        chunk ac s i \<in> known \<or> currSlab ac = Some s \<and> currOffset ac \<le> i * allocationSize ac) \<and>
     (\<forall>s st. slabReleaseAllocMap ac s = Some st \<longrightarrow> (\<forall>i < getAllocsPerSlab ac. st ! i \<or> chunk ac s i \<in> known))"

abbreviation known :: "ac_sys \<Rightarrow> addr set" where
  "known \<sigma> \<equiv> sys_live \<sigma> \<union> set (freedAllocations (sys_ac \<sigma>) @ phase_list (sys_phase \<sigma>))"

definition sys_covered :: "ac_sys \<Rightarrow> bool" where
  "sys_covered \<sigma> \<longleftrightarrow> covered (sys_sa \<sigma>) (sys_ac \<sigma>) (known \<sigma>) \<and> (\<forall>s. sys_phase \<sigma> \<noteq> Aborting s) \<and>
     dom (slabReleaseAllocMap (sys_ac \<sigma>)) = set (phase_slab (sys_phase \<sigma>) @ map ctx_slab (sys_ctxs \<sigma>))"

lemma coveredD:
  assumes "covered sa ac K"
  shows "ours ac sa s \<Longrightarrow> s \<in> set (ac_freeSlabs ac) \<or> s \<in> set (allocatedSlabs ac) \<or> slabReleaseAllocMap ac s \<noteq> None"
    "s \<in> set (allocatedSlabs ac) \<Longrightarrow> i < getAllocsPerSlab ac \<Longrightarrow> chunk ac s i \<in> K \<or> currSlab ac = Some s \<and> currOffset ac \<le> i * allocationSize ac"
    "slabReleaseAllocMap ac s = Some st \<Longrightarrow> i < getAllocsPerSlab ac \<Longrightarrow> st ! i \<or> chunk ac s i \<in> K"
  using assms unfolding covered_def by blast+

lemma coveredI:
  assumes "\<And>s. ours ac sa s \<Longrightarrow> s \<in> set (ac_freeSlabs ac) \<or> s \<in> set (allocatedSlabs ac) \<or> slabReleaseAllocMap ac s \<noteq> None"
    "\<And>s i. s \<in> set (allocatedSlabs ac) \<Longrightarrow> i < getAllocsPerSlab ac \<Longrightarrow>
      chunk ac s i \<in> K \<or> currSlab ac = Some s \<and> currOffset ac \<le> i * allocationSize ac"
    "\<And>s st i. slabReleaseAllocMap ac s = Some st \<Longrightarrow> i < getAllocsPerSlab ac \<Longrightarrow> st ! i \<or> chunk ac s i \<in> K"
  shows "covered sa ac K"
  using assms unfolding covered_def by blast

lemma covered_mono: "covered sa ac K \<Longrightarrow> K \<subseteq> K' \<Longrightarrow> covered sa ac K'"
  unfolding covered_def by blast

lemma covered_upd [simp]:
  "covered sa (ac\<lparr>freedAllocations := F\<rparr>) K = covered sa ac K" "covered sa (ac\<lparr>ac_canAllocate := b\<rparr>) K = covered sa ac K"
  "covered sa (ac\<lparr>activeReleases := n\<rparr>) K = covered sa ac K"
  by (simp_all add: covered_def)

lemma carve_covered:
  assumes inv: "ac_inv sa ac L live" and cov: "covered sa ac K" and c: "canAllocateFromCurrentSlabLocked ac"
    and eq: "allocateFromCurrentSlabLocked ac = (Some a, ac')"
  shows "covered sa ac' (insert a K)"
proof -
  from c obtain s where s: "currSlab ac = Some s" and room: "currOffset ac + allocationSize ac \<le> kSize"
    by (auto simp: canAllocateFromCurrentSlabLocked_def)
  obtain k where k: "k < getAllocsPerSlab ac" "currOffset ac = k * allocationSize ac" by (rule currOffset_room [OF inv s room])
  have e: "a = chunk ac s k" "ac' = ac\<lparr>currOffset := Suc k * allocationSize ac\<rparr>" using eq by (auto simp: allocateFromCurrentSlabLocked_def s k)
  have al: "chunk ac t i \<in> insert a K \<or> currSlab ac = Some t \<and> Suc k * allocationSize ac \<le> i * allocationSize ac"
    if "t \<in> set (allocatedSlabs ac)" "i < getAllocsPerSlab ac" for t i
  proof (cases "chunk ac t i \<in> insert a K")
    case False
    then have t: "t = s" "k * allocationSize ac \<le> i * allocationSize ac" "i \<noteq> k" using coveredD(2) [OF cov that] s by (auto simp: k(2) e(1))
    then have "k \<le> i" using ac_invD(3) [OF inv] by simp
    then have "Suc k \<le> i" using t(3) by simp
    then show ?thesis using t(1) s mult_le_mono1 by blast
  qed simp
  show ?thesis
  proof (rule coveredI)
    show "st ! i \<or> chunk ac' t i \<in> insert a K" if "slabReleaseAllocMap ac' t = Some st" "i < getAllocsPerSlab ac'" for t st i
      using coveredD(3) [OF cov, of t st i] that by (auto simp: e(2))
  qed (use al coveredD(1) [OF cov] in \<open>auto simp: e(2)\<close>)
qed

lemma setup_covered:
  assumes inv: "ac_inv sa ac L live" and cov: "covered sa ac K" and c: "\<not> canAllocateFromCurrentSlabLocked ac" and ne: "ac_freeSlabs ac \<noteq> []"
  shows "covered sa (setupCurrentSlabLocked ac) K"
proof -
  obtain fs s where f: "ac_freeSlabs ac = fs @ [s]" using ne by (metis append_butlast_last_id)
  have full: "chunk ac t i \<in> K" if "t \<in> set (allocatedSlabs ac)" "i < getAllocsPerSlab ac" for t i
  proof (rule ccontr)
    assume "chunk ac t i \<notin> K"
    then have t: "currSlab ac = Some t" "currOffset ac \<le> i * allocationSize ac" using coveredD(2) [OF cov that] by auto
    then show False using c chunk_end [OF that(2)] by (auto simp: canAllocateFromCurrentSlabLocked_def)
  qed
  have e: "setupCurrentSlabLocked ac = ac\<lparr>ac_freeSlabs := fs, currSlab := Some s, currOffset := 0, allocatedSlabs := allocatedSlabs ac @ [s]\<rparr>"
    by (simp add: setupCurrentSlabLocked_def f Let_def)
  show ?thesis using cov full unfolding covered_def e by (auto simp: f)
qed

lemma allocateLocked_covered:
  assumes inv: "ac_inv sa ac L live" and cov: "covered sa ac (live \<union> set (freedAllocations ac @ L))" and eq: "allocateLocked ac = (r, ac')"
  shows "covered sa ac' (set_option r \<union> live \<union> set (freedAllocations ac' @ L))"
proof (cases "freedAllocations ac = [] \<and> ac_freeSlabs ac = [] \<and> \<not> canAllocateFromCurrentSlabLocked ac")
  case True
  then show ?thesis using eq cov by (auto simp: allocateLocked_def)
next
  case nt: False
  show ?thesis
  proof (cases "freedAllocations ac")
    case (Cons a rest)
    then show ?thesis using eq cov by (auto simp: allocateLocked_def intro: covered_mono)
  next
    case Nil
    have fin: "covered sa ac' (set_option r \<union> live \<union> set (freedAllocations ac' @ L))"
      if as: "ac_inv sa ac0 L live" "covered sa ac0 (live \<union> set L)" "canAllocateFromCurrentSlabLocked ac0" "allocateFromCurrentSlabLocked ac0 = (r, ac')"
        "freedAllocations ac0 = []" for ac0
    proof -
      obtain a where a: "r = Some a" using as(3,4) by (auto simp: allocateFromCurrentSlabLocked_def canAllocateFromCurrentSlabLocked_def)
      have "freedAllocations ac' = []" using as(4,5) by (auto simp: allocateFromCurrentSlabLocked_def)
      then show ?thesis using carve_covered [OF as(1,2,3) as(4) [unfolded a]] by (simp add: a)
    qed
    show ?thesis
    proof (cases "canAllocateFromCurrentSlabLocked ac")
      case True
      then show ?thesis using fin [OF inv] cov eq Nil by (simp add: allocateLocked_def)
    next
      case False
      then have ne: "ac_freeSlabs ac \<noteq> []" using nt Nil by blast
      note S = setup_inv [OF inv ne]
      show ?thesis using fin [OF S(1) _ S(2)] setup_covered [OF inv _ False ne] S(3) cov eq Nil False ne by (simp add: allocateLocked_def)
    qed
  qed
qed

lemma ac_free_covered:
  assumes inv: "ac_inv sa ac L live" and a: "a \<in> live" and cov: "covered sa ac (live \<union> set (freedAllocations ac @ L))"
    and eq: "ac_free a (sa, ac) = (r, sa', ac')"
  shows "covered sa' ac' ((live - {a}) \<union> set (freedAllocations ac' @ L))"
  using inv a
proof (cases rule: ac_free_cases)
  case list
  then show ?thesis using eq cov by (auto intro: covered_mono)
next
  case (map st i)
  note D = ac_invD [OF inv]
  let ?s = "getSlabForMemory a"
  have e: "sa' = sa" "ac' = ac\<lparr>slabReleaseAllocMap := (slabReleaseAllocMap ac)(?s \<mapsto> st[i := True])\<rparr>" using eq map(6) by simp_all
  have inj: "t = ?s \<and> j = i" if "chunk ac t j = a" "isValidSlab sa t" "j < getAllocsPerSlab ac" for t j
    using chunk_inj [OF D(1) that(2) in_release(1) [OF inv map(2)] that(3) map(3) D(3)] that(1) map(4) by simp
  have "?s \<notin> set (allocatedSlabs ac)" using in_release(3) [OF inv map(2)] .
  then have "chunk ac t j \<noteq> a" if "t \<in> set (allocatedSlabs ac)" "j < getAllocsPerSlab ac" for t j
    using inj [OF _ ours_valid [OF D(11)] that(2)] that(1) by auto
  moreover have "st'' ! j \<or> chunk ac t j \<in> (live - {a}) \<union> set (freedAllocations ac @ L)"
    if m: "((slabReleaseAllocMap ac)(?s \<mapsto> st[i := True])) t = Some st''" and j: "j < getAllocsPerSlab ac" for t st'' j
  proof (cases "chunk ac t j = a")
    case True
    have "isValidSlab sa t" using m in_release(1) [OF inv] map(2) by (auto split: if_splits)
    with True j inj have "t = ?s" "j = i" by blast+
    then show ?thesis using m D(15) [OF map(2)] map(3) by auto
  next
    case False
    have mono: "st ! k \<Longrightarrow> st[i := True] ! k" for k
      by (metis linorder_not_less list_update_beyond nth_list_update nth_list_update_neq)
    show ?thesis using m coveredD(3) [OF cov _ j, of t] map(2) False mono by (auto split: if_splits)
  qed
  ultimately show ?thesis using cov unfolding covered_def e by auto
qed

text \<open>A slab leaves the class.\<close>

lemma leave_covered:
  assumes cov: "covered sa ac K" and wf: "sa_wf sa" "isValidSlab sa s" and f: "\<And>h. sh_classId (f h) \<noteq> ac_classId ac" and al: "s \<notin> set (allocatedSlabs ac)"
    and ac': "ac_classId ac' = ac_classId ac" "ac_poolId ac' = ac_poolId ac" "allocationSize ac' = allocationSize ac"
      "currSlab ac' = currSlab ac" "currOffset ac' = currOffset ac" "allocatedSlabs ac' = allocatedSlabs ac"
      "slabReleaseAllocMap ac' = (slabReleaseAllocMap ac)(s := None)" "set (ac_freeSlabs ac) \<subseteq> insert s (set (ac_freeSlabs ac'))"
  shows "covered (upd_header s f sa) ac' K"
proof -
  have o: "ours ac' = ours ac" "getAllocsPerSlab ac' = getAllocsPerSlab ac"
    using ac'(1,2,3) by (auto simp: ours_def getAllocsPerSlab_def fun_eq_iff split: option.splits)
  show ?thesis
  proof (rule coveredI)
    show "t \<in> set (ac_freeSlabs ac') \<or> t \<in> set (allocatedSlabs ac') \<or> slabReleaseAllocMap ac' t \<noteq> None" if "ours ac' (upd_header s f sa) t" for t
      using that coveredD(1) [OF cov, of t] f ac'(6,7,8) unfolding o ours_header [OF wf] by (auto split: if_splits)
    show "st ! i \<or> chunk ac' t i \<in> K" if "slabReleaseAllocMap ac' t = Some st" "i < getAllocsPerSlab ac'" for t st i
      using that coveredD(3) [OF cov, of t st i] ac'(3,7) unfolding o by (auto split: if_splits)
  qed (use coveredD(2) [OF cov] ac' o in auto)
qed

lemma choose_covered:
  assumes inv: "ac_inv sa ac L live" and r: "allocatedSlabs ac \<noteq> [] \<longrightarrow> r < length (allocatedSlabs ac)"
    and eq: "startRelease_choose mode hint r (sa, ac) = (res, sa', ac')" and cov: "covered sa ac K"
  shows "covered sa' ac' K \<and> (\<forall>e. res = Inl e \<longrightarrow> ac' = ac) \<and> (\<forall>c. res = Inr (Released c) \<longrightarrow> slabReleaseAllocMap ac' = slabReleaseAllocMap ac) \<and>
    (\<forall>s. res = Inr (Prune s) \<longrightarrow> dom (slabReleaseAllocMap ac') = insert s (dom (slabReleaseAllocMap ac)))"
proof -
  note D = ac_invD [OF inv]
  have none: "slabReleaseAllocMap ac s = None" if "\<not> marked sa s" for s using D(14) that by (cases "slabReleaseAllocMap ac s") auto
  have pr: "covered sa' ac' K" if s: "s \<in> set (allocatedSlabs ac)" and sa': "sa' = upd_header s (setMarkedForRelease True) sa"
    and ac': "ac_classId ac' = ac_classId ac" "ac_poolId ac' = ac_poolId ac" "allocationSize ac' = allocationSize ac" "ac_freeSlabs ac' = ac_freeSlabs ac"
      "set (allocatedSlabs ac') = set (allocatedSlabs ac) - {s}" "slabReleaseAllocMap ac' = (slabReleaseAllocMap ac)(s \<mapsto> st)"
      "currSlab ac' = currSlab ac \<and> currOffset ac' = currOffset ac \<or> currSlab ac = Some s"
      "\<And>i. i < getAllocsPerSlab ac \<Longrightarrow> currSlab ac = Some s \<Longrightarrow> currOffset ac \<le> i * allocationSize ac \<Longrightarrow> st ! i" for s st
  proof -
    have o: "ours ac' = ours ac" "getAllocsPerSlab ac' = getAllocsPerSlab ac"
      using ac'(1,2,3) by (auto simp: ours_def getAllocsPerSlab_def fun_eq_iff split: option.splits)
    have os: "ours ac sa s" using D(11) s by simp
    show ?thesis
    proof (rule coveredI)
      show "t \<in> set (ac_freeSlabs ac') \<or> t \<in> set (allocatedSlabs ac') \<or> slabReleaseAllocMap ac' t \<noteq> None" if "ours ac' sa' t" for t
        using that coveredD(1) [OF cov, of t] ac'(4,5,6) unfolding o sa' ours_header [OF D(1) ours_valid [OF os]] by (auto split: if_splits)
      show "chunk ac' t i \<in> K \<or> currSlab ac' = Some t \<and> currOffset ac' \<le> i * allocationSize ac'"
        if "t \<in> set (allocatedSlabs ac')" "i < getAllocsPerSlab ac'" for t i
      proof -
        have t: "t \<in> set (allocatedSlabs ac)" "t \<noteq> s" using that(1) ac'(5) by auto
        have "chunk ac t i \<in> K \<or> currSlab ac = Some t \<and> currOffset ac \<le> i * allocationSize ac" using coveredD(2) [OF cov t(1)] that(2) o by simp
        then show ?thesis using ac'(7) t(2) unfolding ac'(3) by (metis option.inject)
      qed
      show "st' ! i \<or> chunk ac' t i \<in> K" if "slabReleaseAllocMap ac' t = Some st'" "i < getAllocsPerSlab ac'" for t st' i
        using that coveredD(3) [OF cov, of t st' i] coveredD(2) [OF cov s, of i] ac'(8) ac'(3,6) unfolding o by (auto split: if_splits)
    qed
  qed
  from inv r eq show ?thesis
  proof (cases rule: choose_cases)
    case (free s h)
    have s: "isValidSlab sa s" "\<not> marked sa s" "s \<notin> set (allocatedSlabs ac)" 
      using D(10) ours_valid [OF D(11) [of s]] D(12) [of s] free(1) by auto
    have "covered sa' ac' K" unfolding free(5)
      by (rule leave_covered [OF cov D(1) s(1) _ s(3)])
        (use D(2,10) none [OF s(2)] swap_remove_ok(2) [OF free(1)] free(6) in \<open>auto simp: kInvalidClassId_def\<close>)
    then show ?thesis using free(4,6) by auto
  next
    case (stray s)
    then show ?thesis using coveredD(1) [OF cov stray(1)] none [OF stray(2)] by simp
  next
    case (prune s)
    have "covered sa' ac' K" by (rule pr [OF prune(1,4)]) (use prune D(10) swap_remove_ok(2) [OF prune(1)] in auto)
    then show ?thesis using prune(3,6) by auto
  next
    case (current s)
    have "currOffset ac div allocationSize ac \<le> i" if "currOffset ac \<le> i * allocationSize ac" for i
      using that D(3) by (metis div_le_mono nonzero_mult_div_cancel_right less_not_refl)
    then have "covered sa' ac' K" by (intro pr [OF current(1,4)]) (use current D(10) swap_remove_ok(2) [OF current(1)] in auto)
    then show ?thesis using current(3,6) by auto
  qed (use cov in auto)
qed

lemma putback_covered:
  assumes inv: "ac_inv sa ac (lists3 l) live" and srt: "sorted3 s l" and m: "slabReleaseAllocMap ac s = Some st"
    and eq: "prune_putback s (fst (snd l)) (snd (snd l)) ac = Some ac'" and cov: "covered sa ac (live \<union> set (freedAllocations ac @ lists3 l))"
  shows "covered sa ac' (live \<union> set (freedAllocations ac' @ fst l))"
proof -
  note D = ac_invD [OF inv]
  note P = prune_putback_inv(2,3) [OF inv srt m eq]
  have ac': "ac_classId ac' = ac_classId ac" "ac_poolId ac' = ac_poolId ac" "allocationSize ac' = allocationSize ac"
      "currSlab ac' = currSlab ac" "currOffset ac' = currOffset ac" "ac_freeSlabs ac' = ac_freeSlabs ac" "allocatedSlabs ac' = allocatedSlabs ac"
    using eq by (auto simp: prune_putback_def m Let_def split: if_splits)
  have o: "ours ac' = ours ac" "getAllocsPerSlab ac' = getAllocsPerSlab ac"
    using ac'(1,2,3) by (auto simp: ours_def getAllocsPerSlab_def fun_eq_iff split: option.splits)
  let ?in = "fst (snd l)" and ?K = "live \<union> set (freedAllocations ac' @ fst l)"
  have K: "chunk ac t i \<in> ?K \<or> t = s \<and> getAllocIdx ac s (chunk ac s i) = i \<and> chunk ac s i \<in> set ?in"
    if "chunk ac t i \<in> live \<union> set (freedAllocations ac @ lists3 l)" "isValidSlab sa t" "i < getAllocsPerSlab ac" for t i
  proof (cases "chunk ac t i \<in> set ?in")
    case True
    then have "t = s" using srt chunk_slab [OF D(1) that(2,3) D(3)] by (auto simp: sorted3_def)
    then show ?thesis using True getAllocIdx_chunk [OF D(3)] by simp
  qed (use that(1) P(1) in auto)
  show ?thesis
  proof (rule coveredI)
    show "chunk ac' t i \<in> ?K \<or> currSlab ac' = Some t \<and> currOffset ac' \<le> i * allocationSize ac'"
      if "t \<in> set (allocatedSlabs ac')" "i < getAllocsPerSlab ac'" for t i
      using that coveredD(2) [OF cov, of t i] K [of t i] in_release(3) [OF inv m] ours_valid [OF D(11) [of t]] unfolding o ac' by auto
    show "st' ! i \<or> chunk ac' t i \<in> ?K" if "slabReleaseAllocMap ac' t = Some st'" "i < getAllocsPerSlab ac'" for t st' i
    proof (cases "t = s")
      case True
      then have "st' = fold (\<lambda>alloc st. st[getAllocIdx ac s alloc := True]) ?in st" using that(1) P(2) by simp
      then show ?thesis using fold_mark(2) [of i st "getAllocIdx ac s" ?in] coveredD(3) [OF cov m, of i] K [of s i] in_release(1) [OF inv m]
          D(15) [OF m] that(2) True unfolding o ac' by (metis image_eqI)
    next
      case False
      then have mt: "slabReleaseAllocMap ac t = Some st'" using that(1) P(2) by simp
      then show ?thesis using coveredD(3) [OF cov mt, of i] K [of t i] in_release(1) [OF inv mt] False that(2) unfolding o ac' by blast
    qed
  qed (use coveredD(1) [OF cov] o ac' P(2) in auto)
qed

lemma cancel_covered:
  assumes inv: "ac_inv sa ac L live" and m: "slabReleaseAllocMap ac (ctx_slab ctx) = Some st" and nr: "\<not> isReleased ctx"
    and eq: "ac_abortSlabRelease ctx (sa, ac) = (r, sa', ac')" and cov: "covered sa ac (live \<union> set (freedAllocations ac @ L))"
  shows "covered sa' ac' (live \<union> set (freedAllocations ac' @ L))"
proof -
  note D = ac_invD [OF inv]
  define s where "s = ctx_slab ctx"
  note m = m [folded s_def]
  have sa': "sa' = upd_header s (\<lambda>h. setMarkedForRelease False (h\<lparr>sh_classId := ac_classId ac, sh_allocSize := allocationSize ac\<rparr>)) sa"
    and ac': "ac_classId ac' = ac_classId ac" "ac_poolId ac' = ac_poolId ac" "allocationSize ac' = allocationSize ac"
      "currSlab ac' = currSlab ac" "currOffset ac' = currOffset ac" "ac_freeSlabs ac' = ac_freeSlabs ac" "allocatedSlabs ac' = allocatedSlabs ac @ [s]"
      "slabReleaseAllocMap ac' = (slabReleaseAllocMap ac)(s := None)"
    and F: "set (freedAllocations ac') = set (freedAllocations ac) \<union> {chunk ac s i | i. i < getAllocsPerSlab ac \<and> st ! i}"
    using eq nr m D(15) [OF m] by (auto simp: ac_abortSlabRelease_def Let_def s_def)
  have o: "ours ac' = ours ac" "getAllocsPerSlab ac' = getAllocsPerSlab ac"
    using ac'(1,2,3) by (auto simp: ours_def getAllocsPerSlab_def fun_eq_iff split: option.splits)
  show ?thesis
  proof (rule coveredI)
    show "t \<in> set (ac_freeSlabs ac') \<or> t \<in> set (allocatedSlabs ac') \<or> slabReleaseAllocMap ac' t \<noteq> None" if "ours ac' sa' t" for t
      using that coveredD(1) [OF cov, of t] ac'(6,7,8) unfolding o sa' ours_header [OF D(1) in_release(1) [OF inv m]] by (auto split: if_splits)
    show "chunk ac' t i \<in> live \<union> set (freedAllocations ac' @ L) \<or> currSlab ac' = Some t \<and> currOffset ac' \<le> i * allocationSize ac'"
      if "t \<in> set (allocatedSlabs ac')" "i < getAllocsPerSlab ac'" for t i
      using that coveredD(2) [OF cov, of t i] coveredD(3) [OF cov m, of i] F unfolding o ac' by auto
    show "st' ! i \<or> chunk ac' t i \<in> live \<union> set (freedAllocations ac' @ L)" if "slabReleaseAllocMap ac' t = Some st'" "i < getAllocsPerSlab ac'" for t st' i
      using that coveredD(3) [OF cov, of t st' i] F unfolding o ac' by (auto split: if_splits)
  qed
qed

lemma sys_coveredD:
  assumes "sys_covered \<sigma>"
  shows "covered (sys_sa \<sigma>) (sys_ac \<sigma>) (known \<sigma>)" "sys_phase \<sigma> \<noteq> Aborting s"
    "dom (slabReleaseAllocMap (sys_ac \<sigma>)) = set (phase_slab (sys_phase \<sigma>) @ map ctx_slab (sys_ctxs \<sigma>))"
  using assms by (simp_all add: sys_covered_def)

text \<open>Client steps.\<close>

lemma client_covered:
  assumes c: "sys_covered \<sigma>" and "sys_phase \<sigma>' = sys_phase \<sigma>" "sys_ctxs \<sigma>' = sys_ctxs \<sigma>"
    "dom (slabReleaseAllocMap (sys_ac \<sigma>')) = dom (slabReleaseAllocMap (sys_ac \<sigma>))"
    "covered (sys_sa \<sigma>') (sys_ac \<sigma>') (sys_live \<sigma>' \<union> set (freedAllocations (sys_ac \<sigma>') @ phase_list (sys_phase \<sigma>)))"
  shows "sys_covered \<sigma>'"
  using assms by (simp add: sys_covered_def)

lemma allocateLocked_map: "allocateLocked ac = (r, ac') \<Longrightarrow> slabReleaseAllocMap ac' = slabReleaseAllocMap ac"
  by (auto simp: allocateLocked_def allocateFromCurrentSlabLocked_def setupCurrentSlabLocked_def Let_def split: if_splits list.splits)

lemma ac_free_dom:
  assumes "ac_inv sa ac L live" "a \<in> live" "ac_free a (sa, ac) = (r, sa', ac')"
  shows "dom (slabReleaseAllocMap ac') = dom (slabReleaseAllocMap ac)"
  using assms(1,2) by (cases rule: ac_free_cases) (use assms(3) in auto)

lemma addSlab_covered:
  assumes inv: "ac_inv sa ac L live" and v: "getSlabHeader sa s = Some h" and cov: "covered sa ac K" and eq: "addSlab s (sa, ac) = (sa', ac')"
  shows "covered sa' ac' K"
proof -
  have v: "isValidSlab sa s" using v by (auto simp: getSlabHeader_def split: if_splits)
  have sa': "sa' = upd_header s (\<lambda>h. h\<lparr>sh_classId := ac_classId ac, sh_allocSize := allocationSize ac\<rparr>) sa"
    and ac': "ac' = ac\<lparr>ac_canAllocate := True, ac_freeSlabs := ac_freeSlabs ac @ [s]\<rparr>" using eq by (auto simp: addSlab_def addSlabLocked_def)
  show ?thesis
  proof (rule coveredI)
    show "t \<in> set (ac_freeSlabs ac') \<or> t \<in> set (allocatedSlabs ac') \<or> slabReleaseAllocMap ac' t \<noteq> None" if "ours ac' sa' t" for t
      using that coveredD(1) [OF cov, of t] unfolding sa' ac' ours_upd ours_header [OF ac_invD(1) [OF inv] v] by (auto split: if_splits)
  qed (use coveredD(2,3) [OF cov] in \<open>auto simp: ac'\<close>)
qed

lemma others_covered:
  assumes "covered sa ac K" "\<forall>s. ours ac sa' s \<longrightarrow> ours ac sa s"
  shows "covered sa' ac K"
  using assms unfolding covered_def by blast

text \<open>Steps of a release.\<close>

lemma prune_covered:
  assumes inv: "sys_inv \<sigma>" and cov: "sys_covered \<sigma>" and ph: "sys_phase \<sigma> = Idle"
    and r: "allocatedSlabs (sys_ac \<sigma>) \<noteq> [] \<longrightarrow> r < length (allocatedSlabs (sys_ac \<sigma>))"
    and eq: "startRelease_choose mode hint r (sys_sa \<sigma>, sys_ac \<sigma>) = (Inr (Prune s), sa, ac)"
  shows "sys_covered (\<sigma>\<lparr>sys_sa := sa, sys_ac := ac, sys_phase := Marked mode s\<rparr>)"
proof -
  note C = choose_covered [OF sys_invD(1) [OF inv] r eq sys_coveredD(1) [OF cov]]
  have F: "freedAllocations ac = freedAllocations (sys_ac \<sigma>)"
    using sys_invD(1) [OF inv] r eq by (cases rule: choose_cases) auto
  show ?thesis using C F sys_coveredD(3) [OF cov] by (simp add: sys_covered_def ph)
qed

lemma begin_covered:
  assumes inv: "sys_inv \<sigma>" and cov: "sys_covered \<sigma>" and ph: "sys_phase \<sigma> = Marked mode s"
    and eq: "prune_begin s (sys_sa \<sigma>, sys_ac \<sigma>) = (l, sa, ac)"
  shows "sys_covered (\<sigma>\<lparr>sys_sa := sa, sys_ac := ac, sys_phase := Scanning mode s l\<rparr>)"
proof -
  have e: "sa = sys_sa \<sigma>" "ac = sys_ac \<sigma>\<lparr>freedAllocations := []\<rparr>"
    "l = partitionLoop (sys_sa \<sigma>) s kFreeAllocsPruneLimit (freedAllocations (sys_ac \<sigma>), [], [])"
    using eq by (auto simp: prune_begin_def partitionFreeAllocs_def)
  have "mset (lists3 l) = mset (freedAllocations (sys_ac \<sigma>))" unfolding e(3) partitionLoop_mset by simp
  then have "set (lists3 l) = set (freedAllocations (sys_ac \<sigma>))" by (metis set_mset_mset)
  then show ?thesis using sys_coveredD [OF cov] by (simp add: sys_covered_def ph e(1,2))
qed

lemma round_covered:
  assumes inv: "sys_inv \<sigma>" and cov: "sys_covered \<sigma>" and ph: "sys_phase \<sigma> = Scanning mode s l"
    and eq: "prune_putback s (fst (snd l)) (snd (snd l)) (sys_ac \<sigma>) = Some ac"
  shows "sys_covered (\<sigma>\<lparr>sys_ac := ac, sys_phase := (if fst l = [] then Counting mode s
       else Scanning mode s (partitionFreeAllocs (sys_sa \<sigma>) s (fst l, [], [])))\<rparr>)"
proof -
  note I = sys_invD [OF inv, unfolded ph phase_list.simps]
  obtain st where st: "slabReleaseAllocMap (sys_ac \<sigma>) s = Some st" and srt: "sorted3 s l" using I(2) by auto
  have c: "covered (sys_sa \<sigma>) ac (sys_live \<sigma> \<union> set (freedAllocations ac @ fst l))"
    by (rule putback_covered [OF I(1) srt st eq]) (use sys_coveredD(1) [OF cov] in \<open>simp add: ph\<close>)
  let ?l = "partitionLoop (sys_sa \<sigma>) s kFreeAllocsPruneLimit (fst l, [], [])"
  have "mset (lists3 ?l) = mset (fst l)" unfolding partitionLoop_mset by simp
  then have "set (lists3 ?l) = set (fst l)" by (metis set_mset_mset)
  moreover have "dom (slabReleaseAllocMap ac) = dom (slabReleaseAllocMap (sys_ac \<sigma>))"
    using prune_putback_inv(3) [OF I(1) srt st eq] st by auto
  ultimately show ?thesis using c sys_coveredD(3) [OF cov] by (auto simp: sys_covered_def ph partitionFreeAllocs_def Un_assoc)
qed

lemma finish_covered:
  assumes inv: "sys_inv \<sigma>" and cov: "sys_covered \<sigma>" and ph: "sys_phase \<sigma> = Deciding mode s as"
    and eq: "startRelease_finish mode s as (sys_sa \<sigma>, sys_ac \<sigma>) = (ctx, sa, ac)"
  shows "sys_covered (\<sigma>\<lparr>sys_sa := sa, sys_ac := ac, sys_phase := Idle, sys_ctxs := (if as = [] then [] else [ctx]) @ sys_ctxs \<sigma>\<rparr>)"
proof -
  note I = sys_invD [OF inv, unfolded ph phase_list.simps]
  note C = sys_coveredD [OF cov, unfolded ph]
  obtain st where st: "slabReleaseAllocMap (sys_ac \<sigma>) s = Some st" using I(2) by auto
  show ?thesis
  proof (cases "as = []")
    case True
    have e: "sa = upd_header s (\<lambda>h. setMarkedForRelease False (h\<lparr>sh_classId := kInvalidClassId, sh_allocSize := 0\<rparr>)) (sys_sa \<sigma>)"
      "ac = sys_ac \<sigma>\<lparr>slabReleaseAllocMap := (slabReleaseAllocMap (sys_ac \<sigma>))(s := None)\<rparr>"
      using eq True by (auto simp: startRelease_finish_def Let_def)
    have "covered sa ac (known \<sigma>)" unfolding e
      by (rule leave_covered [OF _ ac_invD(1) [OF I(1)] in_release(1) [OF I(1) st] _ in_release(3) [OF I(1) st]])
        (use sys_coveredD(1) [OF cov] ac_invD(2) [OF I(1)] in \<open>auto simp: kInvalidClassId_def\<close>)
    then show ?thesis using C(3) I(3) by (auto simp: sys_covered_def e(2) True ctxs_ok_def ph)
  next
    case False
    then have "sa = sys_sa \<sigma>" "ac = sys_ac \<sigma>\<lparr>activeReleases := activeReleases (sys_ac \<sigma>) + 1\<rparr>" "ctx_slab ctx = s"
      using eq by (auto simp: startRelease_finish_def Let_def mkContext_def)
    then show ?thesis using C(3) sys_coveredD(1) [OF cov] False by (simp add: sys_covered_def ph)
  qed
qed

lemma dom_remove1:
  assumes inv: "sys_inv \<sigma>" and cov: "sys_covered \<sigma>" and c: "ctx \<in> set (sys_ctxs \<sigma>)"
  shows "dom (slabReleaseAllocMap (sys_ac \<sigma>)) - {ctx_slab ctx} = set (phase_slab (sys_phase \<sigma>) @ map ctx_slab (remove1 ctx (sys_ctxs \<sigma>)))"
proof -
  note R = ctxs_remove1 [OF sys_invD(3) [OF inv] c]
  have "ctx_slab ` set (sys_ctxs \<sigma>) - {ctx_slab ctx} = ctx_slab ` set (remove1 ctx (sys_ctxs \<sigma>))"
  proof
    show "ctx_slab ` set (sys_ctxs \<sigma>) - {ctx_slab ctx} \<subseteq> ctx_slab ` set (remove1 ctx (sys_ctxs \<sigma>))"
    proof
      fix t assume "t \<in> ctx_slab ` set (sys_ctxs \<sigma>) - {ctx_slab ctx}"
      then obtain x where x: "x \<in> set (sys_ctxs \<sigma>)" "t = ctx_slab x" "x \<noteq> ctx" by auto
      then show "t \<in> ctx_slab ` set (remove1 ctx (sys_ctxs \<sigma>))" by (simp add: in_set_remove1 rev_image_eqI)
    qed
    show "ctx_slab ` set (remove1 ctx (sys_ctxs \<sigma>)) \<subseteq> ctx_slab ` set (sys_ctxs \<sigma>) - {ctx_slab ctx}"
      using R(3) by (metis (no_types, lifting) DiffI image_eqI image_subsetI singletonD)
  qed
  then show ?thesis using sys_coveredD(3) [OF cov] R(1) by auto
qed

lemma complete_covered:
  assumes inv: "sys_inv \<sigma>" and cov: "sys_covered \<sigma>" and c: "ctx \<in> set (sys_ctxs \<sigma>)"
    and eq: "ac_completeSlabRelease ctx (sys_sa \<sigma>, sys_ac \<sigma>) = Some (Inr (), sa, ac)"
  shows "sys_covered (\<sigma>\<lparr>sys_sa := sa, sys_ac := ac, sys_ctxs := remove1 ctx (sys_ctxs \<sigma>)\<rparr>)"
proof -
  note I = sys_invD [OF inv]
  note R = ctxs_remove1 [OF I(3) c]
  obtain st where st: "slabReleaseAllocMap (sys_ac \<sigma>) (ctx_slab ctx) = Some st" using R(2) by blast
  have d: "completeRelease_done (ctx_slab ctx) (sys_sa \<sigma>, sys_ac \<sigma>) = (sa, ac)"
    using eq R(5) st by (auto simp: ac_completeSlabRelease_def allFreed_def split: if_splits sum.splits bool.splits)
  have e: "sa = upd_header (ctx_slab ctx) (\<lambda>h. setMarkedForRelease False (h\<lparr>sh_classId := kInvalidClassId, sh_allocSize := 0\<rparr>)) (sys_sa \<sigma>)"
      "ac = sys_ac \<sigma>\<lparr>slabReleaseAllocMap := (slabReleaseAllocMap (sys_ac \<sigma>))(ctx_slab ctx := None), activeReleases := activeReleases (sys_ac \<sigma>) - 1\<rparr>"
    using d by (auto simp: completeRelease_done_def)
  have "covered sa ac (known \<sigma>)" unfolding e
    by (rule leave_covered [OF sys_coveredD(1) [OF cov] ac_invD(1) [OF I(1)] in_release(1) [OF I(1) st] _ in_release(3) [OF I(1) st]])
      (use ac_invD(2) [OF I(1)] in \<open>auto simp: kInvalidClassId_def\<close>)
  moreover have "dom (slabReleaseAllocMap ac) = dom (slabReleaseAllocMap (sys_ac \<sigma>)) - {ctx_slab ctx}" by (auto simp: e(2))
  ultimately show ?thesis using dom_remove1 [OF inv cov c] sys_coveredD(2) [OF cov] by (simp add: sys_covered_def e(2))
qed

lemma cancelled_covered:
  assumes inv: "sys_inv \<sigma>" and cov: "sys_covered \<sigma>" and c: "ctx \<in> set (sys_ctxs \<sigma>)"
    and eq: "ac_abortSlabRelease ctx (sys_sa \<sigma>, sys_ac \<sigma>) = (Inr (), sa, ac)"
  shows "sys_covered (\<sigma>\<lparr>sys_sa := sa, sys_ac := ac, sys_ctxs := remove1 ctx (sys_ctxs \<sigma>)\<rparr>)"
proof -
  note I = sys_invD [OF inv]
  note R = ctxs_remove1 [OF I(3) c]
  obtain st where st: "slabReleaseAllocMap (sys_ac \<sigma>) (ctx_slab ctx) = Some st" using R(2) by blast
  have "slabReleaseAllocMap ac = (slabReleaseAllocMap (sys_ac \<sigma>))(ctx_slab ctx := None)"
    using eq R(5) by (auto simp: ac_abortSlabRelease_def Let_def)
  then have "dom (slabReleaseAllocMap ac) = dom (slabReleaseAllocMap (sys_ac \<sigma>)) - {ctx_slab ctx}" by auto
  then show ?thesis using dom_remove1 [OF inv cov c] sys_coveredD(2) [OF cov] cancel_covered [OF I(1) st R(5) eq sys_coveredD(1) [OF cov]]
    by (simp add: sys_covered_def)
qed

lemma choose_freed:
  assumes "ac_inv sa ac L live" "allocatedSlabs ac \<noteq> [] \<longrightarrow> r < length (allocatedSlabs ac)"
    "startRelease_choose mode hint r (sa, ac) = (res, sa', ac')"
  shows "freedAllocations ac' = freedAllocations ac"
  using assms by (cases rule: choose_cases) auto

lemma ac_step_covered: "ac_step ab \<sigma> \<sigma>' \<Longrightarrow> \<not> ab \<Longrightarrow> sys_inv \<sigma> \<Longrightarrow> sys_covered \<sigma> \<Longrightarrow> sys_covered \<sigma>'"
proof (induction rule: ac_step.induct)
  case (step_allocate \<sigma> r ac)
  show ?case by (rule client_covered [OF step_allocate(4)])
      (use allocateLocked_map [OF step_allocate(1)]
        allocateLocked_covered [OF sys_invD(1) [OF step_allocate(3)] sys_coveredD(1) [OF step_allocate(4)] step_allocate(1)] in auto)
next
  case (step_free a \<sigma> r sa ac)
  note I = sys_invD(1) [OF step_free(4)]
  show ?case by (rule client_covered [OF step_free(5)])
      (use ac_free_dom [OF I step_free(1,2)] ac_free_covered [OF I step_free(1) sys_coveredD(1) [OF step_free(5)] step_free(2)] in auto)
next
  case (step_addSlab \<sigma> s h sa ac)
  show ?case by (rule client_covered [OF step_addSlab(8)])
      (use addSlab_covered [OF sys_invD(1) [OF step_addSlab(7)] step_addSlab(1) sys_coveredD(1) [OF step_addSlab(8)] step_addSlab(5)] step_addSlab(5)
        in \<open>auto simp: addSlab_def addSlabLocked_def\<close>)
next
  case (step_others sa \<sigma>)
  show ?case by (rule client_covered [OF step_others(6)]) (use others_covered [OF sys_coveredD(1) [OF step_others(6)] step_others(3)] in auto)
next
  case (step_refused \<sigma> r mode hint e sa ac)
  note I = sys_invD(1) [OF step_refused(5)]
  show ?case by (rule client_covered [OF step_refused(6)])
      (use choose_covered [OF I step_refused(2,3) sys_coveredD(1) [OF step_refused(6)]] in auto)
next
  case (step_released \<sigma> r mode hint ctx sa ac)
  note I = sys_invD(1) [OF step_released(5)]
  show ?case by (rule client_covered [OF step_released(6)])
      (use choose_covered [OF I step_released(2,3) sys_coveredD(1) [OF step_released(6)]] choose_freed [OF I step_released(2,3)] in auto)
next
  case (step_aborted \<sigma> s sa ac)
  then show ?case using sys_coveredD(2) by blast
next
  case (step_count \<sigma> mode s as)
  then show ?case using sys_coveredD [OF step_count(5)] by (simp add: sys_covered_def)
qed (blast intro: prune_covered begin_covered round_covered finish_covered complete_covered cancelled_covered)+

lemma reachable_covered: "ac_reachable False cid pid n \<sigma> \<Longrightarrow> sys_covered \<sigma>"
proof (induction rule: ac_reachable.induct)
  case (start sa ac)
  have "slabReleaseAllocMap ac = Map.empty" "allocatedSlabs ac = []"
    using start(2) by (auto simp: AllocationClass_init_def Let_def split: option.splits)
  then show ?case using start(3) by (simp add: sys_covered_def covered_def)
next
  case (step \<sigma> \<sigma>')
  then show ?case using ac_step_covered reachable_inv by blast
qed

definition ac_ids :: "AllocationClass \<Rightarrow> int \<times> int \<times> nat" where
  "ac_ids ac = (ac_classId ac, ac_poolId ac, allocationSize ac)"

lemma choose_ids: "startRelease_choose mode hint r (sa, ac) = (res, sa', ac') \<Longrightarrow> ac_ids ac' = ac_ids ac"
  by (auto simp: startRelease_choose_def createSlabReleaseAllocMapLocked_def ac_ids_def Let_def split: option.splits if_splits)

lemma client_ids:
  "allocateLocked ac = (r, ac') \<Longrightarrow> ac_ids ac' = ac_ids ac" "ac_free a (sa, ac) = (u, sa', ac') \<Longrightarrow> ac_ids ac' = ac_ids ac"
  "addSlab s (sa, ac) = (sa', ac') \<Longrightarrow> ac_ids ac' = ac_ids ac"
  by (auto simp: allocateLocked_def allocateFromCurrentSlabLocked_def setupCurrentSlabLocked_def ac_free_def addSlab_def addSlabLocked_def
      ac_ids_def Let_def split: option.splits if_splits list.splits)

lemma release_ids:
  "prune_begin s (sa, ac) = (l, sa', ac') \<Longrightarrow> ac_ids ac' = ac_ids ac" "prune_putback s i j ac = Some ac' \<Longrightarrow> ac_ids ac' = ac_ids ac"
  "ac_ids (prune_abort l ac) = ac_ids ac" "startRelease_abort s (sa, ac) = (sa', ac') \<Longrightarrow> ac_ids ac' = ac_ids ac"
  "startRelease_finish mode s as (sa, ac) = (c, sa', ac') \<Longrightarrow> ac_ids ac' = ac_ids ac"
  "ac_completeSlabRelease ctx (sa, ac) = Some (u, sa', ac') \<Longrightarrow> ac_ids ac' = ac_ids ac"
  "ac_abortSlabRelease ctx (sa, ac) = (u, sa', ac') \<Longrightarrow> ac_ids ac' = ac_ids ac"
  by (auto simp: prune_begin_def prune_putback_def prune_abort_def startRelease_abort_def startRelease_finish_def ac_completeSlabRelease_def
      completeRelease_done_def ac_abortSlabRelease_def ac_ids_def Let_def split: option.splits if_splits sum.splits bool.splits prod.splits)

lemma ac_step_ids: "ac_step ab \<sigma> \<sigma>' \<Longrightarrow> ac_ids (sys_ac \<sigma>') = ac_ids (sys_ac \<sigma>)"
  by (induction rule: ac_step.induct) (simp_all add: choose_ids client_ids release_ids)

lemma reachable_ids: "ac_reachable ab cid pid n \<sigma> \<Longrightarrow> ac_ids (sys_ac \<sigma>) = (cid, pid, n)"
proof (induction rule: ac_reachable.induct)
  case (start sa ac)
  then show ?case by (auto simp: AllocationClass_init_def ac_ids_def Let_def split: option.splits)
qed (simp add: ac_step_ids)

lemma live_chunk:
  assumes "ac_reachable ab cid pid n \<sigma>" "a \<in> sys_live \<sigma>"
  obtains i where "a = chunk (sys_ac \<sigma>) (getSlabForMemory a) i" "i < getAllocsPerSlab (sys_ac \<sigma>)" "ours (sys_ac \<sigma>) (sys_sa \<sigma>) (getSlabForMemory a)"
proof -
  note I = sys_invD(1) [OF reachable_inv [OF assms(1)]]
  have "carved (sys_ac \<sigma>) (sys_sa \<sigma>) a" using ac_invD(7) [OF I] assms(2) by blast
  then show ?thesis using carvedE [OF _ ac_invD(1,3) [OF I]] that by blast
qed

lemma live_disjoint:
  assumes r: "ac_reachable ab cid pid n \<sigma>" and ab: "a \<in> sys_live \<sigma>" "b \<in> sys_live \<sigma>" "a \<noteq> b"
  shows "{a..<a + n} \<inter> {b..<b + n} = {}"
proof -
  note I = sys_invD(1) [OF reachable_inv [OF r]]
  have n: "allocationSize (sys_ac \<sigma>) = n" using reachable_ids [OF r] by (simp add: ac_ids_def)
  obtain i where i: "a = chunk (sys_ac \<sigma>) (getSlabForMemory a) i" "i < getAllocsPerSlab (sys_ac \<sigma>)" "ours (sys_ac \<sigma>) (sys_sa \<sigma>) (getSlabForMemory a)"
    by (rule live_chunk [OF r ab(1)])
  obtain j where j: "b = chunk (sys_ac \<sigma>) (getSlabForMemory b) j" "j < getAllocsPerSlab (sys_ac \<sigma>)" "ours (sys_ac \<sigma>) (sys_sa \<sigma>) (getSlabForMemory b)"
    by (rule live_chunk [OF r ab(2)])
  show ?thesis
    using chunk_disjoint [OF ac_invD(1) [OF I] ours_valid [OF i(3)] ours_valid [OF j(3)] i(2) j(2)] i(1) j(1) ab(3) n by metis
qed


section \<open>Releases complete\<close>

lemma carve_away:
  assumes inv: "ac_inv sa ac L live" and c: "canAllocateFromCurrentSlabLocked ac" and t: "slabReleaseAllocMap ac t \<noteq> None"
    and eq: "allocateFromCurrentSlabLocked ac = (Some a, ac')"
  shows "getSlabForMemory a \<noteq> t"
proof -
  from c obtain s where s: "currSlab ac = Some s" and room: "currOffset ac + allocationSize ac \<le> kSize"
    by (auto simp: canAllocateFromCurrentSlabLocked_def)
  obtain k where k: "k < getAllocsPerSlab ac" "currOffset ac = k * allocationSize ac" by (rule currOffset_room [OF inv s room])
  have "s \<noteq> t" using in_release(4) [OF inv, of t] s t by auto
  moreover have "a = chunk ac s k" using eq by (auto simp: allocateFromCurrentSlabLocked_def s k(2))
  moreover have "isValidSlab sa s" using ours_valid [OF ac_invD(11) [OF inv, of s]] ac_invD(8) [OF inv s] by simp
  ultimately show ?thesis using chunk_slab [OF ac_invD(1) [OF inv] _ k(1) ac_invD(3) [OF inv]] by simp
qed

text \<open>No chunk of a slab in release is handed out once its free chunks are off the list.\<close>

lemma allocate_away:
  assumes inv: "ac_inv sa ac L live" and t: "slabReleaseAllocMap ac t \<noteq> None" "\<And>b. b \<in> set (freedAllocations ac) \<Longrightarrow> getSlabForMemory b \<noteq> t"
    and eq: "allocateLocked ac = (Some a, ac')"
  shows "getSlabForMemory a \<noteq> t"
proof (cases "freedAllocations ac")
  case (Cons b bs)
  then show ?thesis using eq t(2) by (auto simp: allocateLocked_def)
next
  case Nil
  show ?thesis
  proof (cases "canAllocateFromCurrentSlabLocked ac")
    case True
    then show ?thesis using carve_away [OF inv True t(1)] eq Nil by (simp add: allocateLocked_def)
  next
    case False
    then have ne: "ac_freeSlabs ac \<noteq> []" using eq Nil by (auto simp: allocateLocked_def)
    have "slabReleaseAllocMap (setupCurrentSlabLocked ac) t \<noteq> None" using t(1) by (simp add: setupCurrentSlabLocked_def Let_def)
    then show ?thesis using carve_away [OF setup_inv(1,2) [OF inv ne]] eq Nil False ne by (simp add: allocateLocked_def)
  qed
qed

lemma ctx_held_mono:
  assumes "ac_step ab \<sigma> \<sigma>'" "sys_inv \<sigma>" "ctx \<in> set (sys_ctxs \<sigma>)"
  shows "{a \<in> sys_live \<sigma>'. getSlabForMemory a = ctx_slab ctx} \<subseteq> {a \<in> sys_live \<sigma>. getSlabForMemory a = ctx_slab ctx}"
  using assms
proof (induction rule: ac_step.induct)
  case (step_allocate \<sigma> r ac)
  note C = ctxs_remove1 [OF sys_invD(3) [OF step_allocate(2)] step_allocate(3)]
  have "getSlabForMemory a \<noteq> ctx_slab ctx" if "r = Some a" for a
    by (rule allocate_away [OF sys_invD(1) [OF step_allocate(2)] _ _ step_allocate(1) [unfolded that]]) (use C(2,6) in auto)
  then show ?case by auto
qed auto

text \<open>The wait of \<open>completeSlabRelease\<close> ends exactly when no client holds a chunk of the slab.\<close>

lemma complete_iff:
  assumes r: "ac_reachable False cid pid n \<sigma>" and c: "ctx \<in> set (sys_ctxs \<sigma>)"
  shows "ac_completeSlabRelease ctx (sys_sa \<sigma>, sys_ac \<sigma>) =
     (if \<exists>a \<in> sys_live \<sigma>. getSlabForMemory a = ctx_slab ctx then None
      else Some (Inr (), completeRelease_done (ctx_slab ctx) (sys_sa \<sigma>, sys_ac \<sigma>)))"
proof -
  note I = sys_invD [OF reachable_inv [OF r]] and cov = reachable_covered [OF r]
  note D = ac_invD [OF I(1)] and C = ctxs_remove1 [OF I(3) c]
  obtain st where st: "slabReleaseAllocMap (sys_ac \<sigma>) (ctx_slab ctx) = Some st" using C(2) by blast
  have chk: "completeRelease_check ctx (sys_sa \<sigma>, sys_ac \<sigma>)"
    using D(13,14) [OF st] by (auto simp: completeRelease_check_def ours_def marked_def split: option.splits)
  have "list_all (\<lambda>b. b) st \<longleftrightarrow> \<not> (\<exists>a \<in> sys_live \<sigma>. getSlabForMemory a = ctx_slab ctx)"
  proof
    assume all: "list_all (\<lambda>b. b) st"
    show "\<not> (\<exists>a \<in> sys_live \<sigma>. getSlabForMemory a = ctx_slab ctx)"
    proof
      assume "\<exists>a \<in> sys_live \<sigma>. getSlabForMemory a = ctx_slab ctx"
      then obtain a where a: "a \<in> sys_live \<sigma>" "getSlabForMemory a = ctx_slab ctx" by blast
      obtain i where "i < getAllocsPerSlab (sys_ac \<sigma>)" "\<not> st ! i" by (rule in_release_chunk [OF I(1) st _ a(2)]) (use a(1) in auto)
      then show False using all D(15) [OF st] by (simp add: list_all_length)
    qed
  next
    assume none: "\<not> (\<exists>a \<in> sys_live \<sigma>. getSlabForMemory a = ctx_slab ctx)"
    have "st ! i" if i: "i < getAllocsPerSlab (sys_ac \<sigma>)" for i
    proof (rule ccontr)
      assume "\<not> st ! i"
      then have "chunk (sys_ac \<sigma>) (ctx_slab ctx) i \<in> known \<sigma>" using coveredD(3) [OF sys_coveredD(1) [OF cov] st i] by blast
      moreover have "getSlabForMemory (chunk (sys_ac \<sigma>) (ctx_slab ctx) i) = ctx_slab ctx"
        by (rule chunk_slab [OF D(1) in_release(1) [OF I(1) st] i D(3)])
      ultimately show False using none C(6) by blast
    qed
    then show "list_all (\<lambda>b. b) st" using D(15) [OF st] by (simp add: list_all_length)
  qed
  then show ?thesis using C(5) chk by (cases "list_all (\<lambda>b. b) st") (simp_all add: ac_completeSlabRelease_def allFreed_def st)
qed

primrec ac_freeAll :: "addr list \<Rightarrow> acs \<Rightarrow> acs option" where
  "ac_freeAll [] s = Some s"
| "ac_freeAll (a # as) s = (case ac_free a s of (Inl e, s) \<Rightarrow> None | (Inr _, s) \<Rightarrow> ac_freeAll as s)"

lemma ac_freeAll_reachable:
  assumes "ac_reachable ab cid pid n \<sigma>" "distinct as" "set as \<subseteq> sys_live \<sigma>"
  shows "\<exists>sa ac. ac_freeAll as (sys_sa \<sigma>, sys_ac \<sigma>) = Some (sa, ac) \<and>
    ac_reachable ab cid pid n (\<sigma>\<lparr>sys_sa := sa, sys_ac := ac, sys_live := sys_live \<sigma> - set as\<rparr>)"
  using assms
proof (induction as arbitrary: \<sigma>)
  case Nil
  then show ?case by (intro exI [of _ "sys_sa \<sigma>"] exI [of _ "sys_ac \<sigma>"]) simp
next
  case (Cons a as)
  obtain sa ac where f: "ac_free a (sys_sa \<sigma>, sys_ac \<sigma>) = (Inr (), sa, ac)"
    by (rule ac_free_cases [OF sys_invD(1) [OF reachable_inv [OF Cons.prems(1)]], of a]) (use Cons.prems(3) in auto)
  let ?\<sigma> = "\<sigma>\<lparr>sys_sa := sa, sys_ac := ac, sys_live := sys_live \<sigma> - {a}\<rparr>"
  have "ac_reachable ab cid pid n ?\<sigma>" using ac_reachable.step [OF Cons.prems(1) ac_step.step_free [OF _ f]] Cons.prems(3) by simp
  from Cons.IH [OF this] Cons.prems obtain sa' ac' where "ac_freeAll as (sa, ac) = Some (sa', ac')"
    "ac_reachable ab cid pid n (\<sigma>\<lparr>sys_sa := sa', sys_ac := ac', sys_live := sys_live \<sigma> - {a} - set as\<rparr>)" by auto
  moreover have "sys_live \<sigma> - {a} - set as = sys_live \<sigma> - set (a # as)" by auto
  ultimately show ?case using f by (intro exI [of _ sa'] exI [of _ ac']) simp
qed


section \<open>Statistics\<close>

definition uncarved :: "AllocationClass \<Rightarrow> (addr \<times> nat) set" where
  "uncarved ac = {(s, i). currSlab ac = Some s \<and> currOffset ac \<le> i * allocationSize ac \<and> i < getAllocsPerSlab ac}"

lemma uncarved_card:
  assumes inv: "ac_inv sa ac L live"
  shows "card (uncarved ac) = (if canAllocateFromCurrentSlabLocked ac then (kSize - currOffset ac) div allocationSize ac else 0)" "finite (uncarved ac)"
proof -
  note D = ac_invD [OF inv]
  have "card (uncarved ac) = (if canAllocateFromCurrentSlabLocked ac then (kSize - currOffset ac) div allocationSize ac else 0) \<and> finite (uncarved ac)"
  proof (cases "currSlab ac")
    case None
    then show ?thesis by (simp add: uncarved_def canAllocateFromCurrentSlabLocked_def)
  next
    case (Some s)
    obtain k where k: "k \<le> getAllocsPerSlab ac" "currOffset ac = k * allocationSize ac" using D(9) [OF Some] by blast
    have u: "uncarved ac = {s} \<times> {k..<getAllocsPerSlab ac}" using D(3) by (auto simp: uncarved_def Some k(2))
    have "k * allocationSize ac \<le> getAllocsPerSlab ac * allocationSize ac" by (rule mult_le_mono1 [OF k(1)])
    also have "\<dots> \<le> kSize" by (simp add: getAllocsPerSlab_def)
    finally have le: "k * allocationSize ac \<le> kSize" .
    have "kSize = k * allocationSize ac + (kSize - currOffset ac)" using le by (simp add: k(2))
    then have "getAllocsPerSlab ac = (k * allocationSize ac + (kSize - currOffset ac)) div allocationSize ac"
      by (simp add: getAllocsPerSlab_def)
    also have "\<dots> = k + (kSize - currOffset ac) div allocationSize ac" using D(3) by (intro div_mult_self3) simp
    finally have d: "getAllocsPerSlab ac - k = (kSize - currOffset ac) div allocationSize ac" by simp
    have "(kSize - currOffset ac) div allocationSize ac = 0" if "\<not> canAllocateFromCurrentSlabLocked ac"
      using that D(3) by (simp add: canAllocateFromCurrentSlabLocked_def Some div_eq_0_iff)
    then show ?thesis by (simp add: u d)
  qed
  then show "card (uncarved ac) = (if canAllocateFromCurrentSlabLocked ac then (kSize - currOffset ac) div allocationSize ac else 0)" "finite (uncarved ac)"
    by blast+
qed

lemma quiescent_chunks:
  assumes r: "ac_reachable False cid pid n \<sigma>" and q: "sys_phase \<sigma> = Idle" "sys_ctxs \<sigma> = []"
  shows "(\<lambda>(s, i). chunk (sys_ac \<sigma>) s i) ` (set (allocatedSlabs (sys_ac \<sigma>)) \<times> {..<getAllocsPerSlab (sys_ac \<sigma>)} - uncarved (sys_ac \<sigma>)) =
      sys_live \<sigma> \<union> set (freedAllocations (sys_ac \<sigma>))"
    and "inj_on (\<lambda>(s, i). chunk (sys_ac \<sigma>) s i) (set (allocatedSlabs (sys_ac \<sigma>)) \<times> {..<getAllocsPerSlab (sys_ac \<sigma>)})"
proof -
  let ?ac = "sys_ac \<sigma>"
  note I = sys_invD(1) [OF reachable_inv [OF r]] and C = sys_coveredD [OF reachable_covered [OF r]]
  note D = ac_invD [OF I]
  have M: "slabReleaseAllocMap ?ac s = None" for s using C(3) q by auto
  show "(\<lambda>(s, i). chunk ?ac s i) ` (set (allocatedSlabs ?ac) \<times> {..<getAllocsPerSlab ?ac} - uncarved ?ac) = sys_live \<sigma> \<union> set (freedAllocations ?ac)" (is "?l = ?r")
  proof
    show "?l \<subseteq> ?r" using coveredD(2) [OF C(1)] q by (auto simp: uncarved_def)
    show "?r \<subseteq> ?l"
    proof
      fix a assume a: "a \<in> ?r"
      obtain i where i: "a = chunk ?ac (getSlabForMemory a) i" "i < getAllocsPerSlab ?ac" "ours ?ac (sys_sa \<sigma>) (getSlabForMemory a)"
          "getSlabForMemory a \<notin> set (ac_freeSlabs ?ac)" "currSlab ?ac = Some (getSlabForMemory a) \<Longrightarrow> i * allocationSize ?ac < currOffset ?ac"
        by (rule carvedE [OF D(7) D(1,3)]) (use a in auto)
      have "(getSlabForMemory a, i) \<in> set (allocatedSlabs ?ac) \<times> {..<getAllocsPerSlab ?ac} - uncarved ?ac"
        using coveredD(1) [OF C(1) i(3)] i(2,4,5) M by (auto simp: uncarved_def)
      then show "a \<in> ?l" using i(1) by (intro image_eqI [of _ _ "(getSlabForMemory a, i)"]) simp_all
    qed
  qed
  show "inj_on (\<lambda>(s, i). chunk ?ac s i) (set (allocatedSlabs ?ac) \<times> {..<getAllocsPerSlab ?ac})"
  proof (rule inj_onI, clarsimp)
    fix s i t j assume *: "s \<in> set (allocatedSlabs ?ac)" "t \<in> set (allocatedSlabs ?ac)" "i < getAllocsPerSlab ?ac" "j < getAllocsPerSlab ?ac" "chunk ?ac s i = chunk ?ac t j"
    have "isValidSlab (sys_sa \<sigma>) s" "isValidSlab (sys_sa \<sigma>) t" using ours_valid [OF D(11)] *(1,2) by simp_all
    then show "s = t \<and> i = j" by (rule chunk_inj [OF D(1) _ _ *(3,4) D(3) *(5)])
  qed
qed

lemma allocateLocked_None:
  assumes "allocateLocked ac = (None, ac')"
  shows "freedAllocations ac = [] \<and> ac_freeSlabs ac = [] \<and> \<not> canAllocateFromCurrentSlabLocked ac"
proof (rule ccontr)
  assume n: "\<not> ?thesis"
  show False
  proof (cases "freedAllocations ac")
    case Nil
    then show False using assms n by (cases "canAllocateFromCurrentSlabLocked ac")
        (auto simp: allocateLocked_def allocateFromCurrentSlabLocked_def setupCurrentSlabLocked_def canAllocateFromCurrentSlabLocked_def Let_def)
  qed (use assms in \<open>simp add: allocateLocked_def\<close>)
qed


section \<open>A small run\<close>

definition sample_slab :: SlabAllocator where
  "sample_slab = sample_sa\<lparr>nextSlabAllocation := 3 * kSize, sa_headers := \<lambda>_. SlabHeader_init 3\<rparr>"

lemma sample_slab_ok: "sa_wf sample_slab" "isValidSlab sample_slab (2 * kSize)" "getSlabHeader sample_slab (2 * kSize) = Some (SlabHeader_init 3)"
  "slabIdx sample_slab (Some (2 * kSize)) = 0"
proof -
  show wf: "sa_wf sample_slab"
    by (simp add: sample_slab_def sa_wf_def sa_layout_def sample_sa_def getSlabMemoryEnd_def numSlabs_def numSlabsForHeaders_def kSize_def kNumSlabBits_def)
  show v: "isValidSlab sample_slab (2 * kSize)" by (simp add: isValidSlab_iff [OF wf]) (simp add: sample_slab_def sample_sa_def)
  show "getSlabHeader sample_slab (2 * kSize) = Some (SlabHeader_init 3)" using v by (simp add: getSlabHeader_def sample_slab_def)
  show "slabIdx sample_slab (Some (2 * kSize)) = 0" by (simp add: slabIdx_def sample_slab_def sample_sa_def)
qed

definition sample_ac :: AllocationClass where
  "sample_ac = \<lparr>ac_classId = 0, ac_poolId = 3, allocationSize = kSize div 2, currOffset = kSize div 2, currSlab = Some (2 * kSize),
     allocatedSlabs = [2 * kSize], ac_freeSlabs = [], freedAllocations = [], ac_canAllocate = True, activeReleases = 0,
     slabReleaseAllocMap = Map.empty\<rparr>"

abbreviation sample_owned :: SlabAllocator where
  "sample_owned \<equiv> upd_header (2 * kSize) (\<lambda>h. h\<lparr>sh_classId := 0, sh_allocSize := kSize div 2\<rparr>) sample_slab"

abbreviation sample_sys :: ac_sys where
  "sample_sys \<equiv> \<lparr>sys_sa = sample_owned, sys_ac = sample_ac, sys_live = {2 * kSize}, sys_phase = Idle, sys_ctxs = []\<rparr>"

lemma sample_owned_header: "getSlabHeader sample_owned (2 * kSize) = Some (SlabHeader_init 3\<lparr>sh_classId := 0, sh_allocSize := kSize div 2\<rparr>)"
  unfolding getSlabHeader_upd [OF sample_slab_ok(1,2)] by (simp add: sample_slab_ok(3))

text \<open>One slab is added to a class of two chunks per slab, and one chunk is allocated.\<close>

lemma sample_sys_reachable: "ac_reachable ab 0 3 (kSize div 2) sample_sys"
proof -
  define ac0 where "ac0 = \<lparr>ac_classId = 0, ac_poolId = 3, allocationSize = kSize div 2, currOffset = 0, currSlab = None,
                allocatedSlabs = [], ac_freeSlabs = [], freedAllocations = [], ac_canAllocate = True,
                activeReleases = 0, slabReleaseAllocMap = Map.empty\<rparr>"
  have i: "AllocationClass_init 0 3 (kSize div 2) sample_slab = Inr ac0"
    by (simp add: AllocationClass_init_def ac_checkState_def sizeofFreeAlloc_def ac0_def Let_def kSize_def kNumSlabBits_def)
  have "\<not> ours ac0 sample_slab s" for s
    by (simp add: ours_def ac0_def getSlabHeader_def sample_slab_def SlabHeader_init_def kInvalidClassId_def)
  note r0 = ac_reachable.start [OF sample_slab_ok(1) i this, of ab]
  have e1: "addSlab (2 * kSize) (sample_slab, ac0) = (sample_owned, ac0\<lparr>ac_freeSlabs := [2 * kSize]\<rparr>)"
    by (simp add: addSlab_def addSlabLocked_def ac0_def)
  let ?\<sigma> = "\<lparr>sys_sa = sample_slab, sys_ac = ac0, sys_live = {}, sys_phase = Idle, sys_ctxs = []\<rparr>"
  have "ac_step ab ?\<sigma> (?\<sigma>\<lparr>sys_sa := sample_owned, sys_ac := ac0\<lparr>ac_freeSlabs := [2 * kSize]\<rparr>\<rparr>)"
    by (rule ac_step.step_addSlab [where s = "2 * kSize" and h = "SlabHeader_init 3"])
      (use sample_slab_ok(3) header_bits(5) e1 in \<open>simp_all add: SlabHeader_init_def ac0_def\<close>)
  from ac_reachable.step [OF r0 this] have r1: "ac_reachable ab 0 3 (kSize div 2)
      \<lparr>sys_sa = sample_owned, sys_ac = ac0\<lparr>ac_freeSlabs := [2 * kSize]\<rparr>, sys_live = {}, sys_phase = Idle, sys_ctxs = []\<rparr>" by simp
  have e2: "allocateLocked (ac0\<lparr>ac_freeSlabs := [2 * kSize]\<rparr>) = (Some (2 * kSize), sample_ac)"
    by (simp add: allocateLocked_def ac0_def canAllocateFromCurrentSlabLocked_def setupCurrentSlabLocked_def allocateFromCurrentSlabLocked_def
        sample_ac_def Let_def)
  show ?thesis using ac_reachable.step [OF r1 ac_step.step_allocate] e2 by simp
qed

text \<open>The slab is then chosen for release: it has one active allocation, and one chunk that was never carved.\<close>

lemma sample_choose: "startRelease_choose kResize (Some (2 * kSize)) 0 (sample_owned, sample_ac) = (Inr (Prune (2 * kSize)),
    upd_header (2 * kSize) (setMarkedForRelease True) sample_owned,
    sample_ac\<lparr>slabReleaseAllocMap := [2 * kSize \<mapsto> [False, True]], allocatedSlabs := [], currSlab := None, currOffset := 0\<rparr>)"
proof -
  have m: "\<not> isMarkedForRelease (SlabHeader_init 3\<lparr>sh_classId := 0, sh_allocSize := kSize div 2\<rparr>)" by (simp add: header_bits)
  have g: "getSlabForMemory (2 * kSize) = 2 * kSize"
    using getSlabForMemory_valid [OF sample_slab_ok(1,2), of 0] kSize_pos by simp
  have p: "getAllocsPerSlab sample_ac = 2" by (simp add: getAllocsPerSlab_def sample_ac_def kSize_def kNumSlabBits_def)
  have o: "currOffset sample_ac div allocationSize sample_ac = 1" by (simp add: sample_ac_def kSize_def kNumSlabBits_def)
  have u: "[0..<2] = [0, Suc 0]" by (simp add: upt_rec)
  have h: "sh_poolId (SlabHeader_init 3\<lparr>sh_classId := 0, sh_allocSize := kSize div 2\<rparr>) = 3" by (simp add: SlabHeader_init_def)
  have f: "ac_classId sample_ac = 0" "ac_poolId sample_ac = 3" "ac_freeSlabs sample_ac = []" "allocatedSlabs sample_ac = [2 * kSize]"
    "slabReleaseAllocMap sample_ac = Map.empty" "currSlab sample_ac = Some (2 * kSize)" by (simp_all add: sample_ac_def)
  show ?thesis
    using m by (simp add: startRelease_choose_def g sample_owned_header h f createSlabReleaseAllocMapLocked_def Let_def swap_remove_def p o u)
qed


abbreviation sample_marked :: SlabAllocator where
  "sample_marked \<equiv> upd_header (2 * kSize) (setMarkedForRelease True) sample_owned"

abbreviation sample_released :: AllocationClass where
  "sample_released \<equiv> sample_ac\<lparr>slabReleaseAllocMap := [2 * kSize \<mapsto> [False, True]], allocatedSlabs := [], currSlab := None, currOffset := 0\<rparr>"

lemma sample_ctx_reachable:
  "\<exists>\<sigma> ctx. ac_reachable ab 0 3 (kSize div 2) \<sigma> \<and> sys_ctxs \<sigma> = [ctx] \<and> ctx_slab ctx = 2 * kSize \<and> sys_live \<sigma> = {2 * kSize}"
proof -
  let ?s = "\<lambda>ph. \<lparr>sys_sa = sample_marked, sys_ac = sample_released, sys_live = {2 * kSize}, sys_phase = ph, sys_ctxs = []\<rparr>"
  have a: "allocatedSlabs sample_ac = [2 * kSize]" "freedAllocations sample_ac = []" "allocationSize sample_ac = kSize div 2" by (simp_all add: sample_ac_def)
  have "ac_step ab sample_sys (sample_sys\<lparr>sys_sa := sample_marked, sys_ac := sample_released, sys_phase := Marked kResize (2 * kSize)\<rparr>)"
    by (rule ac_step.step_prune [where r = 0 and hint = "Some (2 * kSize)"]) (simp_all add: a sample_choose)
  from ac_reachable.step [OF sample_sys_reachable this] have r1: "ac_reachable ab 0 3 (kSize div 2) (?s (Marked kResize (2 * kSize)))" by simp
  have p: "partitionLoop sa s n ([], [], []) = ([], [], [])" for sa s n by (induction n) simp_all
  have "prune_begin (2 * kSize) (sample_marked, sample_released) = (([], [], []), sample_marked, sample_released)"
    by (simp add: prune_begin_def partitionFreeAllocs_def a p)
  with ac_reachable.step [OF r1 ac_step.step_begin] have r2: "ac_reachable ab 0 3 (kSize div 2) (?s (Scanning kResize (2 * kSize) ([], [], [])))" by simp
  have "prune_putback (2 * kSize) [] [] sample_released = Some sample_released" by (simp add: prune_putback_def Let_def)
  with ac_reachable.step [OF r2 ac_step.step_round] have r3: "ac_reachable ab 0 3 (kSize div 2) (?s (Counting kResize (2 * kSize)))" by simp
  have "[0..<length [False, True]] = [0, Suc 0]" by simp
  then have "prune_collect (2 * kSize) sample_released = Some [2 * kSize]" by (simp add: prune_collect_def del: upt_Suc)
  with ac_reachable.step [OF r3 ac_step.step_count] have r4: "ac_reachable ab 0 3 (kSize div 2) (?s (Deciding kResize (2 * kSize) [2 * kSize]))" by simp
  obtain ctx sa ac where f: "startRelease_finish kResize (2 * kSize) [2 * kSize] (sample_marked, sample_released) = (ctx, sa, ac)" "ctx_slab ctx = 2 * kSize"
    by (auto simp: startRelease_finish_def mkContext_def Let_def)
  have "ac_reachable ab 0 3 (kSize div 2) \<lparr>sys_sa = sa, sys_ac = ac, sys_live = {2 * kSize}, sys_phase = Idle, sys_ctxs = [ctx]\<rparr>"
    using ac_reachable.step [OF r4 ac_step.step_finish] f(1) by simp
  then show ?thesis using f(2) by (intro exI [of _ "\<lparr>sys_sa = sa, sys_ac = ac, sys_live = {2 * kSize}, sys_phase = Idle, sys_ctxs = [ctx]\<rparr>"] exI [of _ ctx]) simp
qed




section \<open>An abort while pruning\<close>

lemma choose_slab:
  assumes inv: "ac_inv sa ac [] live" and c: "startRelease_choose mode (Some s) 0 (sa, ac) = (res, sa1, ac1)"
    and s: "s \<in> set (allocatedSlabs ac)" and g: "getSlabForMemory s = s"
  shows "res = Inr (Prune s) \<and> sa1 = upd_header s (setMarkedForRelease True) sa \<and> s \<notin> set (allocatedSlabs ac1) \<and> s \<notin> set (ac_freeSlabs ac1) \<and> currSlab ac1 \<noteq> Some s"
proof -
  note D = ac_invD [OF inv]
  have s': "s \<in> set (ac_freeSlabs ac @ allocatedSlabs ac)" using s by simp
  obtain h where h: "getSlabHeader sa s = Some h" "sh_classId h = ac_classId ac" "sh_poolId h = ac_poolId ac" "\<not> isMarkedForRelease h"
    using D(11,12) [OF s'] by (auto simp: ours_def marked_def split: option.splits)
  have nf: "s \<notin> set (ac_freeSlabs ac)" using D(10) s by auto
  have m: "slabReleaseAllocMap ac s = None" using D(14) [of s] D(12) [OF s'] by (cases "slabReleaseAllocMap ac s") auto
  have "s \<notin> set (swap_remove s (allocatedSlabs ac))" using swap_remove_ok(2) [OF s] D(10) by simp
  then show ?thesis using c h nf m s by (auto simp: startRelease_choose_def g createSlabReleaseAllocMapLocked_def Let_def split: if_splits)
qed

lemma startSlabRelease_stray:
  assumes wf: "sa_wf sa" and o: "ours ac sa s" "\<not> marked sa s" and g: "getSlabForMemory s = s"
    and n: "s \<notin> set (allocatedSlabs ac)" "s \<notin> set (ac_freeSlabs ac)" "slabReleaseAllocMap ac s = None"
  shows "\<exists>sa' ac'. ac_startSlabRelease mode (Some s) k abort (sa, ac) = (Inl NotInLists, sa', ac') \<and> marked sa' s"
proof -
  obtain h where h: "getSlabHeader sa s = Some h" "sh_classId h = ac_classId ac" "sh_poolId h = ac_poolId ac" "\<not> isMarkedForRelease h"
    using o by (auto simp: ours_def marked_def split: option.splits)
  have v: "isValidSlab sa s" using ours_valid [OF o(1)] .
  have "marked (upd_header s (setMarkedForRelease True) sa) s" unfolding ours_header [OF wf v] by (simp add: header_bits)
  then show ?thesis using v h n by (simp add: ac_startSlabRelease_def startRelease_choose_def g createSlabReleaseAllocMapLocked_def Let_def)
qed

text \<open>C19. A release aborted while it prunes is not undone: the slab has been taken off the list of allocated slabs and is not put
  back. Afterwards it still belongs to the class by its header but is on neither list and no longer being carved,
  so its uncarved part is lost, and every later attempt to release it throws and leaves it marked for release.\<close>

theorem aborted_release_loses_slab:
  assumes r: "ac_reachable ab cid pid n \<sigma>" and idle: "sys_phase \<sigma> = Idle" and s: "s \<in> set (allocatedSlabs (sys_ac \<sigma>))" and ab: "abort 0"
  shows "\<exists>sa ac. ac_startSlabRelease mode (Some s) k abort (sys_sa \<sigma>, sys_ac \<sigma>) = (Inl SlabReleaseAborted, sa, ac) \<and>
    ours ac sa s \<and> \<not> marked sa s \<and> s \<notin> set (allocatedSlabs ac) \<and> s \<notin> set (ac_freeSlabs ac) \<and> currSlab ac \<noteq> Some s \<and>
    (\<forall>mode' k' abort'. \<exists>sa' ac'. ac_startSlabRelease mode' (Some s) k' abort' (sa, ac) = (Inl NotInLists, sa', ac') \<and> marked sa' s)"
proof -
  note I = sys_invD(1) [OF reachable_inv [OF r], unfolded idle phase_list.simps]
  note D = ac_invD [OF I]
  have s': "s \<in> set (ac_freeSlabs (sys_ac \<sigma>) @ allocatedSlabs (sys_ac \<sigma>))" using s by simp
  have v: "isValidSlab (sys_sa \<sigma>) s" using ours_valid [OF D(11) [OF s']] .
  have g: "getSlabForMemory s = s" using getSlabForMemory_valid [OF D(1) v, of 0] kSize_pos by simp
  note H = ours_header [OF D(1) v]
  obtain res sa1 ac1 where c: "startRelease_choose mode (Some s) 0 (sys_sa \<sigma>, sys_ac \<sigma>) = (res, sa1, ac1)" by (metis prod_cases3)
  have k: "startRelease_choose mode (Some s) k (sys_sa \<sigma>, sys_ac \<sigma>) = (res, sa1, ac1)" using c by (simp add: startRelease_choose_def)
  have P: "res = Inr (Prune s) \<and> sa1 = upd_header s (setMarkedForRelease True) (sys_sa \<sigma>) \<and> s \<notin> set (allocatedSlabs ac1) \<and> s \<notin> set (ac_freeSlabs ac1) \<and>
      currSlab ac1 \<noteq> Some s \<and> ac_ids ac1 = ac_ids (sys_ac \<sigma>)"
    using choose_slab [OF I c s g] choose_ids [OF c] by blast
  obtain l where l: "prune_begin s (sa1, ac1) = (l, sa1, ac1\<lparr>freedAllocations := []\<rparr>)" by (simp add: prune_begin_def)
  obtain fa i j where l3: "l = (fa, i, j)" by (cases l)
  let ?ac = "prune_abort l (ac1\<lparr>freedAllocations := []\<rparr>)\<lparr>slabReleaseAllocMap := (slabReleaseAllocMap ac1)(s := None)\<rparr>"
  let ?sa = "upd_header s (setMarkedForRelease False) sa1"
  have "ac_startSlabRelease mode (Some s) k abort (sys_sa \<sigma>, sys_ac \<sigma>) = (Inl SlabReleaseAborted, ?sa, ?ac)"
    using v k P l ab by (simp add: ac_startSlabRelease_def g pruneFreeAllocs_def pruneLoop.simps [of abort 0] startRelease_abort_def prune_abort_def l3)
  moreover have a: "s \<notin> set (allocatedSlabs ?ac)" "s \<notin> set (ac_freeSlabs ?ac)" "currSlab ?ac \<noteq> Some s" "slabReleaseAllocMap ?ac s = None"
    "ac_classId ?ac = ac_classId (sys_ac \<sigma>)" "ac_poolId ?ac = ac_poolId (sys_ac \<sigma>)"
    using P by (simp_all add: prune_abort_def l3 ac_ids_def)
  have v2: "sa_wf sa1" "isValidSlab sa1 s" "sa_wf ?sa" "isValidSlab ?sa s" using P D(1) v by simp_all
  have "ours (sys_ac \<sigma>) sa1 s" using P ours_headers(1) [OF D(11) [OF s']] H(1) by simp
  then have h: "ours ?ac ?sa s" "\<not> marked ?sa s"
    using ours_headers(1) [of "sys_ac \<sigma>" sa1 s] a(5,6) unfolding ours_header [OF v2(1,2)] by (simp_all add: header_bits)
  moreover have "\<exists>sa' ac'. ac_startSlabRelease mode' (Some s) k' abort' (?sa, ?ac) = (Inl NotInLists, sa', ac') \<and> marked sa' s" for mode' k' abort'
    using startSlabRelease_stray [OF v2(3) h g a(1,2,4)] by blast
  ultimately show ?thesis using a(1-3) by blast
qed


theorem aborted_release_loses_slab_witness:
  "\<exists>sa ac. ac_startSlabRelease kRebalance (Some (2 * kSize)) 0 (\<lambda>_. True) (sample_owned, sample_ac) = (Inl SlabReleaseAborted, sa, ac) \<and>
    ours ac sa (2 * kSize) \<and> 2 * kSize \<notin> set (allocatedSlabs ac) \<and> 2 * kSize \<notin> set (ac_freeSlabs ac)"
proof -
  have "2 * kSize \<in> set (allocatedSlabs (sys_ac sample_sys))" by (simp add: sample_ac_def)
  from aborted_release_loses_slab [OF sample_sys_reachable [of True] _ this, of "\<lambda>_. True" kRebalance 0] show ?thesis by auto
qed

end
