(* ===== verification/MemoryPool.thy ===== *)
theory MemoryPool
  imports SlabRelease
begin

text \<open>
  A pool of allocation classes: \<^verbatim>\<open>cachelib/allocator/memory/MemoryPool.h\<close> and \<^verbatim>\<open>MemoryPool.cpp\<close>, with the
  statistics of \<^verbatim>\<open>MemoryAllocatorStats.h\<close>. The atomic counters are 64-bit words and wrap. A pool and the slab
  allocator it draws from are passed together; each public operation is one function. Releases take several
  operations, between which clients free chunks.
\<close>

section \<open>The pool\<close>

record MemoryPool =
  mp_id :: int
  maxSize :: u64
  currSlabAllocSize :: u64
  currAllocSize :: u64
  mp_freeSlabs :: "addr list"
  acSizes :: "nat list"
  mp_ac :: "AllocationClass list"
  curSlabsAdvised :: u64
  nSlabResize :: u32
  nSlabRebalance :: u32
  nSlabReleaseAborted :: u32

type_synonym mps = "SlabAllocator \<times> MemoryPool"

text \<open>\<open>UndefinedIndex\<close> stands for indexing the vector of classes with a negative number, which the code does
  not check.\<close>

datatype mp_error = InvalidPoolId | AllocExceedsSlabs | EmptySizes | ClassesMismatch | NotSorted | DuplicateSize | SizeMismatch
  | InvalidFreeSlab_mp | InvalidClassSize | InvalidClass | UndefinedIndex | InvalidSize | NotOurPool | NoClassId | CorruptHeader
  | ReceiverNeedsRebalance | FreeSlabNeedsResize | NoFreeSlabs | NotRestorable_mp | From_ac ac_error | From_sa sa_error

abbreviation slab64 :: u64 where "slab64 \<equiv> word_of_nat kSize"

definition mp_checkState :: "SlabAllocator \<Rightarrow> MemoryPool \<Rightarrow> mp_error option" where
  "mp_checkState sa mp =
     (if mp_id mp < 0 then Some InvalidPoolId
      else if currAllocSize mp > currSlabAllocSize mp then Some AllocExceedsSlabs
      else if acSizes mp = [] \<or> mp_ac mp = [] then Some EmptySizes
      else if length (acSizes mp) \<noteq> length (mp_ac mp) then Some ClassesMismatch
      else if \<not> sorted (acSizes mp) then Some NotSorted
      else if \<not> distinct_adj (acSizes mp) then Some DuplicateSize
      else if list_ex (\<lambda>(sz, ac). sz \<noteq> allocationSize ac \<or> sz < kMinAllocSize \<or> sz > kSize) (zip (acSizes mp) (mp_ac mp))
      then Some SizeMismatch
      else if list_ex (\<lambda>slab. \<not> isValidSlab sa slab) (mp_freeSlabs mp) then Some InvalidFreeSlab_mp else None)"

primrec createClasses :: "SlabAllocator \<Rightarrow> int \<Rightarrow> int \<Rightarrow> nat list \<Rightarrow> mp_error + AllocationClass list" where
  "createClasses sa pid cid [] = Inr []"
| "createClasses sa pid cid (sz # sizes) =
     (if sz < kMinAllocSize \<or> sz > kSize then Inl InvalidClassSize
      else case AllocationClass_init cid pid sz sa of
        Inl e \<Rightarrow> Inl (From_ac e)
      | Inr ac \<Rightarrow> (case createClasses sa pid (cid + 1) sizes of Inl e \<Rightarrow> Inl e | Inr acs \<Rightarrow> Inr (ac # acs)))"

definition createAllocationClasses :: "SlabAllocator \<Rightarrow> int \<Rightarrow> nat list \<Rightarrow> mp_error + AllocationClass list" where
  "createAllocationClasses sa pid sizes = createClasses sa pid 0 sizes"

text \<open>The sizes come as a set, which is iterated in ascending order.\<close>

definition MemoryPool_init :: "int \<Rightarrow> u64 \<Rightarrow> nat set \<Rightarrow> SlabAllocator \<Rightarrow> mp_error + MemoryPool" where
  "MemoryPool_init pid poolSize allocSizes sa =
     (case createAllocationClasses sa pid (sorted_list_of_set allocSizes) of
        Inl e \<Rightarrow> Inl e
      | Inr acs \<Rightarrow>
          let mp = \<lparr>mp_id = pid, maxSize = poolSize, currSlabAllocSize = 0, currAllocSize = 0, mp_freeSlabs = [],
                    acSizes = sorted_list_of_set allocSizes, mp_ac = acs, curSlabsAdvised = 0, nSlabResize = 0,
                    nSlabRebalance = 0, nSlabReleaseAborted = 0\<rparr>
          in case mp_checkState sa mp of Some e \<Rightarrow> Inl e | None \<Rightarrow> Inr mp)"

section \<open>Sizes\<close>

definition getPoolAdvisedSize :: "MemoryPool \<Rightarrow> u64" where
  "getPoolAdvisedSize mp = curSlabsAdvised mp * slab64"

definition getPoolUsableSize :: "MemoryPool \<Rightarrow> u64" where
  "getPoolUsableSize mp = (let advisedSize = getPoolAdvisedSize mp in if maxSize mp \<le> advisedSize then 0 else maxSize mp - advisedSize)"

definition getCurrentUsedSize :: "MemoryPool \<Rightarrow> u64" where
  "getCurrentUsedSize mp = currSlabAllocSize mp + word_of_nat (length (mp_freeSlabs mp)) * slab64"

definition overLimit :: "MemoryPool \<Rightarrow> bool" where
  "overLimit mp \<longleftrightarrow> getCurrentUsedSize mp + getPoolAdvisedSize mp > maxSize mp"

definition getUnAllocatedSlabMemory :: "MemoryPool \<Rightarrow> u64" where
  "getUnAllocatedSlabMemory mp =
     (let totalAllocSize = currSlabAllocSize mp + getPoolAdvisedSize mp
      in if totalAllocSize > maxSize mp then 0 else maxSize mp - totalAllocSize)"

definition mp_allSlabsAllocated :: "MemoryPool \<Rightarrow> bool" where
  "mp_allSlabsAllocated mp \<longleftrightarrow> currSlabAllocSize mp + getPoolAdvisedSize mp + slab64 > maxSize mp"

definition mp_resize :: "u64 \<Rightarrow> MemoryPool \<Rightarrow> MemoryPool" where
  "mp_resize sz mp = mp\<lparr>maxSize := sz\<rparr>"

definition setNumSlabsAdvised :: "u64 \<Rightarrow> MemoryPool \<Rightarrow> MemoryPool" where
  "setNumSlabsAdvised v mp = mp\<lparr>curSlabsAdvised := v\<rparr>"

definition getNumClassId :: "MemoryPool \<Rightarrow> nat" where
  "getNumClassId mp = length (acSizes mp)"

section \<open>Finding the class\<close>

text \<open>\<^verbatim>\<open>std::lower_bound\<close> on a sorted vector: the position of the first element that is not less.\<close>

fun lower_bound :: "nat list \<Rightarrow> nat \<Rightarrow> nat" where
  "lower_bound [] x = 0"
| "lower_bound xs x =
     (let half = length xs div 2
      in if xs ! half < x then Suc half + lower_bound (drop (Suc half) xs) x else lower_bound (take half xs) x)"

definition getAllocationClassId :: "nat \<Rightarrow> MemoryPool \<Rightarrow> mp_error + int" where
  "getAllocationClassId sz mp =
     (if sz > last (acSizes mp) \<or> sz = 0 then Inl InvalidSize else Inr (int (lower_bound (acSizes mp) sz)))"

definition getAllocationClassId_mem :: "addr \<Rightarrow> mps \<Rightarrow> mp_error + int" where
  "getAllocationClassId_mem memory = (\<lambda>(sa, mp).
     case getSlabHeader_mem sa memory of
       None \<Rightarrow> Inl NotOurPool
     | Some header \<Rightarrow>
         if sh_poolId header \<noteq> mp_id mp then Inl NotOurPool
         else if sh_classId header = kInvalidClassId then Inl NoClassId
         else if sh_classId header \<ge> int (length (mp_ac mp)) \<or> sh_classId header < 0 then Inl CorruptHeader
         else Inr (sh_classId header))"

text \<open>A class by its number, as its position in the vector.\<close>

definition getAllocationClassFor :: "int \<Rightarrow> MemoryPool \<Rightarrow> mp_error + nat" where
  "getAllocationClassFor cid mp =
     (if cid < int (length (mp_ac mp)) then if cid < 0 then Inl UndefinedIndex else Inr (nat cid) else Inl InvalidClass)"

definition getAllocationClass :: "int \<Rightarrow> MemoryPool \<Rightarrow> mp_error + AllocationClass" where
  "getAllocationClass cid mp = map_sum id (\<lambda>i. mp_ac mp ! i) (getAllocationClassFor cid mp)"

definition set_ac :: "nat \<Rightarrow> AllocationClass \<Rightarrow> MemoryPool \<Rightarrow> MemoryPool" where
  "set_ac i ac mp = mp\<lparr>mp_ac := (mp_ac mp)[i := ac]\<rparr>"

section \<open>Allocating and freeing\<close>

definition getSlabLocked :: "mps \<Rightarrow> ptr \<times> mps" where
  "getSlabLocked = (\<lambda>(sa, mp).
     if mp_allSlabsAllocated mp then (None, sa, mp)
     else
       let mp = mp\<lparr>currSlabAllocSize := currSlabAllocSize mp + slab64\<rparr> in
       if mp_freeSlabs mp \<noteq> [] then (Some (last (mp_freeSlabs mp)), sa, mp\<lparr>mp_freeSlabs := butlast (mp_freeSlabs mp)\<rparr>)
       else case makeNewSlab (mp_id mp) sa of
         (None, sa) \<Rightarrow> (None, sa, mp\<lparr>currSlabAllocSize := currSlabAllocSize mp - slab64\<rparr>)
       | (Some slab, sa) \<Rightarrow> (Some slab, sa, mp))"

text \<open>The second attempt, under the lock, when the class had nothing and the limit is not reached.\<close>

definition allocateSlow :: "nat \<Rightarrow> mps \<Rightarrow> ptr \<times> mps" where
  "allocateSlow i = (\<lambda>(sa, mp).
     case ac_allocate (mp_ac mp ! i) of
       (Some alloc, ac) \<Rightarrow>
         (Some alloc, sa, (set_ac i ac mp)\<lparr>currAllocSize := currAllocSize mp + word_of_nat (allocationSize ac)\<rparr>)
     | (None, ac) \<Rightarrow>
         (case getSlabLocked (sa, set_ac i ac mp) of
            (None, sa, mp) \<Rightarrow> (None, sa, mp)
          | (Some slab, sa, mp) \<Rightarrow>
              (case addSlabAndAllocate slab (sa, mp_ac mp ! i) of
                 (alloc, sa, ac) \<Rightarrow>
                   (alloc, sa, (set_ac i ac mp)\<lparr>currAllocSize := currAllocSize mp + word_of_nat (allocationSize ac)\<rparr>))))"

definition mp_allocate :: "nat \<Rightarrow> mps \<Rightarrow> (mp_error + ptr) \<times> mps" where
  "mp_allocate sz = (\<lambda>(sa, mp).
     case getAllocationClassId sz mp of
       Inl e \<Rightarrow> (Inl e, sa, mp)
     | Inr cid \<Rightarrow>
         let i = nat cid in
         case ac_allocate (mp_ac mp ! i) of
           (Some alloc, ac) \<Rightarrow>
             (Inr (Some alloc), sa, (set_ac i ac mp)\<lparr>currAllocSize := currAllocSize mp + word_of_nat (allocationSize ac)\<rparr>)
         | (None, ac) \<Rightarrow>
             let mp = set_ac i ac mp in
             if mp_allSlabsAllocated mp then (Inr None, sa, mp)
             else case allocateSlow i (sa, mp) of (alloc, s) \<Rightarrow> (Inr alloc, s))"

definition allocateZeroedSlab :: "mps \<Rightarrow> (mp_error + ptr) \<times> mps" where
  "allocateZeroedSlab s = mp_allocate kSize s"

definition mp_free :: "addr \<Rightarrow> mps \<Rightarrow> (mp_error + unit) \<times> mps" where
  "mp_free alloc = (\<lambda>(sa, mp).
     case getAllocationClassId_mem alloc (sa, mp) of
       Inl e \<Rightarrow> (Inl e, sa, mp)
     | Inr cid \<Rightarrow>
         (case ac_free alloc (sa, mp_ac mp ! nat cid) of
            (Inl e, sa, ac) \<Rightarrow> (Inl (From_ac e), sa, set_ac (nat cid) ac mp)
          | (Inr _, sa, ac) \<Rightarrow>
              (Inr (), sa, (set_ac (nat cid) ac mp)\<lparr>currAllocSize := currAllocSize mp - word_of_nat (allocationSize ac)\<rparr>)))"


section \<open>Releasing slabs\<close>

text \<open>Clearing the memory of the slab is not modelled. \<open>madviseOk\<close> is whether \<^verbatim>\<open>madvise\<close> succeeds.\<close>

definition mp_releaseSlab :: "bool \<Rightarrow> SlabReleaseMode \<Rightarrow> addr \<Rightarrow> int \<Rightarrow> mps \<Rightarrow> (mp_error + unit) \<times> mps" where
  "mp_releaseSlab madviseOk mode slab receiver = (\<lambda>(sa, mp).
     case mode of
       kResize \<Rightarrow>
         (case freeSlab slab sa of
            Inl e \<Rightarrow> (Inl (From_sa e), sa, mp)
          | Inr sa \<Rightarrow> (Inr (), sa, mp\<lparr>currSlabAllocSize := currSlabAllocSize mp - slab64, nSlabResize := nSlabResize mp + 1\<rparr>))
     | kAdvise \<Rightarrow>
         (case adviseSlab madviseOk slab sa of
            Inl e \<Rightarrow> (Inl (From_sa e), sa, mp)
          | Inr (ok, sa) \<Rightarrow>
              let mp = (if ok then mp\<lparr>curSlabsAdvised := curSlabsAdvised mp + 1\<rparr> else mp\<lparr>mp_freeSlabs := mp_freeSlabs mp @ [slab]\<rparr>)
              in (Inr (), sa, mp\<lparr>currSlabAllocSize := currSlabAllocSize mp - slab64\<rparr>))
     | kRebalance \<Rightarrow>
         if receiver \<noteq> kInvalidClassId
         then case getAllocationClassFor receiver mp of
                Inl e \<Rightarrow> (Inl e, sa, mp)
              | Inr i \<Rightarrow> (case addSlab slab (sa, mp_ac mp ! i) of
                            (sa, ac) \<Rightarrow> (Inr (), sa, (set_ac i ac mp)\<lparr>nSlabRebalance := nSlabRebalance mp + 1\<rparr>))
         else (Inr (), sa, mp\<lparr>mp_freeSlabs := mp_freeSlabs mp @ [slab], currSlabAllocSize := currSlabAllocSize mp - slab64,
                              nSlabRebalance := nSlabRebalance mp + 1\<rparr>))"

primrec reclaimLoop :: "nat \<Rightarrow> nat \<Rightarrow> mps \<Rightarrow> nat \<times> mps" where
  "reclaimLoop 0 numReclaimed s = (numReclaimed, s)"
| "reclaimLoop (Suc n) numReclaimed s =
     (case s of (sa, mp) \<Rightarrow>
        case reclaimSlab (mp_id mp) sa of
          (None, sa) \<Rightarrow> (numReclaimed, sa, mp)
        | (Some slab, sa) \<Rightarrow>
            reclaimLoop n (Suc numReclaimed)
              (sa, mp\<lparr>mp_freeSlabs := mp_freeSlabs mp @ [slab], curSlabsAdvised := curSlabsAdvised mp - 1\<rparr>))"

definition reclaimSlabsAndGrow :: "nat \<Rightarrow> mps \<Rightarrow> nat \<times> mps" where
  "reclaimSlabsAndGrow n s = reclaimLoop n 0 s"

definition releaseFromFreeSlabs :: "MemoryPool \<Rightarrow> (mp_error + SlabReleaseContext) \<times> MemoryPool" where
  "releaseFromFreeSlabs mp =
     (if mp_freeSlabs mp = [] then (Inl NoFreeSlabs, mp)
      else (Inr (mkContext (last (mp_freeSlabs mp)) (mp_id mp) kInvalidClassId [] kResize),
            mp\<lparr>mp_freeSlabs := butlast (mp_freeSlabs mp)\<rparr>))"

text \<open>\<open>r\<close> is the random number the class draws, \<open>abort\<close> what \<open>shouldAbortFn\<close> answers.\<close>

definition mp_victimContext :: "int \<Rightarrow> SlabReleaseMode \<Rightarrow> ptr \<Rightarrow> nat \<Rightarrow> (nat \<Rightarrow> bool) \<Rightarrow> mps \<Rightarrow> (mp_error + SlabReleaseContext) \<times> mps" where
  "mp_victimContext victim mode hint r abort = (\<lambda>(sa, mp).
     if victim = kInvalidClassId then case releaseFromFreeSlabs mp of (c, mp) \<Rightarrow> (c, sa, mp)
     else case getAllocationClassFor victim mp of
       Inl e \<Rightarrow> (Inl e, sa, mp)
     | Inr i \<Rightarrow> (case ac_startSlabRelease mode hint r abort (sa, mp_ac mp ! i) of
                   (Inl e, sa, ac) \<Rightarrow> (Inl (From_ac e), sa, set_ac i ac mp)
                 | (Inr c, sa, ac) \<Rightarrow> (Inr c, sa, set_ac i ac mp)))"

definition mp_startSlabRelease ::
  "bool \<Rightarrow> int \<Rightarrow> int \<Rightarrow> SlabReleaseMode \<Rightarrow> ptr \<Rightarrow> bool \<Rightarrow> nat \<Rightarrow> (nat \<Rightarrow> bool) \<Rightarrow> mps \<Rightarrow> (mp_error + SlabReleaseContext) \<times> mps" where
  "mp_startSlabRelease madviseOk victim receiver mode hint zeroOnRelease r abort s =
     (if receiver \<noteq> kInvalidClassId \<and> mode \<noteq> kRebalance then (Inl ReceiverNeedsRebalance, s)
      else if victim = kInvalidClassId \<and> mode \<noteq> kResize then (Inl FreeSlabNeedsResize, s)
      else case mp_victimContext victim mode hint r abort s of
        (Inl e, s) \<Rightarrow> (Inl e, s)
      | (Inr c, s) \<Rightarrow>
          let c = c\<lparr>ctx_receiver := receiver, ctx_zero := zeroOnRelease\<rparr> in
          if isReleased c
          then case mp_releaseSlab madviseOk (ctx_mode c) (ctx_slab c) receiver s of
                 (Inl e, s) \<Rightarrow> (Inl e, s)
               | (Inr _, s) \<Rightarrow> (Inr c, s)
          else (Inr c, s))"

definition mp_abortSlabRelease :: "SlabReleaseContext \<Rightarrow> mps \<Rightarrow> (mp_error + unit) \<times> mps" where
  "mp_abortSlabRelease c = (\<lambda>(sa, mp).
     case getAllocationClassFor (ctx_victim c) mp of
       Inl e \<Rightarrow> (Inl e, sa, mp)
     | Inr i \<Rightarrow> (case ac_abortSlabRelease c (sa, mp_ac mp ! i) of
                   (Inl e, sa, ac) \<Rightarrow> (Inl (From_ac e), sa, set_ac i ac mp)
                 | (Inr _, sa, ac) \<Rightarrow> (Inr (), sa, (set_ac i ac mp)\<lparr>nSlabReleaseAborted := nSlabReleaseAborted mp + 1\<rparr>)))"

text \<open>\<^const>\<open>None\<close> while the class still waits for allocations to be freed.\<close>

definition mp_completeSlabRelease :: "bool \<Rightarrow> SlabReleaseContext \<Rightarrow> mps \<Rightarrow> ((mp_error + unit) \<times> mps) option" where
  "mp_completeSlabRelease madviseOk c = (\<lambda>(sa, mp).
     if isReleased c then Some (Inr (), sa, mp)
     else if ctx_receiver c \<noteq> kInvalidClassId \<and> ctx_mode c \<noteq> kRebalance then Some (Inl ReceiverNeedsRebalance, sa, mp)
     else case getAllocationClassFor (ctx_victim c) mp of
       Inl e \<Rightarrow> Some (Inl e, sa, mp)
     | Inr i \<Rightarrow> (case ac_completeSlabRelease c (sa, mp_ac mp ! i) of
                   None \<Rightarrow> None
                 | Some (Inl e, sa, ac) \<Rightarrow> Some (Inl (From_ac e), sa, set_ac i ac mp)
                 | Some (Inr _, sa, ac) \<Rightarrow>
                     Some (mp_releaseSlab madviseOk (ctx_mode c) (ctx_slab c) (ctx_receiver c) (sa, set_ac i ac mp))))"

section \<open>Iteration, statistics and saved state\<close>

definition mp_forEachAllocation :: "bool \<Rightarrow> int \<Rightarrow> addr \<Rightarrow> (addr \<Rightarrow> 'c \<Rightarrow> bool \<times> 'c) \<Rightarrow> 'c \<Rightarrow> mps \<Rightarrow> mp_error + SlabIterationStatus \<times> 'c" where
  "mp_forEachAllocation locked cid slab callback c = (\<lambda>(sa, mp).
     case getAllocationClassFor cid mp of Inl e \<Rightarrow> Inl e | Inr i \<Rightarrow> Inr (forEachAllocation locked slab callback c (sa, mp_ac mp ! i)))"

record MPStats =
  mps_acStats :: "(int \<times> ACStats) list"
  mps_freeSlabs :: u64
  mps_slabsUnAllocated :: u64
  mps_numSlabResize :: u32
  mps_numSlabRebalance :: u32
  mps_numSlabAdvise :: u64

definition totalSlabs :: "ACStats \<Rightarrow> nat" where
  "totalSlabs a = acs_freeSlabs a + acs_usedSlabs a"

definition mp_getStats :: "MemoryPool \<Rightarrow> MPStats" where
  "mp_getStats mp =
     (let availableMemory = getUnAllocatedSlabMemory mp;
          slabsUnAllocated = (if availableMemory > 0 then availableMemory div slab64 - word_of_nat (length (mp_freeSlabs mp)) else 0)
      in \<lparr>mps_acStats = map (\<lambda>ac. (ac_classId ac, ac_getStats ac)) (mp_ac mp), mps_freeSlabs = word_of_nat (length (mp_freeSlabs mp)),
          mps_slabsUnAllocated = slabsUnAllocated, mps_numSlabResize = nSlabResize mp, mps_numSlabRebalance = nSlabRebalance mp,
          mps_numSlabAdvise = curSlabsAdvised mp\<rparr>)"

definition mps_allocatedSlabs :: "MPStats \<Rightarrow> u64" where
  "mps_allocatedSlabs st = sum_list (map (\<lambda>(_, a). word_of_nat (totalSlabs a)) (mps_acStats st)) + mps_freeSlabs st"

record MemoryPoolObject =
  mpo_id :: int
  mpo_maxSize :: u64
  mpo_currSlabAllocSize :: u64
  mpo_currAllocSize :: u64
  mpo_acSizes :: "nat list"
  mpo_ac :: "AllocationClassObject list"
  mpo_numSlabResize :: u32
  mpo_numSlabRebalance :: u32
  mpo_freeSlabIdxs :: "nat list"
  mpo_numSlabsAdvised :: u64

primrec collect :: "('e + 'a) list \<Rightarrow> 'e + 'a list" where
  "collect [] = Inr []"
| "collect (x # xs) = (case x of Inl e \<Rightarrow> Inl e | Inr a \<Rightarrow> map_sum id ((#) a) (collect xs))"

definition mp_saveState :: "mps \<Rightarrow> mp_error + MemoryPoolObject" where
  "mp_saveState = (\<lambda>(sa, mp).
     if ownsMemory sa then Inl NotRestorable_mp
     else case collect (map (\<lambda>ac. ac_saveState (sa, ac)) (mp_ac mp)) of
       Inl e \<Rightarrow> Inl (From_ac e)
     | Inr acs \<Rightarrow> Inr \<lparr>mpo_id = mp_id mp, mpo_maxSize = maxSize mp, mpo_currSlabAllocSize = currSlabAllocSize mp,
         mpo_currAllocSize = currAllocSize mp, mpo_acSizes = acSizes mp, mpo_ac = acs, mpo_numSlabResize = nSlabResize mp,
         mpo_numSlabRebalance = nSlabRebalance mp, mpo_freeSlabIdxs = map (\<lambda>s. slabIdx sa (Some s)) (mp_freeSlabs mp),
         mpo_numSlabsAdvised = curSlabsAdvised mp\<rparr>)"

definition createMcFromSerialized :: "MemoryPoolObject \<Rightarrow> int \<Rightarrow> SlabAllocator \<Rightarrow> ac_error + AllocationClass list" where
  "createMcFromSerialized ob pid sa = collect (map (\<lambda>o'. AllocationClass_restore o' pid sa) (mpo_ac ob))"

text \<open>The saved sizes are cast to 32 bits.\<close>

definition createMcSizesFromSerialized :: "MemoryPoolObject \<Rightarrow> nat list" where
  "createMcSizesFromSerialized ob = map (take_bit 32) (mpo_acSizes ob)"

text \<open>The null pointer, which the index of no slab gives, is address 0.\<close>

definition MemoryPool_restore :: "MemoryPoolObject \<Rightarrow> SlabAllocator \<Rightarrow> mp_error + MemoryPool" where
  "MemoryPool_restore ob sa =
     (case createMcFromSerialized ob (mpo_id ob) sa of
        Inl e \<Rightarrow> Inl (From_ac e)
      | Inr acs \<Rightarrow>
          if ownsMemory sa then Inl NotRestorable_mp
          else
            let mp = \<lparr>mp_id = mpo_id ob, maxSize = mpo_maxSize ob, currSlabAllocSize = mpo_currSlabAllocSize ob,
                  currAllocSize = mpo_currAllocSize ob, mp_freeSlabs = map (\<lambda>i. case getSlabForIdx sa i of None \<Rightarrow> 0 | Some slab \<Rightarrow> slab) (mpo_freeSlabIdxs ob),
                  acSizes = createMcSizesFromSerialized ob, mp_ac = acs, curSlabsAdvised = mpo_numSlabsAdvised ob,
                  nSlabResize = mpo_numSlabResize ob, nSlabRebalance = mpo_numSlabRebalance ob, nSlabReleaseAborted = 0\<rparr>
            in case mp_checkState sa mp of Some e \<Rightarrow> Inl e | None \<Rightarrow> Inr mp)"

end
