(* ===== verification/ReleaseOps.thy ===== *)
theory ReleaseOps
  imports SlabRelease
begin

text \<open>Releases of slabs as one call each, as the pool makes them: \<^verbatim>\<open>startSlabRelease\<close>, \<^verbatim>\<open>completeSlabRelease\<close> and
  \<^verbatim>\<open>abortSlabRelease\<close> of \<^verbatim>\<open>AllocationClass.cpp\<close> with nothing in between. Each is a run of the steps of the system of a
  class, so it keeps that system's invariant; it changes the header of one slab only, which stays with the class or
  leaves it for the pool.\<close>

section \<open>Whole releases\<close>

lemma prune_putback_Some: "slabReleaseAllocMap ac s = Some st \<Longrightarrow> \<exists>ac'. prune_putback s i j ac = Some ac'"
  by (cases "j = []") (simp_all add: prune_putback_def Let_def)

lemma pruneLoop_inv:
  assumes "sys_inv \<sigma>" "sys_phase \<sigma> = Scanning mode s l" "sys_sa \<sigma> = sa" "sys_ac \<sigma> = ac"
  shows "\<exists>b ac'. pruneLoop abort k sa s l ac = Some (b, ac') \<and>
    sys_inv (\<sigma>\<lparr>sys_ac := ac', sys_phase := (if b then Aborting s else Counting mode s)\<rparr>) \<and> (b \<longrightarrow> (\<exists>j. abort j))"
  using assms
proof (induction abort k sa s l ac arbitrary: \<sigma> rule: pruneLoop.induct)
  case (1 abort k sa s l ac)
  show ?case
  proof (cases "abort k")
    case True
    then show ?thesis using abort_inv [OF 1(2,3)] 1(5) by (auto simp: pruneLoop.simps [of abort k])
  next
    case nab: False
    obtain st where st: "slabReleaseAllocMap ac s = Some st" using sys_invD(2) [OF 1(2)] 1(3,5) by auto
    obtain ac1 where p: "prune_putback s (fst (snd l)) (snd (snd l)) ac = Some ac1" using prune_putback_Some [OF st] by blast
    note R = round_inv [OF 1(2,3) p [folded 1(5)]]
    show ?thesis
    proof (cases "fst l = []")
      case True
      then show ?thesis using R nab p by (auto simp: pruneLoop.simps [of abort k])
    next
      case False
      from 1(1) [OF nab p False R] False 1(4) obtain b ac' where
        "pruneLoop abort (Suc k) sa s (partitionFreeAllocs sa s (fst l, [], [])) ac1 = Some (b, ac')"
        "sys_inv (\<sigma>\<lparr>sys_ac := ac', sys_phase := (if b then Aborting s else Counting mode s)\<rparr>)" "b \<longrightarrow> (\<exists>j. abort j)" by auto
      then show ?thesis using nab p False by (simp add: pruneLoop.simps [of abort k])
    qed
  qed
qed

lemma pruneLoop_ids: "pruneLoop abort k sa s l ac = Some (b, ac') \<Longrightarrow> ac_ids ac' = ac_ids ac"
proof (induction abort k sa s l ac rule: pruneLoop.induct)
  case (1 abort k sa s l ac)
  show ?case
  proof (cases "prune_putback s (fst (snd l)) (snd (snd l)) ac")
    case (Some ac1)
    then show ?thesis using 1(1) [OF _ Some] 1(2) release_ids(2) [OF Some]
      by (auto simp: pruneLoop.simps [of abort k] release_ids(3) split: if_splits)
  qed (use 1(2) in \<open>auto simp: pruneLoop.simps [of abort k] release_ids(3) split: if_splits\<close>)
qed

definition at_slab :: "addr \<Rightarrow> SlabAllocator \<Rightarrow> SlabAllocator \<Rightarrow> bool" where
  "at_slab s sa sa' \<longleftrightarrow> sa_wf sa' \<and> (\<forall>t. t \<noteq> s \<longrightarrow> getSlabHeader sa' t = getSlabHeader sa t) \<and>
     sa_freeSlabs sa' = sa_freeSlabs sa \<and> advisedSlabs sa' = advisedSlabs sa \<and> nextSlabAllocation sa' = nextSlabAllocation sa"

lemma at_slab_upd: "sa_wf sa \<Longrightarrow> isValidSlab sa s \<Longrightarrow> at_slab s sa (upd_header s f sa)"
  by (simp add: at_slab_def getSlabHeader_upd)

lemma at_slab_refl: "sa_wf sa \<Longrightarrow> at_slab s sa sa" by (simp add: at_slab_def)

lemma at_slab_trans: "at_slab s sa sa1 \<Longrightarrow> at_slab s sa1 sa2 \<Longrightarrow> at_slab s sa sa2" by (auto simp: at_slab_def)

text \<open>The header a slab has when it has left its class and is still its pool's.\<close>

definition classless :: "int \<Rightarrow> SlabAllocator \<Rightarrow> addr \<Rightarrow> bool" where
  "classless pid sa s \<longleftrightarrow> (\<exists>h. getSlabHeader sa s = Some h \<and> sh_poolId h = pid \<and> sh_classId h = kInvalidClassId \<and> \<not> isMarkedForRelease h)"

lemma classless_upd:
  assumes "sa_wf sa" "ours ac sa s" "\<And>h. sh_poolId (f h) = sh_poolId h" "\<And>h. sh_classId (f h) = kInvalidClassId"
    "\<not> isMarkedForRelease (f (sa_headers sa (slabIdx sa (Some s))))"
  shows "classless (ac_poolId ac) (upd_header s f sa) s"
  using assms(2-5) ours_valid [OF assms(2)] getSlabHeader_upd [OF assms(1) ours_valid [OF assms(2)], of f s] ours_headers(1) [OF assms(2)]
  by (auto simp: classless_def getSlabHeader_def)


lemma prune_collect_Some: "slabReleaseAllocMap ac s = Some st \<Longrightarrow> \<exists>as. prune_collect s ac = Some as"
  by (simp add: prune_collect_def)

lemma choose_at:
  assumes inv: "ac_inv sa ac L live" and r: "allocatedSlabs ac \<noteq> [] \<longrightarrow> r < length (allocatedSlabs ac)"
    and eq: "startRelease_choose mode hint r (sa, ac) = (res, sa', ac')"
  obtains s where "at_slab s sa sa'" "ours ac sa s \<or> sa' = sa" "\<And>e. res = Inl e \<Longrightarrow> ours ac sa' s = ours ac sa s"
    "\<And>c. res = Inr (Released c) \<Longrightarrow> s = ctx_slab c \<and> ours ac sa s \<and> classless (ac_poolId ac) sa' s \<and> isReleased c \<and> ctx_mode c = mode"
    "\<And>t. res = Inr (Prune t) \<Longrightarrow> t = s \<and> ours ac sa s \<and> ours ac sa' s"
  using inv r eq
proof (cases rule: choose_cases)
  case (refused e)
  show ?thesis by (rule that [of 0]) (use refused ac_invD(1) [OF inv] in \<open>auto simp: at_slab_refl\<close>)
next
  case (free s h)
  note D = ac_invD [OF inv]
  have o: "ours ac sa s" "\<not> marked sa s" using D(11,12) [of s] free(1) by auto
  have "classless (ac_poolId ac) sa' s" unfolding free(5)
    by (rule classless_upd [OF D(1) o(1)]) (use o ours_headers(2) [OF ours_valid [OF o(1)]] in \<open>auto simp: header_bits\<close>)
  then show ?thesis using o(1) free(4)
    by (intro that [of s]) (auto simp: free(5) at_slab_upd [OF D(1) ours_valid [OF o(1)]] mkContext_def isReleased_def)
next
  case (stray s)
  have "ours ac sa' s" unfolding stray(6) ours_header [OF ac_invD(1) [OF inv] ours_valid [OF stray(1)]] using ours_headers(1) [OF stray(1)] by simp
  then show ?thesis using stray at_slab_upd [OF ac_invD(1) [OF inv] ours_valid [OF stray(1)]] by (intro that [of s]) auto
next
  case (prune s)
  have o: "ours ac sa s" using ac_invD(11) [OF inv, of s] prune(1) by simp
  then have "ours ac sa' s" unfolding prune(4) ours_header [OF ac_invD(1) [OF inv] ours_valid [OF o]] using ours_headers(1) [OF o] by simp
  then show ?thesis using prune o at_slab_upd [OF ac_invD(1) [OF inv] ours_valid [OF o]] by (intro that [of s]) auto
next
  case (current s)
  have o: "ours ac sa s" using ac_invD(11) [OF inv, of s] current(1) by simp
  then have "ours ac sa' s" unfolding current(4) ours_header [OF ac_invD(1) [OF inv] ours_valid [OF o]] using ours_headers(1) [OF o] by simp
  then show ?thesis using current o at_slab_upd [OF ac_invD(1) [OF inv] ours_valid [OF o]] by (intro that [of s]) auto
qed

text \<open>From the mark on a slab to the end of \<open>startSlabRelease\<close>.\<close>

lemma prune_to_end:
  assumes inv: "sys_inv (\<sigma>\<lparr>sys_phase := Marked mode s\<rparr>)" and sa: "sys_sa \<sigma> = sa" "sys_ac \<sigma> = ac" and o: "ours ac sa s"
  shows "\<exists>b as ac'. pruneFreeAllocs abort s (sa, ac) = Some ((b, as), sa, ac') \<and> ac_ids ac' = ac_ids ac \<and>
    (if b then sys_inv (\<sigma>\<lparr>sys_ac := ac', sys_phase := Aborting s\<rparr>) \<and> (\<exists>j. abort j)
     else sys_inv (\<sigma>\<lparr>sys_ac := ac', sys_phase := Deciding mode s as\<rparr>))"
proof -
  obtain l ac1 where l: "prune_begin s (sa, ac) = (l, sa, ac1)" "ac_ids ac1 = ac_ids ac" by (simp add: prune_begin_def ac_ids_def)
  have S: "sys_inv (\<sigma>\<lparr>sys_ac := ac1, sys_phase := Scanning mode s l\<rparr>)" (is "sys_inv ?\<sigma>")
    using begin_inv [OF inv, of mode s l sa ac1] l sa unfolding sa(1) [symmetric] by simp
  from pruneLoop_inv [OF S, of mode s l sa ac1 abort 0] sa obtain b ac' where
    p: "pruneLoop abort 0 sa s l ac1 = Some (b, ac')" "sys_inv (\<sigma>\<lparr>sys_ac := ac', sys_phase := (if b then Aborting s else Counting mode s)\<rparr>)" "b \<longrightarrow> (\<exists>j. abort j)"
    by auto
  have ids: "ac_ids ac' = ac_ids ac" using pruneLoop_ids [OF p(1)] l(2) by simp
  show ?thesis
  proof (cases b)
    case True
    then show ?thesis using p ids l by (auto simp: pruneFreeAllocs_def)
  next
    case False
    obtain st where "slabReleaseAllocMap ac' s = Some st" using sys_invD(2) [OF p(2)] False by auto
    then obtain as where as: "prune_collect s ac' = Some as" using prune_collect_Some by blast
    have "sys_inv (\<sigma>\<lparr>sys_ac := ac', sys_phase := Deciding mode s as\<rparr>)"
      using count_inv [of "\<sigma>\<lparr>sys_ac := ac', sys_phase := Counting mode s\<rparr>" mode s as] p(2) False as by simp
    then show ?thesis using p as False ids l by (auto simp: pruneFreeAllocs_def)
  qed
qed


lemma prune_end:
  assumes inv: "sys_inv \<lparr>sys_sa = sa1, sys_ac = ac1, sys_live = live, sys_phase = Marked mode s, sys_ctxs = ctxs\<rparr>"
    and at: "at_slab s sa sa1" and o: "ours ac sa s" "ours ac sa1 s"
    and eq: "(case pruneFreeAllocs abort s (sa1, ac1) of
             None \<Rightarrow> (Inl NotInMap, sa1, ac1)
           | Some ((True, _), s') \<Rightarrow> (Inl SlabReleaseAborted, startRelease_abort s s')
           | Some ((False, active), s') \<Rightarrow> (case startRelease_finish mode s active s' of (ctx, s') \<Rightarrow> (Inr ctx, s'))) = (res, sa', ac')"
    and ids: "ac_ids ac1 = ac_ids ac"
  shows "\<exists>s. at_slab s sa sa' \<and> ac_ids ac' = ac_ids ac \<and> (ours ac sa s \<or> sa' = sa) \<and>
    (\<forall>e. res = Inl e \<longrightarrow> ours ac sa' s = ours ac sa s \<and> sys_inv \<lparr>sys_sa = sa', sys_ac = ac', sys_live = live, sys_phase = Idle, sys_ctxs = ctxs\<rparr>) \<and>
    (\<forall>c. res = Inr c \<longrightarrow> s = ctx_slab c \<and> ours ac sa s \<and> ctx_mode c = mode \<and>
       (if isReleased c then classless (ac_poolId ac) sa' s else ours ac sa' s \<and> ctx_victim c = ac_classId ac) \<and>
       sys_inv \<lparr>sys_sa = sa', sys_ac = ac', sys_live = live, sys_phase = Idle, sys_ctxs = (if isReleased c then [] else [c]) @ ctxs\<rparr>)"
proof -
  have o1: "ours ac1 = ours ac" using ids by (simp add: ours_def ac_ids_def fun_eq_iff split: option.splits)
  have wf: "sa_wf sa1" "isValidSlab sa1 s" using at ours_valid [OF o(2)] by (simp_all add: at_slab_def)
  from prune_to_end [where \<sigma> = "\<lparr>sys_sa = sa1, sys_ac = ac1, sys_live = live, sys_phase = Idle, sys_ctxs = ctxs\<rparr>" and mode = mode and s = s and
      sa = sa1 and ac = ac1 and abort = abort] inv o(2) o1
  obtain b as ac2 where p: "pruneFreeAllocs abort s (sa1, ac1) = Some ((b, as), sa1, ac2)" "ac_ids ac2 = ac_ids ac1"
    "if b then sys_inv \<lparr>sys_sa = sa1, sys_ac = ac2, sys_live = live, sys_phase = Aborting s, sys_ctxs = ctxs\<rparr>
     else sys_inv \<lparr>sys_sa = sa1, sys_ac = ac2, sys_live = live, sys_phase = Deciding mode s as, sys_ctxs = ctxs\<rparr>" by (auto split: if_splits)
  show ?thesis
  proof (cases b)
    case True
    have e: "startRelease_abort s (sa1, ac2) = (sa', ac')" "res = Inl SlabReleaseAborted" using eq p True by simp_all
    have "sys_inv \<lparr>sys_sa = sa', sys_ac = ac', sys_live = live, sys_phase = Idle, sys_ctxs = ctxs\<rparr>"
      using aborted_inv [of "\<lparr>sys_sa = sa1, sys_ac = ac2, sys_live = live, sys_phase = Aborting s, sys_ctxs = ctxs\<rparr>" s sa' ac'] p(3) True e(1) by simp
    moreover have sa': "sa' = upd_header s (setMarkedForRelease False) sa1" using e(1) by (simp add: startRelease_abort_def)
    moreover have "ours ac sa' s" unfolding sa' ours_header [OF wf] using ours_headers(1) [OF o(2)] by simp
    moreover have "at_slab s sa sa'" unfolding sa' by (rule at_slab_trans [OF at at_slab_upd [OF wf]])
    ultimately show ?thesis using o(1) e(2) release_ids(4) [OF e(1)] p(2) ids by (intro exI [of _ s]) auto
  next
    case False
    obtain ctx where e: "startRelease_finish mode s as (sa1, ac2) = (ctx, sa', ac')" "res = Inr ctx" using eq p False by (auto split: prod.splits)
    have I: "sys_inv \<lparr>sys_sa = sa', sys_ac = ac', sys_live = live, sys_phase = Idle, sys_ctxs = (if as = [] then [] else [ctx]) @ ctxs\<rparr>"
      using finish_inv [of "\<lparr>sys_sa = sa1, sys_ac = ac2, sys_live = live, sys_phase = Deciding mode s as, sys_ctxs = ctxs\<rparr>" mode s as ctx sa' ac'] p(3) False e(1) by simp
    have c: "ctx_slab ctx = s" "ctx_mode ctx = mode" "isReleased ctx \<longleftrightarrow> as = []" "as \<noteq> [] \<longrightarrow> sa' = sa1 \<and> ctx_victim ctx = ac_classId ac"
      using e(1) ours_headers(1) [OF o(2)] by (auto simp: startRelease_finish_def mkContext_def isReleased_def Let_def split: if_splits)
    have "classless (ac_poolId ac) sa' s \<and> at_slab s sa sa'" if "as = []"
    proof -
      have sa': "sa' = upd_header s (\<lambda>h. setMarkedForRelease False (h\<lparr>sh_classId := kInvalidClassId, sh_allocSize := 0\<rparr>)) sa1"
        using e(1) that by (auto simp: startRelease_finish_def Let_def)
      have "classless (ac_poolId ac) sa' s" unfolding sa' by (rule classless_upd [OF wf(1) o(2)]) (simp_all add: header_bits)
      then show ?thesis using at_slab_trans [OF at at_slab_upd [OF wf]] by (simp add: sa')
    qed
    then show ?thesis using c I e(2) o at release_ids(5) [OF e(1)] p(2) ids by (intro exI [of _ s]) auto
  qed
qed

text \<open>What \<open>startSlabRelease\<close> leaves: the invariant, and at most one slab whose header differs.\<close>

lemma startSlabRelease_inv:
  assumes inv: "sys_inv \<lparr>sys_sa = sa, sys_ac = ac, sys_live = live, sys_phase = Idle, sys_ctxs = ctxs\<rparr>"
    and r: "allocatedSlabs ac \<noteq> [] \<longrightarrow> r < length (allocatedSlabs ac)"
    and eq: "ac_startSlabRelease mode hint r abort (sa, ac) = (res, sa', ac')"
  shows "\<exists>s. at_slab s sa sa' \<and> ac_ids ac' = ac_ids ac \<and> (ours ac sa s \<or> sa' = sa) \<and>
    (\<forall>e. res = Inl e \<longrightarrow> ours ac sa' s = ours ac sa s \<and> sys_inv \<lparr>sys_sa = sa', sys_ac = ac', sys_live = live, sys_phase = Idle, sys_ctxs = ctxs\<rparr>) \<and>
    (\<forall>c. res = Inr c \<longrightarrow> s = ctx_slab c \<and> ours ac sa s \<and> ctx_mode c = mode \<and>
       (if isReleased c then classless (ac_poolId ac) sa' s else ours ac sa' s \<and> ctx_victim c = ac_classId ac) \<and>
       sys_inv \<lparr>sys_sa = sa', sys_ac = ac', sys_live = live, sys_phase = Idle, sys_ctxs = (if isReleased c then [] else [c]) @ ctxs\<rparr>)"
proof (cases "case hint of None \<Rightarrow> False | Some m \<Rightarrow> \<not> isValidSlab sa (getSlabForMemory m)")
  case True
  then have "res = Inl InvalidHint" "sa' = sa" "ac' = ac" using eq unfolding ac_startSlabRelease_def by (cases hint; simp)+
  then show ?thesis using inv sys_invD(1) [OF inv] by (auto intro!: exI [of _ 0] at_slab_refl dest: ac_invD(1))
next
  case nh: False
  note I = sys_invD [OF inv, unfolded ac_sys.simps phase_list.simps]
  have unf: "ac_startSlabRelease mode hint r abort (sa, ac) = (case startRelease_choose mode hint r (sa, ac) of
        (Inl e, s) \<Rightarrow> (Inl e, s)
      | (Inr (Released ctx), s) \<Rightarrow> (Inr ctx, s)
      | (Inr (Prune slab), s) \<Rightarrow>
          (case pruneFreeAllocs abort slab s of
             None \<Rightarrow> (Inl NotInMap, s)
           | Some ((True, _), s) \<Rightarrow> (Inl SlabReleaseAborted, startRelease_abort slab s)
           | Some ((False, active), s) \<Rightarrow> (case startRelease_finish mode slab active s of (ctx, s) \<Rightarrow> (Inr ctx, s))))"
    using nh unfolding ac_startSlabRelease_def by (cases hint) simp_all
  obtain res1 sa1 ac1 where c: "startRelease_choose mode hint r (sa, ac) = (res1, sa1, ac1)" by (metis prod_cases3)
  note inv1 = choose_inv [OF I(1) r c] and Q = quiet_keeps [OF choose_quiet(1) [OF I(1) r c] I(2,3)]
  have ids: "ac_ids ac1 = ac_ids ac" by (rule choose_ids [OF c])
  obtain s where S: "at_slab s sa sa1" "ours ac sa s \<or> sa1 = sa" "\<And>e. res1 = Inl e \<Longrightarrow> ours ac sa1 s = ours ac sa s"
    "\<And>c. res1 = Inr (Released c) \<Longrightarrow> s = ctx_slab c \<and> ours ac sa s \<and> classless (ac_poolId ac) sa1 s \<and> isReleased c \<and> ctx_mode c = mode"
    "\<And>t. res1 = Inr (Prune t) \<Longrightarrow> t = s \<and> ours ac sa s \<and> ours ac sa1 s" by (rule choose_at [OF I(1) r c]) blast
  have base: "sys_inv \<lparr>sys_sa = sa1, sys_ac = ac1, sys_live = live, sys_phase = Idle, sys_ctxs = ctxs\<rparr>"
    using inv1 Q by (simp add: sys_inv_def)
  consider e where "res1 = Inl e" | ctx where "res1 = Inr (Released ctx)" | "res1 = Inr (Prune s)"
    using S(5) by (cases res1) (metis release_start.exhaust)+
  then show ?thesis
  proof cases
    case 1
    then have "res = Inl e" "sa' = sa1" "ac' = ac1" using eq c unfolding unf by auto
    then show ?thesis using S(1-3) base ids 1 by blast
  next
    case 2
    then have "res = Inr ctx" "sa' = sa1" "ac' = ac1" using eq c unfolding unf by auto
    then show ?thesis using S(1) S(4) [OF 2] base ids by auto
  next
    case 3
    have M: "sys_inv \<lparr>sys_sa = sa1, sys_ac = ac1, sys_live = live, sys_phase = Marked mode s, sys_ctxs = ctxs\<rparr>"
      using prune_inv [OF inv, of r mode hint s sa1 ac1] r c 3 by simp
    show ?thesis by (rule prune_end [OF M S(1) _ _ _ ids]) (use S(5) [OF 3] eq [unfolded unf c 3] in auto)
  qed
qed


lemma completeSlabRelease_inv:
  assumes inv: "sys_inv \<lparr>sys_sa = sa, sys_ac = ac, sys_live = live, sys_phase = Idle, sys_ctxs = ctxs\<rparr>" and c: "c \<in> set ctxs"
    and eq: "ac_completeSlabRelease c (sa, ac) = Some (res, sa', ac')"
  shows "res = Inr () \<and> sys_inv \<lparr>sys_sa = sa', sys_ac = ac', sys_live = live, sys_phase = Idle, sys_ctxs = remove1 c ctxs\<rparr> \<and>
    at_slab (ctx_slab c) sa sa' \<and> ours ac sa (ctx_slab c) \<and> classless (ac_poolId ac) sa' (ctx_slab c)"
proof -
  note I = sys_invD [OF inv, unfolded ac_sys.simps phase_list.simps]
  note C = ctxs_remove1 [OF I(3) c]
  obtain st where st: "slabReleaseAllocMap ac (ctx_slab c) = Some st" using C(2) by blast
  note D = ac_invD [OF I(1)]
  have o: "ours ac sa (ctx_slab c)" using D(13) [OF st] .
  have chk: "completeRelease_check c (sa, ac)" using o D(14) [OF st]
    by (auto simp: completeRelease_check_def ours_def marked_def split: option.splits)
  have e: "res = Inr ()" "completeRelease_done (ctx_slab c) (sa, ac) = (sa', ac')"
    using eq C(5) chk st by (auto simp: ac_completeSlabRelease_def allFreed_def split: bool.splits)
  then have "sys_inv \<lparr>sys_sa = sa', sys_ac = ac', sys_live = live, sys_phase = Idle, sys_ctxs = remove1 c ctxs\<rparr>"
    using complete_inv [OF inv, of c sa' ac'] c eq by simp
  moreover have sa': "sa' = upd_header (ctx_slab c) (\<lambda>h. setMarkedForRelease False (h\<lparr>sh_classId := kInvalidClassId, sh_allocSize := 0\<rparr>)) sa"
    using e(2) by (simp add: completeRelease_done_def)
  moreover have "classless (ac_poolId ac) sa' (ctx_slab c)" unfolding sa' by (rule classless_upd [OF D(1) o]) (simp_all add: header_bits)
  ultimately show ?thesis using e(1) o at_slab_upd [OF D(1) ours_valid [OF o]] by simp
qed

lemma abortSlabRelease_inv:
  assumes inv: "sys_inv \<lparr>sys_sa = sa, sys_ac = ac, sys_live = live, sys_phase = Idle, sys_ctxs = ctxs\<rparr>" and c: "c \<in> set ctxs"
    and eq: "ac_abortSlabRelease c (sa, ac) = (res, sa', ac')"
  shows "res = Inr () \<and> sys_inv \<lparr>sys_sa = sa', sys_ac = ac', sys_live = live, sys_phase = Idle, sys_ctxs = remove1 c ctxs\<rparr> \<and>
    at_slab (ctx_slab c) sa sa' \<and> ours ac sa (ctx_slab c) \<and> ours ac sa' (ctx_slab c)"
proof -
  note I = sys_invD [OF inv, unfolded ac_sys.simps phase_list.simps]
  note C = ctxs_remove1 [OF I(3) c]
  obtain st where st: "slabReleaseAllocMap ac (ctx_slab c) = Some st" using C(2) by blast
  note D = ac_invD [OF I(1)]
  have o: "ours ac sa (ctx_slab c)" using D(13) [OF st] .
  have e: "res = Inr ()" and sa': "sa' = upd_header (ctx_slab c) (\<lambda>h. setMarkedForRelease False (h\<lparr>sh_classId := ac_classId ac, sh_allocSize := allocationSize ac\<rparr>)) sa"
    using eq C(5) by (auto simp: ac_abortSlabRelease_def Let_def)
  have "sys_inv \<lparr>sys_sa = sa', sys_ac = ac', sys_live = live, sys_phase = Idle, sys_ctxs = remove1 c ctxs\<rparr>"
    using cancel_inv [OF inv, of c sa' ac'] c eq e by simp
  moreover have "ours ac sa' (ctx_slab c)" unfolding sa' ours_header [OF D(1) ours_valid [OF o]] using ours_headers(1) [OF o] by simp
  ultimately show ?thesis using e o at_slab_upd [OF D(1) ours_valid [OF o]] by (simp add: sa')
qed

lemma others_sys_inv:
  assumes "sys_inv \<lparr>sys_sa = sa, sys_ac = ac, sys_live = live, sys_phase = Idle, sys_ctxs = ctxs\<rparr>" "sa_wf sa'"
    "\<And>t. t \<noteq> s \<Longrightarrow> getSlabHeader sa' t = getSlabHeader sa t" "\<not> ours ac sa s" "\<not> ours ac sa' s"
  shows "sys_inv \<lparr>sys_sa = sa', sys_ac = ac, sys_live = live, sys_phase = Idle, sys_ctxs = ctxs\<rparr>"
proof -
  have o: "ours ac sa' t = ours ac sa t" for t using assms(3) [of t] assms(4,5) by (cases "t = s") (simp_all add: ours_def)
  have h: "getSlabHeader sa' t = getSlabHeader sa t" if "ours ac sa t" for t using that assms(3) [of t] assms(4) by blast
  have "ac_step False \<lparr>sys_sa = sa, sys_ac = ac, sys_live = live, sys_phase = Idle, sys_ctxs = ctxs\<rparr>
      (\<lparr>sys_sa = sa, sys_ac = ac, sys_live = live, sys_phase = Idle, sys_ctxs = ctxs\<rparr>\<lparr>sys_sa := sa'\<rparr>)"
    by (rule ac_step.step_others) (use assms(2) o h in auto)
  from ac_step_inv [OF this assms(1)] show ?thesis by simp
qed

end
