(* ===== verification/PoolSlabs.thy ===== *)
theory PoolSlabs
  imports MemoryPool ReleaseOps
begin

text \<open>The slabs of a pool. The invariant of a pool in use says that every slab with the number of the pool in its header
  is in exactly one place, a class or the list of free slabs of the pool, that each class keeps the invariant of its own
  system, and that the two sizes count slabs and bytes. The lemmas move one slab between the allocator of slabs, the
  pool and its classes.\<close>

section \<open>Slabs of a pool\<close>

definition in_pool :: "int \<Rightarrow> SlabAllocator \<Rightarrow> addr \<Rightarrow> int \<Rightarrow> bool" where
  "in_pool pid sa s k \<longleftrightarrow> (case getSlabHeader sa s of None \<Rightarrow> False | Some h \<Rightarrow> sh_poolId h = pid \<and> sh_classId h = k)"

lemma in_pool_ours: "ac_ids ac = (k, pid, n) \<Longrightarrow> in_pool pid sa s k \<longleftrightarrow> ours ac sa s"
  by (auto simp: in_pool_def ours_def ac_ids_def split: option.splits)

lemma in_pool_classless: "classless pid sa s \<Longrightarrow> in_pool pid sa s k \<longleftrightarrow> k = kInvalidClassId"
  by (auto simp: in_pool_def classless_def)

lemma in_pool_unique: "in_pool pid sa s k \<Longrightarrow> in_pool pid sa s k' \<Longrightarrow> k = k'"
  by (auto simp: in_pool_def split: option.splits)

definition live_of :: "int \<Rightarrow> SlabAllocator \<Rightarrow> addr set \<Rightarrow> nat \<Rightarrow> addr set" where
  "live_of pid sa live i = {a \<in> live. in_pool pid sa (getSlabForMemory a) (int i)}"

definition ctxs_of :: "SlabReleaseContext list \<Rightarrow> nat \<Rightarrow> SlabReleaseContext list" where
  "ctxs_of ctxs i = filter (\<lambda>c. ctx_victim c = int i) ctxs"

abbreviation class_sys :: "SlabAllocator \<Rightarrow> AllocationClass \<Rightarrow> addr set \<Rightarrow> SlabReleaseContext list \<Rightarrow> ac_sys" where
  "class_sys sa ac live ctxs \<equiv> \<lparr>sys_sa = sa, sys_ac = ac, sys_live = live, sys_phase = Idle, sys_ctxs = ctxs\<rparr>"

definition mp_classes :: "SlabAllocator \<Rightarrow> MemoryPool \<Rightarrow> addr set \<Rightarrow> SlabReleaseContext list \<Rightarrow> bool" where
  "mp_classes sa mp live ctxs \<longleftrightarrow> length (acSizes mp) = length (mp_ac mp) \<and> (\<forall>i < length (mp_ac mp).
     ac_ids (mp_ac mp ! i) = (int i, mp_id mp, acSizes mp ! i) \<and>
     sys_inv (class_sys sa (mp_ac mp ! i) (live_of (mp_id mp) sa live i) (ctxs_of ctxs i)))"

lemma mp_classes_at:
  assumes cl: "mp_classes sa mp live ctxs" and wf: "sa_wf sa'" and off: "\<And>t. t \<noteq> s \<Longrightarrow> getSlabHeader sa' t = getSlabHeader sa t"
    and mp': "mp_id mp' = mp_id mp" "acSizes mp' = acSizes mp" "mp_ac mp' = (mp_ac mp)[i := ac']"
    and i: "i < length (mp_ac mp) \<Longrightarrow> ac_ids ac' = ac_ids (mp_ac mp ! i) \<and> sys_inv (class_sys sa' ac' (live_of (mp_id mp) sa' live' i) (ctxs_of ctxs' i))"
    and j: "\<And>j. j \<noteq> i \<Longrightarrow> j < length (mp_ac mp) \<Longrightarrow> \<not> in_pool (mp_id mp) sa s (int j) \<and> \<not> in_pool (mp_id mp) sa' s (int j) \<and>
        live_of (mp_id mp) sa' live' j = live_of (mp_id mp) sa live j \<and> ctxs_of ctxs' j = ctxs_of ctxs j"
  shows "mp_classes sa' mp' live' ctxs'"
  unfolding mp_classes_def
proof (intro conjI allI impI)
  show "length (acSizes mp') = length (mp_ac mp')" using cl by (simp add: mp_classes_def mp')
  fix k assume "k < length (mp_ac mp')"
  then have k: "k < length (mp_ac mp)" by (simp add: mp'(3))
  have C: "ac_ids (mp_ac mp ! k) = (int k, mp_id mp, acSizes mp ! k)" "sys_inv (class_sys sa (mp_ac mp ! k) (live_of (mp_id mp) sa live k) (ctxs_of ctxs k))"
    using cl k by (simp_all add: mp_classes_def)
  show "ac_ids (mp_ac mp' ! k) = (int k, mp_id mp', acSizes mp' ! k)" using C(1) i k by (cases "k = i") (simp_all add: mp')
  show "sys_inv (class_sys sa' (mp_ac mp' ! k) (live_of (mp_id mp') sa' live' k) (ctxs_of ctxs' k))"
  proof (cases "k = i")
    case False
    have "sys_inv (class_sys sa' (mp_ac mp ! k) (live_of (mp_id mp) sa live k) (ctxs_of ctxs k))"
      by (rule others_sys_inv [OF C(2) wf off]) (use j [OF False k] in_pool_ours [OF C(1)] in auto)
    then show ?thesis using j [OF False k] False by (simp add: mp')
  qed (use i k in \<open>simp add: mp'\<close>)
qed

text \<open>The state of a pool in use: the chunks clients hold, the releases in progress, and how many slabs were released
  from the free slabs of the pool. \<open>H\<close> are slabs on their way between two lists, \<open>d\<close> the slabs that the size counts
  although they are in no class.\<close>

record mp_sys =
  ms_sa :: SlabAllocator
  ms_mp :: MemoryPool
  ms_live :: "addr set"
  ms_ctxs :: "SlabReleaseContext list"
  ms_taken :: nat

definition slab_class :: "SlabAllocator \<Rightarrow> addr \<Rightarrow> nat" where
  "slab_class sa s = (case getSlabHeader sa s of None \<Rightarrow> 0 | Some h \<Rightarrow> nat (sh_classId h))"

definition class_slabs :: "SlabAllocator \<Rightarrow> MemoryPool \<Rightarrow> addr set" where
  "class_slabs sa mp = {s. \<exists>i < length (mp_ac mp). in_pool (mp_id mp) sa s (int i)}"

definition live_bytes :: "SlabAllocator \<Rightarrow> MemoryPool \<Rightarrow> addr set \<Rightarrow> nat" where
  "live_bytes sa mp live = (\<Sum>a \<in> live. acSizes mp ! slab_class sa (getSlabForMemory a))"

definition pool_slabs_ok :: "addr list \<Rightarrow> SlabAllocator \<Rightarrow> MemoryPool \<Rightarrow> bool" where
  "pool_slabs_ok H sa mp \<longleftrightarrow> sa_wf sa \<and> 0 \<le> mp_id mp \<and> distinct (mp_freeSlabs mp @ H) \<and>
     (\<forall>s \<in> set (mp_freeSlabs mp @ H). classless (mp_id mp) sa s) \<and>
     (\<forall>s k. in_pool (mp_id mp) sa s k \<longrightarrow> s \<in> set (mp_freeSlabs mp @ H) \<or> s \<in> class_slabs sa mp) \<and>
     (\<forall>s \<in> set (sa_freeSlabs sa @ advisedSlabs sa). \<forall>k. \<not> in_pool (mp_id mp) sa s k)"

text \<open>A release names one of the classes, and a receiver only when slabs are moved between classes.\<close>

definition ctx_valid :: "nat \<Rightarrow> SlabReleaseContext \<Rightarrow> bool" where
  "ctx_valid n c \<longleftrightarrow> (\<exists>i < n. ctx_victim c = int i) \<and>
     (ctx_receiver c = kInvalidClassId \<or> ctx_mode c = kRebalance \<and> (\<exists>j < n. ctx_receiver c = int j))"

definition mp_inv :: "addr list \<Rightarrow> int \<Rightarrow> mp_sys \<Rightarrow> bool" where
  "mp_inv H d \<sigma> \<longleftrightarrow> pool_slabs_ok H (ms_sa \<sigma>) (ms_mp \<sigma>) \<and> mp_classes (ms_sa \<sigma>) (ms_mp \<sigma>) (ms_live \<sigma>) (ms_ctxs \<sigma>) \<and>
     finite (ms_live \<sigma>) \<and> (\<forall>a \<in> ms_live \<sigma>. getSlabForMemory a \<in> class_slabs (ms_sa \<sigma>) (ms_mp \<sigma>)) \<and>
     (\<forall>c \<in> set (ms_ctxs \<sigma>). ctx_valid (length (mp_ac (ms_mp \<sigma>))) c) \<and>
     currSlabAllocSize (ms_mp \<sigma>) = word_of_int (int kSize * (int (card (class_slabs (ms_sa \<sigma>) (ms_mp \<sigma>))) - int (ms_taken \<sigma>) + d)) \<and>
     currAllocSize (ms_mp \<sigma>) = word_of_nat (live_bytes (ms_sa \<sigma>) (ms_mp \<sigma>) (ms_live \<sigma>)) \<and>
     acSizes (ms_mp \<sigma>) \<noteq> [] \<and> sorted_wrt (<) (acSizes (ms_mp \<sigma>))"

lemma mp_invD:
  assumes "mp_inv H d \<sigma>"
  shows "pool_slabs_ok H (ms_sa \<sigma>) (ms_mp \<sigma>)" "mp_classes (ms_sa \<sigma>) (ms_mp \<sigma>) (ms_live \<sigma>) (ms_ctxs \<sigma>)" "finite (ms_live \<sigma>)"
    "a \<in> ms_live \<sigma> \<Longrightarrow> getSlabForMemory a \<in> class_slabs (ms_sa \<sigma>) (ms_mp \<sigma>)"
    "c \<in> set (ms_ctxs \<sigma>) \<Longrightarrow> ctx_valid (length (mp_ac (ms_mp \<sigma>))) c"
    "currSlabAllocSize (ms_mp \<sigma>) = word_of_int (int kSize * (int (card (class_slabs (ms_sa \<sigma>) (ms_mp \<sigma>))) - int (ms_taken \<sigma>) + d))"
    "currAllocSize (ms_mp \<sigma>) = word_of_nat (live_bytes (ms_sa \<sigma>) (ms_mp \<sigma>) (ms_live \<sigma>))"
    "acSizes (ms_mp \<sigma>) \<noteq> [] \<and> sorted_wrt (<) (acSizes (ms_mp \<sigma>))"
  using assms by (simp_all add: mp_inv_def)

lemma pool_slabs_okD:
  assumes "pool_slabs_ok H sa mp"
  shows "sa_wf sa" "0 \<le> mp_id mp" "distinct (mp_freeSlabs mp @ H)" "s \<in> set (mp_freeSlabs mp @ H) \<Longrightarrow> classless (mp_id mp) sa s"
    "in_pool (mp_id mp) sa s k \<Longrightarrow> s \<in> set (mp_freeSlabs mp @ H) \<or> s \<in> class_slabs sa mp"
    "s \<in> set (sa_freeSlabs sa @ advisedSlabs sa) \<Longrightarrow> \<not> in_pool (mp_id mp) sa s k"
  using assms unfolding pool_slabs_ok_def by blast+

lemma mp_classesD:
  assumes "mp_classes sa mp live ctxs" "i < length (mp_ac mp)"
  shows "ac_ids (mp_ac mp ! i) = (int i, mp_id mp, acSizes mp ! i)"
    "sys_inv (class_sys sa (mp_ac mp ! i) (live_of (mp_id mp) sa live i) (ctxs_of ctxs i))"
  using assms by (simp_all add: mp_classes_def)

lemma in_pool_off: "getSlabHeader sa' t = getSlabHeader sa t \<Longrightarrow> in_pool pid sa' t k = in_pool pid sa t k" "getSlabHeader sa' t = getSlabHeader sa t \<Longrightarrow> slab_class sa' t = slab_class sa t"
  by (simp_all add: in_pool_def slab_class_def)

lemma in_pool_class: "in_pool pid sa s (int i) \<Longrightarrow> slab_class sa s = i"
  by (auto simp: in_pool_def slab_class_def split: option.splits)

lemma class_slabs_iff: "s \<in> class_slabs sa mp \<longleftrightarrow> (\<exists>i < length (mp_ac mp). in_pool (mp_id mp) sa s (int i))"
  by (simp add: class_slabs_def)

lemma finite_class_slabs: "finite (class_slabs sa mp)"
  by (rule finite_subset [OF _ finite_validSlabs [of sa]])
    (auto simp: class_slabs_def in_pool_def getSlabHeader_def validSlabs_def split: option.splits if_splits)

lemma mp_inv_slab:
  assumes inv: "mp_inv H d \<sigma>" and s: "ms_sa \<sigma> = sa" "ms_mp \<sigma> = mp" "ms_live \<sigma> = live" "ms_ctxs \<sigma> = ctxs"
    and wf: "sa_wf sa'" and off: "\<And>t. t \<noteq> s \<Longrightarrow> getSlabHeader sa' t = getSlabHeader sa t"
    and mp': "mp_id mp' = mp_id mp" "acSizes mp' = acSizes mp" "mp_ac mp' = (mp_ac mp)[i := ac']" "currAllocSize mp' = currAllocSize mp"
    and i: "i < length (mp_ac mp) \<Longrightarrow> ac_ids ac' = ac_ids (mp_ac mp ! i) \<and> sys_inv (class_sys sa' ac' (live_of (mp_id mp) sa live i) (ctxs_of ctxs' i))"
    and j: "\<And>j. j \<noteq> i \<Longrightarrow> j < length (mp_ac mp) \<Longrightarrow> \<not> in_pool (mp_id mp) sa s (int j) \<and> \<not> in_pool (mp_id mp) sa' s (int j) \<and> ctxs_of ctxs' j = ctxs_of ctxs j"
    and ctx: "\<And>c. c \<in> set ctxs' \<Longrightarrow> ctx_valid (length (mp_ac mp)) c"
    and pool: "pool_slabs_ok H' sa' mp'"
    and sz: "currSlabAllocSize mp' = word_of_int (int kSize * (int (card (class_slabs sa' mp')) - int taken' + d'))"
  shows "mp_inv H' d' \<lparr>ms_sa = sa', ms_mp = mp', ms_live = live, ms_ctxs = ctxs', ms_taken = taken'\<rparr>"
proof -
  note M = mp_invD [OF inv, unfolded s]
  let ?p = "mp_id mp" and ?n = "length (mp_ac mp)"
  have li: "\<exists>k < ?n. in_pool ?p sa (getSlabForMemory a) (int k)" if "a \<in> live" for a using M(4) [OF that] by (simp add: class_slabs_iff)
  have at: "i < ?n \<and> in_pool ?p sa s (int i)" if "a \<in> live" "getSlabForMemory a = s" for a using li [OF that(1)] that(2) j by metis
  have stay: "in_pool ?p sa' s (int i)" if a: "a \<in> live" "getSlabForMemory a = s" for a
  proof -
    note I = i [OF conjunct1 [OF at [OF a]]]
    have "a \<in> live_of ?p sa live i" using a at [OF a] by (simp add: live_of_def)
    then have "ours ac' sa' s" using ac_inv_in_slab(1) [OF sys_invD(1) [OF conjunct2 [OF I]], of a] a(2) by simp
    moreover have "ac_ids ac' = (int i, ?p, acSizes mp ! i)" using I mp_classesD(1) [OF M(2)] at [OF a] by simp
    ultimately show ?thesis using in_pool_ours by blast
  qed
  have same: "in_pool ?p sa' (getSlabForMemory a) (int k) = in_pool ?p sa (getSlabForMemory a) (int k)"
    "slab_class sa' (getSlabForMemory a) = slab_class sa (getSlabForMemory a)" if "a \<in> live" for a k
    using in_pool_off [OF off, of "getSlabForMemory a"] at [OF that] stay [OF that] in_pool_unique [of ?p sa' s] in_pool_unique [of ?p sa s]
      in_pool_class [of ?p sa' s i] in_pool_class [of ?p sa s i] by metis+
  have lo: "live_of ?p sa' live k = live_of ?p sa live k" for k using same(1) by (auto simp: live_of_def)
  have "mp_classes sa' mp' live ctxs'"
    by (rule mp_classes_at [OF M(2) wf off mp'(1-3)]) (use i j lo in auto)
  moreover have "getSlabForMemory a \<in> class_slabs sa' mp'" if "a \<in> live" for a
    using li [OF that] same(1) [OF that] by (simp add: class_slabs_iff mp')
  moreover have "live_bytes sa' mp' live = live_bytes sa mp live" using same(2) by (simp add: live_bytes_def mp')
  ultimately show ?thesis using M(3,7,8) ctx pool sz by (simp add: mp_inv_def mp')
qed

text \<open>No class changes.\<close>

lemma mp_inv_pool:
  assumes inv: "mp_inv H d \<sigma>" and s: "ms_sa \<sigma> = sa" "ms_mp \<sigma> = mp"
    and wf: "sa_wf sa'" and off: "\<And>t. t \<noteq> s \<Longrightarrow> getSlabHeader sa' t = getSlabHeader sa t"
    and mp': "mp_id mp' = mp_id mp" "acSizes mp' = acSizes mp" "mp_ac mp' = mp_ac mp" "currAllocSize mp' = currAllocSize mp"
    and j: "s \<notin> class_slabs sa mp" "s \<notin> class_slabs sa' mp"
    and pool: "pool_slabs_ok H' sa' mp'"
    and sz: "currSlabAllocSize mp' = currSlabAllocSize mp + word_of_int (int kSize * (d' - d - int taken' + int (ms_taken \<sigma>)))"
  shows "mp_inv H' d' \<lparr>ms_sa = sa', ms_mp = mp', ms_live = ms_live \<sigma>, ms_ctxs = ms_ctxs \<sigma>, ms_taken = taken'\<rparr>"
proof (rule mp_inv_slab [OF inv s refl refl wf off mp'(1,2), where i = "length (mp_ac mp)" and ac' = undefined])
  have "class_slabs sa' mp' = class_slabs sa mp"
  proof (rule set_eqI)
    fix t show "t \<in> class_slabs sa' mp' \<longleftrightarrow> t \<in> class_slabs sa mp"
      using j in_pool_off(1) [OF off, of t] by (cases "t = s") (auto simp: class_slabs_iff mp')
  qed
  then show "currSlabAllocSize mp' = word_of_int (int kSize * (int (card (class_slabs sa' mp')) - int taken' + d'))"
    using mp_invD(6) [OF inv] s unfolding sz by (simp add: algebra_simps flip: wi_hom_add wi_hom_sub wi_hom_mult)
  show "mp_ac mp' = (mp_ac mp)[length (mp_ac mp) := undefined]" using mp'(3) by (simp add: list_update_beyond)
qed (use mp' j pool mp_invD(5) [OF inv] s in \<open>auto simp: class_slabs_iff\<close>)

text \<open>What the slab allocator does to the header of the slab it hands out or takes back.\<close>

definition in_reserve :: "SlabAllocator \<Rightarrow> addr \<Rightarrow> bool" where
  "in_reserve sa s \<longleftrightarrow> s \<in> set (sa_freeSlabs sa @ advisedSlabs sa)"

lemma in_reserve_upd [simp]: "in_reserve (upd_header s f sa) = in_reserve sa" "in_reserve (sa\<lparr>memoryPoolSize := g\<rparr>) = in_reserve sa"
  "in_reserve (sa\<lparr>sa_canAllocate := b\<rparr>) = in_reserve sa"
  by (simp_all add: in_reserve_def fun_eq_iff)

lemma in_reserve_append: "in_reserve (sa\<lparr>sa_freeSlabs := sa_freeSlabs sa @ [s]\<rparr>) t \<longleftrightarrow> in_reserve sa t \<or> t = s"
  "in_reserve (sa\<lparr>advisedSlabs := advisedSlabs sa @ [s]\<rparr>) t \<longleftrightarrow> in_reserve sa t \<or> t = s"
  by (auto simp: in_reserve_def)

lemma initializeHeader_at:
  assumes "sa_wf sa" "isValidSlab sa s"
  shows "sa_wf (initializeHeader s pid sa)" "classless pid (initializeHeader s pid sa) s" "t \<noteq> s \<Longrightarrow> getSlabHeader (initializeHeader s pid sa) t = getSlabHeader sa t"
    "in_reserve (initializeHeader s pid sa) = in_reserve sa"
  using assms getSlabHeader_upd [OF assms, of "\<lambda>_. SlabHeader_init pid"] getSlabHeader_def [of sa s]
  by (auto simp: initializeHeader_def classless_def SlabHeader_init_def isMarkedForRelease_def sh_isFlagSet_def in_reserve_def)

lemma makeNewSlab_None:
  assumes "makeNewSlab pid sa = (None, sa')" "sa_wf sa"
  shows "sa_wf sa'" "getSlabHeader sa' = getSlabHeader sa" "in_reserve sa' = in_reserve sa"
  using assms by (auto simp: makeNewSlab_def makeNewSlabImpl_def sa_wf_def in_reserve_def Let_def split: if_splits)

lemma makeNewSlab_at:
  assumes eq: "makeNewSlab pid sa = (Some s, sa')" and wf: "sa_wf sa"
  shows "sa_wf sa'" "classless pid sa' s" "t \<noteq> s \<Longrightarrow> getSlabHeader sa' t = getSlabHeader sa t" "in_reserve sa' t \<longleftrightarrow> in_reserve sa t \<and> t \<noteq> s"
    "in_reserve sa s \<or> getSlabHeader sa s = None"
proof -
  obtain sa1 where sa1: "makeNewSlabImpl sa = (Some s, sa1)" and sa': "sa' = initializeHeader s pid (sa1\<lparr>memoryPoolSize := (memoryPoolSize sa1)(pid := memoryPoolSize sa1 pid + word_of_nat kSize)\<rparr>)"
    using eq by (auto simp: makeNewSlab_def Let_def split: prod.splits option.splits)
  have 1: "sa_wf sa1 \<and> isValidSlab sa1 s \<and> (\<forall>t. t \<noteq> s \<longrightarrow> getSlabHeader sa1 t = getSlabHeader sa t) \<and> (\<forall>t. in_reserve sa1 t \<longleftrightarrow> in_reserve sa t \<and> t \<noteq> s) \<and>
      (in_reserve sa s \<or> getSlabHeader sa s = None)"
  proof (cases "sa_freeSlabs sa = []")
    case False
    have d: "distinct (sa_freeSlabs sa)" "set (sa_freeSlabs sa) \<inter> set (advisedSlabs sa) = {}" "\<forall>s \<in> set (sa_freeSlabs sa). isValidSlab sa s" using wf by (auto simp: sa_wf_def)
    have s: "s = last (sa_freeSlabs sa)" "sa1 = sa\<lparr>sa_freeSlabs := butlast (sa_freeSlabs sa)\<rparr>" using sa1 False by (auto simp: makeNewSlabImpl_def split: if_splits)
    then have m: "s \<in> set (sa_freeSlabs sa)" "set (butlast (sa_freeSlabs sa)) = set (sa_freeSlabs sa) - {s}" using False set_butlast_distinct [OF d(1)] by simp_all
    have "sa_wf sa1" using wf False m unfolding s(2) by (auto simp: sa_wf_def distinct_butlast dest: in_set_butlastD)
    then show ?thesis using m d by (auto simp: s(2) in_reserve_def)
  next
    case True
    have s: "s = nextSlabAllocation sa" "sa1 = sa\<lparr>nextSlabAllocation := nextSlabAllocation sa + kSize\<rparr>" "\<not> allMemorySlabbed sa"
      using sa1 True by (auto simp: makeNewSlabImpl_def split: if_splits)
    note n = validSlabs_next [OF wf s(3), folded s(2), folded s(1)]
    have "isValidSlab sa1 t \<longleftrightarrow> t = s \<or> isValidSlab sa t" "\<not> isValidSlab sa s" for t using n(2,3) unfolding validSlabs_def by blast+
    moreover have "\<forall>t. in_reserve sa t \<longrightarrow> isValidSlab sa t" using wf by (auto simp: sa_wf_def in_reserve_def)
    moreover have "in_reserve sa1 t = in_reserve sa t" for t by (simp add: s(2) in_reserve_def)
    moreover have "sa_headers sa1 = sa_headers sa" "slabIdx sa1 p = slabIdx sa p" for p unfolding s(2) by simp_all
    ultimately show ?thesis using n(1) by (auto simp: getSlabHeader_def)
  qed
  have w: "sa_wf (sa1\<lparr>memoryPoolSize := (memoryPoolSize sa1)(pid := memoryPoolSize sa1 pid + word_of_nat kSize)\<rparr>)"
    "isValidSlab (sa1\<lparr>memoryPoolSize := (memoryPoolSize sa1)(pid := memoryPoolSize sa1 pid + word_of_nat kSize)\<rparr>) s" using 1 by simp_all
  note I = initializeHeader_at [OF w, where pid = pid, folded sa']
  show "sa_wf sa'" "classless pid sa' s" by (fact I)+
  show "getSlabHeader sa' t = getSlabHeader sa t" if "t \<noteq> s" using I(3) [OF that] 1 that by simp
  show "in_reserve sa' t \<longleftrightarrow> in_reserve sa t \<and> t \<noteq> s" "in_reserve sa s \<or> getSlabHeader sa s = None" using I(4) 1 by simp_all
qed

lemma reclaimSlab_at:
  assumes eq: "reclaimSlab pid sa = (Some s, sa')" and wf: "sa_wf sa"
  shows "sa_wf sa'" "classless pid sa' s" "t \<noteq> s \<Longrightarrow> getSlabHeader sa' t = getSlabHeader sa t" "in_reserve sa' t \<longleftrightarrow> in_reserve sa t \<and> t \<noteq> s"
    "in_reserve sa s"
proof -
  obtain rest where rest: "advisedSlabs sa = s # rest" using eq by (auto simp: reclaimSlab_def Let_def split: list.splits)
  let ?sa = "sa\<lparr>advisedSlabs := rest, memoryPoolSize := (memoryPoolSize sa)(pid := memoryPoolSize sa pid + word_of_nat kSize)\<rparr>"
  have sa': "sa' = initializeHeader s pid ?sa" using eq rest by (simp add: reclaimSlab_def Let_def)
  have "sa_wf (sa\<lparr>advisedSlabs := rest\<rparr>)" using wf rest by (auto simp: sa_wf_def)
  then have w: "sa_wf ?sa" by simp
  have v: "isValidSlab ?sa s" using wf rest by (auto simp: sa_wf_def)
  note I = initializeHeader_at [OF w v, where pid = pid, folded sa']
  have "in_reserve ?sa t \<longleftrightarrow> in_reserve sa t \<and> t \<noteq> s" for t using wf rest by (auto simp: in_reserve_def sa_wf_def)
  then show "in_reserve sa' t \<longleftrightarrow> in_reserve sa t \<and> t \<noteq> s" using I(4) by simp
  show "sa_wf sa'" "classless pid sa' s" by (fact I)+
  show "getSlabHeader sa' t = getSlabHeader sa t" if "t \<noteq> s" using I(3) [OF that] by simp
  show "in_reserve sa s" using rest by (simp add: in_reserve_def)
qed

lemma freeSlab_at:
  assumes wf: "sa_wf sa" and h: "getSlabHeader sa s = Some h" and n: "\<not> in_reserve sa s"
  obtains sa' where "freeSlab s sa = Inr sa'" "sa_wf sa'" "\<And>t. t \<noteq> s \<Longrightarrow> getSlabHeader sa' t = getSlabHeader sa t"
    "getSlabHeader sa' s = Some (resetAllocInfo h)" "\<And>t. in_reserve sa' t \<longleftrightarrow> in_reserve sa t \<or> t = s"
proof -
  define sa1 where "sa1 = sa\<lparr>memoryPoolSize := (memoryPoolSize sa)(sh_poolId h := memoryPoolSize sa (sh_poolId h) - word_of_nat kSize),
    sa_freeSlabs := sa_freeSlabs sa @ [s], sa_canAllocate := True\<rparr>"
  have v: "isValidSlab sa s" using h by (simp add: getSlabHeader_def split: if_splits)
  have f: "freeSlab s sa = Inr (upd_header s resetAllocInfo sa1)" by (simp add: freeSlab_def h Let_def sa1_def)
  have w: "sa_wf sa1" "isValidSlab sa1 s" using wf v n by (auto simp: sa1_def sa_wf_def in_reserve_def)
  have g: "getSlabHeader sa1 = getSlabHeader sa" by (simp add: sa1_def fun_eq_iff)
  have r: "in_reserve sa1 t \<longleftrightarrow> in_reserve sa t \<or> t = s" for t by (auto simp: sa1_def in_reserve_def)
  have w': "sa_wf (upd_header s resetAllocInfo sa1)" using w by simp
  show ?thesis by (rule that [OF f w']) (simp_all add: getSlabHeader_upd [OF w] g h r)
qed

lemma adviseSlab_at:
  assumes wf: "sa_wf sa" and h: "getSlabHeader sa s = Some h" and n: "\<not> in_reserve sa s"
  obtains sa' where "adviseSlab ok s sa = Inr (ok \<or> pretendMadvise sa, sa')" "sa_wf sa'" "\<And>t. t \<noteq> s \<Longrightarrow> getSlabHeader sa' t = getSlabHeader sa t"
    "getSlabHeader sa' s = Some (if ok \<or> pretendMadvise sa then resetAllocInfo (setAdvised True h) else setAdvised False (setAdvised True h))"
    "\<And>t. in_reserve sa' t \<longleftrightarrow> in_reserve sa t \<or> (ok \<or> pretendMadvise sa) \<and> t = s"
proof -
  have v: "isValidSlab sa s" using h by (simp add: getSlabHeader_def split: if_splits)
  define sa1 where "sa1 = upd_header s (setAdvised True) sa"
  have u: "sa_wf sa1" "isValidSlab sa1 s" "pretendMadvise sa1 = pretendMadvise sa" using wf v by (simp_all add: sa1_def)
  have h1: "getSlabHeader sa1 t = (if t = s then Some (setAdvised True h) else getSlabHeader sa t)" for t
    using getSlabHeader_upd [OF wf v] h by (simp add: sa1_def)
  have r1: "in_reserve sa1 = in_reserve sa" by (simp add: sa1_def)
  show ?thesis
  proof (cases "ok \<or> pretendMadvise sa")
    case True
    let ?sa = "sa1\<lparr>advisedSlabs := advisedSlabs sa1 @ [s]\<rparr>"
    have w: "sa_wf ?sa" "isValidSlab ?sa s" using u n unfolding r1 [symmetric] by (auto simp: sa_wf_def in_reserve_def)
    have "adviseSlab ok s sa = Inr (True, upd_header s resetAllocInfo ?sa)" using True u(3) by (simp add: adviseSlab_def h Let_def sa1_def)
    moreover have "sa_wf (upd_header s resetAllocInfo ?sa)" using w by simp
    ultimately show ?thesis using True by (intro that [of "upd_header s resetAllocInfo ?sa"]) (simp_all add: getSlabHeader_upd [OF w] h1 r1 in_reserve_append)
  next
    case False
    have "adviseSlab ok s sa = Inr (False, upd_header s (setAdvised False) sa1)" using False u(3) by (simp add: adviseSlab_def h Let_def sa1_def)
    moreover have "sa_wf (upd_header s (setAdvised False) sa1)" using u by simp
    ultimately show ?thesis using False by (intro that [of "upd_header s (setAdvised False) sa1"]) (simp_all add: getSlabHeader_upd [OF u(1,2)] h1 r1)
  qed
qed

lemma pool_slabs_at:
  assumes ok: "pool_slabs_ok H sa mp" and wf: "sa_wf sa'" and off: "\<And>t. t \<noteq> s \<Longrightarrow> getSlabHeader sa' t = getSlabHeader sa t"
    and mp': "mp_id mp' = mp_id mp" "length (mp_ac mp') = length (mp_ac mp)"
    and lists: "distinct (mp_freeSlabs mp' @ H')" "\<And>t. t \<noteq> s \<Longrightarrow> t \<in> set (mp_freeSlabs mp' @ H') \<longleftrightarrow> t \<in> set (mp_freeSlabs mp @ H)"
    and res: "\<And>t. t \<noteq> s \<Longrightarrow> in_reserve sa' t \<Longrightarrow> in_reserve sa t"
    and at: "s \<in> set (mp_freeSlabs mp' @ H') \<Longrightarrow> classless (mp_id mp) sa' s" "\<And>k. in_reserve sa' s \<Longrightarrow> \<not> in_pool (mp_id mp) sa' s k"
      "\<And>k. in_pool (mp_id mp) sa' s k \<Longrightarrow> s \<in> set (mp_freeSlabs mp' @ H') \<or> s \<in> class_slabs sa' mp'"
  shows "pool_slabs_ok H' sa' mp'"
proof -
  note P = pool_slabs_okD [OF ok]
  have c: "classless (mp_id mp) sa' t = classless (mp_id mp) sa t" if "t \<noteq> s" for t using off [OF that] by (simp add: classless_def)
  have ip: "in_pool (mp_id mp) sa' t j = in_pool (mp_id mp) sa t j" if "t \<noteq> s" for t j by (rule in_pool_off [OF off [OF that]])
  have cs: "t \<in> class_slabs sa' mp' \<longleftrightarrow> t \<in> class_slabs sa mp" if "t \<noteq> s" for t using ip [OF that] by (simp add: class_slabs_iff mp')
  show ?thesis unfolding pool_slabs_ok_def mp'
  proof (intro conjI ballI allI impI)
    show "sa_wf sa'" "0 \<le> mp_id mp" "distinct (mp_freeSlabs mp' @ H')" by (fact wf P(2) lists(1))+
    show "classless (mp_id mp) sa' t" if "t \<in> set (mp_freeSlabs mp' @ H')" for t
      using that at(1) lists(2) P(4) c by (cases "t = s") blast+
    show "t \<in> set (mp_freeSlabs mp' @ H') \<or> t \<in> class_slabs sa' mp'" if "in_pool (mp_id mp) sa' t j" for t j
    proof (cases "t = s")
      case True
      then show ?thesis using that at(3) by blast
    next
      case False
      then show ?thesis using that P(5) [of t j] ip cs lists(2) by blast
    qed
    show "\<not> in_pool (mp_id mp) sa' t j" if "t \<in> set (sa_freeSlabs sa' @ advisedSlabs sa')" for t j
      using that at(2) res P(6) [of t j] ip [of t j] by (cases "t = s") (auto simp: in_reserve_def)
  qed
qed

text \<open>A slab comes to the pool from the allocator, moves between the lists of the pool, or goes back to the allocator.\<close>

lemma mset_lists: "mset xs = mset ys \<Longrightarrow> distinct xs = distinct ys" "mset xs = mset ys \<Longrightarrow> set xs = set ys"
  by (auto dest: mset_eq_imp_distinct_iff mset_eq_setD)

lemma classless_not_class: "classless (mp_id mp) sa s \<Longrightarrow> s \<notin> class_slabs sa mp"
  by (auto simp: class_slabs_iff in_pool_classless kInvalidClassId_def)

lemma mp_inv_gain:
  assumes inv: "mp_inv H d \<sigma>" and s: "ms_sa \<sigma> = sa" "ms_mp \<sigma> = mp" and wf: "sa_wf sa'" and cl: "classless (mp_id mp) sa' s"
    and off: "\<And>t. t \<noteq> s \<Longrightarrow> getSlabHeader sa' t = getSlabHeader sa t" and res: "\<And>t. in_reserve sa' t \<longleftrightarrow> in_reserve sa t \<and> t \<noteq> s"
    and new: "in_reserve sa s \<or> getSlabHeader sa s = None"
    and mp': "mp_id mp' = mp_id mp" "acSizes mp' = acSizes mp" "mp_ac mp' = mp_ac mp" "currAllocSize mp' = currAllocSize mp"
    and perm: "mset (mp_freeSlabs mp' @ H') = mset (s # mp_freeSlabs mp @ H)"
    and sz: "currSlabAllocSize mp' = currSlabAllocSize mp + word_of_int (int kSize * (d' - d))"
  shows "mp_inv H' d' \<lparr>ms_sa = sa', ms_mp = mp', ms_live = ms_live \<sigma>, ms_ctxs = ms_ctxs \<sigma>, ms_taken = ms_taken \<sigma>\<rparr>"
proof (rule mp_inv_pool [OF inv s wf off mp'])
  note P = pool_slabs_okD [OF mp_invD(1) [OF inv], unfolded s]
  have out: "\<not> in_pool (mp_id mp) sa s k" for k using new P(6) [of s k] by (auto simp: in_reserve_def in_pool_def)
  then show "s \<notin> class_slabs sa mp" by (simp add: class_slabs_iff)
  show "s \<notin> class_slabs sa' mp" by (rule classless_not_class [OF cl])
  have fresh: "s \<notin> set (mp_freeSlabs mp @ H)" using P(4) [of s] out [of kInvalidClassId] in_pool_classless by blast
  show "pool_slabs_ok H' sa' mp'"
    by (rule pool_slabs_at [OF mp_invD(1) [OF inv, unfolded s] wf off])
      (use mset_lists [OF perm] P(3) fresh cl res mp' in auto)
  show "currSlabAllocSize mp' = currSlabAllocSize mp + word_of_int (int kSize * (d' - d - int (ms_taken \<sigma>) + int (ms_taken \<sigma>)))"
    unfolding sz diff_add_cancel ..
qed

lemma mp_inv_move:
  assumes inv: "mp_inv H d \<sigma>" and s: "ms_sa \<sigma> = sa" "ms_mp \<sigma> = mp" and wf: "sa_wf sa'" and cl: "classless (mp_id mp) sa' s"
    and off: "\<And>t. t \<noteq> s \<Longrightarrow> getSlabHeader sa' t = getSlabHeader sa t" and res: "\<And>t. in_reserve sa' t \<longleftrightarrow> in_reserve sa t"
    and mem: "s \<in> set (mp_freeSlabs mp @ H)"
    and mp': "mp_id mp' = mp_id mp" "acSizes mp' = acSizes mp" "mp_ac mp' = mp_ac mp" "currAllocSize mp' = currAllocSize mp"
    and perm: "mset (mp_freeSlabs mp' @ H') = mset (mp_freeSlabs mp @ H)"
    and sz: "currSlabAllocSize mp' = currSlabAllocSize mp + word_of_int (int kSize * (d' - d - int taken' + int (ms_taken \<sigma>)))"
  shows "mp_inv H' d' \<lparr>ms_sa = sa', ms_mp = mp', ms_live = ms_live \<sigma>, ms_ctxs = ms_ctxs \<sigma>, ms_taken = taken'\<rparr>"
proof (rule mp_inv_pool [OF inv s wf off mp'])
  note P = pool_slabs_okD [OF mp_invD(1) [OF inv], unfolded s]
  show "s \<notin> class_slabs sa mp" "s \<notin> class_slabs sa' mp" using classless_not_class P(4) [OF mem] cl by blast+
  have "\<not> in_reserve sa s" using P(4) [OF mem] P(6) [of s kInvalidClassId] in_pool_classless by (auto simp: in_reserve_def)
  then show "pool_slabs_ok H' sa' mp'"
    by (intro pool_slabs_at [OF mp_invD(1) [OF inv, unfolded s] wf off])
      (use mset_lists [OF perm] P(3) mem cl res mp' in auto)
qed (assumption, rule sz)

lemma mp_inv_lose:
  assumes inv: "mp_inv H d \<sigma>" and s: "ms_sa \<sigma> = sa" "ms_mp \<sigma> = mp" and wf: "sa_wf sa'" and h: "getSlabHeader sa' s = Some h" "sh_poolId h = kInvalidPoolId"
    and off: "\<And>t. t \<noteq> s \<Longrightarrow> getSlabHeader sa' t = getSlabHeader sa t" and res: "\<And>t. in_reserve sa' t \<longleftrightarrow> in_reserve sa t \<or> t = s"
    and mp': "mp_id mp' = mp_id mp" "acSizes mp' = acSizes mp" "mp_ac mp' = mp_ac mp" "currAllocSize mp' = currAllocSize mp"
    and perm: "mset (s # mp_freeSlabs mp' @ H') = mset (mp_freeSlabs mp @ H)"
    and sz: "currSlabAllocSize mp' = currSlabAllocSize mp + word_of_int (int kSize * (d' - d - int taken' + int (ms_taken \<sigma>)))"
  shows "mp_inv H' d' \<lparr>ms_sa = sa', ms_mp = mp', ms_live = ms_live \<sigma>, ms_ctxs = ms_ctxs \<sigma>, ms_taken = taken'\<rparr>"
proof (rule mp_inv_pool [OF inv s wf off mp'])
  note P = pool_slabs_okD [OF mp_invD(1) [OF inv], unfolded s]
  have mem: "s \<in> set (mp_freeSlabs mp @ H)" using mset_lists(2) [OF perm] by auto
  have out: "\<not> in_pool (mp_id mp) sa' s k" for k using h P(2) by (simp add: in_pool_def kInvalidPoolId_def)
  show "s \<notin> class_slabs sa mp" by (rule classless_not_class [OF P(4) [OF mem]])
  show "s \<notin> class_slabs sa' mp" using out by (simp add: class_slabs_iff)
  have "distinct (s # mp_freeSlabs mp' @ H')" using mset_lists(1) [OF perm] P(3) by blast
  then show "pool_slabs_ok H' sa' mp'"
    by (intro pool_slabs_at [OF mp_invD(1) [OF inv, unfolded s] wf off])
      (use mset_lists(2) [OF perm] out res mp' in auto)
qed (assumption, rule sz)

text \<open>A class works on one of its slabs, gives one up, or takes one.\<close>

lemma no_header: "getSlabHeader sa (nextSlabAllocation sa) = None"
  by (simp add: getSlabHeader_def isValidSlab_def)

lemma at_slabD:
  assumes "at_slab s sa sa'"
  shows "sa_wf sa'" "t \<noteq> s \<Longrightarrow> getSlabHeader sa' t = getSlabHeader sa t" "in_reserve sa' t \<longleftrightarrow> in_reserve sa t"
  using assms by (auto simp: at_slab_def in_reserve_def)

lemma mp_inv_stay:
  assumes inv: "mp_inv H d \<sigma>" and s: "ms_sa \<sigma> = sa" "ms_mp \<sigma> = mp" "ms_live \<sigma> = live" "ms_ctxs \<sigma> = ctxs"
    and i: "ac_ids ac' = ac_ids (mp_ac mp ! i)" and at: "at_slab s sa sa'"
    and own: "in_pool (mp_id mp) sa s (int i) \<and> in_pool (mp_id mp) sa' s (int i) \<or> sa' = sa"
    and sys: "sys_inv (class_sys sa' ac' (live_of (mp_id mp) sa live i) (ctxs_of ctxs' i))"
    and ctx: "\<And>j. j \<noteq> i \<Longrightarrow> ctxs_of ctxs' j = ctxs_of ctxs j" "\<And>c. c \<in> set ctxs' \<Longrightarrow> ctx_valid (length (mp_ac mp)) c"
    and mp': "mp_id mp' = mp_id mp" "acSizes mp' = acSizes mp" "mp_ac mp' = (mp_ac mp)[i := ac']" "currAllocSize mp' = currAllocSize mp"
      "currSlabAllocSize mp' = currSlabAllocSize mp" "mp_freeSlabs mp' = mp_freeSlabs mp"
  shows "mp_inv H d \<lparr>ms_sa = sa', ms_mp = mp', ms_live = live, ms_ctxs = ctxs', ms_taken = ms_taken \<sigma>\<rparr>"
proof -
  note P = pool_slabs_okD [OF mp_invD(1) [OF inv], unfolded s]
  obtain u where u: "at_slab u sa sa'" "\<And>k. in_pool (mp_id mp) sa' u k = in_pool (mp_id mp) sa u k" "\<And>k. in_pool (mp_id mp) sa u k \<Longrightarrow> k = int i"
  proof (cases "sa' = sa")
    case True
    show ?thesis by (rule that [of "nextSlabAllocation sa"]) (use True at_slab_refl [OF P(1)] in \<open>simp_all add: in_pool_def no_header\<close>)
  next
    case False
    with own at show ?thesis by (intro that [of s]) (auto dest: in_pool_unique)
  qed
  have ip: "in_pool (mp_id mp) sa' t k = in_pool (mp_id mp) sa t k" for t k
    using u(2) in_pool_off(1) [OF at_slabD(2) [OF u(1)]] by (cases "t = u") blast+
  have cs: "class_slabs sa' mp' = class_slabs sa mp" by (rule set_eqI) (simp add: class_slabs_iff mp' ip)
  have other: "\<not> in_pool (mp_id mp) sa u (int j)" if "j \<noteq> i" for j using u(3) [of "int j"] that by auto
  show ?thesis
  proof (rule mp_inv_slab [OF inv s at_slabD(1,2) [OF u(1)] mp'(1-4)])
    show "pool_slabs_ok H sa' mp'"
    proof (rule pool_slabs_at [OF mp_invD(1) [OF inv, unfolded s] at_slabD(1,2) [OF u(1)]])
      show "classless (mp_id mp) sa' u" if "u \<in> set (mp_freeSlabs mp' @ H)"
        using that P(4) [of u] u(3) [of kInvalidClassId] in_pool_classless [of "mp_id mp" sa u] mp' by (force simp: kInvalidClassId_def)
    qed (use P ip cs mp' at_slabD(3) [OF u(1)] in \<open>auto simp: in_reserve_def\<close>)
    show "currSlabAllocSize mp' = word_of_int (int kSize * (int (card (class_slabs sa' mp')) - int (ms_taken \<sigma>) + d))"
      using mp_invD(6) [OF inv] s by (simp only: cs mp'(5))
  qed (use i sys ctx u(2) other in auto)
qed

lemma mp_inv_leave:
  assumes inv: "mp_inv H d \<sigma>" and s: "ms_sa \<sigma> = sa" "ms_mp \<sigma> = mp" "ms_live \<sigma> = live" "ms_ctxs \<sigma> = ctxs"
    and i: "i < length (mp_ac mp)" "ac_ids ac' = ac_ids (mp_ac mp ! i)" and at: "at_slab s sa sa'"
    and own: "in_pool (mp_id mp) sa s (int i)" "classless (mp_id mp) sa' s"
    and sys: "sys_inv (class_sys sa' ac' (live_of (mp_id mp) sa live i) (ctxs_of ctxs' i))"
    and ctx: "\<And>j. j \<noteq> i \<Longrightarrow> ctxs_of ctxs' j = ctxs_of ctxs j" "\<And>c. c \<in> set ctxs' \<Longrightarrow> ctx_valid (length (mp_ac mp)) c"
  shows "mp_inv (s # H) (d + 1) \<lparr>ms_sa = sa', ms_mp = set_ac i ac' mp, ms_live = live, ms_ctxs = ctxs', ms_taken = ms_taken \<sigma>\<rparr>"
proof -
  let ?mp = "set_ac i ac' mp"
  note P = pool_slabs_okD [OF mp_invD(1) [OF inv], unfolded s]
  have not: "\<not> in_pool (mp_id mp) sa' s (int j)" for j using in_pool_classless [OF own(2)] by (simp add: kInvalidClassId_def)
  have cs: "class_slabs sa' ?mp = class_slabs sa mp - {s}"
  proof (rule set_eqI)
    fix t show "t \<in> class_slabs sa' ?mp \<longleftrightarrow> t \<in> class_slabs sa mp - {s}"
      using not in_pool_off(1) [OF at_slabD(2) [OF at]] by (cases "t = s") (auto simp: class_slabs_iff set_ac_def)
  qed
  have fresh: "s \<notin> set (mp_freeSlabs mp @ H)" using P(4) [of s] own(1) in_pool_classless [of "mp_id mp" sa s] by (force simp: kInvalidClassId_def)
  have "\<not> in_reserve sa s" using P(6) [of s "int i"] own(1) by (auto simp: in_reserve_def)
  show ?thesis
  proof (rule mp_inv_slab [OF inv s at_slabD(1,2) [OF at]])
    show "pool_slabs_ok (s # H) sa' ?mp"
      by (rule pool_slabs_at [OF mp_invD(1) [OF inv, unfolded s] at_slabD(1,2) [OF at]])
        (use P(3) fresh own \<open>\<not> in_reserve sa s\<close> at_slabD(3) [OF at] in \<open>auto simp: set_ac_def\<close>)
    have "s \<in> class_slabs sa mp" using own(1) i(1) by (auto simp: class_slabs_iff)
    then have "int (card (class_slabs sa mp)) = int (card (class_slabs sa' ?mp)) + 1"
      unfolding cs using card.remove [OF finite_class_slabs, of s sa mp] by simp
    then show "currSlabAllocSize ?mp = word_of_int (int kSize * (int (card (class_slabs sa' ?mp)) - int (ms_taken \<sigma>) + (d + 1)))"
      using mp_invD(6) [OF inv] s by (simp add: set_ac_def algebra_simps)
  qed (use i sys ctx not own(1) in \<open>auto simp: set_ac_def dest: in_pool_unique\<close>)
qed

lemma mp_inv_join:
  assumes inv: "mp_inv (s # H) d \<sigma>" and s: "ms_sa \<sigma> = sa" "ms_mp \<sigma> = mp" and i: "i < length (mp_ac mp)"
    and eq: "addSlab s (sa, mp_ac mp ! i) = (sa', ac')"
    and mp': "mp_id mp' = mp_id mp" "acSizes mp' = acSizes mp" "mp_ac mp' = (mp_ac mp)[i := ac']" "currAllocSize mp' = currAllocSize mp"
      "currSlabAllocSize mp' = currSlabAllocSize mp" "mp_freeSlabs mp' = mp_freeSlabs mp"
  shows "mp_inv H (d - 1) \<lparr>ms_sa = sa', ms_mp = mp', ms_live = ms_live \<sigma>, ms_ctxs = ms_ctxs \<sigma>, ms_taken = ms_taken \<sigma>\<rparr>"
proof -
  let ?p = "mp_id mp" and ?ac = "mp_ac mp ! i"
  note P = pool_slabs_okD [OF mp_invD(1) [OF inv], unfolded s] and C = mp_classesD [OF mp_invD(2) [OF inv, unfolded s] i]
  have cl: "classless ?p sa s" using P(4) [of s] by simp
  then obtain h where h: "getSlabHeader sa s = Some h" "sh_poolId h = ?p" "sh_classId h = kInvalidClassId" "\<not> isMarkedForRelease h" by (auto simp: classless_def)
  have v: "isValidSlab sa s" using h(1) by (auto simp: getSlabHeader_def split: if_splits)
  have sa': "sa' = upd_header s (\<lambda>h. h\<lparr>sh_classId := ac_classId ?ac, sh_allocSize := allocationSize ?ac\<rparr>) sa" using eq by (auto simp: addSlab_def addSlabLocked_def)
  have at: "at_slab s sa sa'" unfolding sa' by (rule at_slab_upd [OF P(1) v])
  have ids: "ac_ids ac' = ac_ids ?ac" by (rule client_ids(3) [OF eq])
  have in': "in_pool ?p sa' s k \<longleftrightarrow> k = int i" for k
    using getSlabHeader_upd [OF P(1) v] h C(1) by (auto simp: sa' in_pool_def ac_ids_def)
  have not: "\<not> in_pool ?p sa s (int j)" for j using in_pool_classless [OF cl] by (simp add: kInvalidClassId_def)
  have sys: "sys_inv (class_sys sa' ac' (live_of ?p sa (ms_live \<sigma>) i) (ctxs_of (ms_ctxs \<sigma>) i))"
    using ac_step_inv [OF step_addSlab [of "class_sys sa ?ac (live_of ?p sa (ms_live \<sigma>) i) (ctxs_of (ms_ctxs \<sigma>) i)" s h sa' ac'] C(2)] h eq C(1) by (simp add: ac_ids_def)
  have cs: "class_slabs sa' mp' = insert s (class_slabs sa mp)"
  proof (rule set_eqI)
    fix t show "t \<in> class_slabs sa' mp' \<longleftrightarrow> t \<in> insert s (class_slabs sa mp)"
      using in' i in_pool_off(1) [OF at_slabD(2) [OF at]] by (cases "t = s") (auto simp: class_slabs_iff mp')
  qed
  have "\<not> in_reserve sa s" using P(6) [of s kInvalidClassId] in_pool_classless [OF cl] by (auto simp: in_reserve_def)
  show ?thesis
  proof (rule mp_inv_slab [OF inv s refl refl at_slabD(1,2) [OF at] mp'(1-4)])
    show "pool_slabs_ok H sa' mp'"
      by (rule pool_slabs_at [OF mp_invD(1) [OF inv, unfolded s] at_slabD(1,2) [OF at]])
        (use P(3) cs \<open>\<not> in_reserve sa s\<close> at_slabD(3) [OF at] mp' in auto)
    have "card (class_slabs sa' mp') = Suc (card (class_slabs sa mp))" using not finite_class_slabs [of sa mp] by (simp add: cs class_slabs_iff)
    then show "currSlabAllocSize mp' = word_of_int (int kSize * (int (card (class_slabs sa' mp')) - int (ms_taken \<sigma>) + (d - 1)))"
      using mp_invD(6) [OF inv] s by (simp add: mp'(5) algebra_simps)
  qed (use ids sys in' not mp_invD(5) [OF inv] s in auto)
qed

text \<open>A client takes a chunk or gives one back.\<close>

lemma mp_inv_client:
  assumes inv: "mp_inv H d \<sigma>" and s: "ms_sa \<sigma> = sa" "ms_mp \<sigma> = mp" "ms_live \<sigma> = live"
    and i: "i < length (mp_ac mp)" "ac_ids ac' = ac_ids (mp_ac mp ! i)"
    and live: "finite live'" "\<And>a. a \<in> live' - live \<or> a \<in> live - live' \<Longrightarrow> in_pool (mp_id mp) sa (getSlabForMemory a) (int i)"
    and sys: "sys_inv (class_sys sa ac' (live_of (mp_id mp) sa live' i) (ctxs_of (ms_ctxs \<sigma>) i))"
    and sz: "n = word_of_nat (live_bytes sa mp live')"
  shows "mp_inv H d \<lparr>ms_sa = sa, ms_mp = (set_ac i ac' mp)\<lparr>currAllocSize := n\<rparr>, ms_live = live', ms_ctxs = ms_ctxs \<sigma>, ms_taken = ms_taken \<sigma>\<rparr>"
proof -
  note M = mp_invD [OF inv, unfolded s] and P = pool_slabs_okD [OF mp_invD(1) [OF inv], unfolded s]
  let ?mp = "(set_ac i ac' mp)\<lparr>currAllocSize := n\<rparr>" and ?u = "nextSlabAllocation sa"
  have cs: "class_slabs sa ?mp = class_slabs sa mp" by (rule set_eqI) (simp add: class_slabs_iff set_ac_def)
  have lo: "live_of (mp_id mp) sa live' j = live_of (mp_id mp) sa live j" if "j \<noteq> i" for j
    using live(2) that in_pool_unique [of "mp_id mp" sa _ "int i" "int j"] by (auto simp: live_of_def)
  have "mp_classes sa ?mp live' (ms_ctxs \<sigma>)"
    by (rule mp_classes_at [OF M(2) P(1), where s = ?u]) (use i sys lo in \<open>simp_all add: set_ac_def in_pool_def no_header\<close>)
  moreover have "getSlabForMemory a \<in> class_slabs sa mp" if "a \<in> live'" for a
    using M(4) [of a] live(2) [of a] that i(1) by (cases "a \<in> live") (auto simp: class_slabs_iff)
  moreover have "pool_slabs_ok H sa ?mp" using M(1) cs by (simp add: pool_slabs_ok_def set_ac_def)
  moreover have "live_bytes sa ?mp live' = live_bytes sa mp live'" by (simp add: live_bytes_def set_ac_def)
  ultimately show ?thesis using M(5,6,8) live(1) sz cs unfolding mp_inv_def by (simp add: set_ac_def)
qed

end
