(* ===== verification/PoolUse.thy ===== *)
theory PoolUse
  imports PoolSlabs
begin

text \<open>Pools in use: the calls that \<^verbatim>\<open>MemoryAllocator\<close> and the slab release of the cache make on one
  \<^verbatim>\<open>MemoryPool\<close>, in any order, with clients that hold chunks and releases that wait for them. Each operation keeps the
  invariant of \<^verbatim>\<open>PoolSlabs\<close>; from it follow what the sizes of the pool count, that clients never share memory, that the
  check of the state passes, and where a counter goes wrong.\<close>

text \<open>\<^verbatim>\<open>releaseSlab\<close> finds a place for the slab in hand, and takes it out of the size unless a class receives it.\<close>

lemma kSize_word: "word_of_int (int kSize * - 1) = - (slab64 :: u64)" "word_of_int (int kSize * 1) = (slab64 :: u64)" "word_of_int (int kSize * 0) = (0 :: u64)"
  by simp_all

lemma reset_pool: "sh_poolId (resetAllocInfo h) = kInvalidPoolId" by (simp add: resetAllocInfo_def)

lemma mp_releaseSlab_inv:
  assumes inv: "mp_inv [s] 1 \<sigma>" and s: "ms_sa \<sigma> = sa" "ms_mp \<sigma> = mp"
    and rec: "receiver = kInvalidClassId \<or> mode = kRebalance \<and> (\<exists>j < length (mp_ac mp). receiver = int j)"
  shows "\<exists>sa' mp'. mp_releaseSlab ok mode s receiver (sa, mp) = (Inr (), sa', mp') \<and>
    mp_inv [] 0 (\<sigma>\<lparr>ms_sa := sa', ms_mp := mp'\<rparr>)"
proof -
  note P = pool_slabs_okD [OF mp_invD(1) [OF inv], unfolded s]
  have \<sigma>: "\<sigma>\<lparr>ms_sa := sa', ms_mp := mp'\<rparr> = \<lparr>ms_sa = sa', ms_mp = mp', ms_live = ms_live \<sigma>, ms_ctxs = ms_ctxs \<sigma>, ms_taken = ms_taken \<sigma>\<rparr>" for sa' mp' by simp
  have cl: "classless (mp_id mp) sa s" using P(4) [of s] by simp
  then obtain h where h: "getSlabHeader sa s = Some h" by (auto simp: classless_def)
  have n: "\<not> in_reserve sa s" using P(6) [of s kInvalidClassId] in_pool_classless [OF cl] by (auto simp: in_reserve_def)
  have mem: "s \<in> set (mp_freeSlabs mp @ [s])" by simp
  have d: "(0 :: int) - 1 - int (ms_taken \<sigma>) + int (ms_taken \<sigma>) = - 1" by simp
  show ?thesis
  proof (cases mode)
    case kResize
    from freeSlab_at [OF P(1) h n] obtain sa' where f: "freeSlab s sa = Inr sa'" "sa_wf sa'" "\<And>t. t \<noteq> s \<Longrightarrow> getSlabHeader sa' t = getSlabHeader sa t"
      "getSlabHeader sa' s = Some (resetAllocInfo h)" "\<And>t. in_reserve sa' t \<longleftrightarrow> in_reserve sa t \<or> t = s" by blast
    let ?mp = "mp\<lparr>currSlabAllocSize := currSlabAllocSize mp - slab64, nSlabResize := nSlabResize mp + 1\<rparr>"
    have "mp_inv [] 0 (\<sigma>\<lparr>ms_sa := sa', ms_mp := ?mp\<rparr>)" unfolding \<sigma>
      by (rule mp_inv_lose [OF inv s f(2,4) reset_pool f(3,5)]) (simp_all add: d kSize_word del: of_int_mult)
    then show ?thesis using kResize f(1) by (simp add: mp_releaseSlab_def)
  next
    case kAdvise
    from adviseSlab_at [OF P(1) h n] obtain sa' where f: "adviseSlab ok s sa = Inr (ok \<or> pretendMadvise sa, sa')" "sa_wf sa'" "\<And>t. t \<noteq> s \<Longrightarrow> getSlabHeader sa' t = getSlabHeader sa t"
      "getSlabHeader sa' s = Some (if ok \<or> pretendMadvise sa then resetAllocInfo (setAdvised True h) else setAdvised False (setAdvised True h))"
      "\<And>t. in_reserve sa' t \<longleftrightarrow> in_reserve sa t \<or> (ok \<or> pretendMadvise sa) \<and> t = s" by blast
    show ?thesis
    proof (cases "ok \<or> pretendMadvise sa")
      case True
      let ?mp = "mp\<lparr>curSlabsAdvised := curSlabsAdvised mp + 1, currSlabAllocSize := currSlabAllocSize mp - slab64\<rparr>"
      have "mp_inv [] 0 (\<sigma>\<lparr>ms_sa := sa', ms_mp := ?mp\<rparr>)" unfolding \<sigma>
        by (rule mp_inv_lose [OF inv s f(2) _ reset_pool f(3)]) (use f(4,5) True in \<open>simp_all add: d kSize_word del: of_int_mult\<close>)
      then show ?thesis using kAdvise True f(1) by (auto simp: mp_releaseSlab_def)
    next
      case False
      let ?mp = "mp\<lparr>mp_freeSlabs := mp_freeSlabs mp @ [s], currSlabAllocSize := currSlabAllocSize mp - slab64\<rparr>"
      have "classless (mp_id mp) sa' s" using cl h f(4) False by (auto simp: classless_def header_bits)
      then have "mp_inv [] 0 (\<sigma>\<lparr>ms_sa := sa', ms_mp := ?mp\<rparr>)" unfolding \<sigma>
        by (rule mp_inv_move [OF inv s f(2) _ f(3) _ mem]) (use f(5) False in \<open>simp_all add: d kSize_word del: of_int_mult\<close>)
      then show ?thesis using kAdvise False f(1) by (auto simp: mp_releaseSlab_def)
    qed
  next
    case kRebalance
    show ?thesis
    proof (cases "receiver = kInvalidClassId")
      case True
      let ?mp = "mp\<lparr>mp_freeSlabs := mp_freeSlabs mp @ [s], currSlabAllocSize := currSlabAllocSize mp - slab64, nSlabRebalance := nSlabRebalance mp + 1\<rparr>"
      have "mp_inv [] 0 (\<sigma>\<lparr>ms_sa := sa, ms_mp := ?mp\<rparr>)" unfolding \<sigma>
        by (rule mp_inv_move [OF inv s P(1) cl _ _ mem]) (simp_all add: d kSize_word del: of_int_mult)
      then show ?thesis using kRebalance True by (simp add: mp_releaseSlab_def)
    next
      case False
      then obtain j where j: "j < length (mp_ac mp)" "receiver = int j" using rec by blast
      obtain sa' ac' where a: "addSlab s (sa, mp_ac mp ! j) = (sa', ac')" by fastforce
      let ?mp = "(set_ac j ac' mp)\<lparr>nSlabRebalance := nSlabRebalance mp + 1\<rparr>"
      have "mp_inv [] (1 - 1) (\<sigma>\<lparr>ms_sa := sa', ms_mp := ?mp\<rparr>)" unfolding \<sigma>
        by (rule mp_inv_join [OF inv s j(1) a]) (simp_all add: set_ac_def)
      then show ?thesis using kRebalance False j a by (auto simp: mp_releaseSlab_def getAllocationClassFor_def)
    qed
  qed
qed

lemma getSlabLocked_inv:
  assumes inv: "mp_inv [] 0 \<sigma>" and s: "ms_sa \<sigma> = sa" "ms_mp \<sigma> = mp" and eq: "getSlabLocked (sa, mp) = (r, sa', mp')"
  shows "mp_inv (case r of None \<Rightarrow> [] | Some s \<Rightarrow> [s]) (case r of None \<Rightarrow> 0 | Some s \<Rightarrow> 1) (\<sigma>\<lparr>ms_sa := sa', ms_mp := mp'\<rparr>) \<and> mp_ac mp' = mp_ac mp"
proof -
  note P = pool_slabs_okD [OF mp_invD(1) [OF inv], unfolded s]
  have \<sigma>: "\<sigma>\<lparr>ms_sa := sa', ms_mp := mp'\<rparr> = \<lparr>ms_sa = sa', ms_mp = mp', ms_live = ms_live \<sigma>, ms_ctxs = ms_ctxs \<sigma>, ms_taken = ms_taken \<sigma>\<rparr>" for sa' mp' by simp
  consider "mp_allSlabsAllocated mp" | "\<not> mp_allSlabsAllocated mp" "mp_freeSlabs mp \<noteq> []" | "\<not> mp_allSlabsAllocated mp" "mp_freeSlabs mp = []" by blast
  then show ?thesis
  proof cases
    case 1
    then show ?thesis using eq inv s by (auto simp: getSlabLocked_def)
  next
    case 2
    let ?s = "last (mp_freeSlabs mp)"
    have e: "r = Some ?s" "sa' = sa" "mp' = mp\<lparr>currSlabAllocSize := currSlabAllocSize mp + slab64, mp_freeSlabs := butlast (mp_freeSlabs mp)\<rparr>"
      using 2 eq by (auto simp: getSlabLocked_def Let_def)
    have f: "mset (butlast (mp_freeSlabs mp)) + {#?s#} = mset (mp_freeSlabs mp)" using 2(2) by (metis append_butlast_last_id mset.simps mset_append)
    have "mp_inv [?s] 1 (\<sigma>\<lparr>ms_sa := sa, ms_mp := mp'\<rparr>)" unfolding \<sigma>
      by (rule mp_inv_move [OF inv s P(1) P(4) _ _ , where s = ?s]) (use 2 f in \<open>simp_all add: e\<close>)
    then show ?thesis by (simp add: e)
  next
    case 3
    obtain q sa1 where q: "makeNewSlab (mp_id mp) sa = (q, sa1)" by fastforce
    show ?thesis
    proof (cases q)
      case None
      then have e: "r = None" "sa' = sa1" "mp' = mp" using 3 eq q by (auto simp: getSlabLocked_def Let_def)
      note N = makeNewSlab_None [OF q [unfolded None] P(1)]
      have "mp_inv [] 0 (\<sigma>\<lparr>ms_sa := sa1, ms_mp := mp\<rparr>)" unfolding \<sigma>
        by (rule mp_inv_pool [OF inv s N(1), where s = "nextSlabAllocation sa"])
          (use N mp_invD(1) [OF inv] s no_header [of sa] in \<open>auto simp: class_slabs_iff in_pool_def pool_slabs_ok_def classless_def in_reserve_def fun_eq_iff\<close>)
      then show ?thesis by (simp add: e)
    next
      case (Some t)
      then have e: "r = Some t" "sa' = sa1" "mp' = mp\<lparr>currSlabAllocSize := currSlabAllocSize mp + slab64\<rparr>" using 3 eq q by (auto simp: getSlabLocked_def Let_def)
      have "mp_inv [t] 1 (\<sigma>\<lparr>ms_sa := sa1, ms_mp := mp'\<rparr>)" unfolding \<sigma>
        by (rule mp_inv_gain [OF inv s makeNewSlab_at [OF q [unfolded Some] P(1)]]) (simp_all add: e)
      then show ?thesis by (simp add: e)
    qed
  qed
qed

lemma live_bytes_insert:
  assumes "finite live" "a \<notin> live" "in_pool pid sa (getSlabForMemory a) (int i)"
  shows "live_bytes sa mp (insert a live) = live_bytes sa mp live + acSizes mp ! i"
  using assms in_pool_class [OF assms(3)] by (simp add: live_bytes_def)

text \<open>A class serves an allocation from what it has.\<close>

lemma mp_inv_allocate:
  assumes inv: "mp_inv H d \<sigma>" and s: "ms_sa \<sigma> = sa" "ms_mp \<sigma> = mp" "ms_live \<sigma> = live" and i: "i < length (mp_ac mp)"
    and eq: "allocateLocked (mp_ac mp ! i) = (r, ac')"
  shows "mp_inv H d (\<sigma>\<lparr>ms_mp := (set_ac i ac' mp)\<lparr>currAllocSize := currAllocSize mp + (case r of None \<Rightarrow> 0 | Some _ \<Rightarrow> word_of_nat (allocationSize ac'))\<rparr>,
      ms_live := set_option r \<union> live\<rparr>) \<and> (\<forall>a. r = Some a \<longrightarrow> a \<notin> live)"
proof -
  let ?p = "mp_id mp" and ?ac = "mp_ac mp ! i" and ?L = "live_of (mp_id mp) sa live i" and ?C = "ctxs_of (ms_ctxs \<sigma>) i"
  note M = mp_invD [OF inv, unfolded s] and C = mp_classesD [OF mp_invD(2) [OF inv, unfolded s] i]
  have ids: "ac_ids ac' = ac_ids ?ac" by (rule client_ids(1) [OF eq])
  have sys: "sys_inv (class_sys sa ac' (set_option r \<union> ?L) ?C)"
    using ac_step_inv [OF step_allocate [of "class_sys sa ?ac ?L ?C" r ac'] C(2)] eq by simp
  have inp: "in_pool ?p sa (getSlabForMemory a) (int i)" if "r = Some a" for a
    using ac_inv_in_slab(1) [OF sys_invD(1) [OF sys], of a] that in_pool_ours [of ac' "int i" ?p] ids C(1) by simp
  have fresh: "a \<notin> live" if "r = Some a" for a
    using allocateLocked_inv [OF sys_invD(1) [OF C(2)]] inp [OF that] that by (simp add: eq live_of_def)
  have n: "allocationSize ac' = acSizes mp ! i" using ids C(1) by (simp add: ac_ids_def)
  have "live_of ?p sa (set_option r \<union> live) i = set_option r \<union> ?L" using inp by (cases r) (auto simp: live_of_def)
  then have "mp_inv H d \<lparr>ms_sa = sa, ms_mp = (set_ac i ac' mp)\<lparr>currAllocSize := currAllocSize mp + (case r of None \<Rightarrow> 0 | Some _ \<Rightarrow> word_of_nat (allocationSize ac'))\<rparr>,
      ms_live = set_option r \<union> live, ms_ctxs = ms_ctxs \<sigma>, ms_taken = ms_taken \<sigma>\<rparr>"
    using M(3,7) inp fresh live_bytes_insert [OF M(3), of _ ?p sa i mp] sys
    by (intro mp_inv_client [OF inv s i ids]) (auto split: option.splits simp: n)
  with fresh show ?thesis using s by (cases \<sigma>) simp
qed

lemma mp_inv_free:
  assumes inv: "mp_inv H d \<sigma>" and s: "ms_sa \<sigma> = sa" "ms_mp \<sigma> = mp" "ms_live \<sigma> = live" and a: "a \<in> live"
  shows "\<exists>mp'. mp_free a (sa, mp) = (Inr (), sa, mp') \<and> mp_inv H d (\<sigma>\<lparr>ms_mp := mp', ms_live := live - {a}\<rparr>)"
proof -
  let ?p = "mp_id mp"
  note M = mp_invD [OF inv, unfolded s]
  obtain i where i: "i < length (mp_ac mp)" "in_pool ?p sa (getSlabForMemory a) (int i)" using M(4) [OF a] by (auto simp: class_slabs_iff)
  let ?ac = "mp_ac mp ! i" and ?L = "live_of (mp_id mp) sa live i" and ?C = "ctxs_of (ms_ctxs \<sigma>) i"
  note C = mp_classesD [OF M(2) i(1)]
  have al: "a \<in> ?L" using a i(2) by (simp add: live_of_def)
  have cid: "getAllocationClassId_mem a (sa, mp) = Inr (int i)"
    using i by (auto simp: getAllocationClassId_mem_def getSlabHeader_mem_def in_pool_def kInvalidClassId_def split: option.splits)
  obtain ac' where f: "ac_free a (sa, ?ac) = (Inr (), sa, ac')"
    by (cases rule: ac_free_cases [OF sys_invD(1) [OF C(2), unfolded ac_sys.simps] al]) auto
  have ids: "ac_ids ac' = ac_ids ?ac" by (rule client_ids(2) [OF f])
  have n: "allocationSize ac' = acSizes mp ! i" using ids C(1) by (simp add: ac_ids_def)
  have sys: "sys_inv (class_sys sa ac' (?L - {a}) ?C)"
    using ac_step_inv [OF step_free [of a "class_sys sa ?ac ?L ?C" "Inr ()" sa ac'] C(2)] al f by simp
  have "live_of ?p sa (live - {a}) i = ?L - {a}" by (auto simp: live_of_def)
  moreover have "live_bytes sa mp live = live_bytes sa mp (live - {a}) + acSizes mp ! i"
    using live_bytes_insert [of "live - {a}" a ?p sa i mp] M(3) i(2) a by (simp add: insert_absorb)
  ultimately have "mp_inv H d \<lparr>ms_sa = sa, ms_mp = (set_ac i ac' mp)\<lparr>currAllocSize := currAllocSize mp - word_of_nat (allocationSize ac')\<rparr>,
      ms_live = live - {a}, ms_ctxs = ms_ctxs \<sigma>, ms_taken = ms_taken \<sigma>\<rparr>"
    using M(3,7) i(2) sys by (intro mp_inv_client [OF inv s i(1) ids]) (auto simp: n)
  then show ?thesis using s f cid by (cases \<sigma>) (simp add: mp_free_def)
qed

lemma lower_bound_spec:
  "sorted xs \<Longrightarrow> lower_bound xs x \<le> length xs \<and> (\<forall>k < lower_bound xs x. xs ! k < x) \<and> (\<forall>k < length xs. lower_bound xs x \<le> k \<longrightarrow> x \<le> xs ! k)"
proof (induction xs x rule: lower_bound.induct)
  case (2 y ys x)
  let ?xs = "y # ys" and ?h = "length (y # ys) div 2"
  have h: "?h < length ?xs" by simp
  note le = sorted_nth_mono [OF 2(3)]
  show ?case
  proof (cases "?xs ! ?h < x")
    case True
    let ?n = "lower_bound (drop (Suc ?h) ?xs) x"
    have e: "lower_bound ?xs x = Suc ?h + ?n" using True by (simp add: Let_def del: drop_Suc_Cons)
    note IH = 2(1) [OF refl True sorted_wrt_drop [OF 2(3)]]
    have "?xs ! k < x" if "k < Suc ?h + ?n" for k
    proof (cases "k \<le> ?h")
      case True then show ?thesis using le [OF True h] \<open>?xs ! ?h < x\<close> by linarith
    next
      case False
      then have "k - Suc ?h < ?n" "Suc ?h + (k - Suc ?h) = k" using that by linarith+
      then show ?thesis using IH h by (metis nth_drop Suc_leI)
    qed
    moreover have "x \<le> ?xs ! k" if "k < length ?xs" "Suc ?h + ?n \<le> k" for k
    proof -
      have "k - Suc ?h < length (drop (Suc ?h) ?xs)" "?n \<le> k - Suc ?h" "Suc ?h + (k - Suc ?h) = k" using that h unfolding length_drop by linarith+
      then show ?thesis using IH h by (metis nth_drop Suc_leI)
    qed
    ultimately show ?thesis unfolding e using IH h by auto
  next
    case False
    let ?n = "lower_bound (take ?h ?xs) x"
    have e: "lower_bound ?xs x = ?n" using False by (simp add: Let_def)
    note IH = 2(2) [OF refl False sorted_wrt_take [OF 2(3)]]
    have "x \<le> ?xs ! k" if "k < length ?xs" "?n \<le> k" for k
    proof (cases "k < ?h")
      case True then show ?thesis using IH that by simp
    next
      case F: False then show ?thesis using le [of ?h k] F that False by linarith
    qed
    then show ?thesis unfolding e using IH by auto
  qed
qed simp

text \<open>The class that serves a size is the smallest that is large enough.\<close>

lemma class_for_size:
  assumes "sorted_wrt (<) (acSizes mp)" "acSizes mp \<noteq> []" "getAllocationClassId sz mp = Inr cid"
  obtains i where "cid = int i" "i < length (acSizes mp)" "sz \<le> acSizes mp ! i" "\<And>k. k < i \<Longrightarrow> acSizes mp ! k < sz"
proof -
  have s: "sorted (acSizes mp)" using assms(1) by (simp add: strict_sorted_iff)
  note L = lower_bound_spec [OF s, of sz]
  let ?i = "lower_bound (acSizes mp) sz"
  have c: "cid = int ?i" "sz \<le> last (acSizes mp)" using assms(3) by (auto simp: getAllocationClassId_def split: if_splits)
  have "?i < length (acSizes mp)"
  proof (rule ccontr)
    assume "\<not> ?thesis"
    then have "acSizes mp ! (length (acSizes mp) - 1) < sz" using L assms(2) by simp
    then show False using c(2) assms(2) by (simp add: last_conv_nth)
  qed
  then show ?thesis using L c(1) by (intro that [of ?i]) auto
qed

lemma ac_allocate_inv:
  assumes inv: "mp_inv H d \<sigma>" and s: "ms_sa \<sigma> = sa" "ms_mp \<sigma> = mp" "ms_live \<sigma> = live" and i: "i < length (mp_ac mp)"
    and eq: "ac_allocate (mp_ac mp ! i) = (r, ac')"
  shows "mp_inv H d (\<sigma>\<lparr>ms_mp := (set_ac i ac' mp)\<lparr>currAllocSize := currAllocSize mp + (case r of None \<Rightarrow> 0 | Some _ \<Rightarrow> word_of_nat (allocationSize ac'))\<rparr>,
      ms_live := set_option r \<union> live\<rparr>) \<and> (\<forall>a. r = Some a \<longrightarrow> a \<notin> live)"
proof (cases "ac_canAllocate (mp_ac mp ! i)")
  case True
  then show ?thesis using eq by (intro mp_inv_allocate [OF inv s i]) (simp add: ac_allocate_def)
next
  case False
  then have e: "r = None" "ac' = mp_ac mp ! i" using eq by (auto simp: ac_allocate_def)
  have "(set_ac i ac' mp)\<lparr>currAllocSize := currAllocSize mp\<rparr> = mp" by (simp add: e set_ac_def)
  then show ?thesis using inv s by (cases \<sigma>) (simp add: e)
qed

lemma allocateSlow_inv:
  assumes inv: "mp_inv [] 0 \<sigma>" and s: "ms_sa \<sigma> = sa" "ms_mp \<sigma> = mp" "ms_live \<sigma> = live" and i: "i < length (mp_ac mp)"
    and eq: "allocateSlow i (sa, mp) = (r, sa', mp')"
  shows "mp_inv [] 0 (\<sigma>\<lparr>ms_sa := sa', ms_mp := mp', ms_live := set_option r \<union> live\<rparr>) \<and> (\<forall>a. r = Some a \<longrightarrow> a \<notin> live)"
proof -
  obtain q ac where q: "ac_allocate (mp_ac mp ! i) = (q, ac)" by fastforce
  note A = ac_allocate_inv [OF inv s i q]
  show ?thesis
  proof (cases q)
    case Some
    then show ?thesis using A eq q s by (cases \<sigma>) (auto simp: allocateSlow_def)
  next
    case None
    obtain p sa1 mp1 where g: "getSlabLocked (sa, set_ac i ac mp) = (p, sa1, mp1)" by (cases "getSlabLocked (sa, set_ac i ac mp)") auto
    have \<sigma>1: "mp_inv [] 0 (\<sigma>\<lparr>ms_mp := set_ac i ac mp\<rparr>)" using A None s by (cases \<sigma>) (simp add: set_ac_def)
    note G = getSlabLocked_inv [OF \<sigma>1 _ _ g]
    show ?thesis
    proof (cases p)
      case None': None
      then show ?thesis using G eq q None g s by (cases \<sigma>) (auto simp: allocateSlow_def)
    next
      case (Some t)
      let ?\<sigma> = "\<sigma>\<lparr>ms_sa := sa1, ms_mp := mp1\<rparr>"
      have i1: "mp_inv [t] 1 ?\<sigma>" "i < length (mp_ac mp1)" using G s Some i by (simp_all add: set_ac_def)
      obtain sa2 ac2 where a: "addSlab t (sa1, mp_ac mp1 ! i) = (sa2, ac2)" by fastforce
      obtain r3 ac3 where l: "allocateLocked ac2 = (r3, ac3)" by fastforce
      have "mp_inv [] (1 - 1) \<lparr>ms_sa = sa2, ms_mp = set_ac i ac2 mp1, ms_live = ms_live ?\<sigma>, ms_ctxs = ms_ctxs ?\<sigma>, ms_taken = ms_taken ?\<sigma>\<rparr>"
        by (rule mp_inv_join [OF i1(1) _ _ i1(2) a]) (simp_all add: set_ac_def)
      then have i2: "mp_inv [] 0 (\<sigma>\<lparr>ms_sa := sa2, ms_mp := set_ac i ac2 mp1\<rparr>)" by (cases \<sigma>) simp
      have "mp_ac (set_ac i ac2 mp1) ! i = ac2" "i < length (mp_ac (set_ac i ac2 mp1))" using i1(2) by (simp_all add: set_ac_def)
      note L = mp_inv_allocate [OF i2 _ _ _ this(2), of sa2 live r3 ac3, unfolded this(1)]
      have "ac_freeSlabs ac2 \<noteq> []" using a by (auto simp: addSlab_def addSlabLocked_def)
      then obtain b where b: "r3 = Some b" using allocateLocked_None l by (cases r3) auto
      have "r = Some b" "sa' = sa2" "mp' = (set_ac i ac3 mp1)\<lparr>currAllocSize := currAllocSize mp1 + word_of_nat (allocationSize ac3)\<rparr>"
        using eq q None g Some a l b by (simp_all add: allocateSlow_def addSlabAndAllocate_def addSlab_def)
      then show ?thesis using L s b l by (cases \<sigma>) (simp add: set_ac_def)
    qed
  qed
qed

lemma mp_allocate_inv:
  assumes inv: "mp_inv [] 0 \<sigma>" and s: "ms_sa \<sigma> = sa" "ms_mp \<sigma> = mp" "ms_live \<sigma> = live"
    and eq: "mp_allocate sz (sa, mp) = (r, sa', mp')"
  shows "mp_inv [] 0 (\<sigma>\<lparr>ms_sa := sa', ms_mp := mp', ms_live := (case r of Inr (Some a) \<Rightarrow> insert a live | _ \<Rightarrow> live)\<rparr>) \<and> (\<forall>a. r = Inr (Some a) \<longrightarrow> a \<notin> live)"
proof (cases "getAllocationClassId sz mp")
  case (Inl e)
  then show ?thesis using eq inv s by (cases \<sigma>) (auto simp: mp_allocate_def)
next
  case (Inr cid)
  note M = mp_invD [OF inv, unfolded s]
  obtain i where i: "cid = int i" "i < length (acSizes mp)" using class_for_size [OF _ _ Inr] M(8) by blast
  then have l: "i < length (mp_ac mp)" using M(2) by (simp add: mp_classes_def)
  obtain q ac where q: "ac_allocate (mp_ac mp ! i) = (q, ac)" by fastforce
  note A = ac_allocate_inv [OF inv s l q]
  show ?thesis
  proof (cases q)
    case Some
    then show ?thesis using A eq q s Inr i by (cases \<sigma>) (auto simp: mp_allocate_def)
  next
    case None
    have \<sigma>1: "mp_inv [] 0 (\<sigma>\<lparr>ms_mp := set_ac i ac mp\<rparr>)" using A None s by (cases \<sigma>) (simp add: set_ac_def)
    obtain p sa1 mp1 where a: "allocateSlow i (sa, set_ac i ac mp) = (p, sa1, mp1)" by (cases "allocateSlow i (sa, set_ac i ac mp)") auto
    have "i < length (mp_ac (set_ac i ac mp))" using l by (simp add: set_ac_def)
    note S = allocateSlow_inv [OF \<sigma>1 _ _ _ this a]
    show ?thesis
    proof (cases "mp_allSlabsAllocated (set_ac i ac mp)")
      case True
      then show ?thesis using \<sigma>1 eq q None s Inr i by (cases \<sigma>) (auto simp: mp_allocate_def)
    next
      case False
      then have "r = Inr p" "sa' = sa1" "mp' = mp1" using eq q None Inr i a by (auto simp: mp_allocate_def)
      then show ?thesis using S s by (cases \<sigma>; cases p) simp_all
    qed
  qed
qed

lemma ctxs_of_Cons: "ctxs_of (c # ctxs) i = (if ctx_victim c = int i then c # ctxs_of ctxs i else ctxs_of ctxs i)"
  by (simp add: ctxs_of_def)

lemma ctxs_of_remove1: "ctxs_of (remove1 c ctxs) i = (if ctx_victim c = int i then remove1 c (ctxs_of ctxs i) else ctxs_of ctxs i)"
  by (simp add: ctxs_of_def filter_remove1 remove1_idem)

lemma sys_inv_ctx: "sys_inv (class_sys sa ac live (c # ctxs)) \<Longrightarrow> sys_inv (class_sys sa ac live (c\<lparr>ctx_receiver := q, ctx_zero := z\<rparr> # ctxs))"
  by (simp add: sys_inv_def ctxs_ok_def isReleased_def)

text \<open>A slab leaves its class, or stays in it until clients have freed its chunks.\<close>

lemma mp_victim_class:
  assumes inv: "mp_inv [] 0 \<sigma>" and s: "ms_sa \<sigma> = sa" "ms_mp \<sigma> = mp" "ms_live \<sigma> = live" "ms_ctxs \<sigma> = ctxs" and i: "i < length (mp_ac mp)"
    and r: "allocatedSlabs (mp_ac mp ! i) \<noteq> [] \<longrightarrow> r < length (allocatedSlabs (mp_ac mp ! i))"
    and rec: "q = kInvalidClassId \<or> mode = kRebalance \<and> (\<exists>j < length (mp_ac mp). q = int j)"
    and eq: "ac_startSlabRelease mode hint r abort (sa, mp_ac mp ! i) = (res, sa', ac')"
  shows "case res of Inl e \<Rightarrow> mp_inv [] 0 (\<sigma>\<lparr>ms_sa := sa', ms_mp := set_ac i ac' mp\<rparr>)
    | Inr c \<Rightarrow> ctx_mode c = mode \<and> (if isReleased c then mp_inv [ctx_slab c] 1 (\<sigma>\<lparr>ms_sa := sa', ms_mp := set_ac i ac' mp\<rparr>)
        else mp_inv [] 0 (\<sigma>\<lparr>ms_sa := sa', ms_mp := set_ac i ac' mp, ms_ctxs := c\<lparr>ctx_receiver := q, ctx_zero := z\<rparr> # ctxs\<rparr>))"
proof -
  let ?p = "mp_id mp" and ?ac = "mp_ac mp ! i"
  note M = mp_invD [OF inv, unfolded s] and C = mp_classesD [OF mp_invD(2) [OF inv, unfolded s] i]
  note io = in_pool_ours [OF C(1)]
  have pid: "ac_poolId ?ac = ?p" "ac_classId ?ac = int i" using C(1) by (simp_all add: ac_ids_def)
  obtain t where t: "at_slab t sa sa'" "ac_ids ac' = ac_ids ?ac" "ours ?ac sa t \<or> sa' = sa"
    and L: "\<And>e. res = Inl e \<Longrightarrow> ours ?ac sa' t = ours ?ac sa t \<and> sys_inv (class_sys sa' ac' (live_of ?p sa live i) (ctxs_of ctxs i))"
    and R: "\<And>c. res = Inr c \<Longrightarrow> t = ctx_slab c \<and> ours ?ac sa t \<and> ctx_mode c = mode \<and>
       (if isReleased c then classless ?p sa' t else ours ?ac sa' t \<and> ctx_victim c = int i) \<and>
       sys_inv (class_sys sa' ac' (live_of ?p sa live i) ((if isReleased c then [] else [c]) @ ctxs_of ctxs i))"
    using startSlabRelease_inv [OF C(2) r eq] unfolding pid by blast
  have \<sigma>: "\<sigma>\<lparr>ms_sa := sa', ms_mp := m, ms_ctxs := cs\<rparr> = \<lparr>ms_sa = sa', ms_mp = m, ms_live = live, ms_ctxs = cs, ms_taken = ms_taken \<sigma>\<rparr>"
    "\<sigma>\<lparr>ms_sa := sa', ms_mp := m\<rparr> = \<lparr>ms_sa = sa', ms_mp = m, ms_live = live, ms_ctxs = ctxs, ms_taken = ms_taken \<sigma>\<rparr>" for m cs using s by (cases \<sigma>; simp)+
  show ?thesis
  proof (cases res)
    case (Inl e)
    have "mp_inv [] 0 (\<sigma>\<lparr>ms_sa := sa', ms_mp := set_ac i ac' mp\<rparr>)" unfolding \<sigma>
      by (rule mp_inv_stay [OF inv s t(2,1)]) (use t(3) L [OF Inl] io M(5) in \<open>auto simp: set_ac_def\<close>)
    then show ?thesis using Inl by simp
  next
    case (Inr c)
    note R = R [OF Inr]
    show ?thesis
    proof (cases "isReleased c")
      case True
      have "mp_inv [ctx_slab c] (0 + 1) (\<sigma>\<lparr>ms_sa := sa', ms_mp := set_ac i ac' mp\<rparr>)" unfolding \<sigma>
        by (rule mp_inv_leave [OF inv s i t(2)]) (use t(1) R True io M(5) in auto)
      then show ?thesis using Inr R True by simp
    next
      case False
      let ?c = "c\<lparr>ctx_receiver := q, ctx_zero := z\<rparr>"
      have "sys_inv (class_sys sa' ac' (live_of ?p sa live i) (?c # ctxs_of ctxs i))" using R False by (intro sys_inv_ctx) simp
      then have "mp_inv [] 0 (\<sigma>\<lparr>ms_sa := sa', ms_mp := set_ac i ac' mp, ms_ctxs := ?c # ctxs\<rparr>)" unfolding \<sigma>(1)
        by (intro mp_inv_stay [OF inv s t(2,1)]) (use R False io M(5) rec i in \<open>auto simp: set_ac_def ctxs_of_Cons ctx_valid_def\<close>)
      then show ?thesis using Inr R False by simp
    qed
  qed
qed

definition class_index :: "MemoryPool \<Rightarrow> int \<Rightarrow> bool" where
  "class_index mp k \<longleftrightarrow> 0 \<le> k \<and> k < int (length (mp_ac mp))"

text \<open>The victim of a release is a class or the free slabs of the pool, the receiver a class or none.\<close>

definition release_args :: "MemoryPool \<Rightarrow> int \<Rightarrow> int \<Rightarrow> nat \<Rightarrow> bool" where
  "release_args mp victim receiver r \<longleftrightarrow> (victim = kInvalidClassId \<or> class_index mp victim) \<and> (receiver = kInvalidClassId \<or> class_index mp receiver) \<and>
     (class_index mp victim \<and> allocatedSlabs (mp_ac mp ! nat victim) \<noteq> [] \<longrightarrow> r < length (allocatedSlabs (mp_ac mp ! nat victim)))"

lemma isReleased_upd: "isReleased (c\<lparr>ctx_receiver := q, ctx_zero := z\<rparr>) = isReleased c" by (simp add: isReleased_def)

lemma mp_takeFree_inv:
  assumes inv: "mp_inv [] 0 \<sigma>" and s: "ms_sa \<sigma> = sa" "ms_mp \<sigma> = mp" and ne: "mp_freeSlabs mp \<noteq> []"
  shows "mp_inv [last (mp_freeSlabs mp)] 1 (\<sigma>\<lparr>ms_mp := mp\<lparr>mp_freeSlabs := butlast (mp_freeSlabs mp)\<rparr>, ms_taken := Suc (ms_taken \<sigma>)\<rparr>)"
proof -
  note P = pool_slabs_okD [OF mp_invD(1) [OF inv], unfolded s]
  let ?s = "last (mp_freeSlabs mp)"
  have f: "mset (butlast (mp_freeSlabs mp)) + {#?s#} = mset (mp_freeSlabs mp)" using ne by (metis append_butlast_last_id mset.simps mset_append)
  have "mp_inv [?s] 1 \<lparr>ms_sa = sa, ms_mp = mp\<lparr>mp_freeSlabs := butlast (mp_freeSlabs mp)\<rparr>, ms_live = ms_live \<sigma>, ms_ctxs = ms_ctxs \<sigma>, ms_taken = Suc (ms_taken \<sigma>)\<rparr>"
    by (rule mp_inv_move [OF inv s P(1) P(4), where s = ?s]) (use ne f in simp_all)
  then show ?thesis using s by (cases \<sigma>) simp
qed

lemma mp_startSlabRelease_inv:
  assumes inv: "mp_inv [] 0 \<sigma>" and s: "ms_sa \<sigma> = sa" "ms_mp \<sigma> = mp" and args: "release_args mp victim receiver r"
    and eq: "mp_startSlabRelease ok victim receiver mode hint z r abort (sa, mp) = (res, sa', mp')"
  shows "mp_inv [] 0 (\<sigma>\<lparr>ms_sa := sa', ms_mp := mp', ms_ctxs := (case res of Inr c \<Rightarrow> if isReleased c then [] else [c] | _ \<Rightarrow> []) @ ms_ctxs \<sigma>,
      ms_taken := ms_taken \<sigma> + (if victim = kInvalidClassId \<and> (\<exists>c. res = Inr c) then 1 else 0)\<rparr>)"
proof -
  have triv: "mp_inv [] 0 (\<sigma>\<lparr>ms_sa := sa, ms_mp := mp\<rparr>)" using inv s by (cases \<sigma>) simp
  consider (bad) "receiver \<noteq> kInvalidClassId \<and> mode \<noteq> kRebalance \<or> victim = kInvalidClassId \<and> mode \<noteq> kResize"
    | (empty) "receiver = kInvalidClassId" "victim = kInvalidClassId" "mode = kResize" "mp_freeSlabs mp = []"
    | (free) "receiver = kInvalidClassId" "victim = kInvalidClassId" "mode = kResize" "mp_freeSlabs mp \<noteq> []"
    | (cls) "receiver \<noteq> kInvalidClassId \<longrightarrow> mode = kRebalance" "victim \<noteq> kInvalidClassId" by (cases mode) auto
  then show ?thesis
  proof cases
    case bad
    then show ?thesis using eq triv s by (cases \<sigma>) (auto simp: mp_startSlabRelease_def split: if_splits)
  next
    case empty
    then show ?thesis using eq triv s by (cases \<sigma>) (auto simp: mp_startSlabRelease_def mp_victimContext_def releaseFromFreeSlabs_def)
  next
    case free
    let ?mp = "mp\<lparr>mp_freeSlabs := butlast (mp_freeSlabs mp)\<rparr>"
    obtain sa1 mp1 where R: "mp_releaseSlab ok kResize (last (mp_freeSlabs mp)) kInvalidClassId (sa, ?mp) = (Inr (), sa1, mp1)"
      "mp_inv [] 0 (\<sigma>\<lparr>ms_mp := ?mp, ms_taken := Suc (ms_taken \<sigma>)\<rparr>\<lparr>ms_sa := sa1, ms_mp := mp1\<rparr>)"
      using mp_releaseSlab_inv [OF mp_takeFree_inv [OF inv s free(4)], of sa ?mp kInvalidClassId kResize ok] s by auto
    then show ?thesis using free eq s
      by (cases \<sigma>) (auto simp: mp_startSlabRelease_def mp_victimContext_def releaseFromFreeSlabs_def Let_def isReleased_upd mkContext_def isReleased_def)
  next
    case cls
    then obtain i where i: "victim = int i" "i < length (mp_ac mp)" using args by (auto simp: release_args_def class_index_def intro: that [of "nat victim"])
    obtain q sa1 ac1 where q: "ac_startSlabRelease mode hint r abort (sa, mp_ac mp ! i) = (q, sa1, ac1)" by (cases "ac_startSlabRelease mode hint r abort (sa, mp_ac mp ! i)") auto
    have rec: "receiver = kInvalidClassId \<or> mode = kRebalance \<and> (\<exists>j < length (mp_ac mp). receiver = int j)"
      using args cls(1) by (auto simp: release_args_def class_index_def intro: exI [of _ "nat receiver"])
    have r: "allocatedSlabs (mp_ac mp ! i) \<noteq> [] \<longrightarrow> r < length (allocatedSlabs (mp_ac mp ! i))" using args i by (auto simp: release_args_def class_index_def)
    note V = mp_victim_class [OF inv s refl refl i(2) r rec q, of z]
    have vc: "mp_victimContext victim mode hint r abort (sa, mp) = (case q of Inl e \<Rightarrow> Inl (From_ac e) | Inr c \<Rightarrow> Inr c, sa1, set_ac i ac1 mp)"
      using cls(2) i q by (cases q) (simp_all add: mp_victimContext_def getAllocationClassFor_def)
    have st: "mp_startSlabRelease ok victim receiver mode hint z r abort (sa, mp) =
       (case q of Inl e \<Rightarrow> (Inl (From_ac e), sa1, set_ac i ac1 mp)
        | Inr c \<Rightarrow> if isReleased c then case mp_releaseSlab ok (ctx_mode c) (ctx_slab c) receiver (sa1, set_ac i ac1 mp) of
               (Inl e, s) \<Rightarrow> (Inl e, s) | (Inr _, s) \<Rightarrow> (Inr (c\<lparr>ctx_receiver := receiver, ctx_zero := z\<rparr>), s)
             else (Inr (c\<lparr>ctx_receiver := receiver, ctx_zero := z\<rparr>), sa1, set_ac i ac1 mp))"
      using cls vc by (cases q) (auto simp: mp_startSlabRelease_def Let_def isReleased_upd)
    show ?thesis
    proof (cases q)
      case (Inl e)
      then show ?thesis using V eq st cls(2) by (cases \<sigma>) auto
    next
      case (Inr c)
      show ?thesis
      proof (cases "isReleased c")
        case True
        have "receiver = kInvalidClassId \<or> mode = kRebalance \<and> (\<exists>j < length (mp_ac (set_ac i ac1 mp)). receiver = int j)" using rec by (simp add: set_ac_def)
        moreover have "mp_inv [ctx_slab c] 1 (\<sigma>\<lparr>ms_sa := sa1, ms_mp := set_ac i ac1 mp\<rparr>)" "ctx_mode c = mode" using V Inr True by simp_all
        ultimately show ?thesis using mp_releaseSlab_inv [of "ctx_slab c" "\<sigma>\<lparr>ms_sa := sa1, ms_mp := set_ac i ac1 mp\<rparr>" sa1 "set_ac i ac1 mp" receiver mode ok]
            eq st Inr True cls(2) by (cases \<sigma>) (auto simp: isReleased_upd)
      next
        case False
        then show ?thesis using V eq st Inr cls(2) by (cases \<sigma>) (auto simp: isReleased_upd)
      qed
    qed
  qed
qed

lemma mp_completeSlabRelease_inv:
  assumes inv: "mp_inv [] 0 \<sigma>" and s: "ms_sa \<sigma> = sa" "ms_mp \<sigma> = mp" "ms_ctxs \<sigma> = ctxs" and c: "c \<in> set ctxs"
    and eq: "mp_completeSlabRelease ok c (sa, mp) = Some (res, sa', mp')"
  shows "res = Inr () \<and> mp_inv [] 0 (\<sigma>\<lparr>ms_sa := sa', ms_mp := mp', ms_ctxs := remove1 c ctxs\<rparr>)"
proof -
  let ?p = "mp_id mp" and ?live = "ms_live \<sigma>"
  note M = mp_invD [OF inv, unfolded s]
  obtain i where i: "i < length (mp_ac mp)" "ctx_victim c = int i" and rec: "ctx_receiver c = kInvalidClassId \<or> ctx_mode c = kRebalance \<and> (\<exists>j < length (mp_ac mp). ctx_receiver c = int j)"
    using M(5) [OF c] by (auto simp: ctx_valid_def)
  note C = mp_classesD [OF M(2) i(1)]
  have ci: "c \<in> set (ctxs_of ctxs i)" using c i(2) by (simp add: ctxs_of_def)
  have nr: "\<not> isReleased c" using ctxs_remove1(5) [OF sys_invD(3) [OF C(2), unfolded ac_sys.simps] ci] .
  obtain u sa1 ac1 where a: "ac_completeSlabRelease c (sa, mp_ac mp ! i) = Some (u, sa1, ac1)"
    using eq nr rec i by (auto simp: mp_completeSlabRelease_def getAllocationClassFor_def split: option.splits if_splits)
  note K = completeSlabRelease_inv [OF C(2) ci a]
  have pid: "ac_poolId (mp_ac mp ! i) = ?p" using C(1) by (simp add: ac_ids_def)
  have e: "mp_releaseSlab ok (ctx_mode c) (ctx_slab c) (ctx_receiver c) (sa1, set_ac i ac1 mp) = (res, sa', mp')"
    using eq nr rec i a K by (auto simp: mp_completeSlabRelease_def getAllocationClassFor_def split: if_splits)
  let ?\<sigma> = "\<lparr>ms_sa = sa1, ms_mp = set_ac i ac1 mp, ms_live = ?live, ms_ctxs = remove1 c ctxs, ms_taken = ms_taken \<sigma>\<rparr>"
  have "mp_inv [ctx_slab c] (0 + 1) ?\<sigma>"
  proof (rule mp_inv_leave [OF inv s(1,2) refl s(3) i(1)])
    show "ac_ids ac1 = ac_ids (mp_ac mp ! i)" by (rule release_ids(6) [OF a])
    show "in_pool ?p sa (ctx_slab c) (int i)" using K in_pool_ours [OF C(1)] by blast
    show "ctx_valid (length (mp_ac mp)) b" if "b \<in> set (remove1 c ctxs)" for b using M(5) notin_set_remove1 that by metis
  qed (use K pid i(2) in \<open>auto simp: ctxs_of_remove1\<close>)
  then have "mp_inv [ctx_slab c] 1 ?\<sigma>" by simp
  from mp_releaseSlab_inv [OF this, of sa1 "set_ac i ac1 mp" "ctx_receiver c" "ctx_mode c" ok] rec e
  show ?thesis using s by (cases \<sigma>) (auto simp: set_ac_def)
qed

lemma mp_abortSlabRelease_inv:
  assumes inv: "mp_inv [] 0 \<sigma>" and s: "ms_sa \<sigma> = sa" "ms_mp \<sigma> = mp" "ms_ctxs \<sigma> = ctxs" and c: "c \<in> set ctxs"
    and eq: "mp_abortSlabRelease c (sa, mp) = (res, sa', mp')"
  shows "res = Inr () \<and> mp_inv [] 0 (\<sigma>\<lparr>ms_sa := sa', ms_mp := mp', ms_ctxs := remove1 c ctxs\<rparr>)"
proof -
  let ?p = "mp_id mp" and ?live = "ms_live \<sigma>"
  note M = mp_invD [OF inv, unfolded s]
  obtain i where i: "i < length (mp_ac mp)" "ctx_victim c = int i" using M(5) [OF c] by (auto simp: ctx_valid_def)
  note C = mp_classesD [OF M(2) i(1)]
  have ci: "c \<in> set (ctxs_of ctxs i)" using c i(2) by (simp add: ctxs_of_def)
  obtain u sa1 ac1 where a: "ac_abortSlabRelease c (sa, mp_ac mp ! i) = (u, sa1, ac1)" by (cases "ac_abortSlabRelease c (sa, mp_ac mp ! i)") auto
  note K = abortSlabRelease_inv [OF C(2) ci a]
  have e: "res = Inr ()" "sa' = sa1" "mp' = (set_ac i ac1 mp)\<lparr>nSlabReleaseAborted := nSlabReleaseAborted mp + 1\<rparr>"
    using eq i a K by (auto simp: mp_abortSlabRelease_def getAllocationClassFor_def)
  have "mp_inv [] 0 \<lparr>ms_sa = sa1, ms_mp = mp', ms_live = ?live, ms_ctxs = remove1 c ctxs, ms_taken = ms_taken \<sigma>\<rparr>"
  proof (rule mp_inv_stay [OF inv s(1,2) refl s(3)])
    show "ac_ids ac1 = ac_ids (mp_ac mp ! i)" by (rule release_ids(7) [OF a])
    show "in_pool ?p sa (ctx_slab c) (int i) \<and> in_pool ?p sa1 (ctx_slab c) (int i) \<or> sa1 = sa" using K in_pool_ours [OF C(1)] by blast
    show "ctx_valid (length (mp_ac mp)) b" if "b \<in> set (remove1 c ctxs)" for b using M(5) notin_set_remove1 that by metis
  qed (use K i(2) in \<open>auto simp: ctxs_of_remove1 e set_ac_def\<close>)
  then show ?thesis using e s by (cases \<sigma>) simp
qed

lemma reclaimLoop_inv:
  assumes "mp_inv [] 0 \<sigma>" "ms_sa \<sigma> = sa" "ms_mp \<sigma> = mp" "reclaimLoop n k (sa, mp) = (m, sa', mp')"
  shows "mp_inv [] 0 (\<sigma>\<lparr>ms_sa := sa', ms_mp := mp'\<rparr>)"
  using assms
proof (induction n arbitrary: \<sigma> k sa mp)
  case 0
  then show ?case by (cases \<sigma>) simp
next
  case (Suc n)
  note P = pool_slabs_okD [OF mp_invD(1) [OF Suc(2)], unfolded Suc(3,4)]
  obtain q sa1 where q: "reclaimSlab (mp_id mp) sa = (q, sa1)" by fastforce
  show ?case
  proof (cases q)
    case None
    then have "sa1 = sa" using q by (auto simp: reclaimSlab_def Let_def split: list.splits)
    then show ?thesis using Suc(2-5) q None by (cases \<sigma>) simp
  next
    case (Some t)
    let ?mp = "mp\<lparr>mp_freeSlabs := mp_freeSlabs mp @ [t], curSlabsAdvised := curSlabsAdvised mp - 1\<rparr>"
    let ?\<sigma> = "\<lparr>ms_sa = sa1, ms_mp = ?mp, ms_live = ms_live \<sigma>, ms_ctxs = ms_ctxs \<sigma>, ms_taken = ms_taken \<sigma>\<rparr>"
    note R = reclaimSlab_at [OF q [unfolded Some] P(1)]
    have "mp_inv [] 0 ?\<sigma>" by (rule mp_inv_gain [OF Suc(2-4) R(1-4)]) (use R(5) in simp_all)
    from Suc(1) [OF this _ _ , of sa1 ?mp "Suc k"] Suc(3-5) q Some show ?thesis by (cases \<sigma>) simp
  qed
qed

text \<open>The limits of the pool can change at any time.\<close>

lemma mp_inv_limits:
  assumes "mp_inv H d \<sigma>"
  shows "mp_inv H d (\<sigma>\<lparr>ms_mp := mp_resize n (ms_mp \<sigma>)\<rparr>)" "mp_inv H d (\<sigma>\<lparr>ms_mp := setNumSlabsAdvised v (ms_mp \<sigma>)\<rparr>)"
  using assms by (simp_all add: mp_inv_def mp_resize_def setNumSlabsAdvised_def pool_slabs_ok_def mp_classes_def class_slabs_def live_bytes_def)

text \<open>Other pools share the allocator of slabs; they leave the slabs of this one alone.\<close>

definition others_only :: "int \<Rightarrow> SlabAllocator \<Rightarrow> SlabAllocator \<Rightarrow> bool" where
  "others_only pid sa sa' \<longleftrightarrow> sa_wf sa' \<and> (\<forall>t k. in_pool pid sa t k \<longrightarrow> getSlabHeader sa' t = getSlabHeader sa t \<and> \<not> in_reserve sa' t) \<and>
     (\<forall>t k. in_pool pid sa' t k \<longrightarrow> in_pool pid sa t k)"

lemma mp_inv_others:
  assumes inv: "mp_inv H d \<sigma>" and o: "others_only (mp_id (ms_mp \<sigma>)) (ms_sa \<sigma>) sa'"
  shows "mp_inv H d (\<sigma>\<lparr>ms_sa := sa'\<rparr>)"
proof -
  let ?sa = "ms_sa \<sigma>" and ?mp = "ms_mp \<sigma>" and ?p = "mp_id (ms_mp \<sigma>)"
  note M = mp_invD [OF inv] and P = pool_slabs_okD [OF mp_invD(1) [OF inv]]
  have wf: "sa_wf sa'" and keep: "\<And>t k. in_pool ?p ?sa t k \<Longrightarrow> getSlabHeader sa' t = getSlabHeader ?sa t \<and> \<not> in_reserve sa' t"
    and only: "\<And>t k. in_pool ?p sa' t k \<Longrightarrow> in_pool ?p ?sa t k" using o unfolding others_only_def by blast+
  have ip: "in_pool ?p sa' t k = in_pool ?p ?sa t k" for t k using keep [of t k] only [of t k] by (auto simp: in_pool_def)
  have sc: "slab_class sa' t = slab_class ?sa t" if "in_pool ?p ?sa t k" for t k using keep [OF that] by (simp add: slab_class_def)
  have cs: "class_slabs sa' ?mp = class_slabs ?sa ?mp" by (simp add: class_slabs_def ip)
  have cl: "classless ?p sa' t" if "classless ?p ?sa t" for t using keep [of t kInvalidClassId] that in_pool_classless [OF that] by (simp add: classless_def)
  have "pool_slabs_ok H sa' ?mp" unfolding pool_slabs_ok_def ip cs
    using P(2,3) wf cl P(4,5) keep in_reserve_def by blast
  moreover have "mp_classes sa' ?mp (ms_live \<sigma>) (ms_ctxs \<sigma>)" unfolding mp_classes_def
  proof (intro conjI allI impI)
    show "length (acSizes ?mp) = length (mp_ac ?mp)" using M(2) by (simp add: mp_classes_def)
    fix i assume i: "i < length (mp_ac ?mp)"
    note C = mp_classesD [OF M(2) i]
    show "ac_ids (mp_ac ?mp ! i) = (int i, ?p, acSizes ?mp ! i)" by (fact C(1))
    let ?s = "class_sys ?sa (mp_ac ?mp ! i) (live_of ?p ?sa (ms_live \<sigma>) i) (ctxs_of (ms_ctxs \<sigma>) i)"
    have "\<forall>s. ours (mp_ac ?mp ! i) ?sa s \<longrightarrow> getSlabHeader sa' s = getSlabHeader ?sa s" "\<forall>s. ours (mp_ac ?mp ! i) sa' s \<longrightarrow> ours (mp_ac ?mp ! i) ?sa s"
      using keep only in_pool_ours [OF C(1)] by blast+
    then have "ac_step False ?s (?s\<lparr>sys_sa := sa'\<rparr>)" by (intro ac_step.step_others [OF wf]) simp_all
    from ac_step_inv [OF this C(2)] show "sys_inv (class_sys sa' (mp_ac ?mp ! i) (live_of ?p sa' (ms_live \<sigma>) i) (ctxs_of (ms_ctxs \<sigma>) i))"
      by (simp add: live_of_def ip)
  qed
  moreover have "live_bytes sa' ?mp (ms_live \<sigma>) = live_bytes ?sa ?mp (ms_live \<sigma>)"
    unfolding live_bytes_def
  proof (rule sum.cong [OF refl])
    fix a assume "a \<in> ms_live \<sigma>"
    then obtain k where "in_pool ?p ?sa (getSlabForMemory a) (int k)" using M(4) unfolding class_slabs_iff by blast
    from sc [OF this] show "acSizes ?mp ! slab_class sa' (getSlabForMemory a) = acSizes ?mp ! slab_class ?sa (getSlabForMemory a)" by simp
  qed
  ultimately show ?thesis using M(3-8) unfolding mp_inv_def by (simp add: cs)
qed

section \<open>Pools in use\<close>

text \<open>Calls on one pool in any order, while clients hold chunks and releases wait for them.\<close>

inductive mp_step :: "mp_sys \<Rightarrow> mp_sys \<Rightarrow> bool" where
  pool_allocate: "mp_allocate sz (ms_sa \<sigma>, ms_mp \<sigma>) = (r, sa, mp) \<Longrightarrow>
     mp_step \<sigma> (\<sigma>\<lparr>ms_sa := sa, ms_mp := mp, ms_live := (case r of Inr (Some a) \<Rightarrow> insert a (ms_live \<sigma>) | _ \<Rightarrow> ms_live \<sigma>)\<rparr>)"
| pool_free: "a \<in> ms_live \<sigma> \<Longrightarrow> mp_free a (ms_sa \<sigma>, ms_mp \<sigma>) = (r, sa, mp) \<Longrightarrow>
     mp_step \<sigma> (\<sigma>\<lparr>ms_sa := sa, ms_mp := mp, ms_live := ms_live \<sigma> - {a}\<rparr>)"
| pool_start: "release_args (ms_mp \<sigma>) victim receiver q \<Longrightarrow>
     mp_startSlabRelease ok victim receiver mode hint z q abort (ms_sa \<sigma>, ms_mp \<sigma>) = (r, sa, mp) \<Longrightarrow>
     mp_step \<sigma> (\<sigma>\<lparr>ms_sa := sa, ms_mp := mp, ms_ctxs := (case r of Inr c \<Rightarrow> if isReleased c then [] else [c] | _ \<Rightarrow> []) @ ms_ctxs \<sigma>,
       ms_taken := ms_taken \<sigma> + (if victim = kInvalidClassId \<and> (\<exists>c. r = Inr c) then 1 else 0)\<rparr>)"
| pool_complete: "c \<in> set (ms_ctxs \<sigma>) \<Longrightarrow> mp_completeSlabRelease ok c (ms_sa \<sigma>, ms_mp \<sigma>) = Some (r, sa, mp) \<Longrightarrow>
     mp_step \<sigma> (\<sigma>\<lparr>ms_sa := sa, ms_mp := mp, ms_ctxs := remove1 c (ms_ctxs \<sigma>)\<rparr>)"
| pool_abort: "c \<in> set (ms_ctxs \<sigma>) \<Longrightarrow> mp_abortSlabRelease c (ms_sa \<sigma>, ms_mp \<sigma>) = (r, sa, mp) \<Longrightarrow>
     mp_step \<sigma> (\<sigma>\<lparr>ms_sa := sa, ms_mp := mp, ms_ctxs := remove1 c (ms_ctxs \<sigma>)\<rparr>)"
| pool_reclaim: "reclaimSlabsAndGrow n (ms_sa \<sigma>, ms_mp \<sigma>) = (m, sa, mp) \<Longrightarrow> mp_step \<sigma> (\<sigma>\<lparr>ms_sa := sa, ms_mp := mp\<rparr>)"
| pool_resize: "mp_step \<sigma> (\<sigma>\<lparr>ms_mp := mp_resize sz (ms_mp \<sigma>)\<rparr>)"
| pool_advised: "mp_step \<sigma> (\<sigma>\<lparr>ms_mp := setNumSlabsAdvised v (ms_mp \<sigma>)\<rparr>)"
| pool_others: "others_only (mp_id (ms_mp \<sigma>)) (ms_sa \<sigma>) sa \<Longrightarrow> mp_step \<sigma> (\<sigma>\<lparr>ms_sa := sa\<rparr>)"

inductive mp_reachable :: "int \<Rightarrow> nat set \<Rightarrow> mp_sys \<Rightarrow> bool" for pid :: int and sizes :: "nat set" where
  pool_created: "sa_wf sa \<Longrightarrow> (\<And>s k. \<not> in_pool pid sa s k) \<Longrightarrow> MemoryPool_init pid n sizes sa = Inr mp \<Longrightarrow>
     mp_reachable pid sizes \<lparr>ms_sa = sa, ms_mp = mp, ms_live = {}, ms_ctxs = [], ms_taken = 0\<rparr>"
| pool_used: "mp_reachable pid sizes \<sigma> \<Longrightarrow> mp_step \<sigma> \<sigma>' \<Longrightarrow> mp_reachable pid sizes \<sigma>'"

lemma mp_step_inv: "mp_step \<sigma> \<sigma>' \<Longrightarrow> mp_inv [] 0 \<sigma> \<Longrightarrow> mp_inv [] 0 \<sigma>'"
proof (induction rule: mp_step.induct)
  case (pool_allocate sz \<sigma> r sa mp)
  then show ?case using mp_allocate_inv [OF _ refl refl refl] by blast
next
  case (pool_free a \<sigma> r sa mp)
  then show ?case using mp_inv_free [OF pool_free(3) refl refl refl pool_free(1)] by (cases \<sigma>) auto
next
  case (pool_start \<sigma> victim receiver q ok mode hint z abort r sa mp)
  then show ?case using mp_startSlabRelease_inv [OF _ refl refl] by blast
next
  case (pool_complete c \<sigma> ok r sa mp)
  then show ?case using mp_completeSlabRelease_inv [OF _ refl refl refl] by blast
next
  case (pool_abort c \<sigma> r sa mp)
  then show ?case using mp_abortSlabRelease_inv [OF _ refl refl refl] by blast
next
  case (pool_reclaim n \<sigma> m sa mp)
  then show ?case using reclaimLoop_inv [OF _ refl refl] by (simp add: reclaimSlabsAndGrow_def)
qed (simp_all add: mp_inv_limits mp_inv_others)

lemma createClasses_at:
  assumes "createClasses sa pid cid sizes = Inr acs"
  shows "length acs = length sizes \<and> (\<forall>i < length sizes. AllocationClass_init (cid + int i) pid (sizes ! i) sa = Inr (acs ! i))"
  using assms
proof (induction sizes arbitrary: cid acs)
  case (Cons n ns)
  obtain ac rest where r: "AllocationClass_init cid pid n sa = Inr ac" "createClasses sa pid (cid + 1) ns = Inr rest" "acs = ac # rest"
    using Cons(2) by (auto split: if_splits sum.splits)
  note IH = Cons(1) [OF r(2)]
  show ?case
  proof (intro conjI allI impI)
    show "length acs = length (n # ns)" using IH r(3) by simp
    show "AllocationClass_init (cid + int i) pid ((n # ns) ! i) sa = Inr (acs ! i)" if "i < length (n # ns)" for i
      using IH r that by (cases i) (auto simp: add.assoc)
  qed
qed simp

lemma ac_init_ids: "AllocationClass_init cid pid n sa = Inr ac \<Longrightarrow> ac_ids ac = (cid, pid, n)"
  by (auto simp: AllocationClass_init_def ac_ids_def Let_def split: option.splits)

lemma mp_inv_start:
  assumes wf: "sa_wf sa" and no: "\<And>s k. \<not> in_pool pid sa s k" and eq: "MemoryPool_init pid n sizes sa = Inr mp"
  shows "mp_inv [] 0 \<lparr>ms_sa = sa, ms_mp = mp, ms_live = {}, ms_ctxs = [], ms_taken = 0\<rparr>"
proof -
  let ?sz = "sorted_list_of_set sizes"
  obtain acs where acs: "createClasses sa pid 0 ?sz = Inr acs" and chk: "mp_checkState sa mp = None" and mp: "mp_id mp = pid" "acSizes mp = ?sz" "mp_ac mp = acs"
      "mp_freeSlabs mp = []" "currSlabAllocSize mp = 0" "currAllocSize mp = 0"
    using eq by (auto simp: MemoryPool_init_def createAllocationClasses_def Let_def split: sum.splits option.splits)
  note A = createClasses_at [OF acs]
  have "mp_classes sa mp {} []" unfolding mp_classes_def mp
  proof (intro conjI allI impI)
    show "length ?sz = length acs" using A by simp
    fix i assume i: "i < length acs"
    then have a: "AllocationClass_init (int i) pid (?sz ! i) sa = Inr (acs ! i)" using A by simp
    show ids: "ac_ids (acs ! i) = (int i, pid, ?sz ! i)" by (rule ac_init_ids [OF a])
    have "\<not> ours (acs ! i) sa s" for s using no in_pool_ours [OF ids] by blast
    then show "sys_inv (class_sys sa (acs ! i) (live_of pid sa {} i) (ctxs_of [] i))"
      using sys_inv_start [OF wf a] by (simp add: live_of_def ctxs_of_def)
  qed
  moreover have "class_slabs sa mp = {}" using no mp by (auto simp: class_slabs_iff)
  moreover have "0 \<le> pid" "?sz \<noteq> []" using chk by (auto simp: mp_checkState_def mp split: if_splits)
  ultimately show ?thesis using wf no mp by (simp add: mp_inv_def pool_slabs_ok_def live_bytes_def)
qed

lemma pool_inv: "mp_reachable pid sizes \<sigma> \<Longrightarrow> mp_inv [] 0 \<sigma>"
  by (induction rule: mp_reachable.induct) (auto intro: mp_step_inv mp_inv_start)

text \<open>C10. In every reachable state of a pool, a slab whose header names the pool is in one place: on the free list of the
  pool exactly when the header names no class, and otherwise in one of the classes of the pool; it is never on the lists
  of the slab allocator. The bytes the pool counts as allocated are the bytes clients hold, and the bytes it counts as
  slab memory are those of the slabs of its classes, less one slab for each that was released from the free list.\<close>

theorem pool_accounting:
  assumes r: "mp_reachable pid sizes \<sigma>"
  shows "distinct (mp_freeSlabs (ms_mp \<sigma>)) \<and>
    (\<forall>s. s \<in> set (mp_freeSlabs (ms_mp \<sigma>)) \<longleftrightarrow> in_pool (mp_id (ms_mp \<sigma>)) (ms_sa \<sigma>) s kInvalidClassId) \<and>
    (\<forall>s k. in_pool (mp_id (ms_mp \<sigma>)) (ms_sa \<sigma>) s k \<longrightarrow> (k = kInvalidClassId \<or> class_index (ms_mp \<sigma>) k) \<and>
       s \<notin> set (sa_freeSlabs (ms_sa \<sigma>)) \<and> s \<notin> set (advisedSlabs (ms_sa \<sigma>))) \<and>
    currAllocSize (ms_mp \<sigma>) = word_of_nat (live_bytes (ms_sa \<sigma>) (ms_mp \<sigma>) (ms_live \<sigma>)) \<and>
    currSlabAllocSize (ms_mp \<sigma>) = word_of_int (int kSize * (int (card (class_slabs (ms_sa \<sigma>) (ms_mp \<sigma>))) - int (ms_taken \<sigma>)))"
proof (intro conjI allI impI)
  note M = mp_invD [OF pool_inv [OF r]] and P = pool_slabs_okD [OF mp_invD(1) [OF pool_inv [OF r]]]
  let ?in = "in_pool (mp_id (ms_mp \<sigma>)) (ms_sa \<sigma>)"
  show "distinct (mp_freeSlabs (ms_mp \<sigma>))" using P(3) by simp
  have cls: "class_index (ms_mp \<sigma>) k" if "s \<in> class_slabs (ms_sa \<sigma>) (ms_mp \<sigma>)" "?in s k" for s k
    using that in_pool_unique by (fastforce simp: class_slabs_iff class_index_def)
  have free: "k = kInvalidClassId" if "s \<in> set (mp_freeSlabs (ms_mp \<sigma>))" "?in s k" for s k
    using P(4) [of s] that in_pool_classless by auto
  show "s \<in> set (mp_freeSlabs (ms_mp \<sigma>)) \<longleftrightarrow> ?in s kInvalidClassId" for s
    using P(4) [of s] P(5) [of s kInvalidClassId] in_pool_classless cls [of s kInvalidClassId] by (auto simp: class_index_def kInvalidClassId_def)
  fix s k assume k: "?in s k"
  show "k = kInvalidClassId \<or> class_index (ms_mp \<sigma>) k" using P(5) [OF k] cls free k by auto
  show "s \<notin> set (sa_freeSlabs (ms_sa \<sigma>))" "s \<notin> set (advisedSlabs (ms_sa \<sigma>))" using P(6) [of s k] k by auto
next
  note M = mp_invD [OF pool_inv [OF r]]
  show "currAllocSize (ms_mp \<sigma>) = word_of_nat (live_bytes (ms_sa \<sigma>) (ms_mp \<sigma>) (ms_live \<sigma>))" by (fact M(7))
  show "currSlabAllocSize (ms_mp \<sigma>) = word_of_int (int kSize * (int (card (class_slabs (ms_sa \<sigma>) (ms_mp \<sigma>))) - int (ms_taken \<sigma>)))"
    using M(6) by (simp only: add_0_right)
qed

text \<open>The chunk a client holds, within its slab.\<close>

definition chunk_bytes :: "mp_sys \<Rightarrow> addr \<Rightarrow> nat" where
  "chunk_bytes \<sigma> a = acSizes (ms_mp \<sigma>) ! slab_class (ms_sa \<sigma>) (getSlabForMemory a)"

lemma mp_live_chunk:
  assumes inv: "mp_inv [] 0 \<sigma>" and a: "a \<in> ms_live \<sigma>"
  obtains i k where "i < length (mp_ac (ms_mp \<sigma>))" "in_pool (mp_id (ms_mp \<sigma>)) (ms_sa \<sigma>) (getSlabForMemory a) (int i)"
    "a = chunk (mp_ac (ms_mp \<sigma>) ! i) (getSlabForMemory a) k" "k < getAllocsPerSlab (mp_ac (ms_mp \<sigma>) ! i)"
    "allocationSize (mp_ac (ms_mp \<sigma>) ! i) = chunk_bytes \<sigma> a" "isValidSlab (ms_sa \<sigma>) (getSlabForMemory a)"
    "getSlabForMemory a \<le> a" "a + chunk_bytes \<sigma> a \<le> getSlabForMemory a + kSize"
proof -
  note M = mp_invD [OF inv]
  obtain i where i: "i < length (mp_ac (ms_mp \<sigma>))" "in_pool (mp_id (ms_mp \<sigma>)) (ms_sa \<sigma>) (getSlabForMemory a) (int i)"
    using M(4) [OF a] by (auto simp: class_slabs_iff)
  note C = mp_classesD [OF M(2) i(1)] and I = sys_invD(1) [OF mp_classesD(2) [OF M(2) i(1)], unfolded ac_sys.simps]
  have "a \<in> live_of (mp_id (ms_mp \<sigma>)) (ms_sa \<sigma>) (ms_live \<sigma>) i" using a i(2) by (simp add: live_of_def)
  then have "carved (mp_ac (ms_mp \<sigma>) ! i) (ms_sa \<sigma>) a" using ac_invD(7) [OF I] by blast
  then obtain k where k: "a = chunk (mp_ac (ms_mp \<sigma>) ! i) (getSlabForMemory a) k" "k < getAllocsPerSlab (mp_ac (ms_mp \<sigma>) ! i)"
    "ours (mp_ac (ms_mp \<sigma>) ! i) (ms_sa \<sigma>) (getSlabForMemory a)" using carvedE [OF _ ac_invD(1,3) [OF I]] by blast
  have n: "allocationSize (mp_ac (ms_mp \<sigma>) ! i) = chunk_bytes \<sigma> a" using C(1) in_pool_class [OF i(2)] by (simp add: ac_ids_def chunk_bytes_def)
  show ?thesis using chunk_end [OF k(2)] k(1) n by (intro that [OF i k(1,2) n ours_valid [OF k(3)]]) linarith+
qed

lemma mp_live_disjoint:
  assumes inv: "mp_inv [] 0 \<sigma>" and a: "a \<in> ms_live \<sigma>" and b: "b \<in> ms_live \<sigma>" and ne: "a \<noteq> b"
  shows "{a..<a + chunk_bytes \<sigma> a} \<inter> {b..<b + chunk_bytes \<sigma> b} = {}"
proof -
  have wf: "sa_wf (ms_sa \<sigma>)" by (rule pool_slabs_okD(1) [OF mp_invD(1) [OF inv]])
  obtain i k where i: "in_pool (mp_id (ms_mp \<sigma>)) (ms_sa \<sigma>) (getSlabForMemory a) (int i)" "a = chunk (mp_ac (ms_mp \<sigma>) ! i) (getSlabForMemory a) k"
    "k < getAllocsPerSlab (mp_ac (ms_mp \<sigma>) ! i)" "allocationSize (mp_ac (ms_mp \<sigma>) ! i) = chunk_bytes \<sigma> a" "isValidSlab (ms_sa \<sigma>) (getSlabForMemory a)"
    "getSlabForMemory a \<le> a" "a + chunk_bytes \<sigma> a \<le> getSlabForMemory a + kSize" by (rule mp_live_chunk [OF inv a])
  obtain j l where j: "in_pool (mp_id (ms_mp \<sigma>)) (ms_sa \<sigma>) (getSlabForMemory b) (int j)" "b = chunk (mp_ac (ms_mp \<sigma>) ! j) (getSlabForMemory b) l"
    "l < getAllocsPerSlab (mp_ac (ms_mp \<sigma>) ! j)" "allocationSize (mp_ac (ms_mp \<sigma>) ! j) = chunk_bytes \<sigma> b" "isValidSlab (ms_sa \<sigma>) (getSlabForMemory b)"
    "getSlabForMemory b \<le> b" "b + chunk_bytes \<sigma> b \<le> getSlabForMemory b + kSize" by (rule mp_live_chunk [OF inv b])
  show "{a..<a + chunk_bytes \<sigma> a} \<inter> {b..<b + chunk_bytes \<sigma> b} = {}"
  proof (cases "getSlabForMemory a = getSlabForMemory b")
    case True
    then have "j = i" using i(1) j(1) in_pool_unique [of "mp_id (ms_mp \<sigma>)" "ms_sa \<sigma>" "getSlabForMemory b" "int i" "int j"] by simp
    then show ?thesis using chunk_disjoint [OF wf i(5) j(5) i(3), of l] i(2,4) j(2-4) ne by metis
  next
    case False
    have "getSlabForMemory a mod kSize = 0" "getSlabForMemory b mod kSize = 0" using i(5) j(5) isValidSlab_iff [OF wf] by simp_all
    then have "{getSlabForMemory a..<getSlabForMemory a + kSize} \<inter> {getSlabForMemory b..<getSlabForMemory b + kSize} = {}" by (rule aligned_disjoint [OF _ _ False])
    then show ?thesis using i(6,7) j(6,7) by (auto simp: disjoint_iff)
  qed
qed


lemma lower_bound_linear:
  assumes "sorted xs"
  shows "lower_bound xs x = length (takeWhile (\<lambda>n. n < x) xs)"
proof -
  note L = lower_bound_spec [OF assms, of x]
  have "takeWhile (\<lambda>n. n < x) xs = take (lower_bound xs x) xs"
    by (rule takeWhile_eq_take_P_nth) (use L in auto)
  then show ?thesis using L by simp
qed

text \<open>C12. The binary search for the class of an allocation finds what a scan of the classes in order of size does: for
  every size that some class can hold, and only those, the first class that is large enough.\<close>

theorem class_of_size:
  assumes "mp_checkState sa mp = None"
  shows "getAllocationClassId sz mp = (if sz = 0 \<or> (\<forall>n \<in> set (acSizes mp). n < sz) then Inl InvalidSize
    else Inr (int (length (takeWhile (\<lambda>n. n < sz) (acSizes mp)))))"
proof -
  have s: "sorted (acSizes mp)" "acSizes mp \<noteq> []" using assms by (auto simp: mp_checkState_def split: if_splits)
  have "n \<le> last (acSizes mp)" if n: "n \<in> set (acSizes mp)" for n
  proof -
    obtain i where i: "i < length (acSizes mp)" "acSizes mp ! i = n" using n by (auto simp: in_set_conv_nth)
    then show ?thesis using sorted_nth_mono [OF s(1), of i "length (acSizes mp) - 1"] s(2) by (simp add: last_conv_nth)
  qed
  then have "sz > last (acSizes mp) \<longleftrightarrow> (\<forall>n \<in> set (acSizes mp). n < sz)" using last_in_set [OF s(2)] le_less_trans by blast
  then show ?thesis using lower_bound_linear [OF s(1)] by (auto simp: getAllocationClassId_def)
qed

text \<open>Allocating from a pool gives it another slab only within its limit: unless the sum wraps around, the slab
  memory after an allocation that added a slab, with the memory advised away, is at most the size of the pool.\<close>

lemma pool_grows_within_limit:
  assumes "unat (currSlabAllocSize mp) + unat (getPoolAdvisedSize mp) + kSize < 2 ^ 64"
    and "mp_allocate sz (sa, mp) = (r, sa', mp')" and "currSlabAllocSize mp' \<noteq> currSlabAllocSize mp"
  shows "unat (currSlabAllocSize mp') = unat (currSlabAllocSize mp) + kSize \<and>
    unat (currSlabAllocSize mp') + unat (getPoolAdvisedSize mp') \<le> unat (maxSize mp')"
proof -
  have g: "(currSlabAllocSize b = currSlabAllocSize m \<or> currSlabAllocSize b = currSlabAllocSize m + slab64 \<and> \<not> mp_allSlabsAllocated m) \<and>
      maxSize b = maxSize m \<and> curSlabsAdvised b = curSlabsAdvised m" if "getSlabLocked (s, m) = (q, s', b)" for s m q s' b
    using that by (auto simp: getSlabLocked_def Let_def split: if_splits prod.splits option.splits)
  have sm: "mp_allSlabsAllocated (set_ac i ac m) = mp_allSlabsAllocated m" "currSlabAllocSize (set_ac i ac m) = currSlabAllocSize m"
    "maxSize (set_ac i ac m) = maxSize m" "curSlabsAdvised (set_ac i ac m) = curSlabsAdvised m" for i ac m
    by (simp_all add: mp_allSlabsAllocated_def set_ac_def getPoolAdvisedSize_def)
  have sl: "(currSlabAllocSize b = currSlabAllocSize m \<or> currSlabAllocSize b = currSlabAllocSize m + slab64 \<and> \<not> mp_allSlabsAllocated m) \<and>
      maxSize b = maxSize m \<and> curSlabsAdvised b = curSlabsAdvised m" if "allocateSlow i (s, m) = (q, s', b)" for i s m q s' b
    using that by (auto simp: allocateSlow_def sm split: prod.splits option.splits dest!: g)
  have *: "currSlabAllocSize mp' = currSlabAllocSize mp + slab64 \<and> \<not> mp_allSlabsAllocated mp \<and> maxSize mp' = maxSize mp \<and> curSlabsAdvised mp' = curSlabsAdvised mp"
    using assms(2,3) by (auto simp: mp_allocate_def Let_def sm split: sum.splits prod.splits option.splits if_splits dest!: sl)
  have k: "unat slab64 = kSize" by (simp add: kSize_def kNumSlabBits_def)
  have 1: "unat (currSlabAllocSize mp + slab64) = unat (currSlabAllocSize mp) + kSize"
    using assms(1) unat_add_lem [of "currSlabAllocSize mp" slab64] by (simp add: k)
  have 2: "unat (currSlabAllocSize mp + getPoolAdvisedSize mp) = unat (currSlabAllocSize mp) + unat (getPoolAdvisedSize mp)"
    using assms(1) unat_add_lem [of "currSlabAllocSize mp" "getPoolAdvisedSize mp"] by simp
  have "unat (currSlabAllocSize mp + getPoolAdvisedSize mp + slab64) = unat (currSlabAllocSize mp) + unat (getPoolAdvisedSize mp) + kSize"
    using assms(1) 2 unat_add_lem [of "currSlabAllocSize mp + getPoolAdvisedSize mp" slab64] by (simp add: k)
  then show ?thesis using * 1 by (simp add: mp_allSlabsAllocated_def getPoolAdvisedSize_def word_le_nat_alt not_less)
qed

section \<open>The check of the state\<close>

text \<open>The number of a pool and the sizes of its classes never change.\<close>

abbreviation pool_static :: "MemoryPool \<Rightarrow> int \<times> nat list" where
  "pool_static mp \<equiv> (mp_id mp, acSizes mp)"

lemma static_set_ac: "pool_static (set_ac i ac mp) = pool_static mp" by (simp add: set_ac_def)

lemma static_getSlab: "getSlabLocked (sa, mp) = (r, sa', mp') \<Longrightarrow> pool_static mp' = pool_static mp"
  by (auto simp: getSlabLocked_def Let_def split: if_splits prod.splits option.splits)

lemma static_allocateSlow: "allocateSlow i (sa, mp) = (r, sa', mp') \<Longrightarrow> pool_static mp' = pool_static mp"
  by (auto simp: allocateSlow_def set_ac_def split: prod.splits option.splits dest!: static_getSlab)

lemma static_allocate: "mp_allocate sz (sa, mp) = (r, sa', mp') \<Longrightarrow> pool_static mp' = pool_static mp"
  by (auto simp: mp_allocate_def Let_def set_ac_def split: sum.splits prod.splits option.splits if_splits dest!: static_allocateSlow)

lemma static_free: "mp_free a (sa, mp) = (r, sa', mp') \<Longrightarrow> pool_static mp' = pool_static mp"
  by (auto simp: mp_free_def set_ac_def split: sum.splits prod.splits)

lemma static_release: "mp_releaseSlab ok mode s q (sa, mp) = (r, sa', mp') \<Longrightarrow> pool_static mp' = pool_static mp"
  by (cases mode) (auto simp: mp_releaseSlab_def Let_def set_ac_def split: sum.splits prod.splits if_splits)

lemma static_victim: "mp_victimContext v mode hint r abort (sa, mp) = (res, sa', mp') \<Longrightarrow> pool_static mp' = pool_static mp"
  by (auto simp: mp_victimContext_def releaseFromFreeSlabs_def set_ac_def split: sum.splits prod.splits if_splits)

lemma static_start:
  assumes "mp_startSlabRelease ok v q mode hint z r abort (sa, mp) = (res, sa', mp')"
  shows "pool_static mp' = pool_static mp"
proof -
  obtain c sa1 mp1 where c: "mp_victimContext v mode hint r abort (sa, mp) = (c, sa1, mp1)" by (cases "mp_victimContext v mode hint r abort (sa, mp)") auto
  from static_victim [OF c] assms c show ?thesis
    by (auto simp: mp_startSlabRelease_def Let_def split: sum.splits prod.splits if_splits dest!: static_release)
qed

lemma static_abort: "mp_abortSlabRelease c (sa, mp) = (r, sa', mp') \<Longrightarrow> pool_static mp' = pool_static mp"
  by (auto simp: mp_abortSlabRelease_def set_ac_def split: sum.splits prod.splits)

lemma static_complete: "mp_completeSlabRelease ok c (sa, mp) = Some (r, sa', mp') \<Longrightarrow> pool_static mp' = pool_static mp"
  by (auto simp: mp_completeSlabRelease_def set_ac_def split: sum.splits prod.splits if_splits option.splits dest!: static_release)

lemma static_reclaim: "reclaimLoop n k (sa, mp) = (m, sa', mp') \<Longrightarrow> pool_static mp' = pool_static mp"
proof (induction n arbitrary: k sa mp)
  case (Suc n)
  then show ?case by (auto split: prod.splits option.splits dest!: Suc.IH)
qed simp

lemma mp_step_static: "mp_step \<sigma> \<sigma>' \<Longrightarrow> pool_static (ms_mp \<sigma>') = pool_static (ms_mp \<sigma>)"
  by (induction rule: mp_step.induct)
    (simp_all add: mp_resize_def setNumSlabsAdvised_def reclaimSlabsAndGrow_def static_allocate [simplified] static_free [simplified]
      static_start [simplified] static_complete [simplified] static_abort [simplified] static_reclaim [simplified])

lemma createClasses_sizes: "createClasses sa pid cid sizes = Inr acs \<Longrightarrow> n \<in> set sizes \<Longrightarrow> kMinAllocSize \<le> n \<and> n \<le> kSize"
  by (induction sizes arbitrary: cid acs) (auto split: if_splits sum.splits)

lemma reachable_static: "mp_reachable pid sizes \<sigma> \<Longrightarrow> pool_static (ms_mp \<sigma>) = (pid, sorted_list_of_set sizes) \<and>
   (\<forall>n \<in> set (sorted_list_of_set sizes). kMinAllocSize \<le> n \<and> n \<le> kSize)"
proof (induction rule: mp_reachable.induct)
  case (pool_created sa n mp)
  then show ?case by (auto simp: MemoryPool_init_def createAllocationClasses_def Let_def createClasses_sizes split: sum.splits option.splits)
next
  case (pool_used \<sigma> \<sigma>')
  then show ?case using mp_step_static by metis
qed

text \<open>The chunks held fit into the slabs of the classes.\<close>

lemma class_slab_valid: "s \<in> class_slabs sa mp \<Longrightarrow> isValidSlab sa s"
  by (auto simp: class_slabs_iff in_pool_def getSlabHeader_def split: option.splits if_splits)

lemma slabs_card_UN:
  assumes "sa_wf sa" "finite S" "\<And>s. s \<in> S \<Longrightarrow> isValidSlab sa s"
  shows "card (\<Union>s \<in> S. {s..<s + kSize}) = kSize * card S"
proof -
  have "s mod kSize = 0" if "s \<in> S" for s using assms(3) [OF that] isValidSlab_iff [OF assms(1)] by simp
  then have "\<forall>s \<in> S. \<forall>t \<in> S. s \<noteq> t \<longrightarrow> {s..<s + kSize} \<inter> {t..<t + kSize} = {}" by (intro ballI impI aligned_disjoint)
  from card_UN_disjoint [OF assms(2) _ this] show ?thesis by simp
qed

lemma live_bytes_le:
  assumes inv: "mp_inv [] 0 \<sigma>"
  shows "live_bytes (ms_sa \<sigma>) (ms_mp \<sigma>) (ms_live \<sigma>) \<le> kSize * card (class_slabs (ms_sa \<sigma>) (ms_mp \<sigma>))"
proof -
  note M = mp_invD [OF inv]
  let ?S = "class_slabs (ms_sa \<sigma>) (ms_mp \<sigma>)"
  have "live_bytes (ms_sa \<sigma>) (ms_mp \<sigma>) (ms_live \<sigma>) = (\<Sum>a \<in> ms_live \<sigma>. card {a..<a + chunk_bytes \<sigma> a})"
    by (simp add: live_bytes_def chunk_bytes_def)
  also have "\<dots> = card (\<Union>a \<in> ms_live \<sigma>. {a..<a + chunk_bytes \<sigma> a})"
    by (rule card_UN_disjoint [symmetric, OF M(3)]) (use mp_live_disjoint [OF inv] in auto)
  also have "\<dots> \<le> card (\<Union>s \<in> ?S. {s..<s + kSize})"
  proof (rule card_mono)
    show "finite (\<Union>s \<in> ?S. {s..<s + kSize})" using finite_class_slabs by blast
    have "{a..<a + chunk_bytes \<sigma> a} \<subseteq> (\<Union>s \<in> ?S. {s..<s + kSize})" if a: "a \<in> ms_live \<sigma>" for a
    proof -
      have "getSlabForMemory a \<le> a" "a + chunk_bytes \<sigma> a \<le> getSlabForMemory a + kSize" by (rule mp_live_chunk [OF inv a]; assumption)+
      then have "{a..<a + chunk_bytes \<sigma> a} \<subseteq> {getSlabForMemory a..<getSlabForMemory a + kSize}" by auto
      then show ?thesis using M(4) [OF a] by blast
    qed
    then show "(\<Union>a \<in> ms_live \<sigma>. {a..<a + chunk_bytes \<sigma> a}) \<subseteq> (\<Union>s \<in> ?S. {s..<s + kSize})" by blast
  qed
  also have "\<dots> = kSize * card ?S"
    by (rule slabs_card_UN [OF pool_slabs_okD(1) [OF M(1)] finite_class_slabs class_slab_valid])
  finally show ?thesis .
qed

lemma class_slabs_bound:
  assumes wf: "sa_wf sa"
  shows "kSize * card (class_slabs sa mp) < 2 ^ 64"
proof -
  have n: "nextSlabAllocation sa < 2 ^ 64" "nextSlabAllocation sa mod kSize = 0" using wf sa_layoutD(4) [of sa] by (auto simp: sa_wf_def)
  have "(\<Union>s \<in> class_slabs sa mp. {s..<s + kSize}) \<subseteq> {..<nextSlabAllocation sa}"
  proof (rule UN_least)
    fix s assume "s \<in> class_slabs sa mp"
    then have "s mod kSize = 0" "s < nextSlabAllocation sa" using class_slab_valid isValidSlab_iff [OF wf] by blast+
    from aligned_below [OF this(1) n(2) this(2)] show "{s..<s + kSize} \<subseteq> {..<nextSlabAllocation sa}" by auto
  qed
  from card_mono [OF _ this] have "card (\<Union>s \<in> class_slabs sa mp. {s..<s + kSize}) \<le> nextSlabAllocation sa" by simp
  moreover have "card (\<Union>s \<in> class_slabs sa mp. {s..<s + kSize}) = kSize * card (class_slabs sa mp)"
    by (rule slabs_card_UN [OF wf finite_class_slabs class_slab_valid])
  ultimately show ?thesis using n(1) by linarith
qed

text \<open>C11. As long as no slab was released from the free list, the check that the constructors of a pool make of its
  state passes in every reachable state: the bytes allocated never exceed the slab memory, the classes match their
  sizes, which are in order, and every free slab is a valid one.\<close>

theorem pool_state_valid:
  assumes r: "mp_reachable pid sizes \<sigma>" and t: "ms_taken \<sigma> = 0"
  shows "mp_checkState (ms_sa \<sigma>) (ms_mp \<sigma>) = None"
proof -
  note inv = pool_inv [OF r]
  note M = mp_invD [OF inv] and P = pool_slabs_okD [OF mp_invD(1) [OF inv]]
  let ?sa = "ms_sa \<sigma>" and ?mp = "ms_mp \<sigma>"
  have b: "live_bytes ?sa ?mp (ms_live \<sigma>) < 2 ^ 64" "kSize * card (class_slabs ?sa ?mp) < 2 ^ 64"
    using live_bytes_le [OF inv] class_slabs_bound [OF P(1), of ?mp] by linarith+
  have "currSlabAllocSize ?mp = word_of_nat (kSize * card (class_slabs ?sa ?mp))" using M(6) t by simp
  then have "currAllocSize ?mp \<le> currSlabAllocSize ?mp"
    using M(7) b live_bytes_le [OF inv] by (simp add: word_le_nat_alt unat_of_nat take_bit_nat_eq_self del: of_nat_mult)
  moreover have len: "length (acSizes ?mp) = length (mp_ac ?mp)" using M(2) by (simp add: mp_classes_def)
  moreover have s: "sorted (acSizes ?mp)" "distinct (acSizes ?mp)" using M(8) by (simp_all add: strict_sorted_iff)
  moreover have "distinct_adj (acSizes ?mp)" using s(2) by (auto simp: distinct_adj_conv_nth nth_eq_iff_index_eq)
  moreover have "\<not> (\<exists>(n, ac) \<in> set (zip (acSizes ?mp) (mp_ac ?mp)). n \<noteq> allocationSize ac \<or> n < kMinAllocSize \<or> n > kSize)"
  proof -
    have "acSizes ?mp ! i = allocationSize (mp_ac ?mp ! i) \<and> kMinAllocSize \<le> acSizes ?mp ! i \<and> acSizes ?mp ! i \<le> kSize" if "i < length (mp_ac ?mp)" for i
      using mp_classesD(1) [OF M(2) that] reachable_static [OF r] nth_mem [of i "acSizes ?mp"] that len by (simp add: ac_ids_def)
    then show ?thesis by (fastforce simp: set_zip not_less)
  qed
  moreover have "isValidSlab ?sa s" if "s \<in> set (mp_freeSlabs ?mp)" for s
    using P(4) [of s] that by (auto simp: classless_def getSlabHeader_def split: if_splits)
  moreover have "acSizes ?mp \<noteq> []" "mp_ac ?mp \<noteq> []" using M(8) len by auto
  ultimately show ?thesis using P(2) unfolding mp_checkState_def list_ex_iff not_less [symmetric] by (simp add: case_prod_unfold)
qed

section \<open>Two counters that go wrong\<close>

text \<open>C13. Releasing a slab from the free list of the pool takes it out of the slab memory of the pool, in which free slabs
  are not counted. The classes keep all their slabs, and the pool counts one slab less than they have.\<close>

theorem free_slab_release_undercounts:
  assumes r: "mp_reachable pid sizes \<sigma>" and ne: "mp_freeSlabs (ms_mp \<sigma>) \<noteq> []"
  shows "\<exists>c sa mp. mp_startSlabRelease ok kInvalidClassId kInvalidClassId kResize hint z q abort (ms_sa \<sigma>, ms_mp \<sigma>) = (Inr c, sa, mp) \<and>
    isReleased c \<and> class_slabs sa mp = class_slabs (ms_sa \<sigma>) (ms_mp \<sigma>) \<and> currSlabAllocSize mp = currSlabAllocSize (ms_mp \<sigma>) - slab64"
proof -
  note inv = pool_inv [OF r]
  note P = pool_slabs_okD [OF mp_invD(1) [OF inv]]
  let ?mp = "ms_mp \<sigma>" and ?sa = "ms_sa \<sigma>"
  define s where "s = last (mp_freeSlabs ?mp)"
  have cl: "classless (mp_id ?mp) ?sa s" using P(4) [of s] ne by (simp add: s_def)
  then obtain h where h: "getSlabHeader ?sa s = Some h" by (auto simp: classless_def)
  have n: "\<not> in_reserve ?sa s" using P(6) [of s kInvalidClassId] in_pool_classless [OF cl] by (auto simp: in_reserve_def)
  from freeSlab_at [OF P(1) h n] obtain sa' where f: "freeSlab s ?sa = Inr sa'" "sa_wf sa'" "\<And>t. t \<noteq> s \<Longrightarrow> getSlabHeader sa' t = getSlabHeader ?sa t"
    "getSlabHeader sa' s = Some (resetAllocInfo h)" "\<And>t. in_reserve sa' t \<longleftrightarrow> in_reserve ?sa t \<or> t = s" by blast
  let ?mp' = "?mp\<lparr>mp_freeSlabs := butlast (mp_freeSlabs ?mp), currSlabAllocSize := currSlabAllocSize ?mp - slab64, nSlabResize := nSlabResize ?mp + 1\<rparr>"
  have out: "\<not> in_pool (mp_id ?mp) sa' s k" for k using f(4) P(2) reset_pool [of h] by (simp add: in_pool_def kInvalidPoolId_def)
  have "class_slabs sa' ?mp' = class_slabs ?sa ?mp"
  proof (rule set_eqI)
    fix t show "t \<in> class_slabs sa' ?mp' \<longleftrightarrow> t \<in> class_slabs ?sa ?mp"
      using out classless_not_class [OF cl] in_pool_off(1) [OF f(3), of t] by (cases "t = s") (auto simp: class_slabs_iff)
  qed
  then show ?thesis using ne f(1)
    by (simp add: s_def mp_startSlabRelease_def mp_victimContext_def releaseFromFreeSlabs_def Let_def mkContext_def isReleased_def mp_releaseSlab_def)
qed

text \<open>The number of slabs a pool may still allocate wraps around when the pool has more free slabs than its limit leaves.\<close>

lemma stats_unallocated_wraps:
  assumes "getUnAllocatedSlabMemory mp > 0" "getUnAllocatedSlabMemory mp div slab64 < word_of_nat (length (mp_freeSlabs mp))"
  shows "mps_slabsUnAllocated (mp_getStats mp) > getUnAllocatedSlabMemory mp div slab64"
  using assms by (simp add: mp_getStats_def Let_def sub_wrap_lt)

section \<open>A sample pool\<close>

definition sample_mp :: MemoryPool where
  "sample_mp = \<lparr>mp_id = 3, maxSize = word_of_nat (2 * kSize), currSlabAllocSize = 0, currAllocSize = 0, mp_freeSlabs = [], acSizes = [kSize div 2],
     mp_ac = [\<lparr>ac_classId = 0, ac_poolId = 3, allocationSize = kSize div 2, currOffset = 0, currSlab = None, allocatedSlabs = [],
       ac_freeSlabs = [], freedAllocations = [], ac_canAllocate = True, activeReleases = 0, slabReleaseAllocMap = Map.empty\<rparr>],
     curSlabsAdvised = 0, nSlabResize = 0, nSlabRebalance = 0, nSlabReleaseAborted = 0\<rparr>"

lemma sample_mp_init: "MemoryPool_init 3 (word_of_nat (2 * kSize)) {kSize div 2} sa = Inr sample_mp"
  by (simp add: MemoryPool_init_def createAllocationClasses_def AllocationClass_init_def ac_checkState_def sizeofFreeAlloc_def Let_def
      mp_checkState_def sample_mp_def kSize_def kNumSlabBits_def kMinAllocSize_def kMinAllocPower_def)

text \<open>One of the slabs of the sample memory was advised away before the pool was created.\<close>

definition sample_advised :: SlabAllocator where
  "sample_advised = sample_sa\<lparr>nextSlabAllocation := 3 * kSize, advisedSlabs := [2 * kSize]\<rparr>"

lemma sample_advised_ok: "sa_wf sample_advised" "\<not> in_pool 3 sample_advised s k" "sa_wf sample_sa" "\<not> in_pool 3 sample_sa s k"
proof -
  show a: "sa_wf sample_sa"
    by (simp add: sa_wf_def sa_layout_def sample_sa_def getSlabMemoryEnd_def numSlabs_def numSlabsForHeaders_def kSize_def kNumSlabBits_def)
  have n: "sa_wf (sample_sa\<lparr>nextSlabAllocation := nextSlabAllocation sample_sa + kSize\<rparr>)" "isValidSlab (sample_sa\<lparr>nextSlabAllocation := nextSlabAllocation sample_sa + kSize\<rparr>) (nextSlabAllocation sample_sa)"
    using validSlabs_next [OF a] by (auto simp: validSlabs_def allMemorySlabbed_def sample_sa_def getSlabMemoryEnd_def kSize_def kNumSlabBits_def)
  have e: "sample_advised = sample_sa\<lparr>nextSlabAllocation := nextSlabAllocation sample_sa + kSize\<rparr>\<lparr>advisedSlabs := [2 * kSize]\<rparr>" by (simp add: sample_advised_def sample_sa_def)
  show "sa_wf sample_advised" using n unfolding e by (auto simp: sa_wf_def sample_sa_def [THEN arg_cong, of nextSlabAllocation] sample_sa_def [THEN arg_cong, of sa_freeSlabs])
  show "\<not> in_pool 3 sample_advised s k" "\<not> in_pool 3 sample_sa s k"
    by (simp_all add: in_pool_def getSlabHeader_def sample_advised_def sample_sa_def SlabHeader_init_def kInvalidPoolId_def)
qed

abbreviation sample_pool :: "SlabAllocator \<Rightarrow> mp_sys" where
  "sample_pool sa \<equiv> \<lparr>ms_sa = sa, ms_mp = sample_mp, ms_live = {}, ms_ctxs = [], ms_taken = 0\<rparr>"

lemma sample_pool_reachable: "mp_reachable 3 {kSize div 2} (sample_pool sample_sa)" "mp_reachable 3 {kSize div 2} (sample_pool sample_advised)"
  by (rule pool_created [OF _ _ sample_mp_init]; simp add: sample_advised_ok)+

text \<open>A client allocates a chunk; the pool reclaims the advised slab.\<close>

definition sample_alloc :: "(mp_error + ptr) \<times> mps" where
  "sample_alloc = mp_allocate 100 (sample_sa, sample_mp)"

definition sample_reclaim :: "nat \<times> mps" where
  "sample_reclaim = reclaimSlabsAndGrow 1 (sample_advised, setNumSlabsAdvised 1 sample_mp)"

abbreviation sample_used :: mp_sys where
  "sample_used \<equiv> \<lparr>ms_sa = fst (snd sample_alloc), ms_mp = snd (snd sample_alloc), ms_live = {2 * kSize}, ms_ctxs = [], ms_taken = 0\<rparr>"

abbreviation sample_grown :: mp_sys where
  "sample_grown \<equiv> \<lparr>ms_sa = fst (snd sample_reclaim), ms_mp = snd (snd sample_reclaim), ms_live = {}, ms_ctxs = [], ms_taken = 0\<rparr>"

lemma sample_alloc_eval: "fst sample_alloc = Inr (Some (2 * kSize))" "currSlabAllocSize (snd (snd sample_alloc)) = word_of_nat kSize"
  by (simp_all add: sample_alloc_def mp_allocate_def getAllocationClassId_def sample_mp_def ac_allocate_def allocateLocked_def canAllocateFromCurrentSlabLocked_def
      mp_allSlabsAllocated_def getPoolAdvisedSize_def allocateSlow_def getSlabLocked_def makeNewSlab_def makeNewSlabImpl_def allMemorySlabbed_def sample_sa_def
      getSlabMemoryEnd_def addSlabAndAllocate_def addSlabLocked_def setupCurrentSlabLocked_def allocateFromCurrentSlabLocked_def Let_def set_ac_def
      initializeHeader_def upd_header_def kSize_def kNumSlabBits_def)

lemma sample_used_reachable: "mp_reachable 3 {kSize div 2} sample_used"
proof -
  obtain sa mp where a: "sample_alloc = (Inr (Some (2 * kSize)), sa, mp)" using sample_alloc_eval(1) by (metis prod.collapse)
  then have "mp_allocate 100 (ms_sa (sample_pool sample_sa), ms_mp (sample_pool sample_sa)) = (Inr (Some (2 * kSize)), sa, mp)" by (simp add: sample_alloc_def)
  from pool_used [OF sample_pool_reachable(1) pool_allocate [OF this]] show ?thesis by (simp add: a)
qed

lemma sample_reclaim_eval: "mp_freeSlabs (snd (snd sample_reclaim)) = [2 * kSize]"
  by (simp add: sample_reclaim_def reclaimSlabsAndGrow_def reclaimSlab_def sample_advised_def sample_mp_def setNumSlabsAdvised_def Let_def sample_sa_def)

lemma sample_grown_reachable: "mp_reachable 3 {kSize div 2} sample_grown"
proof -
  obtain m sa mp where a: "sample_reclaim = (m, sa, mp)" by (cases sample_reclaim) auto
  note s = pool_used [OF sample_pool_reachable(2) pool_advised [of _ 1], simplified]
  from a have "reclaimSlabsAndGrow 1 (sample_advised, setNumSlabsAdvised 1 sample_mp) = (m, sa, mp)" by (simp only: sample_reclaim_def)
  with pool_used [OF s pool_reclaim [of 1 _ m sa mp]] show ?thesis by (simp add: a)
qed

theorem pool_accounting_witness: "distinct (mp_freeSlabs (ms_mp sample_used)) \<and>
    currAllocSize (ms_mp sample_used) = word_of_nat (live_bytes (ms_sa sample_used) (ms_mp sample_used) {2 * kSize}) \<and>
    word_of_nat kSize = (word_of_int (int kSize * (int (card (class_slabs (ms_sa sample_used) (ms_mp sample_used))) - 0)) :: u64)"
  using pool_accounting [OF sample_used_reachable] sample_alloc_eval(2) by simp


theorem pool_state_valid_witness: "mp_checkState (ms_sa sample_used) (ms_mp sample_used) = None"
  using pool_state_valid [OF sample_used_reachable] by simp

theorem class_of_size_witness: "mp_checkState sample_sa sample_mp = None \<and> getAllocationClassId 100 sample_mp = Inr 0"
proof -
  have "mp_checkState sample_sa sample_mp = None" using sample_mp_init [of sample_sa] by (auto simp: MemoryPool_init_def Let_def split: sum.splits option.splits)
  from this class_of_size [OF this, of 100] show ?thesis by (simp add: sample_mp_def kSize_def kNumSlabBits_def)
qed

theorem free_slab_release_undercounts_witness: "\<exists>c sa mp. mp_startSlabRelease True kInvalidClassId kInvalidClassId kResize None False 0 (\<lambda>_. False)
      (ms_sa sample_grown, ms_mp sample_grown) = (Inr c, sa, mp) \<and> isReleased c \<and> class_slabs sa mp = class_slabs (ms_sa sample_grown) (ms_mp sample_grown) \<and>
    currSlabAllocSize mp = currSlabAllocSize (ms_mp sample_grown) - slab64"
  using free_slab_release_undercounts [OF sample_grown_reachable] sample_reclaim_eval by simp

end
