(* ===== verification/MemoryPoolManager.thy ===== *)
theory MemoryPoolManager
  imports MemoryPool
begin

text \<open>
  The pools of a cache: \<^verbatim>\<open>cachelib/allocator/memory/MemoryPoolManager.h\<close> and \<^verbatim>\<open>MemoryPoolManager.cpp\<close>. It divides
  the memory of the slab allocator among the pools, moves memory between them, and computes how many slabs each pool
  should give back to the system or reclaim. The array of pools is the list of those that exist; sizes and counts are
  64-bit words and wrap. Sets of pools are iterated in ascending order, maps in the order of insertion.
\<close>

section \<open>The pools\<close>

definition kMaxPools :: nat where "kMaxPools = 64"

record MemoryPoolManager =
  pm_pools :: "MemoryPool list"
  poolsByName :: "(string \<times> int) list"
  nextPoolId :: int
  numSlabsToAdvise :: u64

datatype pm_error = DuplicatePool | PoolsExhausted | NotEnoughMemory | InvalidPoolName | BadPoolId | InvalidNumSlabs
  | NotRestorable_pm | NextPoolIdMismatch | PoolsByNameMismatch | AdvisedMismatch | From_mp mp_error

definition MemoryPoolManager_init :: MemoryPoolManager where
  "MemoryPoolManager_init = \<lparr>pm_pools = [], poolsByName = [], nextPoolId = 0, numSlabsToAdvise = 0\<rparr>"

definition getRemainingSizeLocked :: "SlabAllocator \<Rightarrow> MemoryPoolManager \<Rightarrow> u64" where
  "getRemainingSizeLocked sa pm =
     (let totalSize = word_of_nat (getNumUsableAndAdvisedSlabs sa) * slab64;
          acc = sum_list (map maxSize (take (nat (nextPoolId pm)) (pm_pools pm)))
      in totalSize - acc)"

definition createNewPool :: "SlabAllocator \<Rightarrow> string \<Rightarrow> u64 \<Rightarrow> nat set \<Rightarrow> MemoryPoolManager \<Rightarrow> pm_error + int \<times> MemoryPoolManager" where
  "createNewPool sa name poolSize allocSizes pm =
     (if map_of (poolsByName pm) name \<noteq> None then Inl DuplicatePool
      else if nextPoolId pm = int kMaxPools then Inl PoolsExhausted
      else if getRemainingSizeLocked sa pm < poolSize then Inl NotEnoughMemory
      else
        let pid = nextPoolId pm in
        case MemoryPool_init pid poolSize allocSizes sa of
          Inl e \<Rightarrow> Inl (From_mp e)
        | Inr pool \<Rightarrow> Inr (pid, pm\<lparr>pm_pools := pm_pools pm @ [pool], poolsByName := poolsByName pm @ [(name, pid)], nextPoolId := pid + 1\<rparr>))"

text \<open>A pool by its number, as its position in the array.\<close>

definition getPoolById :: "int \<Rightarrow> MemoryPoolManager \<Rightarrow> pm_error + nat" where
  "getPoolById pid pm = (if pid < nextPoolId pm \<and> pid \<ge> 0 then Inr (nat pid) else Inl BadPoolId)"

definition getPoolByName :: "string \<Rightarrow> MemoryPoolManager \<Rightarrow> pm_error + nat" where
  "getPoolByName name pm = (case map_of (poolsByName pm) name of None \<Rightarrow> Inl InvalidPoolName | Some poolId \<Rightarrow> Inr (nat poolId))"

definition getPoolNameById :: "int \<Rightarrow> MemoryPoolManager \<Rightarrow> pm_error + string" where
  "getPoolNameById pid pm = (case find (\<lambda>(_, i). i = pid) (poolsByName pm) of None \<Rightarrow> Inl BadPoolId | Some (name, _) \<Rightarrow> Inr name)"

definition getPoolIds :: "MemoryPoolManager \<Rightarrow> int list" where
  "getPoolIds pm = map int [0..<nat (nextPoolId pm)]"

definition set_pool_size :: "nat \<Rightarrow> u64 \<Rightarrow> MemoryPoolManager \<Rightarrow> MemoryPoolManager" where
  "set_pool_size i n pm = pm\<lparr>pm_pools := (pm_pools pm)[i := mp_resize n (pm_pools pm ! i)]\<rparr>"

abbreviation pool_size :: "MemoryPoolManager \<Rightarrow> nat \<Rightarrow> u64" where
  "pool_size pm i \<equiv> maxSize (pm_pools pm ! i)"

definition resizePools :: "int \<Rightarrow> int \<Rightarrow> u64 \<Rightarrow> MemoryPoolManager \<Rightarrow> pm_error + bool \<times> MemoryPoolManager" where
  "resizePools src dest bytes pm =
     (case getPoolById src pm of Inl e \<Rightarrow> Inl e
      | Inr s \<Rightarrow> (case getPoolById dest pm of Inl e \<Rightarrow> Inl e
          | Inr d \<Rightarrow>
              if pool_size pm s < bytes then Inr (False, pm)
              else let pm = set_pool_size s (pool_size pm s - bytes) pm;
                       pm = set_pool_size d (pool_size pm d + bytes) pm
                   in Inr (True, pm)))"

definition shrinkPool :: "int \<Rightarrow> u64 \<Rightarrow> MemoryPoolManager \<Rightarrow> pm_error + bool \<times> MemoryPoolManager" where
  "shrinkPool pid bytes pm =
     (case getPoolById pid pm of Inl e \<Rightarrow> Inl e
      | Inr i \<Rightarrow> if pool_size pm i < bytes then Inr (False, pm) else Inr (True, set_pool_size i (pool_size pm i - bytes) pm))"

definition growPool :: "SlabAllocator \<Rightarrow> int \<Rightarrow> u64 \<Rightarrow> MemoryPoolManager \<Rightarrow> pm_error + bool \<times> MemoryPoolManager" where
  "growPool sa pid bytes pm =
     (case getPoolById pid pm of Inl e \<Rightarrow> Inl e
      | Inr i \<Rightarrow> if getRemainingSizeLocked sa pm < bytes then Inr (False, pm) else Inr (True, set_pool_size i (pool_size pm i + bytes) pm))"

definition getPoolsOverLimit :: "MemoryPoolManager \<Rightarrow> pm_error + int set" where
  "getPoolsOverLimit pm =
     (case collect (map (\<lambda>(_, poolId). map_sum id (\<lambda>i. (poolId, overLimit (pm_pools pm ! i))) (getPoolById poolId pm)) (poolsByName pm)) of
        Inl e \<Rightarrow> Inl e
      | Inr xs \<Rightarrow> Inr (set (map fst (filter snd xs))))"

definition getBytesUnReserved :: "SlabAllocator \<Rightarrow> MemoryPoolManager \<Rightarrow> u64" where
  "getBytesUnReserved sa pm = getRemainingSizeLocked sa pm"

definition getAdvisedMemorySize :: "MemoryPoolManager \<Rightarrow> u64" where
  "getAdvisedMemorySize pm = sum_list (map getPoolAdvisedSize (take (nat (nextPoolId pm)) (pm_pools pm)))"

section \<open>Advising and reclaiming\<close>

text \<open>The argument is a 32-bit integer; it is negated as one, and extended to 64 bits.\<close>

definition updateNumSlabsToAdvise :: "32 word \<Rightarrow> MemoryPoolManager \<Rightarrow> pm_error + MemoryPoolManager" where
  "updateNumSlabsToAdvise n pm =
     (if n <s 0 \<and> (scast (- n) :: u64) > numSlabsToAdvise pm then Inl InvalidNumSlabs
      else Inr (pm\<lparr>numSlabsToAdvise := numSlabsToAdvise pm + scast n\<rparr>))"

text \<open>The pools with their slabs in use; first the integer shares, then one more where the share was rounded.\<close>

definition firstTargets :: "u64 \<Rightarrow> u64 \<Rightarrow> (int \<times> u64) list \<Rightarrow> (int \<times> u64 \<times> u64) list" where
  "firstTargets n totalSlabsInUse us = map (\<lambda>(pid, inUse). (pid, inUse, inUse * n div totalSlabsInUse)) us"

primrec bumpTargets :: "u64 \<Rightarrow> u64 \<Rightarrow> u64 \<Rightarrow> (int \<times> u64 \<times> u64) list \<Rightarrow> (int \<times> u64) list" where
  "bumpTargets n totalSlabsInUse acc [] = []"
| "bumpTargets n totalSlabsInUse acc (x # xs) =
     (case x of (pid, inUse, target) \<Rightarrow>
        if acc < n \<and> target * totalSlabsInUse div n < inUse
        then (pid, target + 1) # bumpTargets n totalSlabsInUse (acc + 1) xs
        else (pid, target) # bumpTargets n totalSlabsInUse acc xs)"

definition getTargetSlabsToAdvise :: "u64 \<Rightarrow> (int \<times> u64) list \<Rightarrow> MemoryPoolManager \<Rightarrow> (int \<times> u64) list" where
  "getTargetSlabsToAdvise totalSlabsInUse numSlabsInUse pm =
     (let targets = firstTargets (numSlabsToAdvise pm) totalSlabsInUse numSlabsInUse;
          acc = sum_list (map (\<lambda>(_, _, t). t) targets)
      in bumpTargets (numSlabsToAdvise pm) totalSlabsInUse acc targets)"

record PoolAdviseReclaimData =
  poolAdviseReclaimMap :: "(int \<times> u64) list"
  par_advise :: bool

text \<open>The loops over the pools, with the target and what is advised now.\<close>

primrec adviseLoop :: "u64 \<Rightarrow> (int \<times> u64 \<times> u64) list \<Rightarrow> (int \<times> u64) list" where
  "adviseLoop diff [] = []"
| "adviseLoop diff (x # xs) =
     (case x of (pid, slabsToAdvise, currSlabsAdvised) \<Rightarrow>
        if diff = 0 then []
        else if slabsToAdvise \<le> currSlabsAdvised then adviseLoop diff xs
        else let n = min (slabsToAdvise - currSlabsAdvised) diff in (pid, n) # adviseLoop (diff - n) xs)"

primrec reclaimSlabsLoop :: "u64 \<Rightarrow> (int \<times> u64 \<times> u64) list \<Rightarrow> (int \<times> u64) list" where
  "reclaimSlabsLoop diff [] = []"
| "reclaimSlabsLoop diff (x # xs) =
     (case x of (pid, slabsToAdvise, currSlabsAdvised) \<Rightarrow>
        if diff = 0 then []
        else if slabsToAdvise \<ge> currSlabsAdvised then reclaimSlabsLoop diff xs
        else let n = min (currSlabsAdvised - slabsToAdvise) diff in (pid, n) # reclaimSlabsLoop (diff - n) xs)"

definition set_advised :: "(int \<times> u64) list \<Rightarrow> MemoryPoolManager \<Rightarrow> MemoryPoolManager" where
  "set_advised targets pm = pm\<lparr>pm_pools := fold (\<lambda>(pid, n) ps. ps[nat pid := setNumSlabsAdvised n (ps ! nat pid)]) targets (pm_pools pm)\<rparr>"

text \<open>\<^const>\<open>None\<close> when a number in \<open>poolIds\<close> is not that of a pool, which the code does not check.\<close>

definition calcNumSlabsToAdviseReclaim :: "int set \<Rightarrow> MemoryPoolManager \<Rightarrow> (PoolAdviseReclaimData \<times> MemoryPoolManager) option" where
  "calcNumSlabsToAdviseReclaim poolIds pm =
     (let ids = sorted_list_of_set poolIds;
          pool = (\<lambda>pid. pm_pools pm ! nat pid);
          n = numSlabsToAdvise pm
      in if list_ex (\<lambda>pid. pid < 0 \<or> pid \<ge> int (length (pm_pools pm))) ids then None
         else
           let numSlabsInUse = map (\<lambda>pid. (pid, getCurrentUsedSize (pool pid) div slab64)) ids;
               totalSlabsInUse = sum_list (map snd numSlabsInUse);
               totalSlabsAdvised = sum_list (map (\<lambda>pid. curSlabsAdvised (pool pid)) ids);
               none = \<lparr>poolAdviseReclaimMap = [], par_advise = False\<rparr>
           in if totalSlabsInUse = 0 \<or> n = 0 \<and> totalSlabsAdvised = 0 then Some (none, pm)
              else
                let targets = getTargetSlabsToAdvise totalSlabsInUse numSlabsInUse pm;
                    pools = map (\<lambda>(pid, t). (pid, t, curSlabsAdvised (pool pid))) targets
                in if n = totalSlabsAdvised then Some (none, set_advised targets pm)
                   else if n > totalSlabsAdvised
                   then Some (\<lparr>poolAdviseReclaimMap = adviseLoop (n - totalSlabsAdvised) pools, par_advise = True\<rparr>, pm)
                   else Some (\<lparr>poolAdviseReclaimMap = reclaimSlabsLoop (totalSlabsAdvised - n) pools, par_advise = False\<rparr>, pm))"

section \<open>Saved state\<close>

record MemoryPoolManagerObject =
  pmo_pools :: "MemoryPoolObject list"
  pmo_poolsByName :: "(string \<times> int) list"
  pmo_nextPoolId :: int

definition pm_saveState :: "SlabAllocator \<Rightarrow> MemoryPoolManager \<Rightarrow> pm_error + MemoryPoolManagerObject" where
  "pm_saveState sa pm =
     (if ownsMemory sa then Inl NotRestorable_pm
      else case collect (map (\<lambda>mp. mp_saveState (sa, mp)) (take (nat (nextPoolId pm)) (pm_pools pm))) of
        Inl e \<Rightarrow> Inl (From_mp e)
      | Inr ps \<Rightarrow> Inr \<lparr>pmo_pools = ps, pmo_poolsByName = poolsByName pm, pmo_nextPoolId = nextPoolId pm\<rparr>)"

definition MemoryPoolManager_restore :: "MemoryPoolManagerObject \<Rightarrow> SlabAllocator \<Rightarrow> pm_error + MemoryPoolManager" where
  "MemoryPoolManager_restore ob sa =
     (if ownsMemory sa then Inl NotRestorable_pm
      else if int (length (pmo_pools ob)) \<noteq> pmo_nextPoolId ob then Inl NextPoolIdMismatch
      else case collect (map (\<lambda>o'. MemoryPool_restore o' sa) (pmo_pools ob)) of
        Inl e \<Rightarrow> Inl (From_mp e)
      | Inr pools \<Rightarrow>
          let slabsAdvised = sum_list (map curSlabsAdvised pools) in
          if int (length (pmo_poolsByName ob)) \<noteq> pmo_nextPoolId ob then Inl PoolsByNameMismatch
          else if slabsAdvised \<noteq> word_of_nat (numSlabsReclaimable sa) then Inl AdvisedMismatch
          else Inr \<lparr>pm_pools = pools, poolsByName = pmo_poolsByName ob, nextPoolId = pmo_nextPoolId ob,
                    numSlabsToAdvise = word_of_nat (numSlabsReclaimable sa)\<rparr>)"

section \<open>Sizes of the pools\<close>

abbreviation sizes_sum :: "MemoryPool list \<Rightarrow> nat" where
  "sizes_sum ps \<equiv> sum_list (map (unat \<circ> maxSize) ps)"

text \<open>\<open>m\<close> is the number of slabs the memory has, which does not change.\<close>

definition pm_inv :: "nat \<Rightarrow> MemoryPoolManager \<Rightarrow> bool" where
  "pm_inv m pm \<longleftrightarrow> nextPoolId pm = int (length (pm_pools pm)) \<and> length (pm_pools pm) \<le> kMaxPools \<and>
     map snd (poolsByName pm) = map int [0..<length (pm_pools pm)] \<and> distinct (map fst (poolsByName pm)) \<and>
     map mp_id (pm_pools pm) = map int [0..<length (pm_pools pm)] \<and> sizes_sum (pm_pools pm) \<le> kSize * m"

definition memory_slabs :: "nat \<Rightarrow> SlabAllocator \<Rightarrow> bool" where
  "memory_slabs m sa \<longleftrightarrow> sa_wf sa \<and> getNumUsableAndAdvisedSlabs sa = m"

text \<open>Calls on the manager, in any order; what the pools themselves do leaves their number and their size alone.\<close>

inductive pm_reachable :: "nat \<Rightarrow> MemoryPoolManager \<Rightarrow> bool" for m :: nat where
  pm_start: "pm_reachable m MemoryPoolManager_init"
| pm_create: "pm_reachable m pm \<Longrightarrow> memory_slabs m sa \<Longrightarrow> createNewPool sa name n sizes pm = Inr (i, pm') \<Longrightarrow> pm_reachable m pm'"
| pm_resize: "pm_reachable m pm \<Longrightarrow> resizePools src dest n pm = Inr (b, pm') \<Longrightarrow> pm_reachable m pm'"
| pm_shrink: "pm_reachable m pm \<Longrightarrow> shrinkPool pid n pm = Inr (b, pm') \<Longrightarrow> pm_reachable m pm'"
| pm_grow: "pm_reachable m pm \<Longrightarrow> memory_slabs m sa \<Longrightarrow> growPool sa pid n pm = Inr (b, pm') \<Longrightarrow> pm_reachable m pm'"
| pm_update: "pm_reachable m pm \<Longrightarrow> updateNumSlabsToAdvise k pm = Inr pm' \<Longrightarrow> pm_reachable m pm'"
| pm_calc: "pm_reachable m pm \<Longrightarrow> calcNumSlabsToAdviseReclaim ids pm = Some (r, pm') \<Longrightarrow> pm_reachable m pm'"
| pm_pool: "pm_reachable m pm \<Longrightarrow> i < length (pm_pools pm) \<Longrightarrow> mp_id mp = mp_id (pm_pools pm ! i) \<Longrightarrow>
     maxSize mp = maxSize (pm_pools pm ! i) \<Longrightarrow> pm_reachable m (pm\<lparr>pm_pools := (pm_pools pm)[i := mp]\<rparr>)"

lemma memory_slabs_bound:
  assumes "memory_slabs m sa"
  shows "kSize * m < 2 ^ 64"
proof -
  have l: "sa_layout sa" "m = (getSlabMemoryEnd sa - slabMemoryStart sa) div kSize mod 2 ^ 32"
    using assms by (auto simp: memory_slabs_def sa_wf_def getNumUsableAndAdvisedSlabs_def)
  have "m \<le> (getSlabMemoryEnd sa - slabMemoryStart sa) div kSize" by (simp add: l(2))
  then have "kSize * m \<le> getSlabMemoryEnd sa - slabMemoryStart sa" by (metis le_trans mult_le_mono2 times_div_less_eq_dividend)
  then show ?thesis using sa_layoutD(4) [OF l(1)] by linarith
qed

lemma unat_sum_list: "sum_list (map unat xs) < 2 ^ 64 \<Longrightarrow> unat (sum_list xs :: u64) = sum_list (map unat xs)"
proof (induction xs)
  case (Cons x xs)
  then show ?case using unat_add_lem [of x "sum_list xs"] by simp
qed simp

lemma remaining_exact:
  assumes "pm_inv m pm" "memory_slabs m sa"
  shows "unat (getRemainingSizeLocked sa pm) = kSize * m - sizes_sum (pm_pools pm)"
proof -
  note b = memory_slabs_bound [OF assms(2)]
  have s: "sizes_sum (pm_pools pm) \<le> kSize * m" "take (nat (nextPoolId pm)) (pm_pools pm) = pm_pools pm" using assms(1) by (simp_all add: pm_inv_def)
  then have u: "unat (sum_list (map maxSize (pm_pools pm))) = sizes_sum (pm_pools pm)" using unat_sum_list [of "map maxSize (pm_pools pm)"] b by simp
  have t: "unat (word_of_nat m * slab64) = kSize * m" 
  proof -
    have "word_of_nat m * slab64 = (word_of_nat (kSize * m) :: u64)" by (simp add: mult.commute)
    then show ?thesis using b by (simp add: unat_of_nat take_bit_nat_eq_self del: of_nat_mult)
  qed
  have "sum_list (map maxSize (pm_pools pm)) \<le> word_of_nat m * slab64" using u t s(1) by (simp add: word_le_nat_alt)
  then show ?thesis using assms(2) s(2) u t by (simp add: getRemainingSizeLocked_def memory_slabs_def unat_sub)
qed

lemma sizes_sum_update:
  assumes "i < length ps"
  shows "sizes_sum (ps[i := mp]) + unat (maxSize (ps ! i)) = sizes_sum ps + unat (maxSize mp)"
proof -
  have "ps = take i ps @ ps ! i # drop (Suc i) ps" by (rule id_take_nth_drop [OF assms])
  then have "sizes_sum ps = sizes_sum (take i ps) + unat (maxSize (ps ! i)) + sizes_sum (drop (Suc i) ps)"
    by (metis (no_types, lifting) add.assoc comp_apply list.simps(9) map_append sum_list.Cons sum_list_append)
  then show ?thesis using assms by (simp add: upd_conv_take_nth_drop)
qed

lemma pm_inv_update:
  assumes "pm_inv m pm" "i < length (pm_pools pm)" "mp_id mp = mp_id (pm_pools pm ! i)"
    "sizes_sum (pm_pools pm) + unat (maxSize mp) \<le> kSize * m + unat (maxSize (pm_pools pm ! i))"
  shows "pm_inv m (pm\<lparr>pm_pools := (pm_pools pm)[i := mp]\<rparr>)"
proof -
  have "map mp_id ((pm_pools pm)[i := mp]) = map mp_id (pm_pools pm)" using assms(2,3) by (metis list_update_id map_update nth_map)
  then show ?thesis using assms(1,4) sizes_sum_update [OF assms(2), of mp] by (simp add: pm_inv_def)
qed

lemma getPoolById_lt: "pm_inv m pm \<Longrightarrow> getPoolById pid pm = Inr i \<Longrightarrow> i < length (pm_pools pm)"
  by (auto simp: getPoolById_def pm_inv_def split: if_splits)

lemma size_shrink_inv:
  assumes "pm_inv m pm" "i < length (pm_pools pm)" "\<not> pool_size pm i < n"
  shows "pm_inv m (set_pool_size i (pool_size pm i - n) pm)" "sizes_sum (pm_pools (set_pool_size i (pool_size pm i - n) pm)) + unat n = sizes_sum (pm_pools pm)"
proof -
  have u: "unat (pool_size pm i - n) + unat n = unat (pool_size pm i)" using assms(3) by (simp add: unat_sub word_le_nat_alt not_less)
  then show "sizes_sum (pm_pools (set_pool_size i (pool_size pm i - n) pm)) + unat n = sizes_sum (pm_pools pm)"
    using sizes_sum_update [OF assms(2), of "mp_resize (pool_size pm i - n) (pm_pools pm ! i)"] by (simp add: set_pool_size_def mp_resize_def)
  show "pm_inv m (set_pool_size i (pool_size pm i - n) pm)" unfolding set_pool_size_def
    by (rule pm_inv_update [OF assms(1,2)]) (use assms(1) u in \<open>auto simp: mp_resize_def pm_inv_def\<close>)
qed

lemma size_grow_inv:
  assumes "pm_inv m pm" "i < length (pm_pools pm)" "sizes_sum (pm_pools pm) + unat n \<le> kSize * m"
  shows "pm_inv m (set_pool_size i (pool_size pm i + n) pm)"
proof -
  have "unat (pool_size pm i + n) \<le> unat (pool_size pm i) + unat n" by (simp add: unat_word_ariths)
  then show ?thesis unfolding set_pool_size_def by (intro pm_inv_update [OF assms(1,2)]) (use assms(3) in \<open>simp_all add: mp_resize_def\<close>)
qed

lemma set_advised_inv: "pm_inv m pm \<Longrightarrow> pm_inv m (set_advised targets pm)"
proof (induction targets arbitrary: pm)
  case (Cons x xs)
  obtain pid n where x: "x = (pid, n)" by (cases x)
  let ?pm = "pm\<lparr>pm_pools := (pm_pools pm)[nat pid := setNumSlabsAdvised n (pm_pools pm ! nat pid)]\<rparr>"
  have "pm_inv m ?pm"
  proof (cases "nat pid < length (pm_pools pm)")
    case True
    then show ?thesis using Cons(2) by (intro pm_inv_update) (simp_all add: setNumSlabsAdvised_def pm_inv_def)
  qed (use Cons(2) in \<open>simp add: list_update_beyond not_less\<close>)
  from Cons(1) [OF this] show ?case by (simp add: set_advised_def x)
qed (simp add: set_advised_def)

lemma MemoryPool_init_size: "MemoryPool_init pid n sizes sa = Inr mp \<Longrightarrow> mp_id mp = pid \<and> maxSize mp = n"
  by (auto simp: MemoryPool_init_def Let_def split: sum.splits option.splits)

lemma pm_create_inv:
  assumes inv: "pm_inv m pm" and sa: "memory_slabs m sa" and eq: "createNewPool sa name n sizes pm = Inr (i, pm')"
  shows "pm_inv m pm'"
proof -
  obtain mp where mp: "MemoryPool_init (nextPoolId pm) n sizes sa = Inr mp" and
    pm': "pm' = pm\<lparr>pm_pools := pm_pools pm @ [mp], poolsByName := poolsByName pm @ [(name, nextPoolId pm)], nextPoolId := nextPoolId pm + 1\<rparr>"
    and c: "map_of (poolsByName pm) name = None" "nextPoolId pm \<noteq> int kMaxPools" "\<not> getRemainingSizeLocked sa pm < n"
    using eq by (auto simp: createNewPool_def Let_def split: if_splits sum.splits)
  have "name \<notin> set (map fst (poolsByName pm))" using c(1) by (simp add: map_of_eq_None_iff)
  moreover have "unat n \<le> kSize * m - sizes_sum (pm_pools pm)" using c(3) remaining_exact [OF inv sa] by (simp add: not_less word_le_nat_alt)
  ultimately show ?thesis using inv MemoryPool_init_size [OF mp] c(2) by (auto simp: pm_inv_def pm')
qed

lemma pm_resize_inv:
  assumes inv: "pm_inv m pm" and eq: "resizePools src dest n pm = Inr (b, pm')"
  shows "pm_inv m pm' \<and> sizes_sum (pm_pools pm') \<le> sizes_sum (pm_pools pm)"
proof -
  obtain s d where s: "getPoolById src pm = Inr s" "getPoolById dest pm = Inr d" using eq by (auto simp: resizePools_def split: sum.splits)
  note l = getPoolById_lt [OF inv s(1)] getPoolById_lt [OF inv s(2)]
  show ?thesis
  proof (cases "pool_size pm s < n")
    case True
    then show ?thesis using eq s inv by (simp add: resizePools_def)
  next
    case False
    let ?pm = "set_pool_size s (pool_size pm s - n) pm"
    note S = size_shrink_inv [OF inv l(1) False]
    have d: "d < length (pm_pools ?pm)" using l(2) by (simp add: set_pool_size_def)
    have e: "pm' = set_pool_size d (pool_size ?pm d + n) ?pm" using eq s False by (auto simp: resizePools_def Let_def)
    have "sizes_sum (pm_pools ?pm) + unat n \<le> kSize * m" using S(2) inv by (simp add: pm_inv_def)
    from size_grow_inv [OF S(1) d this] have "pm_inv m pm'" by (simp only: e)
    moreover have "unat (pool_size ?pm d + n) \<le> unat (pool_size ?pm d) + unat n" by (simp add: unat_word_ariths)
    then have "sizes_sum (pm_pools pm') \<le> sizes_sum (pm_pools ?pm) + unat n"
      using sizes_sum_update [OF d, of "mp_resize (pool_size ?pm d + n) (pm_pools ?pm ! d)"] unfolding e set_pool_size_def [of d] by (simp add: mp_resize_def)
    ultimately show ?thesis using S(2) by linarith
  qed
qed

lemma pm_reachable_inv: "pm_reachable m pm \<Longrightarrow> pm_inv m pm"
proof (induction rule: pm_reachable.induct)
  case pm_start
  then show ?case by (simp add: MemoryPoolManager_init_def pm_inv_def)
next
  case (pm_create pm sa name n sizes i pm')
  then show ?case by (blast intro: pm_create_inv)
next
  case (pm_resize pm src dest n b pm')
  then show ?case using pm_resize_inv by blast
next
  case (pm_shrink pm pid n b pm')
  then obtain i where i: "getPoolById pid pm = Inr i" by (auto simp: shrinkPool_def split: sum.splits)
  show ?case using pm_shrink size_shrink_inv(1) [OF pm_shrink(3) getPoolById_lt [OF pm_shrink(3) i]] i by (auto simp: shrinkPool_def split: if_splits)
next
  case (pm_grow pm sa pid n b pm')
  then obtain i where i: "getPoolById pid pm = Inr i" by (auto simp: growPool_def split: sum.splits)
  have "sizes_sum (pm_pools pm) \<le> kSize * m" using pm_grow(4) by (simp add: pm_inv_def)
  then have "sizes_sum (pm_pools pm) + unat n \<le> kSize * m" if "\<not> getRemainingSizeLocked sa pm < n"
    using that remaining_exact [OF pm_grow(4,2)] by (simp add: not_less word_le_nat_alt)
  then show ?case using pm_grow size_grow_inv [OF pm_grow(4) getPoolById_lt [OF pm_grow(4) i]] i by (auto simp: growPool_def split: if_splits)
next
  case (pm_update pm k pm')
  then show ?case by (auto simp: updateNumSlabsToAdvise_def pm_inv_def split: if_splits)
next
  case (pm_calc pm ids r pm')
  then show ?case by (auto simp: calcNumSlabsToAdviseReclaim_def Let_def set_advised_inv split: if_splits)
next
  case (pm_pool pm i mp)
  then show ?case by (intro pm_inv_update) (simp_all add: pm_inv_def)
qed

text \<open>C14. The pools of a manager never have more memory between them than there is: whatever pools are created, grown,
  shrunk and resized, their sizes add up to at most the memory of the slab allocator, and the memory that is reported as
  not reserved is exactly the rest. A pool has the number of its position, and is found by its number and by its name.\<close>

theorem pools_fit_memory:
  assumes r: "pm_reachable m pm" and sa: "memory_slabs m sa"
  shows "(\<Sum>mp \<leftarrow> pm_pools pm. unat (maxSize mp)) + unat (getBytesUnReserved sa pm) = kSize * m \<and>
    (\<forall>i < length (pm_pools pm). mp_id (pm_pools pm ! i) = int i \<and> getPoolById (int i) pm = Inr i \<and>
       (\<exists>name. getPoolNameById (int i) pm = Inr name \<and> getPoolByName name pm = Inr i))"
proof -
  note inv = pm_reachable_inv [OF r]
  have s: "sizes_sum (pm_pools pm) \<le> kSize * m" and n: "nextPoolId pm = int (length (pm_pools pm))"
    and ids: "map mp_id (pm_pools pm) = map int [0..<length (pm_pools pm)]"
    and nm: "map snd (poolsByName pm) = map int [0..<length (pm_pools pm)]" "distinct (map fst (poolsByName pm))" using inv by (simp_all add: pm_inv_def)
  have "\<exists>name. getPoolNameById (int i) pm = Inr name \<and> getPoolByName name pm = Inr i" if i: "i < length (pm_pools pm)" for i
  proof -
    have l: "length (poolsByName pm) = length (pm_pools pm)" using arg_cong [OF nm(1), of length] by simp
    have k: "snd (poolsByName pm ! k) = int k" if "k < length (pm_pools pm)" for k using arg_cong [OF nm(1), of "\<lambda>xs. xs ! k"] that l by simp
    have "find (\<lambda>(_, j). j = int i) (poolsByName pm) = Some (poolsByName pm ! i)"
      using k i l by (auto simp: find_Some_iff case_prod_unfold intro!: exI [of _ i])
    moreover have "map_of (poolsByName pm) (fst (poolsByName pm ! i)) = Some (int i)"
      using map_of_is_SomeI [OF nm(2), of "fst (poolsByName pm ! i)" "int i"] nth_mem [of i "poolsByName pm"] k [OF i] i l by (metis prod.collapse)
    ultimately show ?thesis by (simp add: getPoolNameById_def getPoolByName_def case_prod_unfold)
  qed
  moreover have "mp_id (pm_pools pm ! i) = int i" if "i < length (pm_pools pm)" for i using arg_cong [OF ids, of "\<lambda>xs. xs ! i"] that by simp
  ultimately show ?thesis using remaining_exact [OF inv sa] s n by (simp add: getBytesUnReserved_def getPoolById_def comp_def)
qed

section \<open>Targets\<close>

text \<open>The pools whose share is not an integer.\<close>

definition rounded :: "nat \<Rightarrow> nat \<Rightarrow> (int \<times> u64 \<times> u64) \<Rightarrow> bool" where
  "rounded n m x \<longleftrightarrow> (case x of (_, u, _) \<Rightarrow> unat u * n mod m \<noteq> 0)"

definition share_ok :: "nat \<Rightarrow> nat \<Rightarrow> (int \<times> u64 \<times> u64) \<Rightarrow> bool" where
  "share_ok n m x \<longleftrightarrow> (case x of (_, u, t) \<Rightarrow> unat t = unat u * n div m \<and> unat u \<le> m)"

lemma share_small:
  fixes u n m :: u64
  assumes "unat u \<le> unat m" "unat m * unat n < 2 ^ 64"
  shows "unat (u * n div m) = unat u * unat n div unat m"
proof -
  have "unat u * unat n < 2 ^ 64" using assms by (meson le_less_trans mult_le_mono1)
  then have "unat (u * n) = unat u * unat n" using unat_mult_lem [of u n] by simp
  then show ?thesis by (simp add: unat_div)
qed

lemma bump_cond:
  fixes u t n m :: u64
  assumes "unat t = unat u * unat n div unat m" "unat u \<le> unat m" "unat m * unat n < 2 ^ 64" "0 < unat m" "0 < unat n"
  shows "t * m div n < u \<longleftrightarrow> unat u * unat n mod unat m \<noteq> 0"
proof -
  have e: "unat t * unat m + unat u * unat n mod unat m = unat u * unat n" using assms(1) by simp
  have "unat u * unat n < 2 ^ 64" using assms(2,3) by (meson le_less_trans mult_le_mono1)
  then have "unat (t * m) = unat t * unat m" using e unat_mult_lem [of t m] by simp
  then have "unat (t * m div n) = unat t * unat m div unat n" by (simp add: unat_div)
  then have "t * m div n < u \<longleftrightarrow> unat t * unat m < unat u * unat n" using assms(5) by (simp add: word_less_nat_alt div_less_iff_less_mult)
  then show ?thesis using e by linarith
qed

lemma unat_Suc_less: "unat a < unat b \<Longrightarrow> unat (a + 1) = Suc (unat a)" for a b :: u64
  using unsigned_less [of b, where 'a = nat] unat_add_lem [of a 1] by simp

lemma share_less:
  fixes t u n m :: nat
  assumes t: "t = u * n div m" and "u \<le> m" "u * n mod m \<noteq> 0"
  shows "t < n"
proof (rule ccontr)
  assume "\<not> t < n"
  then have "n * m + u * n mod m \<le> t * m + u * n mod m" by simp
  also have "\<dots> = u * n" using t by simp
  also have "\<dots> \<le> n * m" using assms(2) by (simp add: mult.commute)
  finally show False using assms(3) by simp
qed

lemma bumpTargets_sum:
  assumes "\<forall>x \<in> set xs. share_ok (unat n) (unat m) x" "unat m * unat n < 2 ^ 64" "0 < unat m" "unat acc \<le> unat n"
  shows "(\<Sum>(_, t) \<leftarrow> bumpTargets n m acc xs. unat t) = (\<Sum>(_, _, t) \<leftarrow> xs. unat t) + min (unat n - unat acc) (length (filter (rounded (unat n) (unat m)) xs)) \<and>
    map fst (bumpTargets n m acc xs) = map fst xs"
  using assms(1,4)
proof (induction xs arbitrary: acc)
  case (Cons x xs)
  obtain pid u t where x: "x = (pid, u, t)" by (cases x)
  have sh: "unat t = unat u * unat n div unat m" "unat u \<le> unat m" using Cons(2) by (simp_all add: x share_ok_def)
  show ?case
  proof (cases "acc < n \<and> t * m div n < u")
    case True
    then have n0: "unat acc < unat n" "0 < unat n" by (auto simp: word_less_nat_alt)
    have b: "rounded (unat n) (unat m) x" using bump_cond [OF sh assms(2,3) n0(2)] True by (simp add: rounded_def x)
    have a1: "unat (acc + 1) = Suc (unat acc)" by (rule unat_Suc_less [OF n0(1)])
    have t1: "unat (t + 1) = Suc (unat t)" by (rule unat_Suc_less [OF share_less [OF sh]]) (use b in \<open>simp add: rounded_def x\<close>)
    have IH: "(\<Sum>(_, t) \<leftarrow> bumpTargets n m (acc + 1) xs. unat t) = (\<Sum>(_, _, t) \<leftarrow> xs. unat t) +
        min (unat n - unat (acc + 1)) (length (filter (rounded (unat n) (unat m)) xs)) \<and> map fst (bumpTargets n m (acc + 1) xs) = map fst xs"
      using Cons(1) [of "acc + 1"] Cons(2) n0 a1 by simp
    have bt: "bumpTargets n m acc (x # xs) = (pid, t + 1) # bumpTargets n m (acc + 1) xs" using True by (simp add: x)
    show ?thesis unfolding bt using IH t1 a1 b n0 by (simp add: x)
  next
    case False
    have IH: "(\<Sum>(_, t) \<leftarrow> bumpTargets n m acc xs. unat t) = (\<Sum>(_, _, t) \<leftarrow> xs. unat t) +
        min (unat n - unat acc) (length (filter (rounded (unat n) (unat m)) xs)) \<and> map fst (bumpTargets n m acc xs) = map fst xs"
      using Cons by simp
    have bt: "bumpTargets n m acc (x # xs) = (pid, t) # bumpTargets n m acc xs" using False by (simp add: x)
    have "unat acc = unat n \<or> \<not> rounded (unat n) (unat m) x"
    proof (cases "acc < n")
      case True
      then have "0 < unat n" by (auto simp: word_less_nat_alt)
      from bump_cond [OF sh assms(2,3) this] True False show ?thesis by (simp add: rounded_def x)
    qed (use Cons(3) in \<open>simp add: word_less_nat_alt\<close>)
    then show ?thesis unfolding bt using IH by (auto simp: x)
  qed
qed simp

lemma shares_sum:
  assumes "\<forall>x \<in> set xs. share_ok n m x" "0 < m"
  shows "(\<Sum>(_, _, t) \<leftarrow> xs. unat t) * m \<le> (\<Sum>(_, u, _) \<leftarrow> xs. unat u) * n \<and>
    (\<Sum>(_, u, _) \<leftarrow> xs. unat u) * n \<le> ((\<Sum>(_, _, t) \<leftarrow> xs. unat t) + length (filter (rounded n m) xs)) * m"
  using assms(1)
proof (induction xs)
  case (Cons x xs)
  obtain pid u t where x: "x = (pid, u, t)" by (cases x)
  have e: "unat t * m + unat u * n mod m = unat u * n" using Cons(2) by (simp add: x share_ok_def)
  have "unat u * n mod m \<le> (if rounded n m x then m else 0)" using assms(2) by (simp add: rounded_def x less_imp_le)
  then show ?case using Cons e by (auto simp: x algebra_simps split: if_splits)
qed simp

text \<open>A target is within one slab of the share.\<close>

definition near_share :: "nat \<Rightarrow> nat \<Rightarrow> int \<times> u64 \<Rightarrow> int \<times> u64 \<Rightarrow> bool" where
  "near_share n m = (\<lambda>(_, u) (_, t). unat t * m < unat u * n + m \<and> unat u * n < unat t * m + m)"

lemma bumpTargets_near:
  assumes "\<forall>x \<in> set xs. share_ok (unat n) (unat m) x" "unat m * unat n < 2 ^ 64" "0 < unat m"
  shows "list_all2 (near_share (unat n) (unat m)) (map (\<lambda>(pid, u, _). (pid, u)) xs) (bumpTargets n m acc xs)"
  using assms(1)
proof (induction xs arbitrary: acc)
  case (Cons x xs)
  obtain pid u t where x: "x = (pid, u, t)" by (cases x)
  have sh: "unat t = unat u * unat n div unat m" "unat u \<le> unat m" using Cons(2) by (simp_all add: x share_ok_def)
  have e: "unat t * unat m + unat u * unat n mod unat m = unat u * unat n" "unat u * unat n mod unat m < unat m" using sh(1) assms(3) by simp_all
  have "unat (t + 1) * unat m < unat u * unat n + unat m" "unat u * unat n < unat (t + 1) * unat m + unat m" if c: "acc < n" "t * m div n < u"
  proof -
    have r: "unat u * unat n mod unat m \<noteq> 0" using bump_cond [OF sh assms(2,3)] c by (auto simp: word_less_nat_alt)
    have "unat (t + 1) = Suc (unat t)" by (rule unat_Suc_less [OF share_less [OF sh r]])
    then show "unat (t + 1) * unat m < unat u * unat n + unat m" "unat u * unat n < unat (t + 1) * unat m + unat m" using e r by simp_all
  qed
  then show ?case using Cons e by (auto simp: x near_share_def)
qed simp

text \<open>The numbers of slabs that the pools should give back add up to exactly the number that the manager was asked for,
  and each pool's number is its share of the slabs in use rounded up or down.\<close>

lemma advise_targets_exact:
  assumes u: "m = sum_list (map snd us)" "0 < (\<Sum>(_, u) \<leftarrow> us. unat u)" "(\<Sum>(_, u) \<leftarrow> us. unat u) < 2 ^ 64"
    and n: "(\<Sum>(_, u) \<leftarrow> us. unat u) * unat (numSlabsToAdvise pm) < 2 ^ 64"
  shows "map fst (getTargetSlabsToAdvise m us pm) = map fst us \<and> (\<Sum>(_, t) \<leftarrow> getTargetSlabsToAdvise m us pm. unat t) = unat (numSlabsToAdvise pm) \<and>
    list_all2 (near_share (unat (numSlabsToAdvise pm)) (\<Sum>(_, u) \<leftarrow> us. unat u)) us (getTargetSlabsToAdvise m us pm)"
proof -
  let ?n = "numSlabsToAdvise pm" and ?xs = "firstTargets (numSlabsToAdvise pm) m us" and ?t = "(\<Sum>(_, _, t) \<leftarrow> firstTargets (numSlabsToAdvise pm) m us. unat t)"
  have m: "unat m = (\<Sum>(_, u) \<leftarrow> us. unat u)" using unat_sum_list [of "map snd us"] u(1,3) by (simp add: comp_def case_prod_unfold)
  have le: "unat u \<le> unat m" if "(pid, u) \<in> set us" for pid u
    unfolding m using member_le_sum_list [of "unat u" "map (\<lambda>(_, u). unat u) us"] that by force
  have ok: "\<forall>x \<in> set ?xs. share_ok (unat ?n) (unat m) x"
    using le share_small [OF _ n [folded m]] by (auto simp: firstTargets_def share_ok_def)
  have us: "(\<Sum>(_, u, _) \<leftarrow> ?xs. unat u) = unat m" unfolding m firstTargets_def by (simp add: comp_def case_prod_unfold)
  have m0: "0 < unat m" using m u(2) by simp
  note S = shares_sum [OF ok m0, unfolded us]
  then have t: "?t \<le> unat ?n" "unat ?n \<le> ?t + length (filter (rounded (unat ?n) (unat m)) ?xs)" using m0 by (simp_all add: mult.commute [of "unat m"])
  have "unat ?n < 2 ^ 64" using unsigned_less [of ?n, where 'a = nat] by simp
  with t(1) have acc: "unat (sum_list (map (\<lambda>(_, _, t). t) ?xs)) = ?t" using unat_sum_list [of "map (\<lambda>(_, _, t). t) ?xs"] by (simp add: comp_def case_prod_unfold)
  have "map fst ?xs = map fst us" "map (\<lambda>(pid, u, _). (pid, u)) ?xs = us" by (simp_all add: firstTargets_def comp_def case_prod_unfold)
  then show ?thesis using bumpTargets_near [OF ok n [folded m] m0] bumpTargets_sum [OF ok n [folded m] m0, of "sum_list (map (\<lambda>(_, _, t). t) ?xs)"] t acc
    by (simp add: getTargetSlabsToAdvise_def Let_def m)
qed

text \<open>The loops hand out the whole difference.\<close>

lemma adviseLoop_Cons:
  "adviseLoop diff ((pid, t, c) # xs) = (if diff = 0 then [] else if t \<le> c then adviseLoop diff xs
     else (pid, min (t - c) diff) # adviseLoop (diff - min (t - c) diff) xs)"
  by (simp add: Let_def)

lemma min_step:
  fixes t c diff :: u64
  assumes "\<not> t \<le> c"
  shows "unat (min (t - c) diff) = min (unat t - unat c) (unat diff)" "unat (diff - min (t - c) diff) = unat diff - min (unat t - unat c) (unat diff)"
proof -
  have d: "unat (t - c) = unat t - unat c" using assms by (simp add: unat_sub word_le_nat_alt)
  then show k: "unat (min (t - c) diff) = min (unat t - unat c) (unat diff)" by (simp add: min_def word_le_nat_alt)
  show "unat (diff - min (t - c) diff) = unat diff - min (unat t - unat c) (unat diff)" unfolding k [symmetric] by (rule unat_sub) simp
qed

lemma adviseLoop_sum:
  "unat diff \<le> (\<Sum>(_, t, c) \<leftarrow> xs. unat t - unat c) \<Longrightarrow> (\<Sum>(_, k) \<leftarrow> adviseLoop diff xs. unat k) = unat diff"
proof (induction xs arbitrary: diff)
  case (Cons x xs)
  obtain pid t c where x: "x = (pid, t, c)" by (cases x)
  consider "diff = 0" | "diff \<noteq> 0" "t \<le> c" | "diff \<noteq> 0" "\<not> t \<le> c" by blast
  then show ?case
  proof cases
    case 2
    then show ?thesis using Cons(1) [of diff] Cons(2) unfolding x adviseLoop_Cons by (simp add: word_le_nat_alt)
  next
    case 3
    have "unat (diff - min (t - c) diff) \<le> (\<Sum>(_, t, c) \<leftarrow> xs. unat t - unat c)" using Cons(2) unfolding min_step(2) [OF 3(2)] by (simp add: x)
    from Cons(1) [OF this] 3 show ?thesis unfolding x adviseLoop_Cons by (simp add: min_step [OF 3(2)])
  qed (simp add: x)
qed (simp add: unat_eq_zero)

lemma adviseLoop_member:
  "(pid, k) \<in> set (adviseLoop diff xs) \<Longrightarrow> \<exists>t c. (pid, t, c) \<in> set xs \<and> unat c + unat k \<le> unat t"
proof (induction xs arbitrary: diff)
  case (Cons x xs)
  obtain p t c where x: "x = (p, t, c)" by (cases x)
  consider "(pid, k) \<in> set (adviseLoop diff xs)" | "(pid, k) \<in> set (adviseLoop (diff - min (t - c) diff) xs)"
    | "\<not> t \<le> c" "pid = p" "k = min (t - c) diff" using Cons(2) unfolding x adviseLoop_Cons by (auto split: if_splits)
  then show ?case
  proof cases
    case 3
    then have "unat c + unat k \<le> unat t" using min_step(1) [OF 3(1)] by (simp add: word_le_nat_alt)
    then show ?thesis using 3(2) by (auto simp: x)
  next
    case 1
    from Cons(1) [OF this] show ?thesis by auto
  next
    case 2
    from Cons(1) [OF this] show ?thesis by auto
  qed
qed simp

lemma reclaimSlabsLoop_mirror: "reclaimSlabsLoop diff xs = adviseLoop diff (map (\<lambda>(pid, t, c). (pid, c, t)) xs)"
  by (induction xs arbitrary: diff) (auto simp: Let_def)

text \<open>The slabs that the given pools have given back, and the slabs they use.\<close>

definition advised_sum :: "int list \<Rightarrow> MemoryPoolManager \<Rightarrow> nat" where
  "advised_sum ids pm = (\<Sum>pid \<leftarrow> ids. unat (curSlabsAdvised (pm_pools pm ! nat pid)))"

definition in_use :: "int list \<Rightarrow> MemoryPoolManager \<Rightarrow> (int \<times> u64) list" where
  "in_use ids pm = map (\<lambda>pid. (pid, getCurrentUsedSize (pm_pools pm ! nat pid) div slab64)) ids"

lemma set_advised_at:
  assumes "distinct (map fst ts)" "\<forall>(pid, n) \<in> set ts. 0 \<le> pid \<and> nat pid < length (pm_pools pm)" "(pid, n) \<in> set ts"
  shows "curSlabsAdvised (pm_pools (set_advised ts pm) ! nat pid) = n"
  using assms
proof (induction ts rule: rev_induct)
  case (snoc x xs)
  obtain p k where x: "x = (p, k)" by (cases x)
  have len: "length (pm_pools (set_advised ts pm)) = length (pm_pools pm)" for ts
    by (induction ts rule: rev_induct) (auto simp: set_advised_def case_prod_unfold)
  have e: "pm_pools (set_advised (xs @ [x]) pm) = (pm_pools (set_advised xs pm))[nat p := setNumSlabsAdvised k (pm_pools (set_advised xs pm) ! nat p)]"
    by (simp add: set_advised_def x)
  show ?case
  proof (cases "(pid, n) = x")
    case True
    then show ?thesis using snoc(3) len [of xs] unfolding e by (simp add: x setNumSlabsAdvised_def)
  next
    case False
    then have m: "(pid, n) \<in> set xs" using snoc(4) by auto
    then have "pid \<noteq> p" using snoc(2) by (auto simp: x image_iff)
    moreover have "0 \<le> pid" "0 \<le> p" using snoc(3) m by (auto simp: x)
    ultimately have "nat pid \<noteq> nat p" by simp
    then show ?thesis using snoc(1) [OF _ _ m] snoc(2,3) unfolding e by simp
  qed
qed simp

lemma balanced:
  assumes "map fst ts = ids" "\<forall>pid \<in> set ids. 0 \<le> pid \<and> nat pid < length (pm_pools pm)" "distinct ids"
  shows "advised_sum ids (set_advised ts pm) = (\<Sum>(_, t) \<leftarrow> ts. unat t)"
proof -
  have "\<forall>(pid, n) \<in> set ts. 0 \<le> pid \<and> nat pid < length (pm_pools pm)" using assms(1,2) by force
  then have "curSlabsAdvised (pm_pools (set_advised ts pm) ! nat (fst x)) = snd x" if "x \<in> set ts" for x
    using set_advised_at [of ts pm "fst x" "snd x"] assms(1,3) that by simp
  then show ?thesis unfolding advised_sum_def assms(1) [symmetric] by (simp add: comp_def case_prod_unfold cong: map_cong)
qed

lemma sum_diff_le: "(\<Sum>(_, t, c) \<leftarrow> xs. unat t) - (\<Sum>(_, t, c) \<leftarrow> xs. unat c) \<le> (\<Sum>(_, t, c) \<leftarrow> xs. unat t - unat c)"
  for xs :: "(int \<times> u64 \<times> u64) list"
  by (induction xs) (auto simp: case_prod_unfold)

lemma adviseLoop_exact:
  assumes "(\<Sum>(_, t, c) \<leftarrow> xs. unat t) = unat n" "(\<Sum>(_, t, c) \<leftarrow> xs. unat c) = unat a" "a < n"
  shows "(\<Sum>(_, k) \<leftarrow> adviseLoop (n - a) xs. unat k) + unat a = unat n"
proof -
  have d: "unat (n - a) = unat n - unat a" "unat a \<le> unat n" using assms(3) unat_sub [of a n] by (simp_all add: word_less_nat_alt word_le_nat_alt)
  then have "(\<Sum>(_, k) \<leftarrow> adviseLoop (n - a) xs. unat k) = unat (n - a)" using sum_diff_le [of xs] assms(1,2) by (intro adviseLoop_sum) simp
  then show ?thesis using d by simp
qed

lemma advised_of: "(\<Sum>(_, t, c) \<leftarrow> map (\<lambda>(pid, t). (pid, t, curSlabsAdvised (pm_pools pm ! nat pid))) ts. unat c) = advised_sum (map fst ts) pm"
  by (simp add: advised_sum_def comp_def case_prod_unfold)

text \<open>C15. When pools use slabs, what the manager tells them to give back or to reclaim, or the balance that it strikes
  between them when the total is right, brings the slabs given back to exactly the number asked for. No pool is told to go
  past its target.\<close>

theorem advise_meets_target:
  assumes fin: "finite poolIds" and ids: "\<forall>pid \<in> poolIds. 0 \<le> pid \<and> nat pid < length (pm_pools pm)"
    and use: "0 < (\<Sum>(_, u) \<leftarrow> in_use (sorted_list_of_set poolIds) pm. unat u)" "(\<Sum>(_, u) \<leftarrow> in_use (sorted_list_of_set poolIds) pm. unat u) < 2 ^ 64"
      "(\<Sum>(_, u) \<leftarrow> in_use (sorted_list_of_set poolIds) pm. unat u) * unat (numSlabsToAdvise pm) < 2 ^ 64"
    and adv: "advised_sum (sorted_list_of_set poolIds) pm < 2 ^ 64"
  shows "\<exists>r pm'. calcNumSlabsToAdviseReclaim poolIds pm = Some (r, pm') \<and>
    (if par_advise r then advised_sum (sorted_list_of_set poolIds) pm' + (\<Sum>(_, k) \<leftarrow> poolAdviseReclaimMap r. unat k) = unat (numSlabsToAdvise pm)
     else advised_sum (sorted_list_of_set poolIds) pm' = unat (numSlabsToAdvise pm) + (\<Sum>(_, k) \<leftarrow> poolAdviseReclaimMap r. unat k)) \<and>
    (\<forall>(pid, k) \<in> set (poolAdviseReclaimMap r). \<exists>t. (pid, t) \<in> set (getTargetSlabsToAdvise (sum_list (map snd (in_use (sorted_list_of_set poolIds) pm)))
       (in_use (sorted_list_of_set poolIds) pm) pm) \<and>
       (if par_advise r then unat (curSlabsAdvised (pm_pools pm ! nat pid)) + unat k \<le> unat t
        else unat t + unat k \<le> unat (curSlabsAdvised (pm_pools pm ! nat pid))))"
proof -
  let ?ids = "sorted_list_of_set poolIds" and ?n = "numSlabsToAdvise pm" and ?c = "\<lambda>pid. curSlabsAdvised (pm_pools pm ! nat pid)"
  let ?us = "in_use (sorted_list_of_set poolIds) pm"
  let ?m = "sum_list (map snd ?us)"
  let ?ts = "getTargetSlabsToAdvise ?m ?us pm"
  let ?ps = "map (\<lambda>(pid, t). (pid, t, ?c pid)) ?ts" and ?a = "sum_list (map ?c ?ids)"
  have valid: "\<forall>pid \<in> set ?ids. 0 \<le> pid \<and> nat pid < length (pm_pools pm)" using ids fin by simp
  then have no: "\<not> list_ex (\<lambda>pid. pid < 0 \<or> pid \<ge> int (length (pm_pools pm))) ?ids" by (fastforce simp: list_ex_iff)
  note T = advise_targets_exact [OF refl use]
  have m0: "?m \<noteq> 0"
  proof
    assume "?m = 0"
    then have "unat ?m = 0" by simp
    moreover have "unat ?m = (\<Sum>(_, u) \<leftarrow> ?us. unat u)" using unat_sum_list [of "map snd ?us"] use(2) by (simp add: comp_def case_prod_unfold)
    ultimately show False using use(1) by linarith
  qed
  have fst: "map fst ?ts = ?ids" using T by (simp add: in_use_def comp_def)
  have a: "unat ?a = advised_sum ?ids pm" using unat_sum_list [of "map ?c ?ids"] adv by (simp add: advised_sum_def comp_def)
  have sc: "(\<Sum>(_, t, c) \<leftarrow> ?ps. unat c) = advised_sum ?ids pm" using advised_of [of pm ?ts] fst by simp
  have st: "(\<Sum>(_, t, c) \<leftarrow> ?ps. unat t) = unat ?n" using T by (simp add: comp_def case_prod_unfold)
  have calc: "calcNumSlabsToAdviseReclaim poolIds pm =
     (if ?n = 0 \<and> ?a = 0 then Some (\<lparr>poolAdviseReclaimMap = [], par_advise = False\<rparr>, pm)
      else if ?n = ?a then Some (\<lparr>poolAdviseReclaimMap = [], par_advise = False\<rparr>, set_advised ?ts pm)
      else if ?n > ?a then Some (\<lparr>poolAdviseReclaimMap = adviseLoop (?n - ?a) ?ps, par_advise = True\<rparr>, pm)
      else Some (\<lparr>poolAdviseReclaimMap = reclaimSlabsLoop (?a - ?n) ?ps, par_advise = False\<rparr>, pm))"
    using no m0 by (simp add: calcNumSlabsToAdviseReclaim_def Let_def in_use_def)
  consider "?n = 0 \<and> ?a = 0" | "?n = ?a" "\<not> (?n = 0 \<and> ?a = 0)" | "?n > ?a" | "?n < ?a" by (meson linorder_less_linear)
  then show ?thesis
  proof cases
    case 1
    then show ?thesis using calc a by simp
  next
    case 2
    have "advised_sum ?ids (set_advised ?ts pm) = unat ?n" unfolding balanced [OF fst valid distinct_sorted_list_of_set] using T by (simp add: comp_def case_prod_unfold)
    then show ?thesis using calc 2 by simp
  next
    case 3
    have "(\<Sum>(_, k) \<leftarrow> adviseLoop (?n - ?a) ?ps. unat k) + unat ?a = unat ?n" by (rule adviseLoop_exact [OF st _ 3]) (use sc a in simp)
    moreover have "\<forall>(pid, k) \<in> set (adviseLoop (?n - ?a) ?ps). \<exists>t. (pid, t) \<in> set ?ts \<and> unat (?c pid) + unat k \<le> unat t"
      using adviseLoop_member [of _ _ "?n - ?a" ?ps] by fastforce
    moreover have "calcNumSlabsToAdviseReclaim poolIds pm = Some (\<lparr>poolAdviseReclaimMap = adviseLoop (?n - ?a) ?ps, par_advise = True\<rparr>, pm)"
      unfolding calc using 3 by auto
    ultimately show ?thesis using a by (simp add: add.commute)
  next
    case 4
    let ?qs = "map (\<lambda>(pid, t, c). (pid, c, t)) ?ps"
    have "(\<Sum>(_, k) \<leftarrow> adviseLoop (?a - ?n) ?qs. unat k) + unat ?n = unat ?a"
      by (rule adviseLoop_exact [OF _ _ 4]) (use sc st a in \<open>simp_all add: comp_def case_prod_unfold\<close>)
    moreover have "\<forall>(pid, k) \<in> set (adviseLoop (?a - ?n) ?qs). \<exists>t. (pid, t) \<in> set ?ts \<and> unat t + unat k \<le> unat (?c pid)"
      using adviseLoop_member [of _ _ "?a - ?n" ?qs] by fastforce
    moreover have "calcNumSlabsToAdviseReclaim poolIds pm = Some (\<lparr>poolAdviseReclaimMap = adviseLoop (?a - ?n) ?qs, par_advise = False\<rparr>, pm)"
      unfolding calc reclaimSlabsLoop_mirror using 4 by auto
    ultimately show ?thesis using a by (simp add: add.commute)
  qed
qed

section \<open>Sample managers\<close>

definition sample_pool_of :: "int \<Rightarrow> u64 \<Rightarrow> MemoryPool" where
  "sample_pool_of pid slabs = \<lparr>mp_id = pid, maxSize = word_of_nat (2 * kSize), currSlabAllocSize = slabs * slab64, currAllocSize = 0, mp_freeSlabs = [], acSizes = [kSize div 2],
     mp_ac = [\<lparr>ac_classId = 0, ac_poolId = pid, allocationSize = kSize div 2, currOffset = 0, currSlab = None, allocatedSlabs = [],
       ac_freeSlabs = [], freedAllocations = [], ac_canAllocate = True, activeReleases = 0, slabReleaseAllocMap = Map.empty\<rparr>],
     curSlabsAdvised = 0, nSlabResize = 0, nSlabRebalance = 0, nSlabReleaseAborted = 0\<rparr>"

lemma sample_pool_of_init: "0 \<le> pid \<Longrightarrow> MemoryPool_init pid (word_of_nat (2 * kSize)) {kSize div 2} sa = Inr (sample_pool_of pid 0)"
  by (simp add: MemoryPool_init_def createAllocationClasses_def AllocationClass_init_def ac_checkState_def sizeofFreeAlloc_def Let_def
      mp_checkState_def sample_pool_of_def kSize_def kNumSlabBits_def kMinAllocSize_def kMinAllocPower_def)

definition sample_pm :: MemoryPoolManager where
  "sample_pm = \<lparr>pm_pools = [sample_pool_of 0 0], poolsByName = [(''default'', 0)], nextPoolId = 1, numSlabsToAdvise = 0\<rparr>"

lemma sample_memory: "memory_slabs 3 sample_sa"
  by (simp add: memory_slabs_def sa_wf_def sa_layout_def sample_sa_def getSlabMemoryEnd_def numSlabs_def numSlabsForHeaders_def
      getNumUsableAndAdvisedSlabs_def kSize_def kNumSlabBits_def)

lemma sample_pm_reachable: "pm_reachable 3 sample_pm"
proof (rule pm_create [OF pm_start sample_memory])
  have "unat (getRemainingSizeLocked sample_sa MemoryPoolManager_init) = kSize * 3"
    using remaining_exact [OF _ sample_memory, of MemoryPoolManager_init] by (simp add: MemoryPoolManager_init_def pm_inv_def)
  then have "\<not> getRemainingSizeLocked sample_sa MemoryPoolManager_init < word_of_nat (2 * kSize)"
    by (simp add: word_less_nat_alt kSize_def kNumSlabBits_def)
  then show "createNewPool sample_sa ''default'' (word_of_nat (2 * kSize)) {kSize div 2} MemoryPoolManager_init = Inr (0, sample_pm)"
    unfolding createNewPool_def by (simp add: MemoryPoolManager_init_def kMaxPools_def sample_pool_of_init sample_pm_def del: of_nat_mult)
qed

theorem pools_fit_memory_witness: "2 * kSize + unat (getBytesUnReserved sample_sa sample_pm) = kSize * 3 \<and> getPoolByName ''default'' sample_pm = Inr 0"
  using pools_fit_memory [OF sample_pm_reachable sample_memory]
  by (simp add: sample_pm_def sample_pool_of_def getPoolNameById_def kSize_def kNumSlabBits_def)

text \<open>Two pools with three slabs and two, of which three are to be given back.\<close>

definition sample_pm2 :: MemoryPoolManager where
  "sample_pm2 = \<lparr>pm_pools = [sample_pool_of 0 3, sample_pool_of 1 2], poolsByName = [(''a'', 0), (''b'', 1)], nextPoolId = 2, numSlabsToAdvise = 3\<rparr>"

lemma sample_pm2_use: "in_use (sorted_list_of_set {0, 1}) sample_pm2 = [(0, 3), (1, 2)]"
  by (simp add: in_use_def sample_pm2_def sample_pool_of_def getCurrentUsedSize_def kSize_def kNumSlabBits_def)

theorem advise_meets_target_witness: "\<exists>r pm'. calcNumSlabsToAdviseReclaim {0, 1} sample_pm2 = Some (r, pm') \<and>
    (if par_advise r then advised_sum [0, 1] pm' + (\<Sum>(_, k) \<leftarrow> poolAdviseReclaimMap r. unat k) = 3
     else advised_sum [0, 1] pm' = 3 + (\<Sum>(_, k) \<leftarrow> poolAdviseReclaimMap r. unat k))"
proof -
  have s: "sorted_list_of_set {0, 1 :: int} = [0, 1]" by simp
  have l: "length (pm_pools sample_pm2) = 2" "unat (numSlabsToAdvise sample_pm2) = 3" "advised_sum [0, 1] sample_pm2 = 0"
    by (simp_all add: sample_pm2_def advised_sum_def sample_pool_of_def)
  show ?thesis using advise_meets_target [of "{0, 1}" sample_pm2, unfolded sample_pm2_use, unfolded s] l by fastforce
qed

end
