(* ===== verification/Spec2Isabelle.thy ===== *)
theory Spec2Isabelle
  imports Refcount MMLru ChainedHashTable BigHash PoolUse MemoryPoolManager
begin

text \<open>
  A verification of the core of CacheLib, \<^verbatim>\<open>src/cachebench-repo/cachelib\<close>. All paths below are relative
  to that directory.

  \<^bold>\<open>The program.\<close> CacheLib is a cache in two levels. In memory, \<^verbatim>\<open>allocator/memory\<close> cuts one mapping
  into slabs of 4 MiB. The slab allocator gives slabs to memory pools, a pool gives them to its
  allocation classes, and a class cuts a slab into chunks of one size; the memory pool manager
  shares the memory between the pools. A chunk holds an item, which carries a reference count
  (\<^verbatim>\<open>allocator/Refcount.h\<close>) and hooks. One hook puts it in the hash table that finds it by key
  (\<^verbatim>\<open>allocator/ChainedHashTable.h\<close>), the other in an eviction container (\<^verbatim>\<open>allocator/MMLru.h\<close>) on an intrusive
  list (\<^verbatim>\<open>allocator/datastruct\<close>). On flash, \<^verbatim>\<open>navy/bighash\<close> keeps small objects in buckets of one
  block each, with a Bloom filter per bucket (\<^verbatim>\<open>common/BloomFilter.h\<close>) in front of a device
  (\<^verbatim>\<open>navy/common/Device.cpp\<close>).

  \<^bold>\<open>Conventions.\<close> Objects live at addresses, which are natural numbers; a nullable pointer is an
  \<^typ>\<open>addr option\<close>. The members of nodes that intrusive structures link through form a split heap, one
  function from addresses per member, so that nodes are shared and aliasing is visible. A method
  takes the state and returns it updated; an exception is the left of a sum or \<^const>\<open>None\<close>, and so is a
  null dereference or a failed assertion. Integers are words where the code depends on their
  width (reference counts, hashes, pool counters, little-endian fields), and otherwise natural numbers with
  the conversion written out. A mutex makes its critical section one step; where an operation
  releases its lock and takes it again, the sections are separate steps of an inductive relation.
  Clocks, hash and checksum functions, floating point products, random choices, system
  calls, encryptors and callbacks are parameters.
\<close>

text \<open>
  \<^bold>\<open>Theories, in memory.\<close>

  \<^item> \<^verbatim>\<open>Prelude\<close>: machine types, collections of rewrite rules, lemmas on words and lists, and the locale
  \<^verbatim>\<open>simulation\<close>: a step function refines another through a representation relation, hence so does
  every admissible run. Lists, containers, hash table and flash cache are instances.

  \<^item> \<^verbatim>\<open>Refcount\<close> (\<^verbatim>\<open>allocator/Refcount.h\<close>): the 32 bit word of count, administrative bits and flags, and
  the compare-and-swap loop against arbitrary interference. Shown: the loop is linearizable, the
  count is the number of handles, the exclusive and moving states exclude handles and each other,
  overflow is thrown exactly at the limit.

  \<^item> \<^verbatim>\<open>DList\<close>, \<^verbatim>\<open>SList\<close> (\<^verbatim>\<open>allocator/datastruct\<close>): the pointer programs implement lists, for every sequence of
  calls; the iterators visit every node once.

  \<^item> \<^verbatim>\<open>MMContainer\<close>, \<^verbatim>\<open>MMLru\<close> (\<^verbatim>\<open>allocator/MMLru.h\<close>, \<^verbatim>\<open>allocator/MMLru-inl.h\<close>): the contract of an eviction container as
  a locale, and the LRU with its insertion point and tail flags as an interpretation. Shown: it
  implements a set, when an access promotes a node, the order of eviction.

  \<^item> \<^verbatim>\<open>ChainedHashTable\<close> (\<^verbatim>\<open>allocator/ChainedHashTable.h\<close>, \<^verbatim>\<open>allocator/ChainedHashTable-inl.h\<close>): buckets and chains,
  the container over a handle maker that may throw, iterators, the saved form. Shown: it implements a map,
  iteration is complete, a saved table restores. The handle maker is the locale \<^verbatim>\<open>hash_client\<close>, interpreted
  on the code's own \<^verbatim>\<open>acquire\<close>, which rests on \<^verbatim>\<open>Refcount\<close>.

  \<^item> \<^verbatim>\<open>SlabAllocator\<close> (\<^verbatim>\<open>allocator/memory/Slab.h\<close>, \<^verbatim>\<open>SlabAllocator.h\<close>, \<^verbatim>\<open>SlabAllocator.cpp\<close>,
  \<^verbatim>\<open>CompressedPtr.h\<close>): headers, slab lists, advising, compressed pointers, the saved form. Shown: every slab has one
  owner over every history, compression is injective and undone by decompression, restart.

  \<^item> \<^verbatim>\<open>AllocationClass\<close>, \<^verbatim>\<open>SlabRelease\<close>, \<^verbatim>\<open>ReleaseOps\<close> (\<^verbatim>\<open>allocator/memory/AllocationClass.h\<close>, \<^verbatim>\<open>AllocationClass.cpp\<close>): the
  critical sections of a class, their interleavings as a step relation with its invariant, and
  whole releases as single calls. Shown: chunks in use never overlap, statistics count them, a
  release completes once its chunks are freed, what an aborted release leaves behind.

  \<^item> \<^verbatim>\<open>MemoryPool\<close>, \<^verbatim>\<open>PoolSlabs\<close>, \<^verbatim>\<open>PoolUse\<close> (\<^verbatim>\<open>allocator/memory/MemoryPool.h\<close>, \<^verbatim>\<open>MemoryPool.cpp\<close>): the operations of
  a pool; the invariant that divides its slabs between the free list, the classes and the slabs in
  hand; that every operation keeps it, and the reachable states of a pool with its clients and
  releases, among the steps of other pools. Shown: safety of chunks across classes, accounting,
  the choice of the class, validity of the state, and where the accounting goes wrong.

  \<^item> \<^verbatim>\<open>MemoryPoolManager\<close> (\<^verbatim>\<open>allocator/memory/MemoryPoolManager.h\<close>, \<^verbatim>\<open>MemoryPoolManager.cpp\<close>): creation,
  resizing and advising of pools. Shown: the sizes add up to the memory, and the advice
  given to the pools meets the target.
\<close>

text \<open>
  \<^bold>\<open>Theories, on flash.\<close>

  \<^item> \<^verbatim>\<open>Bytes\<close>: buffers as lists of bytes, little-endian integers, copies and moves.

  \<^item> \<^verbatim>\<open>BucketStorage\<close>, \<^verbatim>\<open>Bucket\<close> (\<^verbatim>\<open>navy/bighash/BucketStorage.cpp\<close>, \<^verbatim>\<open>navy/bighash/Bucket.cpp\<close>): the packed entries of
  a bucket at byte level, with their abstraction to a list of entries. Shown: what an insertion
  expires and evicts, that updates and lookups agree, and what a random pick returns.

  \<^item> \<^verbatim>\<open>BloomFilter\<close> (\<^verbatim>\<open>common/BloomFilter.cpp\<close>): bits in one block of bytes, saving and restoring. The
  locale \<^verbatim>\<open>membership_filter\<close> carries the absence of false negatives to \<^verbatim>\<open>BigHash\<close>.

  \<^item> \<^verbatim>\<open>Device\<close> (\<^verbatim>\<open>navy/common/Device.cpp\<close>): pieces, encryption, the memory device and striping over files.
  The locales \<^verbatim>\<open>raw_io\<close> and \<^verbatim>\<open>block_device\<close> turn an implementation that reads back what it
  wrote into a device that does; the memory device is an interpretation.

  \<^item> \<^verbatim>\<open>BigHash\<close> (\<^verbatim>\<open>navy/bighash/BigHash.cpp\<close>): insert, lookup, remove, persist and recover, with all counters.
  Shown: refinement of bounded first-in first-out buckets on a working device, what still
  holds on any device, and restart.

  \<^bold>\<open>Loops and bounds.\<close> There is no fuel. Loops over numbers or shrinking ranges are recursive functions
  with a termination proof. Loops that follow links may not end on a cyclic heap, and are partial
  functions into an option: the walks of \<^verbatim>\<open>ChainedHashTable\<close> and \<^verbatim>\<open>SList\<close>. The refinement
  theorems state that they return. Rounds of waiting (\<^verbatim>\<open>completeSlabRelease\<close>, the pruning of free
  chunks) are steps of the relation in \<^verbatim>\<open>SlabRelease\<close>; \<^verbatim>\<open>ReleaseOps\<close> runs the steps of a release in sequence.

  \<^bold>\<open>Limits.\<close> \<^verbatim>\<open>MemoryPool\<close> runs each public operation as one step, although the code holds its lock only
  for parts of some; the interleavings inside a class are those of \<^verbatim>\<open>SlabRelease\<close>. Memory ordering is
  sequentially consistent. The refresh ratio of the LRU and the sizing of Bloom filters use
  floating point and are parameters.

  \<^bold>\<open>Not modelled.\<close> \<^verbatim>\<open>MemoryAllocator\<close>, which forwards to the pools, and \<^verbatim>\<open>CacheAllocator\<close> beyond
  \<^verbatim>\<open>acquire\<close>: they combine the parts above with threads and callbacks. The eviction containers 2Q
  and TinyLFU, the block cache and the compact cache. The workers and strategies that
  choose which slab to move, being heuristics on floating point statistics. Schedulers, asynchronous
  device contexts, shared memory segments and thrift encoding, being system or generated code; saved states
  are modelled as the records that are encoded, except that of the LRU. The benchmark driver and YCSB, which generate load.
\<close>

end
